(* ===== verification/Ctdb_Prelude.thy ===== *)
theory Ctdb_Prelude
  imports Main "HOL-Library.Word" "HOL-Library.Sublist"
begin

unbundle bit_operations_syntax

text \<open>
  Shared material of the development: the names of the machine integer types of the C code, the
  collections of simplification rules the component theories fill, and generic facts about folds
  and list updates.  A C loop that keeps the best candidate seen so far is a fold here, and its
  result is described once and for all by \<open>argmin_SomeD\<close>.
\<close>

section \<open>Machine integers\<close>

type_synonym u8 = "8 word"
type_synonym u16 = "16 word"
type_synonym u32 = "32 word"
type_synonym u64 = "64 word"

named_theorems addr_simps \<open>rewrite rules on socket addresses and their keys\<close>
named_theorems alloc_simps \<open>rewrite rules on lists of public addresses\<close>

section \<open>Flags\<close>

text \<open>The C test \<open>flags & mask\<close> used as a condition.\<close>

definition has_flag :: "u32 \<Rightarrow> u32 \<Rightarrow> bool" where
  "has_flag flags m \<longleftrightarrow> flags AND m \<noteq> 0"

lemma has_flag_or: "has_flag f (a OR b) \<longleftrightarrow> has_flag f a \<or> has_flag f b"
  by (simp add: has_flag_def bit.conj_disj_distrib or_eq_0_iff)

section \<open>List updates\<close>

lemma nth_update_if: "i < length xs \<Longrightarrow> xs[j := x] ! i = (if i = j then x else xs ! i)"
  by (simp add: nth_list_update)

lemma map_update_same: "f x = f (xs ! i) \<Longrightarrow> map f (xs[i := x]) = map f xs"
  by (metis list_update_id map_update)

lemma all_set_update:
  "\<forall>x \<in> set xs. P x \<Longrightarrow> P y \<Longrightarrow> \<forall>x \<in> set (xs[i := y]). P x"
  by (metis insert_iff set_update_subset_insert subsetD)

section \<open>Leading zeroes and common prefixes of words\<close>

text \<open>The bits of a word, most significant first, and the number of leading zeroes among them.\<close>

definition word_bits :: "u32 \<Rightarrow> bool list" where
  "word_bits x = map (bit x) (rev [0..<32])"

definition leading_zeroes :: "u32 \<Rightarrow> nat" where
  "leading_zeroes x = length (takeWhile Not (word_bits x))"

lemma word_bits_expand: "word_bits x = bit x 31 # map (bit x) (rev [0..<31])"
proof -
  have "[0..<32] = [0..<31] @ [31]" using upt_Suc_append [of 0 31] by simp
  then show ?thesis by (simp only: word_bits_def rev_append) simp
qed

lemma word_bits_shift: "map (bit x) (rev [0..<31]) @ [False] = word_bits (push_bit 1 x)"
proof (rule nth_equalityI)
  fix i assume "i < length (map (bit x) (rev [0..<31]) @ [False])"
  then have i: "i < 32" by simp
  have b: "bit (push_bit 1 x) n = (0 < n \<and> n < 32 \<and> bit x (n - 1))" for n
    unfolding bit_push_bit_iff possible_bit_word by auto
  show "(map (bit x) (rev [0..<31]) @ [False]) ! i = word_bits (push_bit 1 x) ! i"
    using i unfolding word_bits_def by (simp add: nth_append rev_nth b [unfolded One_nat_def] less_imp_diff_less del: push_bit_Suc)
qed (simp add: word_bits_def)

lemma word_bits_zero: "(\<forall>b \<in> set (word_bits x). \<not> b) \<longleftrightarrow> x = 0"
  by (auto simp: word_bits_def intro!: bit_word_eqI)

lemma takeWhile_snoc_False: "\<exists>b \<in> set xs. b \<Longrightarrow> takeWhile Not (xs @ [False]) = takeWhile Not xs"
  by (induction xs) auto

lemma leading_zeroes_shift: assumes "x \<noteq> 0" "\<not> bit x 31" shows "leading_zeroes x = Suc (leading_zeroes (push_bit 1 x))"
proof -
  have "\<exists>b \<in> set (map (bit x) (rev [0..<31])). b"
    using assms word_bits_zero [of x] by (auto simp: word_bits_expand)
  then have "takeWhile Not (word_bits (push_bit 1 x)) = takeWhile Not (map (bit x) (rev [0..<31]))"
    by (simp only: word_bits_shift [symmetric] takeWhile_snoc_False)
  with assms show ?thesis by (simp add: leading_zeroes_def word_bits_expand [of x])
qed

lemma takeWhile_Not_less: "b \<in> set xs \<Longrightarrow> b \<Longrightarrow> length (takeWhile Not xs) < length xs"
  by (induction xs) auto

lemma leading_zeroes_lt: "x \<noteq> 0 \<Longrightarrow> leading_zeroes x < 32"
proof -
  assume "x \<noteq> 0"
  then obtain b where "b \<in> set (word_bits x)" "b" using word_bits_zero by blast
  then have "length (takeWhile Not (word_bits x)) < length (word_bits x)"
    by (rule takeWhile_Not_less)
  then show ?thesis by (simp add: leading_zeroes_def word_bits_def)
qed

lemma top_bit_clear_iff:
  fixes x :: u32
  shows "x AND push_bit 31 1 = 0 \<longleftrightarrow> unat x < 2^31"
proof -
  have "x AND push_bit 31 1 = 0 \<longleftrightarrow> \<not> bit x 31"
    using and_exp_eq_0_iff_not_bit [of x 31] by simp
  also have "bit x 31 = bit (unat x) 31"
    by (simp add: bit_unsigned_iff)
  also have "\<dots> = odd (unat x div 2^31)" by (simp add: bit_iff_odd)
  also have "(\<not> \<dots>) = (unat x < 2^31)"
  proof -
    have "unat x < 2 ^ 32" using unsigned_less [of x] by simp
    then have "unat x div 2^31 < 2" by (intro less_mult_imp_div_less) simp
    then have "odd (unat x div 2^31) = (unat x div 2^31 \<noteq> 0)"
      by (auto simp: less_Suc_eq numeral_2_eq_2)
    then show ?thesis by (simp add: div_eq_0_iff)
  qed
  finally show ?thesis .
qed

lemma unat_shift1:
  fixes x :: u32
  assumes "unat x < 2 ^ 31"
  shows "unat (push_bit 1 x) = 2 * unat x"
proof -
  have "unat (push_bit 1 x) = (2 * unat x) mod 2^32"
    by (simp add: unsigned_push_bit_eq take_bit_eq_mod push_bit_eq_mult mult.commute unat_word_ariths)
  with assms show ?thesis by simp
qed

lemma xor_zero_iff: "a XOR b = 0 \<longleftrightarrow> a = b" for a b :: "'a::len word"
  by (auto simp: bit_eq_iff bit_xor_iff)

lemma unat_of_nat_small: "n < 2 ^ LENGTH('a) \<Longrightarrow> unat (of_nat n :: 'a::len word) = n"
  by (simp add: unsigned_of_nat take_bit_nat_eq_self)

lemma sint_small: "unat x < 2 ^ 31 \<Longrightarrow> sint x = int (unat x)" for x :: u32
proof -
  assume "unat x < 2 ^ 31"
  then have "uint x < 2 ^ 31" by (metis of_nat_less_numeral_power_cancel_iff uint_nat)
  then have "sint x = uint x" using order_trans [OF _ uint_ge_0 [of x], of "- 2147483648"] by (simp add: sint_uint signed_take_bit_int_eq_self_iff)
  then show ?thesis by simp
qed

lemma length_word_bits [simp]: "length (word_bits x) = 32"
  by (simp add: word_bits_def)

lemma length_common_prefix:
  "length (longest_common_prefix xs ys) = length (takeWhile Not (map2 (\<noteq>) xs ys))"
  by (induction xs ys rule: longest_common_prefix.induct) auto

lemma word_bits_xor: "word_bits (a XOR b) = map2 (\<noteq>) (word_bits a) (word_bits b)"
  by (rule nth_equalityI) (auto simp: word_bits_def bit_xor_iff)

lemma word_common_prefix:
  "length (longest_common_prefix (word_bits a) (word_bits b)) =
     (if a = b then 32 else leading_zeroes (a XOR b))"
proof (cases "a = b")
  case True
  have "longest_common_prefix xs xs = xs" for xs :: "bool list"
    by (induction xs) auto
  with True show ?thesis by simp
next
  case False
  then show ?thesis
    by (simp add: length_common_prefix leading_zeroes_def word_bits_xor)
qed

section \<open>Loops that keep the first best candidate\<close>

text \<open>
  The recurring C idiom
  \<^verbatim>\<open>best = -1; for (i...) { if (!ok(i)) continue; v = val(i);
     if (best == -1 || v < min) { best = i; min = v; } }\<close>
  as a fold over an optional pair of candidate and value.
\<close>

definition argmin_step ::
    "('a \<Rightarrow> bool) \<Rightarrow> ('a \<Rightarrow> 'b::linorder) \<Rightarrow> 'a \<Rightarrow> ('a \<times> 'b) option \<Rightarrow> ('a \<times> 'b) option" where
  "argmin_step ok val i best =
     (if \<not> ok i then best
      else case best of
             None \<Rightarrow> Some (i, val i)
           | Some (j, m) \<Rightarrow> if val i < m then Some (i, val i) else best)"

definition argmin :: "('a \<Rightarrow> bool) \<Rightarrow> ('a \<Rightarrow> 'b::linorder) \<Rightarrow> 'a list \<Rightarrow> ('a \<times> 'b) option" where
  "argmin ok val xs = fold (argmin_step ok val) xs None"

lemma argmin_snoc: "argmin ok val (xs @ [x]) = argmin_step ok val x (argmin ok val xs)"
  by (simp add: argmin_def)

lemma argmin_Nil [simp]: "argmin ok val [] = None"
  by (simp add: argmin_def)

lemma argmin_None_iff: "argmin ok val xs = None \<longleftrightarrow> (\<forall>x \<in> set xs. \<not> ok x)"
  by (induction xs rule: rev_induct)
    (auto simp: argmin_snoc argmin_step_def split: option.splits if_splits)

lemma argmin_SomeD:
  "argmin ok val xs = Some (i, m) \<Longrightarrow>
     i \<in> set xs \<and> ok i \<and> m = val i \<and> (\<forall>x \<in> set xs. ok x \<longrightarrow> m \<le> val x)"
proof (induction xs arbitrary: i m rule: rev_induct)
  case Nil
  then show ?case by simp
next
  case (snoc x xs)
  show ?case
  proof (cases "argmin ok val xs")
    case None
    then have "\<forall>y \<in> set xs. \<not> ok y" by (simp add: argmin_None_iff)
    with None snoc.prems show ?thesis
      by (auto simp: argmin_snoc argmin_step_def split: if_splits)
  next
    case (Some p)
    obtain j k where p: "p = (j, k)" by (cases p)
    with Some have best: "argmin ok val xs = Some (j, k)" by simp
    then have "j \<in> set xs" "ok j" "k = val j" "\<forall>y \<in> set xs. ok y \<longrightarrow> val j \<le> val y"
      using snoc.IH [of j k] by auto
    with best snoc.prems show ?thesis
      by (fastforce simp: argmin_snoc argmin_step_def split: if_splits)
  qed
qed

section \<open>Numbers in memory\<close>

text \<open>The bytes of a 32-bit number in memory on a little-endian host, and back.\<close>

definition bytes_of_u32 :: "u32 \<Rightarrow> u8 list" where
  "bytes_of_u32 w = [ucast w, ucast (drop_bit 8 w), ucast (drop_bit 16 w), ucast (drop_bit 24 w)]"

fun u32_of_bytes :: "u8 list \<Rightarrow> u32" where
  "u32_of_bytes [] = 0"
| "u32_of_bytes (b # bs) = ucast b OR push_bit 8 (u32_of_bytes bs)"

lemma length_bytes_of_u32 [simp]: "length (bytes_of_u32 w) = 4"
  by (simp add: bytes_of_u32_def)

lemma u32_of_bytes_of_u32 [simp]: "u32_of_bytes (bytes_of_u32 w) = w"
proof (rule bit_word_eqI)
  fix n assume n: "n < LENGTH(32)"
  consider "n < 8" | "8 \<le> n" "n < 16" | "16 \<le> n" "n < 24" | "24 \<le> n" by linarith
  then show "bit (u32_of_bytes (bytes_of_u32 w)) n = bit w n"
    using n by cases
      (auto simp: bytes_of_u32_def bit_or_iff bit_push_bit_iff bit_unsigned_iff bit_drop_bit_eq)
qed

end
