(* ===== verification/Sock_Addr.thy ===== *)
theory Sock_Addr
  imports Ctdb_Prelude
begin

text \<open>
  Socket addresses (\<^verbatim>\<open>ctdb_sock_addr\<close>, the union of the socket address structures) and the
  functions of \<^verbatim>\<open>common/ctdb_util.c\<close> and \<^verbatim>\<open>server/ctdb_takeover.c\<close> that compare them and turn
  them into keys.  An address word is held as the number its four bytes spell in network order,
  which is what \<^verbatim>\<open>htonl\<close> of the field gives on a host of either byte order.
\<close>

datatype ctdb_sock_addr =
    Inet (inet_port: u16) (s_addr: u32)
  | Inet6 (inet6_port: u16) (s6_a32_0: u32) (s6_a32_1: u32) (s6_a32_2: u32) (s6_a32_3: u32)
  | Other_family (sa_family: u16) (other_port: u16)

text \<open>All members of the union keep the port at the same offset, where \<^verbatim>\<open>ip.sin_port\<close> reads it.\<close>

fun sin_port :: "ctdb_sock_addr \<Rightarrow> u16" where
  "sin_port (Inet p _) = p"
| "sin_port (Inet6 p _ _ _ _) = p"
| "sin_port (Other_family _ p) = p"

fun ctdb_canonicalize_ip :: "ctdb_sock_addr \<Rightarrow> ctdb_sock_addr" where
  "ctdb_canonicalize_ip (Inet6 p a b c d) =
     (if a = 0 \<and> b = 0 \<and> c = 0xffff then Inet p d else Inet6 p a b c d)"
| "ctdb_canonicalize_ip ip = ip"

definition ctdb_same_ip :: "ctdb_sock_addr \<Rightarrow> ctdb_sock_addr \<Rightarrow> bool" where
  "ctdb_same_ip tip1 tip2 =
     (case (ctdb_canonicalize_ip tip1, ctdb_canonicalize_ip tip2) of
        (Inet _ x, Inet _ y) \<Rightarrow> x = y
      | (Inet6 _ a b c d, Inet6 _ a' b' c' d') \<Rightarrow> a = a' \<and> b = b' \<and> c = c' \<and> d = d'
      | _ \<Rightarrow> False)"

definition ctdb_same_sockaddr :: "ctdb_sock_addr \<Rightarrow> ctdb_sock_addr \<Rightarrow> bool" where
  "ctdb_same_sockaddr ip1 ip2 \<longleftrightarrow> ctdb_same_ip ip1 ip2 \<and> sin_port ip1 = sin_port ip2"

text \<open>The key of an address: four words, an IPv4 address in the last one.\<close>

fun ip_key :: "ctdb_sock_addr \<Rightarrow> u32 list" where
  "ip_key (Inet _ x) = [0, 0, 0, x]"
| "ip_key (Inet6 _ a b c d) = [a, b, c, d]"
| "ip_key (Other_family _ _) = [0, 0, 0, 0]"

text \<open>A family the code knows, and an address that is its own canonical form.\<close>

fun known_family :: "ctdb_sock_addr \<Rightarrow> bool" where
  "known_family (Other_family _ _) = False"
| "known_family _ = True"

definition same_family :: "ctdb_sock_addr \<Rightarrow> ctdb_sock_addr \<Rightarrow> bool" where
  "same_family a b \<longleftrightarrow> is_Inet a = is_Inet b \<and> is_Inet6 a = is_Inet6 b"

lemma length_ip_key [simp, addr_simps]: "length (ip_key a) = 4"
  by (cases a) auto

lemma canonicalize_idem [simp, addr_simps]:
  "ctdb_canonicalize_ip (ctdb_canonicalize_ip a) = ctdb_canonicalize_ip a"
  by (cases a) auto

lemma same_ip_sym: "ctdb_same_ip a b = ctdb_same_ip b a"
  by (auto simp: ctdb_same_ip_def split: ctdb_sock_addr.splits)

lemma same_ip_trans: "ctdb_same_ip a b \<Longrightarrow> ctdb_same_ip b c \<Longrightarrow> ctdb_same_ip a c"
  by (auto simp: ctdb_same_ip_def split: ctdb_sock_addr.splits)

lemma canonicalize_known: "known_family (ctdb_canonicalize_ip a) = known_family a"
  by (cases a) auto

lemma same_ip_refl_iff: "ctdb_same_ip a a = known_family a"
  by (subst canonicalize_known [symmetric])
    (auto simp: ctdb_same_ip_def split: ctdb_sock_addr.splits)

lemma same_ip_iff_key:
  assumes "known_family a" "ctdb_canonicalize_ip a = a" "ctdb_canonicalize_ip b = b"
  shows "ctdb_same_ip a b \<longleftrightarrow> same_family a b \<and> ip_key a = ip_key b"
  using assms by (cases a; cases b) (auto simp: ctdb_same_ip_def same_family_def split: if_splits)

end
