(* ===== verification/Public_Ips.thy ===== *)
theory Public_Ips
  imports Sock_Addr
begin

text \<open>
  The data of the IP allocation in \<^verbatim>\<open>server/ctdb_takeover.c\<close>: the nodes with the public addresses
  they report, the per-node flags, the merged list of public addresses, and the LCP2 distance and
  imbalance metrics over it.

  The \<^verbatim>\<open>pnn\<close> fields hold a node number or \<^verbatim>\<open>(uint32_t)-1\<close> and are compared with \<^verbatim>\<open>int\<close>
  variables; they are integers here, with \<open>-1\<close> for an unassigned address.  The linked list
  \<^verbatim>\<open>struct ctdb_public_ip_list\<close> is a list, and a pointer to one of its elements is a position.
  The metrics are \<^verbatim>\<open>uint32_t\<close> and wrap around as in the code.
\<close>

section \<open>Nodes, flags and public addresses\<close>

record ctdb_public_ip =
  pub_pnn :: int
  pub_addr :: ctdb_sock_addr

record ctdb_node =
  node_pnn :: int
  node_flags :: u32
  known_public_ips :: "ctdb_public_ip list option"
  available_public_ips :: "ctdb_public_ip list option"

record ctdb_tunable =
  deterministic_public_ips :: u32
  no_ip_failback :: u32
  disable_ip_failover :: u32
  lcp2_public_ip_assignment :: u32

record ctdb_context =
  nodes :: "ctdb_node list"
  tunable :: ctdb_tunable

record ctdb_ipflags =
  noiptakeover :: bool
  noiphost :: bool

record ctdb_public_ip_list =
  ip_pnn :: int
  ip_addr :: ctdb_sock_addr

type_synonym ip_list = "ctdb_public_ip_list list"

text \<open>The assignment \<^verbatim>\<open>ip->pnn = pnn\<close> through a pointer to the element at a position.\<close>

definition set_ip_pnn :: "ip_list \<Rightarrow> nat \<Rightarrow> int \<Rightarrow> ip_list" where
  "set_ip_pnn ips k pnn = ips[k := (ips ! k)\<lparr>ip_pnn := pnn\<rparr>]"

section \<open>Which node can serve which address\<close>

fun node_ip_coverage :: "int \<Rightarrow> ip_list \<Rightarrow> int" where
  "node_ip_coverage pnn [] = 0"
| "node_ip_coverage pnn (ip # ips) =
     (if ip_pnn ip = pnn then 1 else 0) + node_ip_coverage pnn ips"

definition can_node_host_ip ::
    "ctdb_context \<Rightarrow> int \<Rightarrow> ctdb_ipflags \<Rightarrow> ctdb_public_ip_list \<Rightarrow> bool" where
  "can_node_host_ip ctdb pnn ipflags ip =
     (if noiphost ipflags then False
      else case available_public_ips (nodes ctdb ! nat pnn) of
             None \<Rightarrow> False
           | Some public_ips \<Rightarrow>
               list_ex (\<lambda>p. ctdb_same_ip (ip_addr ip) (pub_addr p)) public_ips)"

definition can_node_takeover_ip ::
    "ctdb_context \<Rightarrow> int \<Rightarrow> ctdb_ipflags \<Rightarrow> ctdb_public_ip_list \<Rightarrow> bool" where
  "can_node_takeover_ip ctdb pnn ipflags ip =
     (if noiptakeover ipflags then False else can_node_host_ip ctdb pnn ipflags ip)"

section \<open>Distance and imbalance\<close>

text \<open>
  The loop that counts leading zeroes.  In the code it runs with \<open>x \<noteq> 0\<close> only; the first test
  makes the function total where the C loop would not end.
\<close>

function leading_zeroes_loop :: "u32 \<Rightarrow> u32 \<Rightarrow> u32" where
  "leading_zeroes_loop x distance =
     (if x = 0 then distance
      else if x AND push_bit 31 1 = 0 then leading_zeroes_loop (push_bit 1 x) (distance + 1)
      else distance)"
  by pat_completeness auto
termination
proof (relation "measure (\<lambda>(x, d). 2 ^ 32 - unat x)")
  fix x d :: u32
  assume "x \<noteq> 0" and "x AND push_bit 31 1 = 0"
  then have x: "0 < unat x" "unat x < 2 ^ 31"
    using top_bit_clear_iff [of x] by (blast intro: unat_gt_0 [THEN iffD2])+
  then show "((push_bit 1 x, d + 1), (x, d)) \<in> measure (\<lambda>(x, d). 2 ^ 32 - unat x)"
    using unat_shift1 [of x] by simp
qed simp

declare leading_zeroes_loop.simps [simp del]

fun ip_distance_words :: "u32 list \<Rightarrow> u32 list \<Rightarrow> u32 \<Rightarrow> u32" where
  "ip_distance_words (a # as) (b # bs) distance =
     (let x = a XOR b
      in ip_distance_words as bs
           (if x = 0 then distance + 32 else leading_zeroes_loop x distance))"
| "ip_distance_words _ _ distance = distance"

definition ip_distance :: "ctdb_sock_addr \<Rightarrow> ctdb_sock_addr \<Rightarrow> u32" where
  "ip_distance ip1 ip2 = ip_distance_words (ip_key ip1) (ip_key ip2) 0"

text \<open>
  The sum over the addresses of a node.  The code skips the element whose address is the one
  passed in, by comparing pointers: \<open>self\<close> is its position in the list, if it is in the list.
\<close>

fun ip_distance_2_sum :: "ctdb_sock_addr \<Rightarrow> nat option \<Rightarrow> ip_list \<Rightarrow> int \<Rightarrow> u32" where
  "ip_distance_2_sum ip self [] pnn = 0"
| "ip_distance_2_sum ip self (t # ts) pnn =
     (let rest = ip_distance_2_sum ip
                   (case self of None \<Rightarrow> None | Some 0 \<Rightarrow> None | Some (Suc n) \<Rightarrow> Some n) ts pnn
      in if ip_pnn t \<noteq> pnn then rest
         else if self = Some 0 then rest
         else let d = ip_distance ip (ip_addr t) in d * d + rest)"

fun lcp2_imbalance :: "ip_list \<Rightarrow> int \<Rightarrow> u32" where
  "lcp2_imbalance [] pnn = 0"
| "lcp2_imbalance (t # ts) pnn =
     (if ip_pnn t \<noteq> pnn then lcp2_imbalance ts pnn
      else ip_distance_2_sum (ip_addr t) None ts pnn + lcp2_imbalance ts pnn)"

section \<open>The distance is a common prefix length\<close>

text \<open>The 128 bits of the key of an address, most significant first.\<close>

definition addr_bits :: "ctdb_sock_addr \<Rightarrow> bool list" where
  "addr_bits a = concat (map word_bits (ip_key a))"

definition common_prefix :: "bool list \<Rightarrow> bool list \<Rightarrow> nat" where
  "common_prefix xs ys = length (longest_common_prefix xs ys)"

lemma leading_zeroes_loop_eq: "x \<noteq> 0 \<Longrightarrow> leading_zeroes_loop x d = d + of_nat (leading_zeroes x)"
proof (induction x d rule: leading_zeroes_loop.induct)
  case (1 x d)
  show ?case
  proof (cases "x AND push_bit 31 1 = 0")
    case True
    then have "\<not> bit x 31" using and_exp_eq_0_iff_not_bit [of x 31] by simp
    have small: "unat x < 2^31" using True by (simp only: top_bit_clear_iff)
    have nz: "push_bit 1 x \<noteq> 0"
    proof
      assume "push_bit 1 x = 0"
      with unat_shift1 [OF small] have "unat x = 0" by simp
      with "1.prems" show False by (simp add: unat_eq_zero)
    qed
    from "1.IH" [OF "1.prems" True nz] "1.prems" True have "leading_zeroes_loop x d = d + 1 + of_nat (leading_zeroes (push_bit 1 x))"
      unfolding leading_zeroes_loop.simps [of x d] by simp
    then show ?thesis using leading_zeroes_shift [OF "1.prems" \<open>\<not> bit x 31\<close>] by simp
  next
    case False
    then have "bit x 31" using and_exp_eq_0_iff_not_bit [of x 31] by simp
    with False "1.prems" show ?thesis
      unfolding leading_zeroes_loop.simps [of x d] leading_zeroes_def word_bits_expand by simp
  qed
qed

lemma common_prefix_le: "common_prefix xs ys \<le> length xs"
  unfolding common_prefix_def by (induction xs ys rule: longest_common_prefix.induct) auto

lemma common_prefix_sym: "common_prefix xs ys = common_prefix ys xs"
  unfolding common_prefix_def by (induction xs ys rule: longest_common_prefix.induct) auto

lemma common_prefix_same_append:
  "common_prefix (xs @ ys) (xs @ zs) = length xs + common_prefix ys zs"
  unfolding common_prefix_def by (induction xs) auto

lemma ip_distance_words_eq:
  "length as = length bs \<Longrightarrow>
     ip_distance_words as bs d =
       d + of_nat (sum_list (map2 (\<lambda>a b. common_prefix (word_bits a) (word_bits b)) as bs))"
proof (induction as bs arbitrary: d rule: list_induct2)
  case (Cons a as b bs)
  have "(if a XOR b = 0 then d + 32 else leading_zeroes_loop (a XOR b) d) =
          d + of_nat (common_prefix (word_bits a) (word_bits b))"
    using leading_zeroes_loop_eq [of "a XOR b" d]
    by (auto simp: common_prefix_def word_common_prefix xor_zero_iff)
  with Cons.IH show ?case by (simp add: Let_def add.assoc)
qed simp

lemma sum_list_bounded: "(\<And>x. x \<in> set xs \<Longrightarrow> f x \<le> (c::nat)) \<Longrightarrow> sum_list (map f xs) \<le> c * length xs"
  by (induction xs) (auto simp: add_mono)

lemma unat_ip_distance:
  "unat (ip_distance a b) =
     sum_list (map2 (\<lambda>x y. common_prefix (word_bits x) (word_bits y)) (ip_key a) (ip_key b))"
  "unat (ip_distance a b) \<le> 128"
proof -
  let ?f = "\<lambda>(x, y). common_prefix (word_bits x) (word_bits y)"
  have "?f p \<le> 32" for p
    using common_prefix_le [of "word_bits (fst p)" "word_bits (snd p)"] by (cases p) simp
  then have le: "sum_list (map ?f (zip (ip_key a) (ip_key b))) \<le> 32 * 4"
    using sum_list_bounded [of "zip (ip_key a) (ip_key b)" ?f 32] by simp
  have "ip_distance a b = of_nat (sum_list (map ?f (zip (ip_key a) (ip_key b))))"
    by (simp add: ip_distance_def ip_distance_words_eq)
  then have "unat (ip_distance a b) = sum_list (map ?f (zip (ip_key a) (ip_key b)))"
    using le by (simp add: unat_of_nat_small)
  with le show "unat (ip_distance a b) = sum_list (map ?f (zip (ip_key a) (ip_key b)))"
    "unat (ip_distance a b) \<le> 128" by simp_all
qed

lemma ip_distance_sym: "ip_distance a b = ip_distance b a"
proof -
  have "map2 (\<lambda>x y. common_prefix (word_bits x) (word_bits y)) as bs =
          map2 (\<lambda>x y. common_prefix (word_bits x) (word_bits y)) bs as" for as bs
    by (induction as bs rule: list_induct2') (auto simp: common_prefix_sym)
  then have "unat (ip_distance a b) = unat (ip_distance b a)"
    unfolding unat_ip_distance(1) by metis
  then show ?thesis by (simp add: word_unat_eq_iff)
qed

section \<open>Assigning one address\<close>

lemma set_ip_pnn_simps [simp, alloc_simps]:
  "length (set_ip_pnn ips k n) = length ips"
  "map ip_addr (set_ip_pnn ips k n) = map ip_addr ips"
  "k < length ips \<Longrightarrow>
     set_ip_pnn ips k n ! j = (if j = k then (ips ! k)\<lparr>ip_pnn := n\<rparr> else ips ! j)"
  by (auto simp: set_ip_pnn_def map_update_same)

lemma set_ip_pnn_Cons [simp]:
  "set_ip_pnn (t # ts) 0 n = t\<lparr>ip_pnn := n\<rparr> # ts"
  "set_ip_pnn (t # ts) (Suc k) n = t # set_ip_pnn ts k n"
  by (simp_all add: set_ip_pnn_def)

lemma ip_addr_set_ip_pnn [simp]: "ip_addr (set_ip_pnn ips k n ! j) = ip_addr (ips ! j)"
  by (cases "k < length ips") (auto simp: set_ip_pnn_def nth_list_update list_update_beyond)

text \<open>Only the address of a list element matters for where it can be hosted.\<close>

lemma can_node_host_ip_pnn [simp]:
  "can_node_host_ip ctdb i fl (ip\<lparr>ip_pnn := n\<rparr>) = can_node_host_ip ctdb i fl ip"
  by (simp add: can_node_host_ip_def split: option.splits)

lemma can_node_takeover_ip_pnn [simp]:
  "can_node_takeover_ip ctdb i fl (ip\<lparr>ip_pnn := n\<rparr>) = can_node_takeover_ip ctdb i fl ip"
  by (simp add: can_node_takeover_ip_def)

lemma can_node_takeover_ip_addr:
  "ip_addr ip = ip_addr ip' \<Longrightarrow> can_node_takeover_ip ctdb i fl ip = can_node_takeover_ip ctdb i fl ip'"
  by (simp add: can_node_takeover_ip_def can_node_host_ip_def split: option.splits)

lemma takeover_host: "can_node_takeover_ip ctdb i fl ip \<Longrightarrow> can_node_host_ip ctdb i fl ip"
  by (simp add: can_node_takeover_ip_def split: if_splits)

lemma coverage_set_ip_pnn:
  "k < length ips \<Longrightarrow>
     node_ip_coverage m (set_ip_pnn ips k n) =
       node_ip_coverage m ips - (if ip_pnn (ips ! k) = m then 1 else 0) + (if n = m then 1 else 0)"
  by (induction ips arbitrary: k) (auto simp: less_Suc_eq_0_disj)

lemma coverage_nonneg: "0 \<le> node_ip_coverage m ips"
  by (induction ips) auto

section \<open>How one assignment changes the metrics\<close>

text \<open>
  The sums of the code over an arbitrary weight of a pair of addresses.  The code's own metrics are
  the instance with squared distances in 32 bits; the same sums in the natural numbers bound them.
\<close>

fun weight_sum ::
    "(ctdb_sock_addr \<Rightarrow> ctdb_sock_addr \<Rightarrow> 'a::comm_monoid_add) \<Rightarrow> ctdb_sock_addr \<Rightarrow> nat option \<Rightarrow> ip_list \<Rightarrow> int \<Rightarrow> 'a" where
  "weight_sum w ip self [] pnn = 0"
| "weight_sum w ip self (t # ts) pnn =
     (if ip_pnn t = pnn \<and> self \<noteq> Some 0 then w ip (ip_addr t) else 0) +
     weight_sum w ip (case self of None \<Rightarrow> None | Some 0 \<Rightarrow> None | Some (Suc n) \<Rightarrow> Some n) ts pnn"

fun weight_imbalance ::
    "(ctdb_sock_addr \<Rightarrow> ctdb_sock_addr \<Rightarrow> 'a::comm_monoid_add) \<Rightarrow> ip_list \<Rightarrow> int \<Rightarrow> 'a" where
  "weight_imbalance w [] pnn = 0"
| "weight_imbalance w (t # ts) pnn =
     (if ip_pnn t = pnn then weight_sum w (ip_addr t) None ts pnn else 0) + weight_imbalance w ts pnn"

definition dist2 :: "ctdb_sock_addr \<Rightarrow> ctdb_sock_addr \<Rightarrow> u32" where
  "dist2 a b = ip_distance a b * ip_distance a b"

definition dist2_nat :: "ctdb_sock_addr \<Rightarrow> ctdb_sock_addr \<Rightarrow> nat" where
  "dist2_nat a b = unat (ip_distance a b) * unat (ip_distance a b)"

lemma ip_distance_2_sum_weight: "ip_distance_2_sum ip self ips pnn = weight_sum dist2 ip self ips pnn"
  by (induction ips arbitrary: self) (auto simp: Let_def dist2_def)

lemma lcp2_imbalance_weight: "lcp2_imbalance ips pnn = weight_imbalance dist2 ips pnn"
  by (induction ips) (auto simp: ip_distance_2_sum_weight)

locale symmetric_weight =
  fixes w :: "ctdb_sock_addr \<Rightarrow> ctdb_sock_addr \<Rightarrow> 'a::comm_monoid_add"
  assumes weight_sym: "w a b = w b a"
begin

lemma sum_set:
  "k < length ips \<Longrightarrow> ip_pnn (ips ! k) \<noteq> n \<Longrightarrow>
     weight_sum w a None (set_ip_pnn ips k n) n = weight_sum w a None ips n + w a (ip_addr (ips ! k))"
  by (induction ips arbitrary: k) (auto simp: less_Suc_eq_0_disj ac_simps)

lemma sum_set_other:
  "k < length ips \<Longrightarrow> ip_pnn (ips ! k) \<noteq> m \<Longrightarrow> n \<noteq> m \<Longrightarrow>
     weight_sum w a s (set_ip_pnn ips k n) m = weight_sum w a s ips m"
  by (induction ips arbitrary: k s) (auto simp: less_Suc_eq_0_disj)

lemma sum_self:
  "k < length ips \<Longrightarrow> weight_sum w a (Some k) (set_ip_pnn ips k n) m = weight_sum w a (Some k) ips m"
  by (induction ips arbitrary: k) (auto simp: less_Suc_eq_0_disj)

lemma imbalance_set_other:
  "k < length ips \<Longrightarrow> ip_pnn (ips ! k) \<noteq> m \<Longrightarrow> n \<noteq> m \<Longrightarrow>
     weight_imbalance w (set_ip_pnn ips k n) m = weight_imbalance w ips m"
  by (induction ips arbitrary: k) (auto simp: less_Suc_eq_0_disj sum_set_other)

text \<open>An address added to a node adds the sum of its weights with the node's addresses.\<close>

lemma imbalance_add:
  "k < length ips \<Longrightarrow> ip_pnn (ips ! k) \<noteq> n \<Longrightarrow>
     weight_imbalance w (set_ip_pnn ips k n) n =
       weight_imbalance w ips n + weight_sum w (ip_addr (ips ! k)) (Some k) ips n"
proof (induction ips arbitrary: k)
  case (Cons t ts)
  show ?case
  proof (cases k)
    case 0
    with Cons.prems show ?thesis by (simp add: ac_simps)
  next
    case (Suc j)
    with Cons show ?thesis
      by (simp add: sum_set weight_sym [of "ip_addr t"] ac_simps)
  qed
qed simp

lemma imbalance_remove:
  assumes k: "k < length ips" and "ip_pnn (ips ! k) = m" "n \<noteq> m"
  shows "weight_imbalance w ips m =
           weight_imbalance w (set_ip_pnn ips k n) m + weight_sum w (ip_addr (ips ! k)) (Some k) ips m"
proof -
  let ?ips = "set_ip_pnn ips k n"
  have "set_ip_pnn ?ips k m = ips"
    using assms by (simp add: set_ip_pnn_def list_update_same_conv)
  moreover have "ip_pnn (?ips ! k) \<noteq> m" using assms by simp
  ultimately show ?thesis using imbalance_add [of k ?ips m] k by (simp add: sum_self)
qed

text \<open>Moving an address changes the total by what it costs at both ends.\<close>

lemma total_move:
  assumes k: "k < length ips" and pnns: "ip_pnn (ips ! k) = int a" "a \<noteq> b" "a < n" "b < n"
  shows "(\<Sum>i < n. weight_imbalance w (set_ip_pnn ips k (int b)) (int i)) +
           weight_sum w (ip_addr (ips ! k)) (Some k) ips (int a) =
         (\<Sum>i < n. weight_imbalance w ips (int i)) + weight_sum w (ip_addr (ips ! k)) (Some k) ips (int b)"
proof -
  have S: "{..<n} = insert a (insert b ({..<n} - {a, b}))" using pnns by auto
  have split: "(\<Sum>i < n. f i) = f a + (f b + (\<Sum>i \<in> {..<n} - {a, b}. f i))" for f :: "nat \<Rightarrow> 'a"
    using pnns by (subst S) (subst sum.insert, simp, simp, subst sum.insert, simp_all)
  have rest: "(\<Sum>i \<in> {..<n} - {a, b}. weight_imbalance w (set_ip_pnn ips k (int b)) (int i)) =
      (\<Sum>i \<in> {..<n} - {a, b}. weight_imbalance w ips (int i))"
    using k pnns by (intro sum.cong) (auto simp: imbalance_set_other)
  show ?thesis
    unfolding split rest using imbalance_add [of k ips "int b"] imbalance_remove [of k ips "int a" "int b"] k pnns
    by (simp add: ac_simps)
qed

end

interpretation d2: symmetric_weight dist2
  by unfold_locales (simp add: dist2_def ip_distance_sym)

interpretation d2n: symmetric_weight dist2_nat
  by unfold_locales (simp add: dist2_nat_def ip_distance_sym)

section \<open>Below \<open>2 ^ 18\<close> addresses the sums do not wrap\<close>

lemma dist2_nat_le: "dist2_nat a b \<le> 2 ^ 14"
  using mult_le_mono [OF unat_ip_distance(2) unat_ip_distance(2), of a b a b] by (simp add: dist2_nat_def)

lemma weight_sum_of_nat: "weight_sum dist2 a s ips m = of_nat (weight_sum dist2_nat a s ips m)"
  by (induction ips arbitrary: s) (auto simp: dist2_def dist2_nat_def)

lemma weight_sum_nat_le: "weight_sum dist2_nat a s ips m \<le> 2 ^ 14 * length ips"
proof (induction ips arbitrary: s)
  case (Cons t ts)
  show ?case
    using Cons.IH [of "case s of None \<Rightarrow> None | Some 0 \<Rightarrow> None | Some (Suc n) \<Rightarrow> Some n"]
      dist2_nat_le [of a "ip_addr t"] by simp
qed simp

lemma unat_ip_distance_2_sum:
  assumes "length ips < 2 ^ 18"
  shows "unat (ip_distance_2_sum a s ips m) = weight_sum dist2_nat a s ips m"
proof -
  have "weight_sum dist2_nat a s ips m < 2 ^ LENGTH(32)"
    using weight_sum_nat_le [of a s ips m] assms by simp
  then show ?thesis
    by (simp only: ip_distance_2_sum_weight weight_sum_of_nat unat_of_nat_small)
qed

section \<open>A small cluster for examples\<close>

text \<open>
  Two nodes that both know the addresses 32.0.0.1, 64.0.0.1, 96.0.0.1 and 128.0.0.1.  At first node 0 serves three of
  them and the first one is not served.
\<close>

definition ex_addr :: "u32 \<Rightarrow> ctdb_sock_addr" where
  "ex_addr n = Inet 0 (n * 0x20000000 + 1)"

definition ex_node :: "int \<Rightarrow> ctdb_node" where
  "ex_node n = (let ips = map (\<lambda>i. \<lparr>pub_pnn = n, pub_addr = ex_addr i\<rparr>) [1, 2, 3, 4]
     in \<lparr>node_pnn = n, node_flags = 0, known_public_ips = Some ips, available_public_ips = Some ips\<rparr>)"

definition ex_ctdb :: ctdb_context where
  "ex_ctdb = \<lparr>nodes = [ex_node 0, ex_node 1],
     tunable = \<lparr>deterministic_public_ips = 0, no_ip_failback = 0, disable_ip_failover = 0,
       lcp2_public_ip_assignment = 1\<rparr>\<rparr>"

definition ex_ctdb_sticky :: ctdb_context where
  "ex_ctdb_sticky = ex_ctdb\<lparr>tunable := (tunable ex_ctdb)\<lparr>no_ip_failback := 1\<rparr>\<rparr>"

definition ex_ipflags :: "ctdb_ipflags list" where
  "ex_ipflags = replicate 2 \<lparr>noiptakeover = False, noiphost = False\<rparr>"

definition ex_ips :: ip_list where
  "ex_ips = map2 (\<lambda>n i. \<lparr>ip_pnn = n, ip_addr = ex_addr i\<rparr>) [-1, 0, 0, 0] [1, 2, 3, 4]"

section \<open>Properties\<close>

lemma common_prefix_same: "common_prefix xs xs = length xs"
  using common_prefix_same_append [of xs "[]" "[]"] by (simp add: common_prefix_def)

text \<open>
  C32: the distance of two addresses whose keys agree on the first three words, as those of any two
  IPv4 addresses do, is the length of the longest common prefix of their 128 bits.
\<close>

theorem ip_distance_common_prefix:
  assumes "take 3 (ip_key a) = take 3 (ip_key b)"
  shows "unat (ip_distance a b) = common_prefix (addr_bits a) (addr_bits b)"
proof -
  obtain x0 x1 x2 x3 where a: "ip_key a = [x0, x1, x2, x3]" by (cases a) auto
  obtain y0 y1 y2 y3 where b: "ip_key b = [y0, y1, y2, y3]" by (cases b) auto
  have same: "y0 = x0" "y1 = x1" "y2 = x2" using assms by (simp_all add: a b)
  let ?p = "word_bits x0 @ word_bits x1 @ word_bits x2"
  have "common_prefix (addr_bits a) (addr_bits b) = common_prefix (?p @ word_bits x3) (?p @ word_bits y3)"
    by (simp add: addr_bits_def a b same)
  also have "\<dots> = 96 + common_prefix (word_bits x3) (word_bits y3)"
    unfolding common_prefix_same_append by simp
  finally show ?thesis by (simp add: unat_ip_distance(1) a b same common_prefix_same)
qed

theorem ip_distance_common_prefix_witness:
  "unat (ip_distance (ex_addr 1) (ex_addr 3)) = common_prefix (addr_bits (ex_addr 1)) (addr_bits (ex_addr 3))"
  by (rule ip_distance_common_prefix) code_simp


text \<open>
  C34: the keys by which addresses are merged do not agree with the equality of addresses: a
  mapped IPv4 address in IPv6 form equals the IPv4 address but has another key, so both can stand in
  the merged list, and an IPv6 address can have the key of an IPv4 address it is not equal to.
\<close>

theorem ip_key_not_same_ip:
  "ctdb_same_ip (Inet p x) (Inet6 q 0 0 0xffff x) \<and> ip_key (Inet p x) \<noteq> ip_key (Inet6 q 0 0 0xffff x) \<and>
   \<not> ctdb_same_ip (Inet p x) (Inet6 q 0 0 0 x) \<and> ip_key (Inet p x) = ip_key (Inet6 q 0 0 0 x)"
  by (simp add: ctdb_same_ip_def)

end
