(* ===== verification/Ip_Alloc_Basic.thy ===== *)
theory Ip_Alloc_Basic
  imports Public_Ips
begin

text \<open>
  The deterministic and the non-deterministic allocation of \<^verbatim>\<open>server/ctdb_takeover.c\<close>: the search
  for a takeover node, the assignment of unassigned addresses, the rebalancing loop with its retry
  bound, and the contract every allocation routine keeps (locale \<open>ip_allocator\<close>).
  \<^verbatim>\<open>talloc_array_length(ipflags)\<close> is the length of the flag list.
\<close>

section \<open>The operations\<close>

text \<open>The result is the updated list and the return code of the C function.\<close>

definition find_takeover_node ::
    "ctdb_context \<Rightarrow> ctdb_ipflags list \<Rightarrow> nat \<Rightarrow> ip_list \<Rightarrow> ip_list \<times> int" where
  "find_takeover_node ctdb ipflags k all_ips =
     (case argmin (\<lambda>i. can_node_takeover_ip ctdb (int i) (ipflags ! i) (all_ips ! k))
                  (\<lambda>i. node_ip_coverage (int i) all_ips)
                  [0..<length ipflags] of
        None \<Rightarrow> (all_ips, -1)
      | Some (pnn, _) \<Rightarrow> (set_ip_pnn all_ips k (int pnn), 0))"

definition basic_allocate_step ::
    "ctdb_context \<Rightarrow> ctdb_ipflags list \<Rightarrow> nat \<Rightarrow> ip_list \<Rightarrow> ip_list" where
  "basic_allocate_step ctdb ipflags k all_ips =
     (if ip_pnn (all_ips ! k) = -1 then fst (find_takeover_node ctdb ipflags k all_ips)
      else all_ips)"

definition basic_allocate_unassigned ::
    "ctdb_context \<Rightarrow> ctdb_ipflags list \<Rightarrow> ip_list \<Rightarrow> ip_list" where
  "basic_allocate_unassigned ctdb ipflags all_ips =
     fold (basic_allocate_step ctdb ipflags) [0..<length all_ips] all_ips"

text \<open>
  The inner loop of the rebalancing: the nodes with the highest and with the lowest coverage among
  those that can take over an address, with \<open>-1\<close> where there is none.
\<close>

fun spread_step :: "int \<Rightarrow> int \<Rightarrow> int \<times> int \<times> int \<times> int \<Rightarrow> int \<times> int \<times> int \<times> int" where
  "spread_step i num (maxnode, maxnum, minnode, minnum) =
     (let (maxnode', maxnum') =
            (if maxnode = -1 then (i, num)
             else if num > maxnum then (i, num) else (maxnode, maxnum));
          (minnode', minnum') =
            (if minnode = -1 then (i, num)
             else if num < minnum then (i, num) else (minnode, minnum))
      in (maxnode', maxnum', minnode', minnum'))"

definition coverage_spread ::
    "ctdb_context \<Rightarrow> ctdb_ipflags list \<Rightarrow> ip_list \<Rightarrow> ctdb_public_ip_list \<Rightarrow> int \<times> int \<times> int \<times> int" where
  "coverage_spread ctdb ipflags all_ips tmp_ip =
     fold (\<lambda>i st. if \<not> can_node_takeover_ip ctdb (int i) (ipflags ! i) tmp_ip then st
                  else spread_step (int i) (node_ip_coverage (int i) all_ips) st)
       [0..<length ipflags] (-1, 0, -1, 0)"

text \<open>
  The loop over the addresses up to the first one whose spread is too large: the position of the
  address of the busiest node that is to be reassigned, or None when the loop runs to its end.
\<close>

fun failback_victim ::
    "ctdb_context \<Rightarrow> ctdb_ipflags list \<Rightarrow> ip_list \<Rightarrow> int \<Rightarrow> int \<Rightarrow> ip_list \<Rightarrow> nat option" where
  "failback_victim ctdb ipflags all_ips num_ips retries [] = None"
| "failback_victim ctdb ipflags all_ips num_ips retries (tmp_ip # rest) =
     (if ip_pnn tmp_ip = -1 then failback_victim ctdb ipflags all_ips num_ips retries rest
      else case coverage_spread ctdb ipflags all_ips tmp_ip of
             (maxnode, maxnum, minnode, minnum) \<Rightarrow>
               if maxnode = -1 then failback_victim ctdb ipflags all_ips num_ips retries rest
               else if maxnum > minnum + 1 \<and> retries < num_ips + 5 then
                 (case find (\<lambda>t. ip_pnn (all_ips ! t) = maxnode) [0..<length all_ips] of
                    Some t \<Rightarrow> Some t
                  | None \<Rightarrow> failback_victim ctdb ipflags all_ips num_ips retries rest)
               else failback_victim ctdb ipflags all_ips num_ips retries rest)"

lemma failback_victim_retries:
  "failback_victim ctdb ipflags all_ips num_ips retries l = Some t \<Longrightarrow>
     retries < num_ips + 5 \<and> t < length all_ips"
  by (induction l) (auto split: if_splits option.splits prod.splits simp: find_Some_iff)

text \<open>One round per \<^verbatim>\<open>goto try_again\<close>; the result carries the retry counter for the theorems.\<close>

function basic_failback_loop ::
    "ctdb_context \<Rightarrow> ctdb_ipflags list \<Rightarrow> int \<Rightarrow> int \<Rightarrow> ip_list \<Rightarrow> ip_list \<times> int" where
  "basic_failback_loop ctdb ipflags num_ips retries all_ips =
     (case failback_victim ctdb ipflags all_ips num_ips retries all_ips of
        None \<Rightarrow> (all_ips, retries)
      | Some t \<Rightarrow> basic_failback_loop ctdb ipflags num_ips (retries + 1)
                    (fst (find_takeover_node ctdb ipflags t all_ips)))"
  by pat_completeness auto
termination
  by (relation "measure (\<lambda>(_, _, num_ips, retries, _). nat (num_ips + 5 - retries))")
    (auto dest: failback_victim_retries)

declare basic_failback_loop.simps [simp del]

definition basic_failback ::
    "ctdb_context \<Rightarrow> ctdb_ipflags list \<Rightarrow> ip_list \<Rightarrow> int \<Rightarrow> ip_list" where
  "basic_failback ctdb ipflags all_ips num_ips =
     fst (basic_failback_loop ctdb ipflags num_ips 0 all_ips)"

definition unassign_unsuitable_ips ::
    "ctdb_context \<Rightarrow> ctdb_ipflags list \<Rightarrow> ip_list \<Rightarrow> ip_list" where
  "unassign_unsuitable_ips ctdb ipflags all_ips =
     map (\<lambda>tmp_ip. if ip_pnn tmp_ip = -1 then tmp_ip
                   else if \<not> can_node_host_ip ctdb (ip_pnn tmp_ip)
                               (ipflags ! nat (ip_pnn tmp_ip)) tmp_ip
                   then tmp_ip\<lparr>ip_pnn := -1\<rparr> else tmp_ip) all_ips"

definition assign_modulo :: "nat \<Rightarrow> ip_list \<Rightarrow> ip_list" where
  "assign_modulo numnodes all_ips =
     map2 (\<lambda>i tmp_ip. tmp_ip\<lparr>ip_pnn := int (i mod numnodes)\<rparr>) [0..<length all_ips] all_ips"

definition ip_alloc_deterministic_ips ::
    "ctdb_context \<Rightarrow> ctdb_ipflags list \<Rightarrow> ip_list \<Rightarrow> ip_list" where
  "ip_alloc_deterministic_ips ctdb ipflags all_ips =
     basic_allocate_unassigned ctdb ipflags
       (unassign_unsuitable_ips ctdb ipflags (assign_modulo (length ipflags) all_ips))"

definition ip_alloc_nondeterministic_ips ::
    "ctdb_context \<Rightarrow> ctdb_ipflags list \<Rightarrow> ip_list \<Rightarrow> ip_list" where
  "ip_alloc_nondeterministic_ips ctdb ipflags all_ips =
     (let num_ips = int (length all_ips);
          ips1 = unassign_unsuitable_ips ctdb ipflags all_ips;
          ips2 = basic_allocate_unassigned ctdb ipflags ips1
      in if no_ip_failback (tunable ctdb) = 1 then ips2
         else basic_failback ctdb ipflags ips2 num_ips)"

section \<open>What a good allocation is\<close>

text \<open>Input: assigned addresses carry a node number, and there is a node if there is an address.\<close>

definition ips_ok :: "nat \<Rightarrow> ip_list \<Rightarrow> bool" where
  "ips_ok numnodes ips \<longleftrightarrow>
     (\<forall>ip \<in> set ips. ip_pnn ip = -1 \<or> 0 \<le> ip_pnn ip \<and> ip_pnn ip < int numnodes) \<and>
     (ips = [] \<or> 0 < numnodes)"

definition hosted :: "ctdb_context \<Rightarrow> ctdb_ipflags list \<Rightarrow> ctdb_public_ip_list \<Rightarrow> bool" where
  "hosted ctdb ipflags ip \<longleftrightarrow>
     0 \<le> ip_pnn ip \<and> ip_pnn ip < int (length ipflags) \<and>
     can_node_host_ip ctdb (ip_pnn ip) (ipflags ! nat (ip_pnn ip)) ip"

definition well_served :: "ctdb_context \<Rightarrow> ctdb_ipflags list \<Rightarrow> ip_list \<Rightarrow> bool" where
  "well_served ctdb ipflags ips \<longleftrightarrow> (\<forall>ip \<in> set ips. ip_pnn ip = -1 \<or> hosted ctdb ipflags ip)"

definition takeover_possible :: "ctdb_context \<Rightarrow> ctdb_ipflags list \<Rightarrow> ctdb_public_ip_list \<Rightarrow> bool" where
  "takeover_possible ctdb ipflags ip \<longleftrightarrow>
     (\<exists>i < length ipflags. can_node_takeover_ip ctdb (int i) (ipflags ! i) ip)"

definition complete_alloc :: "ctdb_context \<Rightarrow> ctdb_ipflags list \<Rightarrow> ip_list \<Rightarrow> bool" where
  "complete_alloc ctdb ipflags ips \<longleftrightarrow>
     (\<forall>ip \<in> set ips. ip_pnn ip = -1 \<longrightarrow> \<not> takeover_possible ctdb ipflags ip)"

lemmas alloc_defs = ips_ok_def hosted_def well_served_def complete_alloc_def

lemma takeover_possible_addr:
  "ip_addr ip = ip_addr ip' \<Longrightarrow> takeover_possible ctdb fl ip = takeover_possible ctdb fl ip'"
  by (simp add: takeover_possible_def can_node_takeover_ip_addr [of ip ip'])

lemma well_served_set:
  assumes "well_served ctdb fl ips" "k < length ips" "i < length fl"
    "can_node_takeover_ip ctdb (int i) (fl ! i) (ips ! k)"
  shows "well_served ctdb fl (set_ip_pnn ips k (int i))"
  unfolding well_served_def set_ip_pnn_def
  by (rule all_set_update)
    (use assms in \<open>auto simp: well_served_def hosted_def dest: takeover_host\<close>)

lemma complete_alloc_set:
  "complete_alloc ctdb fl ips \<Longrightarrow> n \<noteq> -1 \<Longrightarrow> complete_alloc ctdb fl (set_ip_pnn ips k n)"
  unfolding complete_alloc_def set_ip_pnn_def by (rule all_set_update) auto

section \<open>Correctness of the steps\<close>

lemma find_takeover_node_cases:
  obtains (none) "find_takeover_node ctdb fl k ips = (ips, -1)"
      "\<not> takeover_possible ctdb fl (ips ! k)"
  | (node) i where "find_takeover_node ctdb fl k ips = (set_ip_pnn ips k (int i), 0)"
      "i < length fl" "can_node_takeover_ip ctdb (int i) (fl ! i) (ips ! k)"
      "\<And>j. j < length fl \<Longrightarrow> can_node_takeover_ip ctdb (int j) (fl ! j) (ips ! k) \<Longrightarrow>
          node_ip_coverage (int i) ips \<le> node_ip_coverage (int j) ips"
proof (cases "argmin (\<lambda>i. can_node_takeover_ip ctdb (int i) (fl ! i) (ips ! k))
          (\<lambda>i. node_ip_coverage (int i) ips) [0..<length fl]")
  case None
  then have "\<not> takeover_possible ctdb fl (ips ! k)"
    by (auto simp: argmin_None_iff takeover_possible_def)
  with None show thesis by (intro none) (simp_all add: find_takeover_node_def)
next
  case (Some p)
  then obtain i m where p: "p = (i, m)" by (cases p)
  show thesis
    using argmin_SomeD [OF Some [unfolded p]] Some p
    by (intro node [of i]) (auto simp: find_takeover_node_def)
qed

lemma find_takeover_node_keeps:
  assumes "k < length ips"
  shows "map ip_addr (fst (find_takeover_node ctdb fl k ips)) = map ip_addr ips"
    and "well_served ctdb fl ips \<Longrightarrow> well_served ctdb fl (fst (find_takeover_node ctdb fl k ips))"
    and "complete_alloc ctdb fl ips \<Longrightarrow> complete_alloc ctdb fl (fst (find_takeover_node ctdb fl k ips))"
    and "j \<noteq> k \<Longrightarrow> fst (find_takeover_node ctdb fl k ips) ! j = ips ! j"
  using assms
  by (cases rule: find_takeover_node_cases [of ctdb fl k ips];
      simp add: well_served_set complete_alloc_set)+

lemma basic_allocate_step_keeps:
  assumes "k < length ips"
  shows "map ip_addr (basic_allocate_step ctdb fl k ips) = map ip_addr ips"
    and "length (basic_allocate_step ctdb fl k ips) = length ips"
    and "well_served ctdb fl ips \<Longrightarrow> well_served ctdb fl (basic_allocate_step ctdb fl k ips)"
    and "j \<noteq> k \<Longrightarrow> basic_allocate_step ctdb fl k ips ! j = ips ! j"
    and "ip_pnn (ips ! k) \<noteq> -1 \<Longrightarrow> basic_allocate_step ctdb fl k ips = ips"
    and "ip_pnn (basic_allocate_step ctdb fl k ips ! k) = -1 \<Longrightarrow>
           \<not> takeover_possible ctdb fl (basic_allocate_step ctdb fl k ips ! k)"
  using find_takeover_node_keeps [OF assms, where ctdb = ctdb and fl = fl] assms
  by (cases rule: find_takeover_node_cases [of ctdb fl k ips];
      auto simp: basic_allocate_step_def dest: map_eq_imp_length_eq)+

lemma allocate_upto:
  fixes ctdb :: ctdb_context and fl :: "ctdb_ipflags list"
  assumes "n \<le> length ips"
  defines "res \<equiv> fold (basic_allocate_step ctdb fl) [0..<n] ips"
  shows "map ip_addr res = map ip_addr ips \<and> length res = length ips \<and>
    (well_served ctdb fl ips \<longrightarrow> well_served ctdb fl res) \<and>
    (\<forall>k < length ips. ip_pnn (ips ! k) \<noteq> -1 \<or> n \<le> k \<longrightarrow> res ! k = ips ! k) \<and>
    (\<forall>k < n. ip_pnn (res ! k) = -1 \<longrightarrow> \<not> takeover_possible ctdb fl (res ! k))"
  using assms(1) unfolding res_def
proof (induction n)
  case (Suc n)
  define r where "r = fold (basic_allocate_step ctdb fl) [0..<n] ips"
  have IH: "map ip_addr r = map ip_addr ips" "length r = length ips"
    "well_served ctdb fl ips \<longrightarrow> well_served ctdb fl r"
    "\<forall>k < length ips. ip_pnn (ips ! k) \<noteq> -1 \<or> n \<le> k \<longrightarrow> r ! k = ips ! k"
    "\<forall>k < n. ip_pnn (r ! k) = -1 \<longrightarrow> \<not> takeover_possible ctdb fl (r ! k)"
    using Suc unfolding r_def by simp_all
  have n: "n < length r" using Suc.prems IH(2) by simp
  have fold: "fold (basic_allocate_step ctdb fl) [0..<Suc n] ips = basic_allocate_step ctdb fl n r"
    by (simp add: r_def)
  note step = basic_allocate_step_keeps [OF n, where ctdb = ctdb and fl = fl]
  show ?case unfolding fold
  proof (intro conjI allI impI)
    fix k assume k: "k < length ips" "ip_pnn (ips ! k) \<noteq> -1 \<or> Suc n \<le> k"
    with IH(4) have "r ! k = ips ! k" by auto
    with k step show "basic_allocate_step ctdb fl n r ! k = ips ! k"
      by (cases "k = n") auto
  next
    fix k assume "k < Suc n" "ip_pnn (basic_allocate_step ctdb fl n r ! k) = -1"
    with step IH(5) show "\<not> takeover_possible ctdb fl (basic_allocate_step ctdb fl n r ! k)"
      by (cases "k = n") auto
  qed (use IH step in auto)
qed simp

lemma basic_allocate_unassigned_keeps:
  shows "map ip_addr (basic_allocate_unassigned ctdb fl ips) = map ip_addr ips"
    and "length (basic_allocate_unassigned ctdb fl ips) = length ips"
    and "well_served ctdb fl ips \<Longrightarrow> well_served ctdb fl (basic_allocate_unassigned ctdb fl ips)"
    and "complete_alloc ctdb fl (basic_allocate_unassigned ctdb fl ips)"
    and "k < length ips \<Longrightarrow> ip_pnn (ips ! k) \<noteq> -1 \<Longrightarrow>
           basic_allocate_unassigned ctdb fl ips ! k = ips ! k"
  using allocate_upto [of "length ips" ips ctdb fl]
  by (auto simp: basic_allocate_unassigned_def complete_alloc_def in_set_conv_nth)

lemma unassign_keeps:
  shows "map ip_addr (unassign_unsuitable_ips ctdb fl ips) = map ip_addr ips"
    and "length (unassign_unsuitable_ips ctdb fl ips) = length ips"
    and "ips_ok (length fl) ips \<Longrightarrow> well_served ctdb fl (unassign_unsuitable_ips ctdb fl ips)"
    and "k < length ips \<Longrightarrow> hosted ctdb fl (ips ! k) \<Longrightarrow>
           unassign_unsuitable_ips ctdb fl ips ! k = ips ! k"
  by (auto simp: unassign_unsuitable_ips_def alloc_defs)

lemma assign_modulo_keeps:
  shows "map ip_addr (assign_modulo n ips) = map ip_addr ips"
    and "length (assign_modulo n ips) = length ips"
    and "ips = [] \<or> 0 < n \<Longrightarrow> ips_ok n (assign_modulo n ips)"
    and "k < length ips \<Longrightarrow> assign_modulo n ips ! k = (ips ! k)\<lparr>ip_pnn := int (k mod n)\<rparr>"
  by (auto simp: assign_modulo_def ips_ok_def set_zip in_set_conv_nth intro!: nth_equalityI)

text \<open>What one round of the rebalancing keeps, all rounds keep.\<close>

lemma basic_failback_loop_invariant:
  assumes step: "\<And>ips t. P ips \<Longrightarrow> t < length ips \<Longrightarrow> P (fst (find_takeover_node ctdb fl t ips))"
  shows "P ips \<Longrightarrow> P (fst (basic_failback_loop ctdb fl num_ips retries ips))"
proof (induction "nat (num_ips + 5 - retries)" arbitrary: retries ips rule: less_induct)
  case less
  show ?case
  proof (cases "failback_victim ctdb fl ips num_ips retries ips")
    case None
    with less.prems show ?thesis by (simp add: basic_failback_loop.simps)
  next
    case (Some t)
    from failback_victim_retries [OF Some] less.prems step less.hyps Some show ?thesis
      by (simp add: basic_failback_loop.simps [of ctdb fl num_ips retries ips])
  qed
qed

lemma basic_failback_keeps:
  shows "map ip_addr (basic_failback ctdb fl ips n) = map ip_addr ips"
    and "well_served ctdb fl ips \<Longrightarrow> well_served ctdb fl (basic_failback ctdb fl ips n)"
    and "complete_alloc ctdb fl ips \<Longrightarrow> complete_alloc ctdb fl (basic_failback ctdb fl ips n)"
  unfolding basic_failback_def
  by (rule basic_failback_loop_invariant; simp add: find_takeover_node_keeps)+

section \<open>The contract of an allocation routine\<close>

text \<open>
  An allocation routine may in principle not return (\<open>None\<close>); it does on lists that \<open>fits\<close> admits.
  It only moves addresses between nodes, puts an address only where it can be hosted, and leaves
  one unassigned only if no node may take it over.
\<close>

locale ip_allocator =
  fixes alloc :: "ctdb_context \<Rightarrow> ctdb_ipflags list \<Rightarrow> ip_list \<Rightarrow> ip_list option"
    and fits :: "ip_list \<Rightarrow> bool"
  assumes returns: "fits ips \<Longrightarrow> ips_ok (length fl) ips \<Longrightarrow> \<exists>ips'. alloc ctdb fl ips = Some ips'"
    and addrs: "alloc ctdb fl ips = Some ips' \<Longrightarrow> map ip_addr ips' = map ip_addr ips"
    and served: "alloc ctdb fl ips = Some ips' \<Longrightarrow> ips_ok (length fl) ips \<Longrightarrow>
                   well_served ctdb fl ips'"
    and complete: "alloc ctdb fl ips = Some ips' \<Longrightarrow> ips_ok (length fl) ips \<Longrightarrow>
                   complete_alloc ctdb fl ips'"
begin

lemma same_length: "alloc ctdb fl ips = Some ips' \<Longrightarrow> length ips' = length ips"
  using addrs by (metis length_map)

text \<open>An address some node may take over ends on a node that can host it.\<close>

lemma takeover_hosted:
  assumes "alloc ctdb fl ips = Some ips'" "ips_ok (length fl) ips" "k < length ips"
    and "takeover_possible ctdb fl (ips ! k)"
  shows "ip_addr (ips' ! k) = ip_addr (ips ! k) \<and> hosted ctdb fl (ips' ! k)"
proof -
  from assms(1,3) have k: "k < length ips'" and a: "ip_addr (ips' ! k) = ip_addr (ips ! k)"
    using same_length addrs by (simp, metis nth_map same_length)
  then have "takeover_possible ctdb fl (ips' ! k)"
    using assms(4) takeover_possible_addr by blast
  with nth_mem [OF k] served [OF assms(1,2)] complete [OF assms(1,2)] a show ?thesis
    by (auto simp: well_served_def complete_alloc_def)
qed

text \<open>The result is again a valid input.\<close>

lemma result_ok:
  "alloc ctdb fl ips = Some ips' \<Longrightarrow> ips_ok (length fl) ips \<Longrightarrow> ips_ok (length fl) ips'"
  using served same_length by (fastforce simp: ips_ok_def well_served_def hosted_def)

end

interpretation det: ip_allocator
  "\<lambda>ctdb fl ips. Some (ip_alloc_deterministic_ips ctdb fl ips)" "\<lambda>_. True"
  by unfold_locales
    (auto simp: ip_alloc_deterministic_ips_def ips_ok_def [of _ "assign_modulo _ _"]
      basic_allocate_unassigned_keeps unassign_keeps assign_modulo_keeps ips_ok_def
      intro!: basic_allocate_unassigned_keeps unassign_keeps assign_modulo_keeps)

interpretation nondet: ip_allocator
  "\<lambda>ctdb fl ips. Some (ip_alloc_nondeterministic_ips ctdb fl ips)" "\<lambda>_. True"
  by unfold_locales
    (auto simp: ip_alloc_nondeterministic_ips_def Let_def
      basic_allocate_unassigned_keeps unassign_keeps basic_failback_keeps)

section \<open>Rebalancing reaches an even spread\<close>

text \<open>
  The aim stated in the code: among the nodes that may take over an assigned address, the numbers
  of served addresses differ by at most one.
\<close>

definition spread_ok :: "ctdb_context \<Rightarrow> ctdb_ipflags list \<Rightarrow> ip_list \<Rightarrow> bool" where
  "spread_ok ctdb ipflags ips \<longleftrightarrow>
     (\<forall>ip \<in> set ips. ip_pnn ip \<noteq> -1 \<longrightarrow>
        (\<forall>i < length ipflags. \<forall>j < length ipflags.
           can_node_takeover_ip ctdb (int i) (ipflags ! i) ip \<longrightarrow>
           can_node_takeover_ip ctdb (int j) (ipflags ! j) ip \<longrightarrow>
           node_ip_coverage (int i) ips \<le> node_ip_coverage (int j) ips + 1))"

text \<open>The inner loop computes the two extremes of the coverage over the admitted nodes.\<close>

fun spread_pair :: "(nat \<times> int) option \<Rightarrow> int \<times> int" where
  "spread_pair None = (-1, 0)"
| "spread_pair (Some (i, m)) = (int i, m)"

lemma spread_fold:
  "fold (\<lambda>i st. if \<not> ok i then st else spread_step (int i) (val i) st) xs (-1, 0, -1, 0) =
     (let (maxnode, negmax) = spread_pair (argmin ok (\<lambda>i. - val i) xs)
      in (maxnode, - negmax, spread_pair (argmin ok val xs)))"
proof (induction xs rule: rev_induct)
  case (snoc x xs)
  show ?case
    by (cases "argmin ok val xs"; cases "argmin ok (\<lambda>i. - val i) xs")
      (use snoc.IH in \<open>auto simp: argmin_snoc argmin_step_def\<close>)
qed simp

lemma coverage_spread_cases:
  assumes "coverage_spread ctdb fl ips ip = (maxnode, maxnum, minnode, minnum)"
  obtains (none) "maxnode = -1" "\<not> takeover_possible ctdb fl ip"
  | (some) a b where "maxnode = int a" "maxnum = node_ip_coverage (int a) ips" "a < length fl"
      "can_node_takeover_ip ctdb (int a) (fl ! a) ip"
      "minnode = int b" "minnum = node_ip_coverage (int b) ips" "b < length fl"
      "can_node_takeover_ip ctdb (int b) (fl ! b) ip"
      "\<And>i. i < length fl \<Longrightarrow> can_node_takeover_ip ctdb (int i) (fl ! i) ip \<Longrightarrow>
         minnum \<le> node_ip_coverage (int i) ips \<and> node_ip_coverage (int i) ips \<le> maxnum"
proof -
  let ?ok = "\<lambda>i. can_node_takeover_ip ctdb (int i) (fl ! i) ip"
  let ?val = "\<lambda>i. node_ip_coverage (int i) ips"
  note eq = assms [unfolded coverage_spread_def spread_fold]
  show thesis
  proof (cases "takeover_possible ctdb fl ip")
    case False
    then have "argmin ?ok f [0..<length fl] = None" for f :: "nat \<Rightarrow> int"
      by (auto simp: argmin_None_iff takeover_possible_def)
    with eq False show thesis by (intro none) simp_all
  next
    case True
    then have "argmin ?ok f [0..<length fl] \<noteq> None" for f :: "nat \<Rightarrow> int"
      by (auto simp: argmin_None_iff takeover_possible_def)
    then obtain a m b n where
      ab: "argmin ?ok (\<lambda>i. - ?val i) [0..<length fl] = Some (a, m)"
        "argmin ?ok ?val [0..<length fl] = Some (b, n)"
      by fastforce
    have eqs: "maxnode = int a" "maxnum = - m" "minnode = int b" "minnum = n"
      using eq ab by simp_all
    from argmin_SomeD [OF ab(1)] argmin_SomeD [OF ab(2)]
    have "a < length fl" "?ok a" "m = - ?val a" "b < length fl" "?ok b" "n = ?val b"
      and le: "\<And>i. i < length fl \<Longrightarrow> ?ok i \<Longrightarrow> m \<le> - ?val i \<and> n \<le> ?val i"
      by auto
    moreover from this have "?val i \<le> ?val a" "?val b \<le> ?val i" if "i < length fl" "?ok i" for i
      using le [OF that] by simp_all
    ultimately show thesis using eqs by (intro some [of a b]) simp_all
  qed
qed

lemma coverage_pos: "0 < node_ip_coverage m ips \<Longrightarrow> \<exists>t < length ips. ip_pnn (ips ! t) = m"
  by (induction ips) (auto simp: Ex_less_Suc2 split: if_splits)

text \<open>A victim sits on a busiest node of some address, two above a least busy one.\<close>

lemma failback_victim_None:
  assumes "failback_victim ctdb fl ips num_ips retries l = None" "retries < num_ips + 5"
    "ip \<in> set l" "ip_pnn ip \<noteq> -1" "i < length fl" "j < length fl"
    "can_node_takeover_ip ctdb (int i) (fl ! i) ip" "can_node_takeover_ip ctdb (int j) (fl ! j) ip"
  shows "node_ip_coverage (int i) ips \<le> node_ip_coverage (int j) ips + 1"
  using assms
proof (induction l)
  case (Cons x l)
  show ?case
  proof (cases "ip = x")
    case True
    obtain a m b n where sp: "coverage_spread ctdb fl ips ip = (a, m, b, n)"
      by (cases "coverage_spread ctdb fl ips ip")
    from sp show ?thesis
    proof (cases rule: coverage_spread_cases)
      case none
      with Cons.prems show ?thesis by (auto simp: takeover_possible_def)
    next
      case (some a' b')
      have "m \<le> n + 1"
      proof (rule ccontr)
        assume big: "\<not> m \<le> n + 1"
        moreover have "0 \<le> n" using some by (simp add: coverage_nonneg)
        ultimately have "0 < node_ip_coverage a ips" using some by simp
        with coverage_pos obtain t where "t < length ips" "ip_pnn (ips ! t) = a" by blast
        with Cons.prems some sp True big show False
          by (auto simp: find_None_iff split: if_splits option.splits)
      qed
      with some(9) [of i] some(9) [of j] Cons.prems show ?thesis by simp
    qed
  next
    case False
    with Cons show ?thesis by (auto split: if_splits option.splits prod.splits)
  qed
qed simp

lemma basic_failback_loop_spread:
  "basic_failback_loop ctdb fl num_ips retries ips = (ips', retries') \<Longrightarrow>
     retries' < num_ips + 5 \<Longrightarrow> spread_ok ctdb fl ips'"
proof (induction "nat (num_ips + 5 - retries)" arbitrary: retries ips rule: less_induct)
  case less
  show ?case
  proof (cases "failback_victim ctdb fl ips num_ips retries ips")
    case None
    with less.prems show ?thesis
      using failback_victim_None [OF None]
      by (auto simp: basic_failback_loop.simps spread_ok_def)
  next
    case (Some t)
    from failback_victim_retries [OF Some] Some less.prems show ?thesis
      by (intro less.hyps [of "retries + 1" "fst (find_takeover_node ctdb fl t ips)"])
        (simp_all add: basic_failback_loop.simps [of ctdb fl num_ips retries ips])
  qed
qed

text \<open>
  When every address has the same set \<open>S\<close> of takeover nodes the retry bound is never reached.  The
  potential is the larger of the total excess over the rounded-up mean and the total shortfall
  below the rounded-down mean; moving an address from a busiest to a least busy node lowers it.
\<close>

definition excess :: "nat set \<Rightarrow> (nat \<Rightarrow> int) \<Rightarrow> int \<Rightarrow> int" where
  "excess S c h = (\<Sum>i \<in> S. max 0 (c i - h))"

definition shortfall :: "nat set \<Rightarrow> (nat \<Rightarrow> int) \<Rightarrow> int \<Rightarrow> int" where
  "shortfall S c f = (\<Sum>i \<in> S. max 0 (f - c i))"

lemma sum_move:
  fixes g :: "int \<Rightarrow> int" and S :: "nat set"
  assumes "finite S" "a \<in> S" "b \<in> S" "a \<noteq> b"
  shows "(\<Sum>i \<in> S. g ((c(a := c a - 1, b := c b + 1)) i)) =
           (\<Sum>i \<in> S. g (c i)) - g (c a) + g (c a - 1) - g (c b) + g (c b + 1)"
proof -
  have S: "S = insert a (insert b (S - {a, b}))" using assms by auto
  have "(\<Sum>i \<in> S. h i) = h a + h b + (\<Sum>i \<in> S - {a, b}. h i)" for h :: "nat \<Rightarrow> int"
    using assms by (subst S) simp
  then show ?thesis using assms(4) by simp
qed

lemma potential_decreases:
  assumes S: "finite S" "a \<in> S" "b \<in> S" and ab: "c b + 1 < c a"
    and ext: "\<And>i. i \<in> S \<Longrightarrow> c b \<le> c i \<and> c i \<le> c a"
    and f: "int (card S) * f \<le> sum c S" and h: "sum c S \<le> int (card S) * h"
    and fh: "f \<le> h" "h \<le> f + 1"
  defines "c' \<equiv> c(a := c a - 1, b := c b + 1)"
  shows "max (excess S c' h) (shortfall S c' f) < max (excess S c h) (shortfall S c f)"
proof -
  have "a \<noteq> b" using ab by auto
  note move = sum_move [OF S \<open>a \<noteq> b\<close>, of _ c, folded c'_def]
  have e: "excess S c' h = excess S c h - max 0 (c a - h) + max 0 (c a - 1 - h)
             - max 0 (c b - h) + max 0 (c b + 1 - h)"
    unfolding excess_def using move [of "\<lambda>x. max 0 (x - h)"] by simp
  have s: "shortfall S c' f = shortfall S c f - max 0 (f - c a) + max 0 (f - (c a - 1))
             - max 0 (f - c b) + max 0 (f - (c b + 1))"
    unfolding shortfall_def using move [of "\<lambda>x. max 0 (f - x)"] by simp
  have below: "c b < h"
  proof (rule ccontr)
    assume "\<not> c b < h"
    then have "sum (\<lambda>_. h) S < sum c S"
      using S ab ext by (intro sum_strict_mono_ex1) (force intro: bexI [of _ a])+
    with h show False by simp
  qed
  have above: "f < c a"
  proof (rule ccontr)
    assume "\<not> f < c a"
    then have "sum c S < sum (\<lambda>_. f) S"
      using S ab ext by (intro sum_strict_mono_ex1) (force intro: bexI [of _ b])+
    with f show False by simp
  qed
  have pos: "0 \<le> excess S c h" "0 \<le> shortfall S c f"
    by (simp_all add: excess_def shortfall_def sum_nonneg)
  have zero: "f \<le> c b \<Longrightarrow> shortfall S c f = 0" "c a \<le> h \<Longrightarrow> excess S c h = 0"
    unfolding shortfall_def excess_def using ext by (auto intro!: sum.neutral) (force)+
  have e': "excess S c' h = excess S c h - (if h < c a then 1 else 0)"
    using e below by simp
  have s': "shortfall S c' f = shortfall S c f - (if c b < f then 1 else 0)"
    using s above by simp
  have "h < c a \<or> c b < f" using ab fh by linarith
  moreover have "h < c a \<Longrightarrow> 1 \<le> excess S c h"
    unfolding excess_def using S member_le_sum [of a S "\<lambda>i. max 0 (c i - h)"] by simp
  moreover have "c b < f \<Longrightarrow> 1 \<le> shortfall S c f"
    unfolding shortfall_def using S member_le_sum [of b S "\<lambda>i. max 0 (f - c i)"] by simp
  ultimately show ?thesis unfolding e' s' using zero pos by (auto simp: max_def)
qed

definition same_takeover_nodes ::
    "ctdb_context \<Rightarrow> ctdb_ipflags list \<Rightarrow> nat set \<Rightarrow> ctdb_sock_addr list \<Rightarrow> bool" where
  "same_takeover_nodes ctdb ipflags S addrs \<longleftrightarrow>
     S \<subseteq> {..<length ipflags} \<and>
     (\<forall>a \<in> set addrs. \<forall>i < length ipflags.
        can_node_takeover_ip ctdb (int i) (ipflags ! i) \<lparr>ip_pnn = -1, ip_addr = a\<rparr> \<longleftrightarrow> i \<in> S)"

lemma same_takeover_nodesD:
  "same_takeover_nodes ctdb fl S (map ip_addr ips) \<Longrightarrow> ip \<in> set ips \<Longrightarrow> i < length fl \<Longrightarrow>
     can_node_takeover_ip ctdb (int i) (fl ! i) ip \<longleftrightarrow> i \<in> S"
  using can_node_takeover_ip_addr [of "\<lparr>ip_pnn = -1, ip_addr = ip_addr ip\<rparr>" ip]
  by (auto simp: same_takeover_nodes_def)

lemma failback_victim_Some:
  assumes "failback_victim ctdb fl ips num_ips retries l = Some t"
  shows "\<exists>ip maxnode maxnum minnode minnum. ip \<in> set l \<and>
           coverage_spread ctdb fl ips ip = (maxnode, maxnum, minnode, minnum) \<and>
           maxnode \<noteq> -1 \<and> maxnum > minnum + 1 \<and> t < length ips \<and> ip_pnn (ips ! t) = maxnode"
  using assms
proof (induction l)
  case (Cons x l)
  obtain a m b n where "coverage_spread ctdb fl ips x = (a, m, b, n)"
    by (cases "coverage_spread ctdb fl ips x")
  with Cons show ?case
    by (auto simp: find_Some_iff split: if_splits option.splits)
qed simp

text \<open>With the same takeover nodes for all, a round moves an address from a busiest node to a least busy one.\<close>

lemma failback_round:
  assumes same: "same_takeover_nodes ctdb fl S (map ip_addr ips)"
    and victim: "failback_victim ctdb fl ips num_ips retries ips = Some t"
  defines "c \<equiv> \<lambda>i. node_ip_coverage (int i) ips"
  obtains a b where "a \<in> S" "b \<in> S" "c b + 1 < c a" "\<And>i. i \<in> S \<Longrightarrow> c b \<le> c i \<and> c i \<le> c a"
    "(\<lambda>i. node_ip_coverage (int i) (fst (find_takeover_node ctdb fl t ips))) =
       c(a := c a - 1, b := c b + 1)"
proof -
  from failback_victim_Some [OF victim] obtain ip maxnode maxnum minnode minnum where
    ip: "ip \<in> set ips" "coverage_spread ctdb fl ips ip = (maxnode, maxnum, minnode, minnum)"
    and big: "maxnode \<noteq> -1" "maxnum > minnum + 1" and t: "t < length ips" "ip_pnn (ips ! t) = maxnode"
    by blast
  have S: "S \<subseteq> {..<length fl}" using same by (simp add: same_takeover_nodes_def)
  note host = same_takeover_nodesD [OF same]
  from ip(2) big(1) obtain a b where a: "maxnode = int a" "maxnum = c a" "a \<in> S"
    and b: "minnum = c b" "b \<in> S" and ext: "\<And>i. i \<in> S \<Longrightarrow> c b \<le> c i \<and> c i \<le> c a"
  proof (cases rule: coverage_spread_cases)
    case (some a b)
    show ?thesis
      by (rule that [of a b]) (use some host [OF ip(1)] S in \<open>auto simp: c_def\<close>)
  qed simp
  show thesis
  proof (cases rule: find_takeover_node_cases [where ctdb = ctdb and fl = fl and k = t and ips = ips])
    case none
    with host [OF nth_mem [OF t(1)]] b(2) S show thesis
      by (auto simp: takeover_possible_def)
  next
    case (node i)
    with host [OF nth_mem [OF t(1)]] have i: "i \<in> S" "\<And>j. j \<in> S \<Longrightarrow> c i \<le> c j"
      using S by (auto simp: c_def)
    then have "c i = c b" using ext b by (meson order_antisym)
    with ext big a b have ai: "c i + 1 < c a" "\<And>j. j \<in> S \<Longrightarrow> c i \<le> c j \<and> c j \<le> c a" by simp_all
    then have "i \<noteq> a" by auto
    then have "(\<lambda>j. node_ip_coverage (int j) (fst (find_takeover_node ctdb fl t ips))) =
        c(a := c a - 1, i := c i + 1)"
      using node(1) t a by (auto simp: c_def coverage_set_ip_pnn)
    with that [OF a(3) i(1) ai] show thesis by simp
  qed
qed

lemma failback_bounded:
  assumes "same_takeover_nodes ctdb fl S (map ip_addr ips)"
    and "int (card S) * f \<le> (\<Sum>i \<in> S. node_ip_coverage (int i) ips)"
    and "(\<Sum>i \<in> S. node_ip_coverage (int i) ips) \<le> int (card S) * h" and fh: "f \<le> h" "h \<le> f + 1"
    and "retries + max (excess S (\<lambda>i. node_ip_coverage (int i) ips) h)
                       (shortfall S (\<lambda>i. node_ip_coverage (int i) ips) f) < num_ips + 5"
  shows "snd (basic_failback_loop ctdb fl num_ips retries ips) < num_ips + 5"
  using assms(1-3,6)
proof (induction "nat (num_ips + 5 - retries)" arbitrary: retries ips rule: less_induct)
  case less
  let ?c = "\<lambda>i. node_ip_coverage (int i) ips"
  have fin: "finite S"
    using less.prems(1) by (auto simp: same_takeover_nodes_def intro: finite_subset)
  have "0 \<le> excess S ?c h" by (simp add: excess_def sum_nonneg)
  with less.prems(4) have lt: "retries < num_ips + 5" by simp
  show ?case
  proof (cases "failback_victim ctdb fl ips num_ips retries ips")
    case None
    with lt show ?thesis by (simp add: basic_failback_loop.simps)
  next
    case (Some t)
    define ips' where "ips' = fst (find_takeover_node ctdb fl t ips)"
    from failback_round [OF less.prems(1) Some] obtain a b where
      ab: "a \<in> S" "b \<in> S" "?c b + 1 < ?c a" "\<And>i. i \<in> S \<Longrightarrow> ?c b \<le> ?c i \<and> ?c i \<le> ?c a"
      and c': "(\<lambda>i. node_ip_coverage (int i) ips') = ?c(a := ?c a - 1, b := ?c b + 1)"
      unfolding ips'_def by blast
    have "a \<noteq> b" using ab(3) by auto
    have sum: "(\<Sum>i \<in> S. node_ip_coverage (int i) ips') = sum ?c S"
      using sum_move [OF fin ab(1,2) \<open>a \<noteq> b\<close>, of "\<lambda>x. x" ?c] fun_cong [OF c'] by simp
    have addrs: "map ip_addr ips' = map ip_addr ips"
      using failback_victim_retries [OF Some] by (simp add: ips'_def find_takeover_node_keeps)
    have "max (excess S (\<lambda>i. node_ip_coverage (int i) ips') h)
              (shortfall S (\<lambda>i. node_ip_coverage (int i) ips') f) <
            max (excess S ?c h) (shortfall S ?c f)"
      unfolding c' by (rule potential_decreases [OF fin ab less.prems(2,3) fh])
    with less.prems(4) have pot: "retries + 1 + max (excess S (\<lambda>i. node_ip_coverage (int i) ips') h)
        (shortfall S (\<lambda>i. node_ip_coverage (int i) ips') f) < num_ips + 5"
      by linarith
    have "snd (basic_failback_loop ctdb fl num_ips (retries + 1) ips') < num_ips + 5"
    proof (rule less.hyps)
      show "nat (num_ips + 5 - (retries + 1)) < nat (num_ips + 5 - retries)" using lt by simp
    qed (use less.prems pot in \<open>simp_all only: sum addrs\<close>)
    with Some show ?thesis
      by (simp add: basic_failback_loop.simps [of ctdb fl num_ips retries ips] ips'_def)
  qed
qed

lemma coverage_sum_le:
  assumes "finite S"
  shows "(\<Sum>i \<in> S. node_ip_coverage (int i) ips) \<le> int (length ips)"
proof (induction ips)
  case (Cons ip ips)
  have "(\<Sum>i \<in> S. if ip_pnn ip = int i then 1 else 0) = int (card {i \<in> S. ip_pnn ip = int i})"
    using assms by (simp add: sum.If_cases Int_def)
  also have "card {i \<in> S. ip_pnn ip = int i} \<le> card {nat (ip_pnn ip)}"
    by (rule card_mono) auto
  finally show ?case using Cons by (simp add: sum.distrib)
qed simp

lemma basic_failback_homogeneous:
  assumes same: "same_takeover_nodes ctdb fl S (map ip_addr ips)"
  shows "spread_ok ctdb fl (basic_failback ctdb fl ips (int (length ips)))"
proof -
  let ?c = "\<lambda>i. node_ip_coverage (int i) ips"
  define M n f h where "M = sum ?c S" and "n = int (card S)" and "f = M div n"
    and "h = (if M mod n = 0 then f else f + 1)"
  have fin: "finite S" using same by (auto simp: same_takeover_nodes_def intro: finite_subset)
  have M: "0 \<le> M" "M \<le> int (length ips)"
    by (simp_all add: M_def sum_nonneg coverage_nonneg coverage_sum_le [OF fin])
  have f0: "0 \<le> f" unfolding f_def n_def using M by (simp add: pos_imp_zdiv_nonneg_iff div_int_pos_iff)
  have fM: "n * f \<le> M" and Mh: "M \<le> n * h" and fh: "f \<le> h" "h \<le> f + 1"
  proof -
    have "M = 0" if "n = 0" using that fin by (simp add: n_def M_def)
    moreover have "0 \<le> M mod n \<and> M mod n < n" if "n \<noteq> 0" using that by (simp add: n_def)
    moreover have "M = n * f + M mod n" by (simp add: f_def)
    ultimately show "n * f \<le> M" "M \<le> n * h" "f \<le> h" "h \<le> f + 1"
      by (cases "n = 0"; simp add: h_def distrib_left; linarith)+
  qed
  have "excess S ?c h \<le> M"
    unfolding excess_def M_def using f0 fh by (intro sum_mono) (auto simp: coverage_nonneg max_def)
  moreover have "shortfall S ?c f \<le> (\<Sum>i \<in> S. f)"
    unfolding shortfall_def using f0 by (intro sum_mono) (auto simp: coverage_nonneg max_def)
  ultimately have "0 + max (excess S ?c h) (shortfall S ?c f) < int (length ips) + 5"
    using M fM by (simp add: n_def)
  then have "snd (basic_failback_loop ctdb fl (int (length ips)) 0 ips) < int (length ips) + 5"
    using fM Mh fh by (intro failback_bounded [OF same, of f h]) (simp_all only: M_def n_def)
  then show ?thesis
    using basic_failback_loop_spread [OF prod.collapse [symmetric]] by (simp add: basic_failback_def)
qed

section \<open>Properties\<close>

text \<open>
  The search for a takeover node assigns the address to a node that may take it over and
  serves the fewest addresses among those nodes, leaves all other addresses alone and returns 0;
  it returns -1 and changes nothing exactly when no node may take the address over.
\<close>

lemma find_takeover_node_least_loaded:
  assumes "k < length ips"
  shows "(\<exists>i < length fl. can_node_takeover_ip ctdb (int i) (fl ! i) (ips ! k) \<and>
            (\<forall>j < length fl. can_node_takeover_ip ctdb (int j) (fl ! j) (ips ! k) \<longrightarrow>
               node_ip_coverage (int i) ips \<le> node_ip_coverage (int j) ips) \<and>
            find_takeover_node ctdb fl k ips = (ips[k := (ips ! k)\<lparr>ip_pnn := int i\<rparr>], 0)) \<or>
         \<not> takeover_possible ctdb fl (ips ! k) \<and> find_takeover_node ctdb fl k ips = (ips, -1)"
  by (cases rule: find_takeover_node_cases [where ctdb = ctdb and fl = fl and k = k and ips = ips])
    (auto simp: set_ip_pnn_def)

text \<open>
  C27: the deterministic allocation forgets where addresses were: it depends on the list of
  addresses alone, and it leaves the k-th address on its home node, number k modulo the number of
  nodes, whenever that node can host it.
\<close>

theorem deterministic_alloc_home_node:
  assumes "map ip_addr ips = map ip_addr ips'"
  shows "ip_alloc_deterministic_ips ctdb fl ips = ip_alloc_deterministic_ips ctdb fl ips' \<and>
         (\<forall>k < length ips. fl \<noteq> [] \<longrightarrow>
            can_node_host_ip ctdb (int (k mod length fl)) (fl ! (k mod length fl)) (ips ! k) \<longrightarrow>
            ip_pnn (ip_alloc_deterministic_ips ctdb fl ips ! k) = int (k mod length fl))"
proof -
  from assms have len: "length ips = length ips'" by (metis length_map)
  have "(ips ! k)\<lparr>ip_pnn := n\<rparr> = (ips' ! k)\<lparr>ip_pnn := n\<rparr>" if "k < length ips" for k n
  proof -
    have "ip_addr (ips ! k) = ip_addr (ips' ! k)" using that len assms by (metis nth_map)
    then show ?thesis by (intro ctdb_public_ip_list.equality) simp_all
  qed
  then have "assign_modulo (length fl) ips = assign_modulo (length fl) ips'"
    using len by (intro nth_equalityI) (simp_all add: assign_modulo_keeps)
  moreover have "ip_pnn (ip_alloc_deterministic_ips ctdb fl ips ! k) = int (k mod length fl)"
    if "k < length ips" "fl \<noteq> []"
      "can_node_host_ip ctdb (int (k mod length fl)) (fl ! (k mod length fl)) (ips ! k)" for k
  proof -
    have "hosted ctdb fl (assign_modulo (length fl) ips ! k)"
      using that by (simp add: assign_modulo_keeps hosted_def)
    then have "unassign_unsuitable_ips ctdb fl (assign_modulo (length fl) ips) ! k =
        assign_modulo (length fl) ips ! k"
      using that by (simp add: unassign_keeps assign_modulo_keeps)
    then show ?thesis
      using that by (simp add: ip_alloc_deterministic_ips_def basic_allocate_unassigned_keeps
          unassign_keeps assign_modulo_keeps)
  qed
  ultimately show ?thesis by (simp add: ip_alloc_deterministic_ips_def)
qed

theorem deterministic_alloc_home_node_witness:
  "ip_pnn (ip_alloc_deterministic_ips ex_ctdb ex_ipflags ex_ips ! 1) = 1"
proof -
  have "can_node_host_ip ex_ctdb (int (1 mod length ex_ipflags)) (ex_ipflags ! (1 mod length ex_ipflags))
          (ex_ips ! 1)" "length ex_ipflags = 2" "1 < length ex_ips" by code_simp+
  then show ?thesis
    using deterministic_alloc_home_node [of ex_ips ex_ips ex_ctdb ex_ipflags] by fastforce
qed

text \<open>
  C28: with NoIPFailback set, the non-deterministic allocation never moves an address away from a
  node that can host it.
\<close>

theorem nondeterministic_alloc_sticky:
  assumes "no_ip_failback (tunable ctdb) = 1" "k < length ips" "hosted ctdb fl (ips ! k)"
  shows "ip_alloc_nondeterministic_ips ctdb fl ips ! k = ips ! k"
proof -
  have "ip_pnn (ips ! k) \<noteq> -1" using assms(3) by (simp add: hosted_def)
  with assms show ?thesis
    by (simp add: ip_alloc_nondeterministic_ips_def Let_def basic_allocate_unassigned_keeps unassign_keeps)
qed

theorem nondeterministic_alloc_sticky_witness:
  "ip_alloc_nondeterministic_ips ex_ctdb_sticky ex_ipflags ex_ips ! 1 = ex_ips ! 1"
  by (rule nondeterministic_alloc_sticky) code_simp+

text \<open>
  C22: on a cluster where all addresses have the same takeover nodes, the non-deterministic
  allocation with failback always reaches its goal within its retry bound: the numbers of
  addresses served by two nodes that may take over an assigned address differ by at most one.
\<close>

theorem nondeterministic_alloc_even:
  assumes "same_takeover_nodes ctdb fl S (map ip_addr ips)" "no_ip_failback (tunable ctdb) \<noteq> 1"
  shows "spread_ok ctdb fl (ip_alloc_nondeterministic_ips ctdb fl ips)"
proof -
  let ?ips = "basic_allocate_unassigned ctdb fl (unassign_unsuitable_ips ctdb fl ips)"
  have "length ?ips = length ips" "map ip_addr ?ips = map ip_addr ips"
    by (simp_all add: basic_allocate_unassigned_keeps unassign_keeps)
  with basic_failback_homogeneous [of ctdb fl S ?ips] assms show ?thesis
    by (simp add: ip_alloc_nondeterministic_ips_def Let_def)
qed

theorem nondeterministic_alloc_even_witness:
  "spread_ok ex_ctdb ex_ipflags (ip_alloc_nondeterministic_ips ex_ctdb ex_ipflags ex_ips)"
  by (rule nondeterministic_alloc_even [of _ _ "{0, 1}"]) code_simp+

end
