(* ===== verification/Ip_Alloc_Lcp2.thy ===== *)
theory Ip_Alloc_Lcp2
  imports Ip_Alloc_Basic "HOL-Library.Multiset"
begin

text \<open>
  The LCP2 allocation of \<^verbatim>\<open>server/ctdb_takeover.c\<close>: the initial imbalances and rebalance
  candidates, the allocation of unassigned addresses at least cost, and the failback loop that
  moves addresses from imbalanced nodes to candidates.  The failback loop has no explicit bound, so
  it is a partial function; that it returns is a theorem.  \<^verbatim>\<open>qsort\<close>, which may order equal
  elements in any way, is an argument of the loop.
\<close>

section \<open>Initialisation\<close>

definition lcp2_candidates_assigned :: "ip_list \<Rightarrow> bool list \<Rightarrow> bool list" where
  "lcp2_candidates_assigned all_ips rc =
     fold (\<lambda>tmp_ip rc. if ip_pnn tmp_ip \<noteq> -1 then rc[nat (ip_pnn tmp_ip) := False] else rc) all_ips rc"

definition lcp2_candidates_forced :: "nat \<Rightarrow> u32 list \<Rightarrow> bool list \<Rightarrow> bool list" where
  "lcp2_candidates_forced numnodes force_nodes rc =
     fold (\<lambda>pnn rc. if numnodes \<le> unat pnn then rc else rc[unat pnn := True]) force_nodes rc"

definition lcp2_init ::
    "ctdb_ipflags list \<Rightarrow> ip_list \<Rightarrow> u32 list option \<Rightarrow> u32 list \<times> bool list" where
  "lcp2_init ipflags all_ips force_rebalance_nodes =
     (let numnodes = length ipflags;
          lcp2_imbalances = map (\<lambda>i. lcp2_imbalance all_ips (int i)) [0..<numnodes];
          rc = lcp2_candidates_assigned all_ips (replicate numnodes True)
      in (lcp2_imbalances,
          case force_rebalance_nodes of
            None \<Rightarrow> rc
          | Some force_nodes \<Rightarrow> lcp2_candidates_forced numnodes force_nodes rc))"

section \<open>Allocation of unassigned addresses\<close>

text \<open>
  The two nested loops over unassigned addresses and nodes: the first pair of least cost, with its
  cost \<^verbatim>\<open>mindsum\<close>.
\<close>

definition lcp2_cheapest ::
    "ctdb_context \<Rightarrow> ctdb_ipflags list \<Rightarrow> ip_list \<Rightarrow> ((nat \<times> nat) \<times> u32) option" where
  "lcp2_cheapest ctdb ipflags all_ips =
     argmin (\<lambda>(k, dstnode). ip_pnn (all_ips ! k) = -1 \<and>
                can_node_takeover_ip ctdb (int dstnode) (ipflags ! dstnode) (all_ips ! k))
            (\<lambda>(k, dstnode). ip_distance_2_sum (ip_addr (all_ips ! k)) (Some k) all_ips (int dstnode))
            (List.product [0..<length all_ips] [0..<length ipflags])"

lemma lcp2_cheapest_SomeD:
  assumes "lcp2_cheapest ctdb ipflags all_ips = Some ((k, dst), dsum)"
  shows "k < length all_ips" "dst < length ipflags" "ip_pnn (all_ips ! k) = -1"
    "can_node_takeover_ip ctdb (int dst) (ipflags ! dst) (all_ips ! k)"
    "dsum = ip_distance_2_sum (ip_addr (all_ips ! k)) (Some k) all_ips (int dst)"
    "\<And>k' dst'. k' < length all_ips \<Longrightarrow> dst' < length ipflags \<Longrightarrow> ip_pnn (all_ips ! k') = -1 \<Longrightarrow>
       can_node_takeover_ip ctdb (int dst') (ipflags ! dst') (all_ips ! k') \<Longrightarrow>
       dsum \<le> ip_distance_2_sum (ip_addr (all_ips ! k')) (Some k') all_ips (int dst')"
  using argmin_SomeD [OF assms [unfolded lcp2_cheapest_def]] by auto

lemma lcp2_cheapest_coverage:
  assumes "lcp2_cheapest ctdb ipflags all_ips = Some ((k, dst), dsum)"
  shows "nat (node_ip_coverage (-1) (set_ip_pnn all_ips k (int dst))) < nat (node_ip_coverage (-1) all_ips)"
  using lcp2_cheapest_SomeD(1,3) [OF assms] coverage_nonneg [of "-1" "set_ip_pnn all_ips k (int dst)"]
  by (simp add: coverage_set_ip_pnn)

function lcp2_allocate_unassigned ::
    "ctdb_context \<Rightarrow> ctdb_ipflags list \<Rightarrow> ip_list \<Rightarrow> u32 list \<Rightarrow> ip_list \<times> u32 list" where
  "lcp2_allocate_unassigned ctdb ipflags all_ips lcp2_imbalances =
     (case lcp2_cheapest ctdb ipflags all_ips of
        None \<Rightarrow> (all_ips, lcp2_imbalances)
      | Some ((minip, minnode), mindsum) \<Rightarrow>
          let minimbl = lcp2_imbalances ! minnode + mindsum;
              all_ips' = set_ip_pnn all_ips minip (int minnode);
              lcp2_imbalances' = lcp2_imbalances[minnode := minimbl]
          in if list_ex (\<lambda>tmp_ip. ip_pnn tmp_ip = -1) all_ips'
             then lcp2_allocate_unassigned ctdb ipflags all_ips' lcp2_imbalances'
             else (all_ips', lcp2_imbalances'))"
  by pat_completeness auto
termination
  by (relation "measure (\<lambda>(_, _, ips, _). nat (node_ip_coverage (-1) ips))")
    (auto dest: lcp2_cheapest_coverage)

declare lcp2_allocate_unassigned.simps [simp del]

section \<open>Failback\<close>

text \<open>
  One destination tried for the address at position \<open>k\<close>; the best move so far is
  \<^verbatim>\<open>(minip, minsrcimbl, mindstnode, mindstimbl)\<close>, absent while \<^verbatim>\<open>mindstnode\<close> is \<open>-1\<close>.
\<close>

definition lcp2_try_dst ::
    "ctdb_context \<Rightarrow> ctdb_ipflags list \<Rightarrow> ip_list \<Rightarrow> u32 \<Rightarrow> u32 list \<Rightarrow> bool list \<Rightarrow>
     nat \<Rightarrow> u32 \<Rightarrow> u32 \<Rightarrow> nat \<Rightarrow> (nat \<times> u32 \<times> nat \<times> u32) option \<Rightarrow> (nat \<times> u32 \<times> nat \<times> u32) option" where
  "lcp2_try_dst ctdb ipflags all_ips candimbl lcp2_imbalances rebalance_candidates
       k srcdsum srcimbl dstnode best =
     (if \<not> rebalance_candidates ! dstnode then best
      else if \<not> can_node_takeover_ip ctdb (int dstnode) (ipflags ! dstnode) (all_ips ! k) then best
      else let dstdsum = ip_distance_2_sum (ip_addr (all_ips ! k)) (Some k) all_ips (int dstnode);
               dstimbl = lcp2_imbalances ! dstnode + dstdsum
           in if dstimbl < candimbl \<and> dstdsum < srcdsum \<and>
                 (case best of
                    None \<Rightarrow> True
                  | Some (_, minsrcimbl, _, mindstimbl) \<Rightarrow> srcimbl + dstimbl < minsrcimbl + mindstimbl)
              then Some (k, srcimbl, dstnode, dstimbl)
              else best)"

text \<open>The state of the loop over the addresses: the variable \<^verbatim>\<open>srcimbl\<close> and the best move.\<close>

definition lcp2_try_ip ::
    "ctdb_context \<Rightarrow> ctdb_ipflags list \<Rightarrow> ip_list \<Rightarrow> nat \<Rightarrow> u32 \<Rightarrow> u32 list \<Rightarrow> bool list \<Rightarrow>
     nat \<Rightarrow> u32 \<times> (nat \<times> u32 \<times> nat \<times> u32) option \<Rightarrow> u32 \<times> (nat \<times> u32 \<times> nat \<times> u32) option" where
  "lcp2_try_ip ctdb ipflags all_ips srcnode candimbl lcp2_imbalances rebalance_candidates k st =
     (if ip_pnn (all_ips ! k) \<noteq> int srcnode then st
      else let srcdsum = ip_distance_2_sum (ip_addr (all_ips ! k)) (Some k) all_ips (int srcnode);
               srcimbl = candimbl - srcdsum
           in (srcimbl,
               fold (lcp2_try_dst ctdb ipflags all_ips candimbl lcp2_imbalances rebalance_candidates
                       k srcdsum srcimbl)
                 [0..<length ipflags] (snd st)))"

definition lcp2_failback_candidate ::
    "ctdb_context \<Rightarrow> ctdb_ipflags list \<Rightarrow> ip_list \<Rightarrow> nat \<Rightarrow> u32 \<Rightarrow> u32 list \<Rightarrow> bool list \<Rightarrow>
     bool \<times> ip_list \<times> u32 list" where
  "lcp2_failback_candidate ctdb ipflags all_ips srcnode candimbl lcp2_imbalances rebalance_candidates =
     (case fold (lcp2_try_ip ctdb ipflags all_ips srcnode candimbl lcp2_imbalances rebalance_candidates)
             [0..<length all_ips] (0, None) of
        (srcimbl, None) \<Rightarrow> (False, all_ips, lcp2_imbalances)
      | (srcimbl, Some (minip, minsrcimbl, mindstnode, mindstimbl)) \<Rightarrow>
          (True, set_ip_pnn all_ips minip (int mindstnode),
           lcp2_imbalances[srcnode := srcimbl, mindstnode := mindstimbl]))"

record lcp2_imbalance_pnn =
  imbalance :: u32
  lip_pnn :: nat

definition lcp2_cmp_imbalance_pnn :: "lcp2_imbalance_pnn \<Rightarrow> lcp2_imbalance_pnn \<Rightarrow> int" where
  "lcp2_cmp_imbalance_pnn lipa lipb =
     (if imbalance lipa > imbalance lipb then -1
      else if imbalance lipa = imbalance lipb then 0
      else 1)"

text \<open>The loop over the sorted nodes: the arrays after the first successful move, if there is one.\<close>

fun lcp2_failback_try ::
    "ctdb_context \<Rightarrow> ctdb_ipflags list \<Rightarrow> ip_list \<Rightarrow> u32 list \<Rightarrow> bool list \<Rightarrow>
     lcp2_imbalance_pnn list \<Rightarrow> (ip_list \<times> u32 list) option" where
  "lcp2_failback_try ctdb ipflags all_ips imbs rc [] = None"
| "lcp2_failback_try ctdb ipflags all_ips imbs rc (lip # lips) =
     (if imbalance lip = 0 then None
      else case lcp2_failback_candidate ctdb ipflags all_ips (lip_pnn lip) (imbalance lip) imbs rc of
             (True, all_ips', imbs') \<Rightarrow> Some (all_ips', imbs')
           | (False, _, _) \<Rightarrow> lcp2_failback_try ctdb ipflags all_ips imbs rc lips)"

type_synonym qsort_fn =
  "(lcp2_imbalance_pnn \<Rightarrow> lcp2_imbalance_pnn \<Rightarrow> int) \<Rightarrow> lcp2_imbalance_pnn list \<Rightarrow> lcp2_imbalance_pnn list"

definition lcp2_lips :: "nat \<Rightarrow> u32 list \<Rightarrow> lcp2_imbalance_pnn list" where
  "lcp2_lips numnodes imbs = map (\<lambda>i. \<lparr>imbalance = imbs ! i, lip_pnn = i\<rparr>) [0..<numnodes]"

partial_function (option) lcp2_failback ::
    "qsort_fn \<Rightarrow> ctdb_context \<Rightarrow> ctdb_ipflags list \<Rightarrow> ip_list \<Rightarrow> u32 list \<Rightarrow> bool list \<Rightarrow>
     (ip_list \<times> u32 list) option" where
  "lcp2_failback qsort ctdb ipflags all_ips imbs rc =
     (if length (filter (\<lambda>i. rc ! i) [0..<length ipflags]) = 0 then Some (all_ips, imbs)
      else case lcp2_failback_try ctdb ipflags all_ips imbs rc
                  (qsort lcp2_cmp_imbalance_pnn (lcp2_lips (length ipflags) imbs)) of
             None \<Rightarrow> Some (all_ips, imbs)
           | Some r \<Rightarrow> lcp2_failback qsort ctdb ipflags (fst r) (snd r) rc)"

declare lcp2_failback.simps [code]

definition ip_alloc_lcp2 ::
    "qsort_fn \<Rightarrow> ctdb_context \<Rightarrow> ctdb_ipflags list \<Rightarrow> ip_list \<Rightarrow> u32 list option \<Rightarrow> ip_list option" where
  "ip_alloc_lcp2 qsort ctdb ipflags all_ips force_rebalance_nodes =
     (let ips1 = unassign_unsuitable_ips ctdb ipflags all_ips;
          (imbs1, rc) = lcp2_init ipflags ips1 force_rebalance_nodes;
          (ips2, imbs2) = lcp2_allocate_unassigned ctdb ipflags ips1 imbs1
      in if no_ip_failback (tunable ctdb) = 1 then Some ips2
         else map_option fst (lcp2_failback qsort ctdb ipflags ips2 imbs2 rc))"

section \<open>Allocation: lemmas\<close>

definition imbalances_exact :: "nat \<Rightarrow> ip_list \<Rightarrow> u32 list \<Rightarrow> bool" where
  "imbalances_exact numnodes ips imbs \<longleftrightarrow>
     length imbs = numnodes \<and> (\<forall>i < numnodes. imbs ! i = lcp2_imbalance ips (int i))"

lemma imbalances_exact_assign:
  assumes "imbalances_exact n ips imbs" "k < length ips" "ip_pnn (ips ! k) = -1" "dst < n"
  shows "imbalances_exact n (set_ip_pnn ips k (int dst))
    (imbs[dst := imbs ! dst + ip_distance_2_sum (ip_addr (ips ! k)) (Some k) ips (int dst)])"
  using assms
  by (auto simp: imbalances_exact_def nth_list_update lcp2_imbalance_weight ip_distance_2_sum_weight
      d2.imbalance_add d2.imbalance_set_other)

lemma lcp2_allocate_unassigned_keeps:
  assumes "lcp2_allocate_unassigned ctdb fl ips imbs = (ips', imbs')"
  shows "map ip_addr ips' = map ip_addr ips \<and> length ips' = length ips \<and>
    (well_served ctdb fl ips \<longrightarrow> well_served ctdb fl ips') \<and> complete_alloc ctdb fl ips' \<and>
    (imbalances_exact (length fl) ips imbs \<longrightarrow> imbalances_exact (length fl) ips' imbs') \<and>
    (\<forall>k < length ips. ip_pnn (ips ! k) \<noteq> -1 \<longrightarrow> ips' ! k = ips ! k)"
  using assms
proof (induction ctdb fl ips imbs rule: lcp2_allocate_unassigned.induct)
  case (1 ctdb fl ips imbs)
  show ?case
  proof (cases "lcp2_cheapest ctdb fl ips")
    case None
    then have "complete_alloc ctdb fl ips"
      by (auto simp: lcp2_cheapest_def argmin_None_iff complete_alloc_def takeover_possible_def
          in_set_conv_nth)
    with None "1.prems" show ?thesis by (simp add: lcp2_allocate_unassigned.simps)
  next
    case (Some p)
    obtain k dst dsum where p: "p = ((k, dst), dsum)" by (cases p) auto
    note D = lcp2_cheapest_SomeD [OF Some [unfolded p]]
    define ips1 imbs1 where "ips1 = set_ip_pnn ips k (int dst)" and "imbs1 = imbs[dst := imbs ! dst + dsum]"
    have keep: "map ip_addr ips1 = map ip_addr ips" "length ips1 = length ips"
      "well_served ctdb fl ips \<longrightarrow> well_served ctdb fl ips1"
      "imbalances_exact (length fl) ips imbs \<longrightarrow> imbalances_exact (length fl) ips1 imbs1"
      "\<forall>j < length ips. ip_pnn (ips ! j) \<noteq> -1 \<longrightarrow> ips1 ! j = ips ! j"
      using D imbalances_exact_assign [of "length fl" ips imbs k dst]
      by (auto simp: ips1_def imbs1_def well_served_set)
    show ?thesis
    proof (cases "list_ex (\<lambda>ip. ip_pnn ip = -1) ips1")
      case True
      then have "lcp2_allocate_unassigned ctdb fl ips1 imbs1 = (ips', imbs')"
        using "1.prems" Some p by (simp add: lcp2_allocate_unassigned.simps [of ctdb fl ips] ips1_def imbs1_def Let_def)
      with "1.IH" [OF Some p [symmetric] refl refl refl] True keep show ?thesis
        unfolding ips1_def imbs1_def by simp
    next
      case False
      then have "ips' = ips1" "imbs' = imbs1" "complete_alloc ctdb fl ips1"
        using "1.prems" Some p
        by (auto simp: lcp2_allocate_unassigned.simps [of ctdb fl ips] ips1_def imbs1_def Let_def
            complete_alloc_def list_ex_iff)
      with keep show ?thesis by simp
    qed
  qed
qed

lemma lcp2_init_exact: "imbalances_exact (length fl) ips (fst (lcp2_init fl ips force))"
  by (simp add: lcp2_init_def imbalances_exact_def Let_def)

lemma candidates_assigned_nth:
  "i < length rc \<Longrightarrow>
     lcp2_candidates_assigned ips rc ! i \<longleftrightarrow> rc ! i \<and> (\<forall>ip \<in> set ips. ip_pnn ip = -1 \<or> nat (ip_pnn ip) \<noteq> i)"
  "length (lcp2_candidates_assigned ips rc) = length rc"
  unfolding lcp2_candidates_assigned_def
  by (induction ips arbitrary: rc) (auto simp: nth_update_if)

lemma candidates_forced_nth:
  "length (lcp2_candidates_forced n fs rc) = length rc"
  "length rc = n \<Longrightarrow> i < n \<Longrightarrow>
     lcp2_candidates_forced n fs rc ! i \<longleftrightarrow> rc ! i \<or> (\<exists>f \<in> set fs. unat f = i)"
  unfolding lcp2_candidates_forced_def
  by (induction fs arbitrary: rc) (auto simp: nth_update_if)

section \<open>Failback: lemmas\<close>

text \<open>The move considered for a pair of an address and a destination.\<close>

definition failback_move_ok ::
    "ctdb_context \<Rightarrow> ctdb_ipflags list \<Rightarrow> ip_list \<Rightarrow> nat \<Rightarrow> u32 \<Rightarrow> u32 list \<Rightarrow> bool list \<Rightarrow> nat \<times> nat \<Rightarrow> bool" where
  "failback_move_ok ctdb fl ips src candimbl imbs rc m =
     (case m of (k, dst) \<Rightarrow>
        ip_pnn (ips ! k) = int src \<and> rc ! dst \<and>
        can_node_takeover_ip ctdb (int dst) (fl ! dst) (ips ! k) \<and>
        imbs ! dst + ip_distance_2_sum (ip_addr (ips ! k)) (Some k) ips (int dst) < candimbl \<and>
        ip_distance_2_sum (ip_addr (ips ! k)) (Some k) ips (int dst)
          < ip_distance_2_sum (ip_addr (ips ! k)) (Some k) ips (int src))"

definition failback_move_cost :: "ip_list \<Rightarrow> nat \<Rightarrow> u32 \<Rightarrow> u32 list \<Rightarrow> nat \<times> nat \<Rightarrow> u32" where
  "failback_move_cost ips src candimbl imbs m =
     (case m of (k, dst) \<Rightarrow>
        (candimbl - ip_distance_2_sum (ip_addr (ips ! k)) (Some k) ips (int src)) +
        (imbs ! dst + ip_distance_2_sum (ip_addr (ips ! k)) (Some k) ips (int dst)))"

fun failback_best :: "ip_list \<Rightarrow> nat \<Rightarrow> u32 \<Rightarrow> u32 list \<Rightarrow> ((nat \<times> nat) \<times> u32) option \<Rightarrow> (nat \<times> u32 \<times> nat \<times> u32) option" where
  "failback_best ips src candimbl imbs None = None"
| "failback_best ips src candimbl imbs (Some ((k, dst), _)) =
     Some (k, candimbl - ip_distance_2_sum (ip_addr (ips ! k)) (Some k) ips (int src), dst,
           imbs ! dst + ip_distance_2_sum (ip_addr (ips ! k)) (Some k) ips (int dst))"

lemma fold_product: "fold f (List.product xs ys) s = fold (\<lambda>x. fold f (map (Pair x) ys)) xs s"
  by (induction xs arbitrary: s) auto

lemma try_dst_argmin:
  fixes ctdb fl ips src candimbl imbs rc
  defines "ok \<equiv> failback_move_ok ctdb fl ips src candimbl imbs rc"
    and "cost \<equiv> failback_move_cost ips src candimbl imbs"
  assumes "ip_pnn (ips ! k) = int src" "\<And>p m. best = Some (p, m) \<Longrightarrow> m = cost p"
  defines "srcdsum \<equiv> ip_distance_2_sum (ip_addr (ips ! k)) (Some k) ips (int src)"
  shows "lcp2_try_dst ctdb fl ips candimbl imbs rc k srcdsum (candimbl - srcdsum) d
           (failback_best ips src candimbl imbs best) =
         failback_best ips src candimbl imbs (argmin_step ok cost (k, d) best) \<and>
         (\<forall>p m. argmin_step ok cost (k, d) best = Some (p, m) \<longrightarrow> m = cost p)"
proof (cases best)
  case None
  with assms(3) show ?thesis
    by (auto simp: lcp2_try_dst_def argmin_step_def ok_def cost_def failback_move_ok_def srcdsum_def Let_def
        failback_move_cost_def)
next
  case (Some b)
  then obtain k' d' m' where b: "best = Some ((k', d'), m')" by (cases b) auto
  with assms(4) have m': "m' = cost (k', d')" by simp
  show ?thesis
    using assms(3) m' unfolding b
    by (auto simp: lcp2_try_dst_def argmin_step_def ok_def cost_def failback_move_ok_def srcdsum_def Let_def
        failback_move_cost_def)
qed

lemma lcp2_init_candidates:
  assumes "i < length fl" "ips_ok (length fl) ips"
  shows "snd (lcp2_init fl ips force) ! i \<longleftrightarrow>
    (\<forall>ip \<in> set ips. ip_pnn ip \<noteq> int i) \<or> (\<exists>fs. force = Some fs \<and> (\<exists>f \<in> set fs. unat f = i))"
proof -
  have "(ip_pnn ip = -1 \<or> nat (ip_pnn ip) \<noteq> i) = (ip_pnn ip \<noteq> int i)" if "ip \<in> set ips" for ip
    using that assms(2) by (auto simp: ips_ok_def)
  with assms(1) show ?thesis
    by (auto simp: lcp2_init_def Let_def candidates_assigned_nth candidates_forced_nth split: option.splits)
qed
lemma try_dst_fold:
  fixes ctdb fl ips src candimbl imbs rc
  defines "ok \<equiv> failback_move_ok ctdb fl ips src candimbl imbs rc"
    and "cost \<equiv> failback_move_cost ips src candimbl imbs"
  assumes pnn: "ip_pnn (ips ! k) = int src"
  defines "srcdsum \<equiv> ip_distance_2_sum (ip_addr (ips ! k)) (Some k) ips (int src)"
  shows "(\<And>p m. best = Some (p, m) \<Longrightarrow> m = cost p) \<Longrightarrow>
         fold (lcp2_try_dst ctdb fl ips candimbl imbs rc k srcdsum (candimbl - srcdsum)) ds
           (failback_best ips src candimbl imbs best) =
         failback_best ips src candimbl imbs (fold (argmin_step ok cost) (map (Pair k) ds) best) \<and>
         (\<forall>p m. fold (argmin_step ok cost) (map (Pair k) ds) best = Some (p, m) \<longrightarrow> m = cost p)"
proof (induction ds arbitrary: best)
  case (Cons d ds)
  note step = try_dst_argmin [OF pnn, where ctdb = ctdb and fl = fl and candimbl = candimbl and imbs = imbs
      and rc = rc and d = d and best = best, folded ok_def cost_def srcdsum_def, OF Cons.prems]
  show ?case using Cons.IH [of "argmin_step ok cost (k, d) best"] step by simp
qed simp

lemma argmin_skip: "\<forall>x \<in> set xs. \<not> ok x \<Longrightarrow> fold (argmin_step ok val) xs best = best"
  by (induction xs) (auto simp: argmin_step_def)

lemma try_ip_fold:
  fixes ctdb fl ips src candimbl imbs rc
  defines "ok \<equiv> failback_move_ok ctdb fl ips src candimbl imbs rc"
    and "cost \<equiv> failback_move_cost ips src candimbl imbs"
  shows "(\<And>p m. best = Some (p, m) \<Longrightarrow> m = cost p) \<Longrightarrow>
         snd (fold (lcp2_try_ip ctdb fl ips src candimbl imbs rc) ks (s0, failback_best ips src candimbl imbs best)) =
         failback_best ips src candimbl imbs (fold (argmin_step ok cost) (List.product ks [0..<length fl]) best)"
proof (induction ks arbitrary: s0 best)
  case (Cons k ks)
  define best' where "best' = fold (argmin_step ok cost) (map (Pair k) [0..<length fl]) best"
  have "snd (lcp2_try_ip ctdb fl ips src candimbl imbs rc k (s0, failback_best ips src candimbl imbs best)) =
          failback_best ips src candimbl imbs best' \<and> (\<forall>p m. best' = Some (p, m) \<longrightarrow> m = cost p)"
  proof (cases "ip_pnn (ips ! k) = int src")
    case True
    with try_dst_fold [OF True, where ctdb = ctdb and fl = fl and candimbl = candimbl and imbs = imbs
        and rc = rc and ds = "[0..<length fl]" and best = best, folded ok_def cost_def, OF Cons.prems]
    show ?thesis by (simp add: lcp2_try_ip_def best'_def Let_def)
  next
    case False
    then have "best' = best"
      unfolding best'_def ok_def by (intro argmin_skip) (auto simp: failback_move_ok_def)
    with False Cons.prems show ?thesis by (simp add: lcp2_try_ip_def)
  qed
  then show ?case
    using Cons.IH [of best' "fst (lcp2_try_ip ctdb fl ips src candimbl imbs rc k (s0, failback_best ips src candimbl imbs best))"]
    by (simp add: best'_def) (metis prod.collapse)
qed simp

text \<open>
  A call either finds no acceptable move and changes nothing, or makes an acceptable move of least
  resulting imbalance.
\<close>

lemma lcp2_failback_candidate_cases:
  obtains (none) "lcp2_failback_candidate ctdb fl ips src candimbl imbs rc = (False, ips, imbs)"
      "\<And>k dst. k < length ips \<Longrightarrow> dst < length fl \<Longrightarrow> \<not> failback_move_ok ctdb fl ips src candimbl imbs rc (k, dst)"
  | (move) k dst srcimbl where
      "lcp2_failback_candidate ctdb fl ips src candimbl imbs rc =
         (True, set_ip_pnn ips k (int dst), imbs[src := srcimbl,
            dst := imbs ! dst + ip_distance_2_sum (ip_addr (ips ! k)) (Some k) ips (int dst)])"
      "k < length ips" "dst < length fl" "failback_move_ok ctdb fl ips src candimbl imbs rc (k, dst)"
      "\<And>k' dst'. k' < length ips \<Longrightarrow> dst' < length fl \<Longrightarrow>
         failback_move_ok ctdb fl ips src candimbl imbs rc (k', dst') \<Longrightarrow>
         failback_move_cost ips src candimbl imbs (k, dst) \<le> failback_move_cost ips src candimbl imbs (k', dst')"
proof -
  define ms where "ms = List.product [0..<length ips] [0..<length fl]"
  define r where "r = fold (lcp2_try_ip ctdb fl ips src candimbl imbs rc) [0..<length ips] (0, None)"
  let ?ok = "failback_move_ok ctdb fl ips src candimbl imbs rc"
  let ?cost = "failback_move_cost ips src candimbl imbs"
  have r: "snd r = failback_best ips src candimbl imbs (argmin ?ok ?cost ms)"
    using try_ip_fold [of None ips src candimbl imbs ctdb fl rc "[0..<length ips]" 0]
    by (simp add: r_def ms_def argmin_def)
  show thesis
  proof (cases "argmin ?ok ?cost ms")
    case None
    then have "\<not> ?ok (k, dst)" if "k < length ips" "dst < length fl" for k dst
      using that by (auto simp: argmin_None_iff ms_def)
    moreover have "lcp2_failback_candidate ctdb fl ips src candimbl imbs rc = (False, ips, imbs)"
      using r None unfolding lcp2_failback_candidate_def r_def by (auto split: prod.splits)
    ultimately show thesis by (intro none)
  next
    case (Some p)
    obtain k dst m where p: "p = ((k, dst), m)" by (cases p) auto
    from argmin_SomeD [OF Some [unfolded p]]
    have "k < length ips" "dst < length fl" "?ok (k, dst)"
      and least: "\<And>q. q \<in> set ms \<Longrightarrow> ?ok q \<Longrightarrow> ?cost (k, dst) \<le> ?cost q"
      by (auto simp: ms_def)
    moreover have "lcp2_failback_candidate ctdb fl ips src candimbl imbs rc =
         (True, set_ip_pnn ips k (int dst), imbs[src := fst r,
            dst := imbs ! dst + ip_distance_2_sum (ip_addr (ips ! k)) (Some k) ips (int dst)])"
      using r Some p unfolding lcp2_failback_candidate_def r_def by (auto split: prod.splits)
    ultimately show thesis by (intro move [of k dst "fst r"]) (auto simp: ms_def)
  qed
qed
text \<open>What the C library promises of \<^verbatim>\<open>qsort\<close> with the comparison the code passes.\<close>

definition qsort_ok :: "qsort_fn \<Rightarrow> bool" where
  "qsort_ok qsort \<longleftrightarrow>
     (\<forall>ls. mset (qsort lcp2_cmp_imbalance_pnn ls) = mset ls \<and>
           sorted_wrt (\<lambda>a b. lcp2_cmp_imbalance_pnn a b \<le> 0) (qsort lcp2_cmp_imbalance_pnn ls))"

lemma qsort_set: "qsort_ok qsort \<Longrightarrow> set (qsort lcp2_cmp_imbalance_pnn ls) = set ls"
  unfolding qsort_ok_def by (metis set_mset_mset)

lemma lcp2_failback_try_SomeD:
  "lcp2_failback_try ctdb fl ips imbs rc lips = Some (ips', imbs') \<Longrightarrow>
     \<exists>lip \<in> set lips. lcp2_failback_candidate ctdb fl ips (lip_pnn lip) (imbalance lip) imbs rc = (True, ips', imbs')"
  by (induction lips) (auto split: if_splits prod.splits bool.splits)

lemma lcp2_failback_try_NoneD:
  "lcp2_failback_try ctdb fl ips imbs rc lips = None \<Longrightarrow>
     sorted_wrt (\<lambda>a b. lcp2_cmp_imbalance_pnn a b \<le> 0) lips \<Longrightarrow> lip \<in> set lips \<Longrightarrow> imbalance lip \<noteq> 0 \<Longrightarrow>
     \<not> fst (lcp2_failback_candidate ctdb fl ips (lip_pnn lip) (imbalance lip) imbs rc)"
proof (induction lips)
  case (Cons l lips)
  from Cons.prems have "imbalance l \<noteq> 0"
    by (auto simp: lcp2_cmp_imbalance_pnn_def split: if_splits)
  with Cons show ?case by (auto split: prod.splits bool.splits)
qed simp

definition lcp2_potential :: "nat \<Rightarrow> ip_list \<Rightarrow> nat" where
  "lcp2_potential numnodes ips = (\<Sum>i < numnodes. weight_imbalance dist2_nat ips (int i))"

lemma lcp2_potential_decreases:
  assumes "lcp2_failback_candidate ctdb fl ips src candimbl imbs rc = (True, ips', imbs')"
    and "src < length fl" "length ips < 2 ^ 18"
  shows "lcp2_potential (length fl) ips' < lcp2_potential (length fl) ips"
proof (cases rule: lcp2_failback_candidate_cases [of ctdb fl ips src candimbl imbs rc])
  case (move k dst srcimbl)
  let ?s = "\<lambda>n. weight_sum dist2_nat (ip_addr (ips ! k)) (Some k) ips (int n)"
  from move(4) have pnn: "ip_pnn (ips ! k) = int src" and lt: "?s dst < ?s src"
    using assms(3) by (auto simp: failback_move_ok_def unat_ip_distance_2_sum [symmetric] word_less_nat_alt)
  then have "src \<noteq> dst" by auto
  from d2n.total_move [OF move(2) pnn this assms(2) move(3)] lt move(1) assms(1) show ?thesis
    by (simp add: lcp2_potential_def)
qed (use assms(1) in simp)

lemma failback_src:
  assumes "qsort_ok qsort"
    and "lcp2_failback_try ctdb fl ips imbs rc (qsort lcp2_cmp_imbalance_pnn (lcp2_lips (length fl) imbs)) = Some (ips', imbs')"
  obtains src where "src < length fl"
    "lcp2_failback_candidate ctdb fl ips src (imbs ! src) imbs rc = (True, ips', imbs')"
  using lcp2_failback_try_SomeD [OF assms(2)] by (auto simp: qsort_set [OF assms(1)] lcp2_lips_def)

text \<open>The loop returns: every round lowers the potential.\<close>

lemma lcp2_failback_returns:
  assumes "qsort_ok qsort"
  shows "length ips < 2 ^ 18 \<Longrightarrow> \<exists>r. lcp2_failback qsort ctdb fl ips imbs rc = Some r"
proof (induction "lcp2_potential (length fl) ips" arbitrary: ips imbs rule: less_induct)
  case less
  let ?tried = "lcp2_failback_try ctdb fl ips imbs rc (qsort lcp2_cmp_imbalance_pnn (lcp2_lips (length fl) imbs))"
  show ?case
  proof (cases ?tried)
    case None
    then show ?thesis by (simp add: lcp2_failback.simps [of qsort ctdb fl ips])
  next
    case (Some r)
    obtain ips' imbs' where r: "r = (ips', imbs')" by (cases r)
    from failback_src [OF assms Some [unfolded r]] obtain src where
      src: "src < length fl" "lcp2_failback_candidate ctdb fl ips src (imbs ! src) imbs rc = (True, ips', imbs')" .
    then have "length ips' = length ips"
      by (cases rule: lcp2_failback_candidate_cases [of ctdb fl ips src "imbs ! src" imbs rc]) auto
    with lcp2_potential_decreases [OF src(2,1)] less have "\<exists>r. lcp2_failback qsort ctdb fl ips' imbs' rc = Some r"
      by simp
    with Some r show ?thesis by (simp add: lcp2_failback.simps [of qsort ctdb fl ips])
  qed
qed

lemma lcp2_failback_invariant:
  assumes "qsort_ok qsort"
    and step: "\<And>ips imbs k dst src srcimbl. I ips imbs \<Longrightarrow> src < length fl \<Longrightarrow> k < length ips \<Longrightarrow> dst < length fl \<Longrightarrow>
       failback_move_ok ctdb fl ips src (imbs ! src) imbs rc (k, dst) \<Longrightarrow>
       I (set_ip_pnn ips k (int dst)) (imbs[src := srcimbl,
          dst := imbs ! dst + ip_distance_2_sum (ip_addr (ips ! k)) (Some k) ips (int dst)])"
  shows "lcp2_failback qsort ctdb fl ips imbs rc = Some (ips', imbs') \<Longrightarrow> I ips imbs \<Longrightarrow> I ips' imbs'"
proof -
  define P where "P = (\<lambda>q c f ips imbs r res. q = qsort \<and> c = ctdb \<and> f = fl \<and> r = rc \<longrightarrow> I ips imbs \<longrightarrow> I (fst res) (snd res))"
  have "lcp2_failback q c f ips imbs r = Some res \<Longrightarrow> P q c f ips imbs r res" for q c f r res
  proof (erule lcp2_failback.raw_induct [where P = P, rotated])
    fix self q c f ips imbs r res
    assume IH: "\<And>q c f ips imbs r res. self q c f ips imbs r = Some res \<Longrightarrow> P q c f ips imbs r res"
      and body: "(if length (filter (\<lambda>i. r ! i) [0..<length f]) = 0 then Some (ips, imbs)
         else case lcp2_failback_try c f ips imbs r (q lcp2_cmp_imbalance_pnn (lcp2_lips (length f) imbs)) of
             None \<Rightarrow> Some (ips, imbs)
           | Some s \<Rightarrow> self q c f (fst s) (snd s) r) = Some res"
    show "P q c f ips imbs r res"
      unfolding P_def
    proof (intro impI, elim conjE)
      assume eqs: "q = qsort" "c = ctdb" "f = fl" "r = rc" and I: "I ips imbs"
      show "I (fst res) (snd res)"
      proof (cases "lcp2_failback_try ctdb fl ips imbs rc (qsort lcp2_cmp_imbalance_pnn (lcp2_lips (length fl) imbs))")
        case None
        with body eqs I show ?thesis by (auto split: if_splits)
      next
        case (Some s)
        obtain ips' imbs' where s: "s = (ips', imbs')" by (cases s)
        from failback_src [OF assms(1) Some [unfolded s]] obtain src where
          src: "src < length fl" "lcp2_failback_candidate ctdb fl ips src (imbs ! src) imbs rc = (True, ips', imbs')" .
        then have "I ips' imbs'"
          by (cases rule: lcp2_failback_candidate_cases [of ctdb fl ips src "imbs ! src" imbs rc])
            (use step [OF I src(1)] in auto)
        with IH [of qsort ctdb fl ips' imbs' rc res] body eqs I Some s show ?thesis
          by (auto simp: P_def split: if_splits)
      qed
    qed
  qed
  then show "lcp2_failback qsort ctdb fl ips imbs rc = Some (ips', imbs') \<Longrightarrow> I ips imbs \<Longrightarrow> I ips' imbs'"
    by (fastforce simp: P_def)
qed
lemma lcp2_failback_stops:
  assumes "lcp2_failback qsort ctdb fl ips imbs rc = Some (ips', imbs')"
  shows "(\<forall>dst < length fl. \<not> rc ! dst) \<or>
    lcp2_failback_try ctdb fl ips' imbs' rc (qsort lcp2_cmp_imbalance_pnn (lcp2_lips (length fl) imbs')) = None"
proof -
  define P where "P = (\<lambda>q c f (ips :: ip_list) (imbs :: u32 list) r res. (\<forall>dst < length f. \<not> r ! dst) \<or>
    lcp2_failback_try c f (fst res) (snd res) r (q lcp2_cmp_imbalance_pnn (lcp2_lips (length f) (snd res))) = None)"
  have "P qsort ctdb fl ips imbs rc (ips', imbs')"
    using assms
    by (rule lcp2_failback.raw_induct [where P = P, rotated])
      (auto simp: P_def filter_empty_conv split: if_splits option.splits)
  then show ?thesis by (simp add: P_def)
qed

lemma failback_keeps:
  assumes "qsort_ok qsort" "lcp2_failback qsort ctdb fl ips imbs rc = Some (ips', imbs')"
  shows "map ip_addr ips' = map ip_addr ips"
    and "well_served ctdb fl ips \<Longrightarrow> well_served ctdb fl ips'"
    and "complete_alloc ctdb fl ips \<Longrightarrow> complete_alloc ctdb fl ips'"
    and "\<forall>k < length ips. ips' ! k = ips ! k \<or> (\<exists>dst < length fl. rc ! dst \<and> ip_pnn (ips' ! k) = int dst)"
proof -
  note inv = lcp2_failback_invariant [OF assms(1) _ assms(2)]
  show "map ip_addr ips' = map ip_addr ips"
    by (rule inv [where I = "\<lambda>x _. map ip_addr x = map ip_addr ips"]) auto
  show "well_served ctdb fl ips \<Longrightarrow> well_served ctdb fl ips'"
    by (rule inv [where I = "\<lambda>x _. well_served ctdb fl x"]) (auto simp: well_served_set failback_move_ok_def)
  show "complete_alloc ctdb fl ips \<Longrightarrow> complete_alloc ctdb fl ips'"
    by (rule inv [where I = "\<lambda>x _. complete_alloc ctdb fl x"]) (auto simp: complete_alloc_set)
  have "length ips' = length ips \<and>
      (\<forall>k < length ips. ips' ! k = ips ! k \<or> (\<exists>dst < length fl. rc ! dst \<and> ip_pnn (ips' ! k) = int dst))"
    by (rule inv [where I = "\<lambda>x _. length x = length ips \<and>
      (\<forall>k < length ips. x ! k = ips ! k \<or> (\<exists>dst < length fl. rc ! dst \<and> ip_pnn (x ! k) = int dst))"])
      (auto simp: failback_move_ok_def)
  then show "\<forall>k < length ips. ips' ! k = ips ! k \<or> (\<exists>dst < length fl. rc ! dst \<and> ip_pnn (ips' ! k) = int dst)"
    by simp
qed

section \<open>The contract of the LCP2 allocation\<close>

text \<open>The steps of a successful run.\<close>

lemma ip_alloc_lcp2_cases:
  assumes "ip_alloc_lcp2 qsort ctdb fl ips force = Some ips'"
  obtains ips1 imbs1 rc ips2 imbs2 where
    "ips1 = unassign_unsuitable_ips ctdb fl ips" "lcp2_init fl ips1 force = (imbs1, rc)"
    "lcp2_allocate_unassigned ctdb fl ips1 imbs1 = (ips2, imbs2)"
    "no_ip_failback (tunable ctdb) = 1 \<and> ips' = ips2 \<or>
     no_ip_failback (tunable ctdb) \<noteq> 1 \<and> (\<exists>imbs'. lcp2_failback qsort ctdb fl ips2 imbs2 rc = Some (ips', imbs'))"
  using assms by (fastforce simp: ip_alloc_lcp2_def Let_def split: prod.splits if_splits)

locale lcp2_environment =
  fixes qsort :: qsort_fn and force :: "u32 list option"
  assumes qsort: "qsort_ok qsort"
begin

lemma alloc_result:
  assumes "ip_alloc_lcp2 qsort ctdb fl ips force = Some ips'"
  shows "map ip_addr ips' = map ip_addr ips \<and>
    (ips_ok (length fl) ips \<longrightarrow> well_served ctdb fl ips' \<and> complete_alloc ctdb fl ips')"
  using assms
proof (cases rule: ip_alloc_lcp2_cases)
  case (1 ips1 imbs1 rc ips2 imbs2)
  note A = lcp2_allocate_unassigned_keeps [OF 1(3)]
  have "map ip_addr ips1 = map ip_addr ips" "ips_ok (length fl) ips \<Longrightarrow> well_served ctdb fl ips1"
    unfolding 1(1) by (simp_all add: unassign_keeps)
  with A 1(4) show ?thesis
    using failback_keeps [OF qsort, of ctdb fl ips2 imbs2 rc ips'] by auto
qed

lemma alloc_returns:
  assumes "length ips < 2 ^ 18"
  shows "\<exists>ips'. ip_alloc_lcp2 qsort ctdb fl ips force = Some ips'"
proof -
  define ips1 where "ips1 = unassign_unsuitable_ips ctdb fl ips"
  obtain imbs1 rc where init: "lcp2_init fl ips1 force = (imbs1, rc)" by fastforce
  obtain ips2 imbs2 where al: "lcp2_allocate_unassigned ctdb fl ips1 imbs1 = (ips2, imbs2)" by fastforce
  have "length ips2 < 2 ^ 18"
    using lcp2_allocate_unassigned_keeps [OF al] assms by (simp add: ips1_def unassign_keeps)
  from lcp2_failback_returns [OF qsort this, of ctdb fl imbs2 rc] init al show ?thesis
    by (auto simp: ip_alloc_lcp2_def Let_def ips1_def)
qed

end

sublocale lcp2_environment \<subseteq> lcp2_alloc: ip_allocator
  "\<lambda>ctdb fl ips. ip_alloc_lcp2 qsort ctdb fl ips force" "\<lambda>ips. length ips < 2 ^ 18"
  by unfold_locales (auto dest: alloc_result intro: alloc_returns)

text \<open>A sort that keeps the promise, for the examples: insertion by the comparison function.\<close>

fun cmp_insert :: "('a \<Rightarrow> 'a \<Rightarrow> int) \<Rightarrow> 'a \<Rightarrow> 'a list \<Rightarrow> 'a list" where
  "cmp_insert cmp x [] = [x]"
| "cmp_insert cmp x (y # ys) = (if cmp x y \<le> 0 then x # y # ys else y # cmp_insert cmp x ys)"

definition cmp_sort :: "('a \<Rightarrow> 'a \<Rightarrow> int) \<Rightarrow> 'a list \<Rightarrow> 'a list" where
  "cmp_sort cmp xs = foldr (cmp_insert cmp) xs []"

lemma mset_cmp_insert: "mset (cmp_insert cmp x xs) = add_mset x (mset xs)"
  by (induction xs) auto

lemma lcp2_cmp_le: "lcp2_cmp_imbalance_pnn a b \<le> 0 \<longleftrightarrow> imbalance b \<le> imbalance a"
  by (auto simp: lcp2_cmp_imbalance_pnn_def)

lemma cmp_insert_sorted:
  "sorted_wrt (\<lambda>a b. lcp2_cmp_imbalance_pnn a b \<le> 0) xs \<Longrightarrow>
     sorted_wrt (\<lambda>a b. lcp2_cmp_imbalance_pnn a b \<le> 0) (cmp_insert lcp2_cmp_imbalance_pnn x xs)"
proof (induction xs)
  case (Cons y ys)
  have "set (cmp_insert lcp2_cmp_imbalance_pnn x ys) = insert x (set ys)"
    using mset_cmp_insert [of lcp2_cmp_imbalance_pnn x ys] by (metis set_mset_add_mset_insert set_mset_mset)
  with Cons show ?case by (auto simp: lcp2_cmp_le)
qed simp

lemma qsort_ok_cmp_sort: "qsort_ok cmp_sort"
proof -
  have "mset (cmp_sort cmp ls) = mset ls" for cmp and ls :: "lcp2_imbalance_pnn list"
    unfolding cmp_sort_def by (induction ls) (auto simp: mset_cmp_insert)
  moreover have "sorted_wrt (\<lambda>a b. lcp2_cmp_imbalance_pnn a b \<le> 0) (cmp_sort lcp2_cmp_imbalance_pnn ls)" for ls
    unfolding cmp_sort_def by (induction ls) (auto simp: cmp_insert_sorted)
  ultimately show ?thesis by (simp add: qsort_ok_def)
qed

interpretation lcp2_sorted: lcp2_environment cmp_sort force for force
  by unfold_locales (rule qsort_ok_cmp_sort)

lemma failback_potential:
  assumes "qsort_ok qsort" "lcp2_failback qsort ctdb fl ips imbs rc = Some (ips', imbs')" "length ips < 2 ^ 18"
  shows "lcp2_potential (length fl) ips' \<le> lcp2_potential (length fl) ips"
proof -
  have "length ips' = length ips \<and> lcp2_potential (length fl) ips' \<le> lcp2_potential (length fl) ips"
  proof (rule lcp2_failback_invariant [OF assms(1) _ assms(2), where
        I = "\<lambda>x _. length x = length ips \<and> lcp2_potential (length fl) x \<le> lcp2_potential (length fl) ips"])
    fix x imbs k dst src and srcimbl :: u32
    assume I: "length x = length ips \<and> lcp2_potential (length fl) x \<le> lcp2_potential (length fl) ips"
      and m: "src < length fl" "k < length x" "dst < length fl"
        "failback_move_ok ctdb fl x src (imbs ! src) imbs rc (k, dst)"
    let ?s = "\<lambda>n. weight_sum dist2_nat (ip_addr (x ! k)) (Some k) x (int n)"
    from m(4) have pnn: "ip_pnn (x ! k) = int src" and lt: "?s dst < ?s src"
      using assms(3) I by (auto simp: failback_move_ok_def unat_ip_distance_2_sum [symmetric] word_less_nat_alt)
    then have "src \<noteq> dst" by auto
    from d2n.total_move [OF m(2) pnn this m(1,3)] lt I
    show "length (set_ip_pnn x k (int dst)) = length ips \<and>
        lcp2_potential (length fl) (set_ip_pnn x k (int dst)) \<le> lcp2_potential (length fl) ips"
      by (simp add: lcp2_potential_def)
  qed simp
  then show ?thesis ..
qed

section \<open>Properties\<close>

text \<open>
  C20: with fewer than \<open>2 ^ 18\<close> addresses the LCP2 failback loop returns.  It keeps the list of
  addresses, does not raise the total imbalance, and stops in a local optimum: no address on a
  node with a recorded imbalance can be moved to a rebalance candidate that may take it over so
  that it costs less there and the destination stays below the source.
\<close>

theorem lcp2_failback_local_optimum:
  assumes "qsort_ok qsort" "length ips < 2 ^ 18"
  shows "\<exists>ips' imbs'. lcp2_failback qsort ctdb fl ips imbs rc = Some (ips', imbs') \<and>
    map ip_addr ips' = map ip_addr ips \<and>
    lcp2_potential (length fl) ips' \<le> lcp2_potential (length fl) ips \<and>
    (\<forall>src < length fl. imbs' ! src \<noteq> 0 \<longrightarrow>
       (\<forall>k < length ips'. \<forall>dst < length fl. \<not> failback_move_ok ctdb fl ips' src (imbs' ! src) imbs' rc (k, dst)))"
proof -
  from lcp2_failback_returns [OF assms] obtain ips' imbs' where
    res: "lcp2_failback qsort ctdb fl ips imbs rc = Some (ips', imbs')" by fastforce
  have "\<not> failback_move_ok ctdb fl ips' src (imbs' ! src) imbs' rc (k, dst)"
    if src: "src < length fl" "imbs' ! src \<noteq> 0" and m: "k < length ips'" "dst < length fl" for src k dst
    using lcp2_failback_stops [OF res]
  proof
    assume "\<forall>dst < length fl. \<not> rc ! dst"
    with m show ?thesis by (simp add: failback_move_ok_def)
  next
    let ?lips = "qsort lcp2_cmp_imbalance_pnn (lcp2_lips (length fl) imbs')"
    let ?lip = "\<lparr>imbalance = imbs' ! src, lip_pnn = src\<rparr>"
    assume "lcp2_failback_try ctdb fl ips' imbs' rc ?lips = None"
    moreover have "?lip \<in> set ?lips" using src by (simp add: qsort_set [OF assms(1)] lcp2_lips_def)
    moreover have "sorted_wrt (\<lambda>a b. lcp2_cmp_imbalance_pnn a b \<le> 0) ?lips"
      using assms(1) by (simp add: qsort_ok_def)
    ultimately have none: "\<not> fst (lcp2_failback_candidate ctdb fl ips' src (imbs' ! src) imbs' rc)"
      using lcp2_failback_try_NoneD [of ctdb fl ips' imbs' rc ?lips ?lip] src(2) by simp
    show ?thesis
      by (cases rule: lcp2_failback_candidate_cases [of ctdb fl ips' src "imbs' ! src" imbs' rc])
        (use none m in auto)
  qed
  with res failback_keeps(1) [OF assms(1) res] failback_potential [OF assms(1) res assms(2)] show ?thesis
    by blast
qed

theorem lcp2_failback_local_optimum_witness:
  "qsort_ok cmp_sort \<and> (\<exists>r. lcp2_failback cmp_sort ex_ctdb ex_ipflags ex_ips [10, 0] [True, True] = Some r)"
  using lcp2_failback_local_optimum [OF qsort_ok_cmp_sort, of ex_ips ex_ctdb ex_ipflags "[10, 0]" "[True, True]"]
    qsort_ok_cmp_sort by (auto simp: ex_ips_def)

text \<open>
  C21: the LCP2 allocation makes no gratuitous failovers: an address that its node can still host
  stays there, unless it moves to a node that served no suitable address before the run or that
  rebalancing was forced onto; with NoIPFailback set it always stays.
\<close>

theorem lcp2_alloc_no_gratuitous_move:
  assumes "qsort_ok qsort" "ip_alloc_lcp2 qsort ctdb fl ips force = Some ips'" "ips_ok (length fl) ips"
    "k < length ips" "hosted ctdb fl (ips ! k)" "ips' ! k \<noteq> ips ! k"
  shows "no_ip_failback (tunable ctdb) \<noteq> 1 \<and>
    (\<exists>dst < length fl. ip_pnn (ips' ! k) = int dst \<and>
       ((\<forall>ip \<in> set (unassign_unsuitable_ips ctdb fl ips). ip_pnn ip \<noteq> int dst) \<or>
        (\<exists>fs. force = Some fs \<and> (\<exists>f \<in> set fs. unat f = dst))))"
  using assms(2)
proof (cases rule: ip_alloc_lcp2_cases)
  case (1 ips1 imbs1 rc ips2 imbs2)
  have pnn: "ip_pnn (ips ! k) \<noteq> -1" using assms(5) by (simp add: hosted_def)
  have keep: "ips2 ! k = ips ! k" "length ips2 = length ips"
    using lcp2_allocate_unassigned_keeps [OF 1(3)] assms(4,5) pnn by (simp_all add: 1(1) unassign_keeps)
  with assms(6) 1(4) obtain imbs' where "no_ip_failback (tunable ctdb) \<noteq> 1"
    and fb: "lcp2_failback qsort ctdb fl ips2 imbs2 rc = Some (ips', imbs')" by auto
  moreover from failback_keeps(4) [OF assms(1) fb] keep assms(4,6) obtain dst where
    dst: "dst < length fl" "rc ! dst" "ip_pnn (ips' ! k) = int dst" by auto
  moreover have "ips_ok (length fl) ips1"
    using assms(3) unassign_keeps(3) [OF assms(3), of ctdb]
    by (fastforce simp: 1(1) ips_ok_def well_served_def hosted_def unassign_unsuitable_ips_def)
  ultimately show ?thesis
    using lcp2_init_candidates [of dst fl ips1 force] 1(1,2) by auto
qed

theorem lcp2_alloc_no_gratuitous_move_witness:
  "\<exists>ips'. ip_alloc_lcp2 cmp_sort ex_ctdb ex_ipflags ex_ips None = Some ips' \<and> ips' ! 1 \<noteq> ex_ips ! 1 \<and>
     (\<exists>dst < 2. ip_pnn (ips' ! 1) = int dst \<and>
        (\<forall>ip \<in> set (unassign_unsuitable_ips ex_ctdb ex_ipflags ex_ips). ip_pnn ip \<noteq> int dst))"
proof -
  let ?ips = "map2 (\<lambda>n i. \<lparr>ip_pnn = n, ip_addr = ex_addr i\<rparr>) [1, 1, 0, 0] [1, 2, 3, 4]"
  have run: "ip_alloc_lcp2 cmp_sort ex_ctdb ex_ipflags ex_ips None = Some ?ips" by code_simp
  have hyps: "ips_ok (length ex_ipflags) ex_ips" "1 < length ex_ips" "hosted ex_ctdb ex_ipflags (ex_ips ! 1)"
    "?ips ! 1 \<noteq> ex_ips ! 1" and len: "length ex_ipflags = 2" by code_simp+
  from lcp2_alloc_no_gratuitous_move [OF qsort_ok_cmp_sort run hyps] run hyps(4) show ?thesis
    unfolding len by (intro exI [of _ ?ips]) simp
qed

text \<open>
  While unassigned addresses are allocated the array of imbalances stays exact: starting from
  what the initialisation computes, entry i is the imbalance metric of node i on the final list,
  every address that was assigned before keeps its place, and an address is left unassigned only
  if no node may take it over.
\<close>

lemma lcp2_allocate_tracks_imbalance:
  assumes "lcp2_allocate_unassigned ctdb fl ips (fst (lcp2_init fl ips force)) = (ips', imbs')"
  shows "length imbs' = length fl \<and> (\<forall>i < length fl. imbs' ! i = lcp2_imbalance ips' (int i)) \<and>
    (\<forall>k < length ips. ip_pnn (ips ! k) \<noteq> -1 \<longrightarrow> ips' ! k = ips ! k) \<and>
    (\<forall>ip \<in> set ips'. ip_pnn ip = -1 \<longrightarrow> \<not> takeover_possible ctdb fl ip)"
  using lcp2_allocate_unassigned_keeps [OF assms] lcp2_init_exact [of fl ips force]
  by (auto simp: imbalances_exact_def complete_alloc_def)

text \<open>
  A failback move keeps the recorded imbalances exact on every node except the source.
\<close>

lemma lcp2_failback_candidate_imbalances:
  assumes "imbalances_exact (length fl) ips imbs" "src < length fl"
    "lcp2_failback_candidate ctdb fl ips src candimbl imbs rc = (True, ips', imbs')"
  shows "length imbs' = length fl \<and> (\<forall>i < length fl. i \<noteq> src \<longrightarrow> imbs' ! i = lcp2_imbalance ips' (int i))"
proof (cases rule: lcp2_failback_candidate_cases [of ctdb fl ips src candimbl imbs rc])
  case (move k dst srcimbl)
  then have "ip_pnn (ips ! k) = int src" "src \<noteq> dst" by (auto simp: failback_move_ok_def)
  with move assms show ?thesis
    by (auto simp: imbalances_exact_def nth_update_if lcp2_imbalance_weight ip_distance_2_sum_weight
        d2.imbalance_add d2.imbalance_set_other)
qed (use assms(3) in simp)

text \<open>Four addresses on node 0, the last one farther from the others, and an empty node 1.\<close>

definition ex_stale_ips :: ip_list where
  "ex_stale_ips = map (\<lambda>a. \<lparr>ip_pnn = 0, ip_addr = Inet 0 a\<rparr>)
     [0x20000001, 0x40000001, 0x60000001, 0xc0000001]"

definition ex_stale_ctdb :: ctdb_context where
  "ex_stale_ctdb = ex_ctdb\<lparr>nodes := replicate 2 ((ex_node 0)\<lparr>available_public_ips :=
     Some (map (\<lambda>ip. \<lparr>pub_pnn = 0, pub_addr = ip_addr ip\<rparr>) ex_stale_ips)\<rparr>)\<rparr>"


end
