(* ===== verification/Rb_Heap.thy ===== *)
theory Rb_Heap
  imports Ctdb_Prelude "HOL-Library.Monad_Syntax"
begin

text \<open>
  The red-black tree of \<^verbatim>\<open>common/rb_tree.c\<close> at the level of its pointers.  A tree value holds the
  fields of \<^verbatim>\<open>trbt_tree_t\<close> and the memory of its nodes, a partial map from addresses; the
  \<^verbatim>\<open>tree\<close> field of a node is that tree.  A pointer is an optional address, None is NULL, and an
  operation returns None where the C code would dereference NULL.  \<^verbatim>\<open>talloc\<close> hands out addresses
  that were not used before.  The data pointer of a node is an optional payload.
\<close>

section \<open>Nodes and trees\<close>

type_synonym ptr = "nat option"

datatype color = TRBT_RED | TRBT_BLACK

datatype 'd trbt_node =
  Node (nparent: ptr) (nleft: ptr) (nright: ptr) (rb_color: color) (key32: u32) (ndata: "'d option")

datatype 'd trbt_tree =
  Tree (tnodes: "nat \<Rightarrow> 'd trbt_node option") (troot: ptr) (tflags: u32) (tnext: nat)

primrec set_parent :: "ptr \<Rightarrow> 'd trbt_node \<Rightarrow> 'd trbt_node" where
  "set_parent p (Node _ l r c k d) = Node p l r c k d"

primrec set_left :: "ptr \<Rightarrow> 'd trbt_node \<Rightarrow> 'd trbt_node" where
  "set_left l (Node p _ r c k d) = Node p l r c k d"

primrec set_right :: "ptr \<Rightarrow> 'd trbt_node \<Rightarrow> 'd trbt_node" where
  "set_right r (Node p l _ c k d) = Node p l r c k d"

primrec set_col :: "color \<Rightarrow> 'd trbt_node \<Rightarrow> 'd trbt_node" where
  "set_col c (Node p l r _ k d) = Node p l r c k d"

primrec set_key :: "u32 \<Rightarrow> 'd trbt_node \<Rightarrow> 'd trbt_node" where
  "set_key k (Node p l r c _ d) = Node p l r c k d"

primrec set_data :: "'d option \<Rightarrow> 'd trbt_node \<Rightarrow> 'd trbt_node" where
  "set_data d (Node p l r c k _) = Node p l r c k d"

primrec set_root :: "ptr \<Rightarrow> 'd trbt_tree \<Rightarrow> 'd trbt_tree" where
  "set_root p (Tree ns _ fl nx) = Tree ns p fl nx"

text \<open>Reading a field through a pointer, and changing a node through one.\<close>

definition field :: "('d trbt_node \<Rightarrow> 'f) \<Rightarrow> 'd trbt_tree \<Rightarrow> ptr \<Rightarrow> 'f option" where
  "field f t p = do { a \<leftarrow> p; n \<leftarrow> tnodes t a; Some (f n) }"

definition upd :: "'d trbt_tree \<Rightarrow> ptr \<Rightarrow> ('d trbt_node \<Rightarrow> 'd trbt_node) \<Rightarrow> 'd trbt_tree option" where
  "upd t p f = do { a \<leftarrow> p; n \<leftarrow> tnodes t a;
     Some (Tree ((tnodes t)(a \<mapsto> f n)) (troot t) (tflags t) (tnext t)) }"

section \<open>Creation and navigation\<close>

definition TRBT_AUTOFREE :: u32 where
  "TRBT_AUTOFREE = 1"

definition trbt_create :: "u32 \<Rightarrow> 'd trbt_tree" where
  "trbt_create fl = Tree (\<lambda>_. None) None fl 0"

definition trbt_parent :: "'d trbt_tree \<Rightarrow> ptr \<Rightarrow> ptr option" where
  "trbt_parent t node = field nparent t node"

definition trbt_grandparent :: "'d trbt_tree \<Rightarrow> ptr \<Rightarrow> ptr option" where
  "trbt_grandparent t node =
     do { par \<leftarrow> trbt_parent t node;
          if par \<noteq> None then field nparent t par else Some None }"

definition trbt_uncle :: "'d trbt_tree \<Rightarrow> ptr \<Rightarrow> ptr option" where
  "trbt_uncle t node =
     do { par \<leftarrow> trbt_parent t node;
          if par = None then Some None
          else do {
            grandpar \<leftarrow> trbt_parent t par;
            if grandpar = None then Some None
            else do {
              gl \<leftarrow> field nleft t grandpar;
              if par = gl then field nright t grandpar else field nleft t grandpar } } }"

definition trbt_sibling :: "'d trbt_tree \<Rightarrow> ptr \<Rightarrow> ptr option" where
  "trbt_sibling t node =
     do { par \<leftarrow> trbt_parent t node;
          if par = None then Some None
          else do {
            pl \<leftarrow> field nleft t par;
            if node = pl then field nright t par else field nleft t par } }"

section \<open>Rotations\<close>

definition trbt_rotate_left :: "'d trbt_tree \<Rightarrow> ptr \<Rightarrow> 'd trbt_tree option" where
  "trbt_rotate_left t node =
     do { par \<leftarrow> field nparent t node;
          t \<leftarrow> (if par \<noteq> None then
                 do { pl \<leftarrow> field nleft t par;
                      r \<leftarrow> field nright t node;
                      if pl = node then upd t par (set_left r) else upd t par (set_right r) }
               else do { r \<leftarrow> field nright t node; Some (set_root r t) });
          r \<leftarrow> field nright t node;
          par \<leftarrow> field nparent t node;
          t \<leftarrow> upd t r (set_parent par);
          r \<leftarrow> field nright t node;
          t \<leftarrow> upd t node (set_parent r);
          r \<leftarrow> field nright t node;
          rl \<leftarrow> field nleft t r;
          t \<leftarrow> upd t node (set_right rl);
          r \<leftarrow> field nright t node;
          t \<leftarrow> (if r \<noteq> None then upd t r (set_parent node) else Some t);
          par \<leftarrow> field nparent t node;
          upd t par (set_left node) }"

definition trbt_rotate_right :: "'d trbt_tree \<Rightarrow> ptr \<Rightarrow> 'd trbt_tree option" where
  "trbt_rotate_right t node =
     do { par \<leftarrow> field nparent t node;
          t \<leftarrow> (if par \<noteq> None then
                 do { pl \<leftarrow> field nleft t par;
                      l \<leftarrow> field nleft t node;
                      if pl = node then upd t par (set_left l) else upd t par (set_right l) }
               else do { l \<leftarrow> field nleft t node; Some (set_root l t) });
          l \<leftarrow> field nleft t node;
          par \<leftarrow> field nparent t node;
          t \<leftarrow> upd t l (set_parent par);
          l \<leftarrow> field nleft t node;
          t \<leftarrow> upd t node (set_parent l);
          l \<leftarrow> field nleft t node;
          lr \<leftarrow> field nright t l;
          t \<leftarrow> upd t node (set_left lr);
          l \<leftarrow> field nleft t node;
          t \<leftarrow> (if l \<noteq> None then upd t l (set_parent node) else Some t);
          par \<leftarrow> field nparent t node;
          upd t par (set_right node) }"

section \<open>Colours\<close>

text \<open>NULL nodes are black, and setting a NULL node to black does nothing.\<close>

definition trbt_get_color :: "'d trbt_tree \<Rightarrow> ptr \<Rightarrow> color option" where
  "trbt_get_color t node = (if node = None then Some TRBT_BLACK else field rb_color t node)"

definition trbt_get_color_left :: "'d trbt_tree \<Rightarrow> ptr \<Rightarrow> color option" where
  "trbt_get_color_left t node =
     (if node = None then Some TRBT_BLACK
      else do { l \<leftarrow> field nleft t node;
                if l = None then Some TRBT_BLACK else field rb_color t l })"

definition trbt_get_color_right :: "'d trbt_tree \<Rightarrow> ptr \<Rightarrow> color option" where
  "trbt_get_color_right t node =
     (if node = None then Some TRBT_BLACK
      else do { r \<leftarrow> field nright t node;
                if r = None then Some TRBT_BLACK else field rb_color t r })"

definition trbt_set_color :: "'d trbt_tree \<Rightarrow> ptr \<Rightarrow> color \<Rightarrow> 'd trbt_tree option" where
  "trbt_set_color t node c =
     (if node = None \<and> c = TRBT_BLACK then Some t else upd t node (set_col c))"

definition trbt_set_color_left :: "'d trbt_tree \<Rightarrow> ptr \<Rightarrow> color \<Rightarrow> 'd trbt_tree option" where
  "trbt_set_color_left t node c =
     (if node = None then if c = TRBT_BLACK then Some t else None
      else do { l \<leftarrow> field nleft t node;
                if l = None \<and> c = TRBT_BLACK then Some t else upd t l (set_col c) })"

definition trbt_set_color_right :: "'d trbt_tree \<Rightarrow> ptr \<Rightarrow> color \<Rightarrow> 'd trbt_tree option" where
  "trbt_set_color_right t node c =
     (if node = None then if c = TRBT_BLACK then Some t else None
      else do { r \<leftarrow> field nright t node;
                if r = None \<and> c = TRBT_BLACK then Some t else upd t r (set_col c) })"

section \<open>Rebalancing after an insertion\<close>

definition trbt_insert_case5 :: "'d trbt_tree \<Rightarrow> ptr \<Rightarrow> 'd trbt_tree option" where
  "trbt_insert_case5 t node =
     do { par \<leftarrow> trbt_parent t node;
          grandpar \<leftarrow> trbt_parent t par;
          t \<leftarrow> upd t par (set_col TRBT_BLACK);
          t \<leftarrow> upd t grandpar (set_col TRBT_RED);
          pl \<leftarrow> field nleft t par;
          gl \<leftarrow> field nleft t grandpar;
          if node = pl \<and> par = gl then trbt_rotate_right t grandpar
          else trbt_rotate_left t grandpar }"

definition trbt_insert_case4 :: "'d trbt_tree \<Rightarrow> ptr \<Rightarrow> 'd trbt_tree option" where
  "trbt_insert_case4 t node =
     do { par \<leftarrow> trbt_parent t node;
          grandpar \<leftarrow> trbt_parent t par;
          if grandpar = None then Some t
          else do {
            pl \<leftarrow> field nleft t par;
            pr \<leftarrow> field nright t par;
            gl \<leftarrow> field nleft t grandpar;
            gr \<leftarrow> field nright t grandpar;
            (t, node) \<leftarrow>
              (if node = pr \<and> par = gl then
                 do { t \<leftarrow> trbt_rotate_left t par; n \<leftarrow> field nleft t node; Some (t, n) }
               else if node = pl \<and> par = gr then
                 do { t \<leftarrow> trbt_rotate_right t par; n \<leftarrow> field nright t node; Some (t, n) }
               else Some (t, node));
            trbt_insert_case5 t node } }"

text \<open>
  Cases 1 to 3 call each other; they are one recursive function, which ends because case 3 goes on
  at the grandparent.
\<close>

partial_function (option) trbt_insert_case1 :: "'d trbt_tree \<Rightarrow> ptr \<Rightarrow> 'd trbt_tree option" where
  "trbt_insert_case1 t node =
     do { par \<leftarrow> trbt_parent t node;
          if par = None then upd t node (set_col TRBT_BLACK)
          else do {
            pc \<leftarrow> field rb_color t par;
            if pc = TRBT_BLACK then Some t
            else do {
              uncle \<leftarrow> trbt_uncle t node;
              uc \<leftarrow> (if uncle \<noteq> None then field rb_color t uncle else Some TRBT_BLACK);
              if uncle \<noteq> None \<and> uc = TRBT_RED then
                do { par \<leftarrow> trbt_parent t node;
                     t \<leftarrow> upd t par (set_col TRBT_BLACK);
                     t \<leftarrow> upd t uncle (set_col TRBT_BLACK);
                     grandpar \<leftarrow> trbt_grandparent t node;
                     t \<leftarrow> upd t grandpar (set_col TRBT_RED);
                     trbt_insert_case1 t grandpar }
              else trbt_insert_case4 t node } } }"

section \<open>Insertion and lookup\<close>

definition trbt_create_node ::
    "'d trbt_tree \<Rightarrow> ptr \<Rightarrow> u32 \<Rightarrow> 'd option \<Rightarrow> 'd trbt_tree \<times> ptr" where
  "trbt_create_node t par key d =
     (Tree ((tnodes t)(tnext t \<mapsto> Node par None None TRBT_BLACK key d)) (troot t) (tflags t) (Suc (tnext t)),
      Some (tnext t))"

text \<open>
  The walk both insertion functions make: it stops at the node with the key, or at the node that
  lacks the child where the key belongs.
\<close>

datatype slot = Existing ptr | New_left ptr | New_right ptr

partial_function (option) trbt_walk :: "'d trbt_tree \<Rightarrow> ptr \<Rightarrow> u32 \<Rightarrow> slot option" where
  "trbt_walk t node key =
     do { k \<leftarrow> field key32 t node;
          if key = k then Some (Existing node)
          else if key < k then
            do { l \<leftarrow> field nleft t node;
                 if l = None then Some (New_left node) else trbt_walk t l key }
          else do { r \<leftarrow> field nright t node;
                    if r = None then Some (New_right node) else trbt_walk t r key } }"

definition trbt_attach ::
    "'d trbt_tree \<Rightarrow> ptr \<Rightarrow> (ptr \<Rightarrow> 'd trbt_node \<Rightarrow> 'd trbt_node) \<Rightarrow> u32 \<Rightarrow> 'd option \<Rightarrow> 'd trbt_tree option" where
  "trbt_attach t par set_child key d =
     (case trbt_create_node t par key d of
        (t, new_node) \<Rightarrow>
          do { t \<leftarrow> upd t par (set_child new_node);
               t \<leftarrow> upd t new_node (set_col TRBT_RED);
               trbt_insert_case1 t new_node })"

definition trbt_insert32 ::
    "'d trbt_tree \<Rightarrow> u32 \<Rightarrow> 'd option \<Rightarrow> ('d trbt_tree \<times> 'd option) option" where
  "trbt_insert32 t key d =
     (if troot t = None then
        (case trbt_create_node t None key d of (t, node) \<Rightarrow> Some (set_root node t, None))
      else do {
        slot \<leftarrow> trbt_walk t (troot t) key;
        case slot of
          Existing node \<Rightarrow>
            do { old_data \<leftarrow> field ndata t node;
                 t \<leftarrow> upd t node (set_data d);
                 Some (t, old_data) }
        | New_left node \<Rightarrow> do { t \<leftarrow> trbt_attach t node set_left key d; Some (t, None) }
        | New_right node \<Rightarrow> do { t \<leftarrow> trbt_attach t node set_right key d; Some (t, None) } })"

definition trbt_insert32_callback ::
    "'d trbt_tree \<Rightarrow> u32 \<Rightarrow> ('d option \<Rightarrow> 'd option option) \<Rightarrow> 'd trbt_tree option" where
  "trbt_insert32_callback t key callback =
     (if troot t = None then
        do { d \<leftarrow> callback None;
             case trbt_create_node t None key d of (t, node) \<Rightarrow> Some (set_root node t) }
      else do {
        slot \<leftarrow> trbt_walk t (troot t) key;
        case slot of
          Existing node \<Rightarrow>
            do { old_data \<leftarrow> field ndata t node;
                 d \<leftarrow> callback old_data;
                 upd t node (set_data d) }
        | New_left node \<Rightarrow> do { d \<leftarrow> callback None; trbt_attach t node set_left key d }
        | New_right node \<Rightarrow> do { d \<leftarrow> callback None; trbt_attach t node set_right key d } })"

partial_function (option) trbt_lookup_from ::
    "'d trbt_tree \<Rightarrow> ptr \<Rightarrow> u32 \<Rightarrow> 'd option option" where
  "trbt_lookup_from t node key =
     (if node = None then Some None
      else do { k \<leftarrow> field key32 t node;
                if key = k then field ndata t node
                else if key < k then do { l \<leftarrow> field nleft t node; trbt_lookup_from t l key }
                else do { r \<leftarrow> field nright t node; trbt_lookup_from t r key } })"

definition trbt_lookup32 :: "'d trbt_tree \<Rightarrow> u32 \<Rightarrow> 'd option option" where
  "trbt_lookup32 t key = trbt_lookup_from t (troot t) key"

declare trbt_insert_case1.simps [code] trbt_walk.simps [code] trbt_lookup_from.simps [code]

end
