(* ===== verification/Rb_Rep.thy ===== *)
theory Rb_Rep
  imports Rb_Heap
begin

text \<open>
  Which functional tree a pointer structure represents, seen from any of its nodes: a subtree and
  the path of frames above it.  Rotations and colour changes are described once as changes of the
  represented tree at a position; the rebalancing proofs only use these descriptions.
\<close>

section \<open>Functional trees and contexts\<close>

datatype 'd rtree = E | N "'d rtree" nat color u32 "'d option" "'d rtree"

datatype 'd frame =
    LF nat color u32 "'d option" "'d rtree"
  | RF "'d rtree" nat color u32 "'d option"

fun plug :: "'d rtree \<Rightarrow> 'd frame list \<Rightarrow> 'd rtree" where
  "plug t [] = t"
| "plug t (LF a c k d r # fs) = plug (N t a c k d r) fs"
| "plug t (RF l a c k d # fs) = plug (N l a c k d t) fs"

fun rootp :: "'d rtree \<Rightarrow> ptr" where
  "rootp E = None"
| "rootp (N l a c k d r) = Some a"

fun parentp :: "'d frame list \<Rightarrow> ptr" where
  "parentp [] = None"
| "parentp (LF a c k d r # fs) = Some a"
| "parentp (RF l a c k d # fs) = Some a"

fun addrs :: "'d rtree \<Rightarrow> nat list" where
  "addrs E = []"
| "addrs (N l a c k d r) = addrs l @ a # addrs r"

fun faddrs :: "'d frame list \<Rightarrow> nat list" where
  "faddrs [] = []"
| "faddrs (LF a c k d r # fs) = a # addrs r @ faddrs fs"
| "faddrs (RF l a c k d # fs) = addrs l @ a # faddrs fs"

fun tree_at :: "(nat \<Rightarrow> 'd trbt_node option) \<Rightarrow> ptr \<Rightarrow> 'd rtree \<Rightarrow> bool" where
  "tree_at ns par E = True"
| "tree_at ns par (N l a c k d r) =
     (ns a = Some (Node par (rootp l) (rootp r) c k d) \<and> tree_at ns (Some a) l \<and> tree_at ns (Some a) r)"

fun ctx_at :: "(nat \<Rightarrow> 'd trbt_node option) \<Rightarrow> ptr \<Rightarrow> ptr \<Rightarrow> 'd frame list \<Rightarrow> bool" where
  "ctx_at ns root p [] = (root = p)"
| "ctx_at ns root p (LF a c k d r # fs) =
     (ns a = Some (Node (parentp fs) p (rootp r) c k d) \<and> tree_at ns (Some a) r \<and> ctx_at ns root (Some a) fs)"
| "ctx_at ns root p (RF l a c k d # fs) =
     (ns a = Some (Node (parentp fs) (rootp l) p c k d) \<and> tree_at ns (Some a) l \<and> ctx_at ns root (Some a) fs)"

text \<open>All addresses in use are below the next fresh one.\<close>

definition rep :: "'d trbt_tree \<Rightarrow> 'd rtree \<Rightarrow> 'd frame list \<Rightarrow> bool" where
  "rep h t fs \<longleftrightarrow>
     tree_at (tnodes h) (parentp fs) t \<and> ctx_at (tnodes h) (troot h) (rootp t) fs \<and>
     distinct (addrs t @ faddrs fs) \<and> (\<forall>a \<in> set (addrs t @ faddrs fs). a < tnext h)"

named_theorems heap_simps \<open>symbolic execution of the pointer operations\<close>

lemma field_Some [heap_simps]: "field f h (Some a) = map_option f (tnodes h a)"
  by (cases "tnodes h a") (simp_all add: field_def)

lemma field_None [heap_simps]: "field f h None = None"
  by (simp add: field_def)

lemma upd_Some [heap_simps]:
  "upd h (Some a) f =
     (case tnodes h a of None \<Rightarrow> None | Some n \<Rightarrow> Some (Tree ((tnodes h)(a \<mapsto> f n)) (troot h) (tflags h) (tnext h)))"
  by (simp add: upd_def split: option.splits)

lemma set_root_sel [heap_simps, simp]:
  "tnodes (set_root p h) = tnodes h" "troot (set_root p h) = p"
  "tnext (set_root p h) = tnext h" "tflags (set_root p h) = tflags h"
  by (cases h; simp)+

text \<open>Changes elsewhere in memory do not matter.\<close>

lemma tree_at_other [simp]: "a \<notin> set (addrs t) \<Longrightarrow> tree_at (ns(a := n)) par t = tree_at ns par t"
  by (induction t arbitrary: par) auto

lemma ctx_at_other [simp]: "a \<notin> set (faddrs fs) \<Longrightarrow> ctx_at (ns(a := n)) root p fs = ctx_at ns root p fs"
  by (induction fs arbitrary: p rule: faddrs.induct) auto

text \<open>Moving the position down and up.\<close>

lemma rep_left: "rep h (N l a c k d r) fs \<longleftrightarrow> rep h l (LF a c k d r # fs)"
  by (auto simp: rep_def)

lemma rep_right: "rep h (N l a c k d r) fs \<longleftrightarrow> rep h r (RF l a c k d # fs)"
  by (auto simp: rep_def)

lemma rep_plug: "rep h t fs \<longleftrightarrow> rep h (plug t fs) []"
  by (induction t fs rule: plug.induct) (simp_all add: rep_left [symmetric] rep_right [symmetric])

lemma rootp_eq_Some: "rootp t = Some a \<Longrightarrow> a \<in> set (addrs t)"
  by (cases t) auto

lemma faddrs_parentp: "parentp fs = Some a \<Longrightarrow> a \<in> set (faddrs fs)"
  by (cases fs rule: parentp.cases) auto

section \<open>Rotations and colour changes\<close>

text \<open>What no operation on the nodes changes.\<close>

definition frame_eq :: "'d trbt_tree \<Rightarrow> 'd trbt_tree \<Rightarrow> bool" where
  "frame_eq h h' \<longleftrightarrow> tnext h' = tnext h \<and> tflags h' = tflags h \<and> dom (tnodes h') = dom (tnodes h)"

lemma frame_eq_trans: "frame_eq h h' \<Longrightarrow> frame_eq h' h'' \<Longrightarrow> frame_eq h h''"
  by (simp add: frame_eq_def)

lemma set_col_rep:
  assumes "rep h (N l a c k d r) fs"
  shows "\<exists>h'. upd h (Some a) (set_col c') = Some h' \<and> frame_eq h h' \<and> rep h' (N l a c' k d r) fs"
  using assms by (auto simp: rep_def heap_simps frame_eq_def)

lemma rotate_left_rep:
  assumes "rep h (N x a c k d (N y b c' k' d' z)) fs"
  shows "\<exists>h'. trbt_rotate_left h (Some a) = Some h' \<and> frame_eq h h' \<and> rep h' (N (N x a c k d y) b c' k' d' z) fs"
  using assms
  by (cases fs rule: parentp.cases; cases y)
    (auto simp: rep_def trbt_rotate_left_def heap_simps frame_eq_def dest: rootp_eq_Some)

lemma rotate_right_rep:
  assumes "rep h (N (N x a c k d y) b c' k' d' z) fs"
  shows "\<exists>h'. trbt_rotate_right h (Some b) = Some h' \<and> frame_eq h h' \<and> rep h' (N x a c k d (N y b c' k' d' z)) fs"
  using assms
  by (cases fs rule: parentp.cases; cases y)
    (auto simp: rep_def trbt_rotate_right_def heap_simps frame_eq_def dest: rootp_eq_Some)

section \<open>Contents and invariants\<close>

fun inorder :: "'d rtree \<Rightarrow> (u32 \<times> 'd option) list" where
  "inorder E = []"
| "inorder (N l a c k d r) = inorder l @ (k, d) # inorder r"

definition bst :: "'d rtree \<Rightarrow> bool" where
  "bst t \<longleftrightarrow> sorted_wrt (<) (map fst (inorder t))"

fun col :: "'d rtree \<Rightarrow> color" where
  "col E = TRBT_BLACK"
| "col (N l a c k d r) = c"

fun bheight :: "'d rtree \<Rightarrow> nat" where
  "bheight E = 0"
| "bheight (N l a c k d r) = bheight l + (if c = TRBT_BLACK then 1 else 0)"

fun invc :: "'d rtree \<Rightarrow> bool" where
  "invc E = True"
| "invc (N l a c k d r) =
     ((c = TRBT_RED \<longrightarrow> col l = TRBT_BLACK \<and> col r = TRBT_BLACK) \<and> invc l \<and> invc r)"

fun invh :: "'d rtree \<Rightarrow> bool" where
  "invh E = True"
| "invh (N l a c k d r) = (bheight l = bheight r \<and> invh l \<and> invh r)"

definition rb :: "'d rtree \<Rightarrow> bool" where
  "rb t \<longleftrightarrow> invc t \<and> invh t \<and> col t = TRBT_BLACK"

fun fcol :: "'d frame list \<Rightarrow> color" where
  "fcol [] = TRBT_BLACK"
| "fcol (LF a c k d r # fs) = c"
| "fcol (RF l a c k d # fs) = c"

text \<open>
  The part of the invariant above a hole of black height \<open>n\<close>.  A red frame has a black node above it,
  so the topmost frame is black.
\<close>

fun cinv :: "nat \<Rightarrow> 'd frame list \<Rightarrow> bool" where
  "cinv n [] = True"
| "cinv n (LF a c k d r # fs) =
     (invc r \<and> invh r \<and> bheight r = n \<and>
      (c = TRBT_RED \<longrightarrow> col r = TRBT_BLACK \<and> fs \<noteq> [] \<and> fcol fs = TRBT_BLACK) \<and>
      cinv (n + (if c = TRBT_BLACK then 1 else 0)) fs)"
| "cinv n (RF l a c k d # fs) =
     (invc l \<and> invh l \<and> bheight l = n \<and>
      (c = TRBT_RED \<longrightarrow> col l = TRBT_BLACK \<and> fs \<noteq> [] \<and> fcol fs = TRBT_BLACK) \<and>
      cinv (n + (if c = TRBT_BLACK then 1 else 0)) fs)"

fun linorder_l :: "'d frame list \<Rightarrow> (u32 \<times> 'd option) list" where
  "linorder_l [] = []"
| "linorder_l (LF a c k d r # fs) = linorder_l fs"
| "linorder_l (RF l a c k d # fs) = linorder_l fs @ inorder l @ [(k, d)]"

fun linorder_r :: "'d frame list \<Rightarrow> (u32 \<times> 'd option) list" where
  "linorder_r [] = []"
| "linorder_r (LF a c k d r # fs) = (k, d) # inorder r @ linorder_r fs"
| "linorder_r (RF l a c k d # fs) = linorder_r fs"

lemma inorder_plug: "inorder (plug t fs) = linorder_l fs @ inorder t @ linorder_r fs"
  by (induction t fs rule: plug.induct) auto

lemma rb_plug:
  "cinv (bheight t) fs \<Longrightarrow> invc t \<Longrightarrow> invh t \<Longrightarrow> fcol fs = TRBT_RED \<longrightarrow> col t = TRBT_BLACK \<Longrightarrow>
     fs = [] \<longrightarrow> col t = TRBT_BLACK \<Longrightarrow> rb (plug t fs)"
proof (induction t fs rule: plug.induct)
  case (2 t a c k d r fs)
  have "rb (plug (N t a c k d r) fs)"
    by (rule "2.IH") (use "2.prems" in \<open>(cases c; cases "fcol fs"; simp)+\<close>)
  then show ?case by simp
next
  case (3 t l a c k d fs)
  have "rb (plug (N l a c k d t) fs)"
    by (rule "3.IH") (use "3.prems" in \<open>(cases c; cases "fcol fs"; simp)+\<close>)
  then show ?case by simp
qed (simp add: rb_def)

lemma cinv_plug:
  "rb (plug t fs) \<Longrightarrow>
     cinv (bheight t) fs \<and> invc t \<and> invh t \<and> (fcol fs = TRBT_RED \<longrightarrow> col t = TRBT_BLACK) \<and>
     (fs = [] \<longrightarrow> col t = TRBT_BLACK)"
proof (induction t fs rule: plug.induct)
  case (2 t a c k d r fs)
  then show ?case by (cases c; cases "fcol fs") auto
next
  case (3 t l a c k d fs)
  then show ?case by (cases c; cases "fcol fs") auto
qed (simp add: rb_def)

end
