(* ===== verification/Rb_Insert.thy ===== *)
theory Rb_Insert
  imports Rb_Rep
begin

text \<open>
  Insertion and lookup of \<^verbatim>\<open>common/rb_tree.c\<close> on a represented tree: they never dereference NULL,
  they end, the represented tree stays an ordered red-black tree, and its contents change as those
  of a finite map.
\<close>

section \<open>Rebalancing\<close>

lemma rep_node:
  "rep h (N l a c k d r) fs \<Longrightarrow> tnodes h a = Some (Node (parentp fs) (rootp l) (rootp r) c k d)"
  by (simp add: rep_def)

lemma case5_left:
  assumes "rep h (N (N t p TRBT_RED kp dp s) g c kg dg u) fs" "rootp t = Some a"
  shows "\<exists>h'. trbt_insert_case5 h (Some a) = Some h' \<and> frame_eq h h' \<and>
    rep h' (N t p TRBT_BLACK kp dp (N s g TRBT_RED kg dg u)) fs"
proof -
  from assms(2) obtain l ca k d r where t: "t = N l a ca k d r" by (cases t) auto
  note [simp] = rep_left [symmetric] rep_right [symmetric]
  from assms(1) have "rep h (N t p TRBT_RED kp dp s) (LF g c kg dg u # fs)" by simp
  from set_col_rep [OF this, of TRBT_BLACK] obtain h1 where h1: "upd h (Some p) (set_col TRBT_BLACK) = Some h1" "frame_eq h h1"
    "rep h1 (N (N t p TRBT_BLACK kp dp s) g c kg dg u) fs"
    by auto
  from set_col_rep [OF h1(3), of TRBT_RED] obtain h2 where h2: "upd h1 (Some g) (set_col TRBT_RED) = Some h2" "frame_eq h1 h2"
    "rep h2 (N (N t p TRBT_BLACK kp dp s) g TRBT_RED kg dg u) fs"
    by auto
  from rotate_right_rep [OF h2(3)] obtain h3 where h3: "trbt_rotate_right h2 (Some g) = Some h3" "frame_eq h2 h3"
    "rep h3 (N t p TRBT_BLACK kp dp (N s g TRBT_RED kg dg u)) fs"
    by auto
  have "tnodes h a = Some (Node (Some p) (rootp l) (rootp r) ca k d)"
    "tnodes h p = Some (Node (Some g) (Some a) (rootp s) TRBT_RED kp dp)"
    using assms(1) by (simp_all add: rep_def t)
  moreover have "tnodes h2 p = Some (Node (Some g) (Some a) (rootp s) TRBT_BLACK kp dp)"
    "tnodes h2 g = Some (Node (parentp fs) (Some p) (rootp u) TRBT_RED kg dg)"
    using h2(3) by (simp_all add: rep_def t)
  ultimately have "trbt_insert_case5 h (Some a) = Some h3"
    using h1(1) h2(1) h3(1) by (simp add: trbt_insert_case5_def trbt_parent_def field_Some)
  with h1 h2 h3 show ?thesis by (auto simp: frame_eq_def)
qed

lemma case5_right:
  assumes "rep h (N u g c kg dg (N s p TRBT_RED kp dp t)) fs" "rootp t = Some a"
  shows "\<exists>h'. trbt_insert_case5 h (Some a) = Some h' \<and> frame_eq h h' \<and>
    rep h' (N (N u g TRBT_RED kg dg s) p TRBT_BLACK kp dp t) fs"
proof -
  from assms(2) obtain l ca k d r where t: "t = N l a ca k d r" by (cases t) auto
  note [simp] = rep_left [symmetric] rep_right [symmetric]
  from assms(1) have "rep h (N s p TRBT_RED kp dp t) (RF u g c kg dg # fs)" by simp
  from set_col_rep [OF this, of TRBT_BLACK] obtain h1 where h1: "upd h (Some p) (set_col TRBT_BLACK) = Some h1" "frame_eq h h1"
    "rep h1 (N u g c kg dg (N s p TRBT_BLACK kp dp t)) fs"
    by auto
  from set_col_rep [OF h1(3), of TRBT_RED] obtain h2 where h2: "upd h1 (Some g) (set_col TRBT_RED) = Some h2" "frame_eq h1 h2"
    "rep h2 (N u g TRBT_RED kg dg (N s p TRBT_BLACK kp dp t)) fs"
    by auto
  from rotate_left_rep [OF h2(3)] obtain h3 where h3: "trbt_rotate_left h2 (Some g) = Some h3" "frame_eq h2 h3"
    "rep h3 (N (N u g TRBT_RED kg dg s) p TRBT_BLACK kp dp t) fs"
    by auto
  have "tnodes h a = Some (Node (Some p) (rootp l) (rootp r) ca k d)"
    "tnodes h p = Some (Node (Some g) (rootp s) (Some a) TRBT_RED kp dp)"
    using assms(1) by (simp_all add: rep_def t)
  moreover have "tnodes h2 p = Some (Node (Some g) (rootp s) (Some a) TRBT_BLACK kp dp)"
    "tnodes h2 g = Some (Node (parentp fs) (rootp u) (Some p) TRBT_RED kg dg)"
    using h2(3) by (simp_all add: rep_def t)
  moreover have "rootp s \<noteq> Some a"
    using assms(1) rootp_eq_Some [of s a] by (auto simp: rep_def t)
  ultimately have "trbt_insert_case5 h (Some a) = Some h3"
    using h1(1) h2(1) h3(1) by (auto simp: trbt_insert_case5_def trbt_parent_def field_Some)
  with h1 h2 h3 show ?thesis by (auto simp: frame_eq_def)
qed

lemma case4_left_outer:
  assumes rep: "rep h (N (N t p TRBT_RED kp dp s) g c kg dg u) fs" and t: "rootp t = Some a"
  shows "\<exists>h'. trbt_insert_case4 h (Some a) = Some h' \<and> frame_eq h h' \<and>
    rep h' (N t p TRBT_BLACK kp dp (N s g TRBT_RED kg dg u)) fs"
proof -
  from t obtain l ca k d r where tt: "t = N l a ca k d r" by (cases t) auto
  have "tnodes h a = Some (Node (Some p) (rootp l) (rootp r) ca k d)"
    "tnodes h p = Some (Node (Some g) (Some a) (rootp s) TRBT_RED kp dp)"
    "tnodes h g = Some (Node (parentp fs) (Some p) (rootp u) c kg dg)"
    using rep by (simp_all add: rep_def tt)
  moreover have "rootp s \<noteq> Some a" "rootp u \<noteq> Some p"
    using rep rootp_eq_Some [of s a] rootp_eq_Some [of u p] by (auto simp: rep_def tt)
  ultimately have "trbt_insert_case4 h (Some a) = trbt_insert_case5 h (Some a)"
    by (auto simp: trbt_insert_case4_def trbt_parent_def field_Some)
  with case5_left [OF rep t] show ?thesis by simp
qed

lemma case4_right_outer:
  assumes rep: "rep h (N u g c kg dg (N s p TRBT_RED kp dp t)) fs" and t: "rootp t = Some a"
  shows "\<exists>h'. trbt_insert_case4 h (Some a) = Some h' \<and> frame_eq h h' \<and>
    rep h' (N (N u g TRBT_RED kg dg s) p TRBT_BLACK kp dp t) fs"
proof -
  from t obtain l ca k d r where tt: "t = N l a ca k d r" by (cases t) auto
  have "tnodes h a = Some (Node (Some p) (rootp l) (rootp r) ca k d)"
    "tnodes h p = Some (Node (Some g) (rootp s) (Some a) TRBT_RED kp dp)"
    "tnodes h g = Some (Node (parentp fs) (rootp u) (Some p) c kg dg)"
    using rep by (simp_all add: rep_def tt)
  moreover have "rootp s \<noteq> Some a" "rootp u \<noteq> Some p"
    using rep rootp_eq_Some [of s a] rootp_eq_Some [of u p] by (auto simp: rep_def tt)
  ultimately have "trbt_insert_case4 h (Some a) = trbt_insert_case5 h (Some a)"
    by (auto simp: trbt_insert_case4_def trbt_parent_def field_Some)
  with case5_right [OF rep t] show ?thesis by simp
qed

lemma case4_left_inner:
  assumes rep: "rep h (N (N s p TRBT_RED kp dp (N l a TRBT_RED k d r)) g c kg dg u) fs"
  shows "\<exists>h'. trbt_insert_case4 h (Some a) = Some h' \<and> frame_eq h h' \<and>
    rep h' (N (N s p TRBT_RED kp dp l) a TRBT_BLACK k d (N r g TRBT_RED kg dg u)) fs"
proof -
  have "tnodes h a = Some (Node (Some p) (rootp l) (rootp r) TRBT_RED k d)"
    "tnodes h p = Some (Node (Some g) (rootp s) (Some a) TRBT_RED kp dp)"
    "tnodes h g = Some (Node (parentp fs) (Some p) (rootp u) c kg dg)"
    using rep by (simp_all add: rep_def)
  moreover from rep have "rep h (N s p TRBT_RED kp dp (N l a TRBT_RED k d r)) (LF g c kg dg u # fs)"
    by (simp add: rep_left)
  from rotate_left_rep [OF this] obtain h1 where h1: "trbt_rotate_left h (Some p) = Some h1" "frame_eq h h1"
    "rep h1 (N (N (N s p TRBT_RED kp dp l) a TRBT_RED k d r) g c kg dg u) fs"
    by (auto simp: rep_left)
  moreover have "tnodes h1 a = Some (Node (Some g) (Some p) (rootp r) TRBT_RED k d)"
    using h1(3) by (simp add: rep_def)
  ultimately have "trbt_insert_case4 h (Some a) = trbt_insert_case5 h1 (Some p)"
    by (simp add: trbt_insert_case4_def trbt_parent_def field_Some)
  with case5_left [OF h1(3), of p] h1(2) show ?thesis by (auto intro: frame_eq_trans)
qed

lemma case4_right_inner:
  assumes rep: "rep h (N u g c kg dg (N (N l a TRBT_RED k d r) p TRBT_RED kp dp s)) fs"
  shows "\<exists>h'. trbt_insert_case4 h (Some a) = Some h' \<and> frame_eq h h' \<and>
    rep h' (N (N u g TRBT_RED kg dg l) a TRBT_BLACK k d (N r p TRBT_RED kp dp s)) fs"
proof -
  have "tnodes h a = Some (Node (Some p) (rootp l) (rootp r) TRBT_RED k d)"
    "tnodes h p = Some (Node (Some g) (Some a) (rootp s) TRBT_RED kp dp)"
    "tnodes h g = Some (Node (parentp fs) (rootp u) (Some p) c kg dg)"
    using rep by (simp_all add: rep_def)
  moreover have "rootp s \<noteq> Some a" "rootp u \<noteq> Some p"
    using rep rootp_eq_Some [of s a] rootp_eq_Some [of u p] by (auto simp: rep_def)
  moreover from rep have "rep h (N (N l a TRBT_RED k d r) p TRBT_RED kp dp s) (RF u g c kg dg # fs)"
    by (simp add: rep_right)
  from rotate_right_rep [OF this] obtain h1 where h1: "trbt_rotate_right h (Some p) = Some h1" "frame_eq h h1"
    "rep h1 (N u g c kg dg (N l a TRBT_RED k d (N r p TRBT_RED kp dp s))) fs"
    by (auto simp: rep_right)
  moreover have "tnodes h1 a = Some (Node (Some g) (rootp l) (Some p) TRBT_RED k d)"
    using h1(3) by (simp add: rep_def)
  ultimately have "trbt_insert_case4 h (Some a) = trbt_insert_case5 h1 (Some p)"
    by (auto simp: trbt_insert_case4_def trbt_parent_def field_Some)
  with case5_right [OF h1(3), of p] h1(2) show ?thesis by (auto intro: frame_eq_trans)
qed

lemma rep_child_parent:
  assumes "rep h (N x p c k d y) fs" "rootp x = Some a \<or> rootp y = Some a"
  shows "trbt_parent h (Some a) = Some (Some p)"
proof -
  have "trbt_parent h (Some a) = Some (Some p)" if "rootp t = Some a" "tree_at (tnodes h) (Some p) t" for t
    using that by (cases t) (auto simp: trbt_parent_def field_Some)
  with assms show ?thesis by (auto simp: rep_def)
qed

lemma recolor:
  assumes rep: "rep h (N (N x p cp kp dp y) g c kg dg (N z u cu ku du w)) fs"
  obtains h1 h2 h3 where
    "upd h (Some p) (set_col TRBT_BLACK) = Some h1" "upd h1 (Some u) (set_col TRBT_BLACK) = Some h2"
    "upd h2 (Some g) (set_col TRBT_RED) = Some h3" "frame_eq h h3"
    "rep h2 (N (N x p TRBT_BLACK kp dp y) g c kg dg (N z u TRBT_BLACK ku du w)) fs"
    "rep h3 (N (N x p TRBT_BLACK kp dp y) g TRBT_RED kg dg (N z u TRBT_BLACK ku du w)) fs"
proof -
  from set_col_rep [OF rep_left [THEN iffD1, OF rep], of TRBT_BLACK] obtain h1 where h1:
    "upd h (Some p) (set_col TRBT_BLACK) = Some h1" "frame_eq h h1"
    "rep h1 (N (N x p TRBT_BLACK kp dp y) g c kg dg (N z u cu ku du w)) fs"
    by (auto simp: rep_left)
  from set_col_rep [OF rep_right [THEN iffD1, OF h1(3)], of TRBT_BLACK] obtain h2 where h2:
    "upd h1 (Some u) (set_col TRBT_BLACK) = Some h2" "frame_eq h1 h2"
    "rep h2 (N (N x p TRBT_BLACK kp dp y) g c kg dg (N z u TRBT_BLACK ku du w)) fs"
    by (auto simp: rep_right)
  from set_col_rep [OF h2(3), of TRBT_RED] that h1 h2 show thesis
    by (meson frame_eq_trans)
qed

lemma upd_commute:
  assumes "p \<noteq> u" "upd h (Some p) f = Some h1" "upd h1 (Some u) f' = Some h2"
  obtains h1' where "upd h (Some u) f' = Some h1'" "upd h1' (Some p) f = Some h2"
  using assms by (auto simp: heap_simps fun_upd_twist split: option.splits)

lemma case1_recolor_left:
  assumes rep: "rep h (N (N x p TRBT_RED kp dp y) g c kg dg (N z u TRBT_RED ku du w)) fs"
    and a: "rootp x = Some a \<or> rootp y = Some a"
  shows "\<exists>h'. trbt_insert_case1 h (Some a) = trbt_insert_case1 h' (Some g) \<and> frame_eq h h' \<and>
    rep h' (N (N x p TRBT_BLACK kp dp y) g TRBT_RED kg dg (N z u TRBT_BLACK ku du w)) fs"
proof -
  from recolor [OF rep] obtain h1 h2 h3 where H:
    "upd h (Some p) (set_col TRBT_BLACK) = Some h1" "upd h1 (Some u) (set_col TRBT_BLACK) = Some h2"
    "upd h2 (Some g) (set_col TRBT_RED) = Some h3" "frame_eq h h3"
    and h2: "rep h2 (N (N x p TRBT_BLACK kp dp y) g c kg dg (N z u TRBT_BLACK ku du w)) fs"
    and h3: "rep h3 (N (N x p TRBT_BLACK kp dp y) g TRBT_RED kg dg (N z u TRBT_BLACK ku du w)) fs" .
  have "trbt_parent h (Some a) = Some (Some p)" "trbt_parent h2 (Some a) = Some (Some p)"
    using rep_child_parent [OF rep_left [THEN iffD1, OF rep] a] rep_child_parent [OF rep_left [THEN iffD1, OF h2] a] .
  moreover have "tnodes h p = Some (Node (Some g) (rootp x) (rootp y) TRBT_RED kp dp)"
    "tnodes h g = Some (Node (parentp fs) (Some p) (Some u) c kg dg)"
    "tnodes h u = Some (Node (Some g) (rootp z) (rootp w) TRBT_RED ku du)"
    "tnodes h2 p = Some (Node (Some g) (rootp x) (rootp y) TRBT_BLACK kp dp)"
    "trbt_parent h (Some p) = Some (Some g)"
    using rep h2 by (simp_all add: rep_def trbt_parent_def field_Some)
  ultimately have "trbt_insert_case1 h (Some a) = trbt_insert_case1 h3 (Some g)"
    using H by (subst trbt_insert_case1.simps)
      (simp add: trbt_uncle_def trbt_grandparent_def field_Some)
  with H(4) h3 show ?thesis by auto
qed

lemma case1_recolor_right:
  assumes rep: "rep h (N (N z u TRBT_RED ku du w) g c kg dg (N x p TRBT_RED kp dp y)) fs"
    and a: "rootp x = Some a \<or> rootp y = Some a"
  shows "\<exists>h'. trbt_insert_case1 h (Some a) = trbt_insert_case1 h' (Some g) \<and> frame_eq h h' \<and>
    rep h' (N (N z u TRBT_BLACK ku du w) g TRBT_RED kg dg (N x p TRBT_BLACK kp dp y)) fs"
proof -
  from recolor [OF rep] obtain h1 h2 h3 where H:
    "upd h (Some u) (set_col TRBT_BLACK) = Some h1" "upd h1 (Some p) (set_col TRBT_BLACK) = Some h2"
    "upd h2 (Some g) (set_col TRBT_RED) = Some h3" "frame_eq h h3"
    and h2: "rep h2 (N (N z u TRBT_BLACK ku du w) g c kg dg (N x p TRBT_BLACK kp dp y)) fs"
    and h3: "rep h3 (N (N z u TRBT_BLACK ku du w) g TRBT_RED kg dg (N x p TRBT_BLACK kp dp y)) fs" .
  have "u \<noteq> p" using rep by (auto simp: rep_def)
  from upd_commute [OF this H(1,2)] obtain h1' where H':
    "upd h (Some p) (set_col TRBT_BLACK) = Some h1'" "upd h1' (Some u) (set_col TRBT_BLACK) = Some h2" .
  have "trbt_parent h (Some a) = Some (Some p)" "trbt_parent h2 (Some a) = Some (Some p)"
    using rep_child_parent [OF rep_right [THEN iffD1, OF rep] a] rep_child_parent [OF rep_right [THEN iffD1, OF h2] a] .
  moreover have "tnodes h p = Some (Node (Some g) (rootp x) (rootp y) TRBT_RED kp dp)"
    "tnodes h g = Some (Node (parentp fs) (Some u) (Some p) c kg dg)"
    "tnodes h u = Some (Node (Some g) (rootp z) (rootp w) TRBT_RED ku du)"
    "tnodes h2 p = Some (Node (Some g) (rootp x) (rootp y) TRBT_BLACK kp dp)"
    "trbt_parent h (Some p) = Some (Some g)"
    using rep h2 by (simp_all add: rep_def trbt_parent_def field_Some)
  ultimately have "trbt_insert_case1 h (Some a) = trbt_insert_case1 h3 (Some g)"
    using H H' \<open>u \<noteq> p\<close> by (subst trbt_insert_case1.simps)
      (simp add: trbt_uncle_def trbt_grandparent_def field_Some)
  with H(4) h3 show ?thesis by auto
qed

lemma case1_black_uncle_left:
  assumes rep: "rep h (N (N x p TRBT_RED kp dp y) g c kg dg u) fs"
    and a: "rootp x = Some a \<or> rootp y = Some a" and u: "col u = TRBT_BLACK"
  shows "trbt_insert_case1 h (Some a) = trbt_insert_case4 h (Some a)"
proof -
  have "trbt_parent h (Some a) = Some (Some p)"
    by (rule rep_child_parent [OF rep_left [THEN iffD1, OF rep] a])
  moreover have "tnodes h p = Some (Node (Some g) (rootp x) (rootp y) TRBT_RED kp dp)"
    "tnodes h g = Some (Node (parentp fs) (Some p) (rootp u) c kg dg)"
    "trbt_parent h (Some p) = Some (Some g)"
    using rep by (simp_all add: rep_def trbt_parent_def field_Some)
  moreover have "rootp u = None \<or> field rb_color h (rootp u) = Some TRBT_BLACK"
    using rep u by (cases u) (auto simp: rep_def field_Some)
  ultimately show ?thesis
    by (subst trbt_insert_case1.simps) (auto simp: trbt_uncle_def field_Some)
qed

lemma case1_black_uncle_right:
  assumes rep: "rep h (N u g c kg dg (N x p TRBT_RED kp dp y)) fs"
    and a: "rootp x = Some a \<or> rootp y = Some a" and u: "col u = TRBT_BLACK"
  shows "trbt_insert_case1 h (Some a) = trbt_insert_case4 h (Some a)"
proof -
  have "trbt_parent h (Some a) = Some (Some p)"
    by (rule rep_child_parent [OF rep_right [THEN iffD1, OF rep] a])
  moreover have "tnodes h p = Some (Node (Some g) (rootp x) (rootp y) TRBT_RED kp dp)"
    "tnodes h g = Some (Node (parentp fs) (rootp u) (Some p) c kg dg)"
    "trbt_parent h (Some p) = Some (Some g)"
    using rep by (simp_all add: rep_def trbt_parent_def field_Some)
  moreover have "rootp u = None \<or> field rb_color h (rootp u) = Some TRBT_BLACK"
    using rep u by (cases u) (auto simp: rep_def field_Some)
  moreover have "rootp u \<noteq> Some p"
    using rep rootp_eq_Some [of u p] by (auto simp: rep_def)
  ultimately show ?thesis
    by (subst trbt_insert_case1.simps) (auto simp: trbt_uncle_def field_Some)
qed

text \<open>The outcome of the rebalancing of a red node below a context.\<close>

definition fixed :: "'d trbt_tree \<Rightarrow> 'd trbt_tree option \<Rightarrow> (u32 \<times> 'd option) list \<Rightarrow> bool" where
  "fixed h res content \<longleftrightarrow>
     (\<exists>h' t'. res = Some h' \<and> frame_eq h h' \<and> rep h' t' [] \<and> rb t' \<and> inorder t' = content)"

lemma fixed_plug:
  assumes "res = Some h'" "frame_eq h h'" "rep h' t' fs" "inorder (plug t' fs) = content"
    and "cinv (bheight t') fs" "invc t'" "invh t'" "col t' = TRBT_BLACK"
  shows "fixed h res content"
  using assms rb_plug [of t' fs] by (auto simp: fixed_def rep_plug [of h' t' fs])

lemma fixed_step:
  "frame_eq h h1 \<Longrightarrow> fixed h1 res content \<Longrightarrow> fixed h res content"
  unfolding fixed_def by (blast intro: frame_eq_trans)

lemma insert_case1_root:
  assumes "rep h (N l a TRBT_RED k d r) []" "invc (N l a TRBT_RED k d r)" "invh (N l a TRBT_RED k d r)"
  shows "fixed h (trbt_insert_case1 h (Some a)) (inorder (N l a TRBT_RED k d r))"
proof -
  have "trbt_parent h (Some a) = Some None"
    using assms(1) by (simp add: rep_def trbt_parent_def field_Some)
  then have "trbt_insert_case1 h (Some a) = upd h (Some a) (set_col TRBT_BLACK)"
    by (subst trbt_insert_case1.simps) simp
  with set_col_rep [OF assms(1), of TRBT_BLACK] obtain h' where
    "trbt_insert_case1 h (Some a) = Some h'" "frame_eq h h'" "rep h' (N l a TRBT_BLACK k d r) []"
    by auto
  then show ?thesis by (rule fixed_plug) (use assms(2,3) in auto)
qed

lemma insert_case1_black_parent:
  assumes "rep h (N l a c k d r) fs" "fs \<noteq> []" "fcol fs = TRBT_BLACK"
  shows "trbt_insert_case1 h (Some a) = Some h"
proof -
  obtain p where p: "parentp fs = Some p" "field rb_color h (Some p) = Some TRBT_BLACK"
    using assms by (cases fs rule: parentp.cases) (auto simp: rep_def field_Some)
  moreover have "trbt_parent h (Some a) = Some (Some p)"
    using assms(1) p by (simp add: rep_def trbt_parent_def field_Some)
  ultimately show ?thesis by (subst trbt_insert_case1.simps) simp
qed

lemma insert_case1_rep:
  assumes "rep h (N l a TRBT_RED k d r) fs" "invc (N l a TRBT_RED k d r)" "invh (N l a TRBT_RED k d r)"
    "cinv (bheight (N l a TRBT_RED k d r)) fs"
  shows "fixed h (trbt_insert_case1 h (Some a)) (inorder (plug (N l a TRBT_RED k d r) fs))"
  using assms
proof (induction "length fs" arbitrary: h l a k d r fs rule: less_induct)
  case less
  note rep = less.prems(1)
  let ?t = "N l a TRBT_RED k d r"
  consider (root) "fs = []" | (black) "fs \<noteq> []" "fcol fs = TRBT_BLACK"
    | (red) "fs \<noteq> []" "fcol fs = TRBT_RED" by (cases "fcol fs") auto
  then show ?case
  proof cases
    case root
    with insert_case1_root less.prems show ?thesis by fastforce
  next
    case black
    then have "rb (plug ?t fs)" using less.prems by (intro rb_plug) auto
    with insert_case1_black_parent [OF rep black] rep show ?thesis
      by (auto simp: fixed_def frame_eq_def rep_plug [of h ?t fs])
  next
    case red
    then obtain f g gs where fs: "fs = f # g # gs" and gcol: "fcol (g # gs) = TRBT_BLACK"
      using less.prems(4) by (cases fs rule: parentp.cases) (auto simp: neq_Nil_conv)
    obtain p kp dp s where f: "f = LF p TRBT_RED kp dp s \<or> f = RF s p TRBT_RED kp dp"
      using red fs by (cases f) auto
    obtain ga kg dg u where g: "g = LF ga TRBT_BLACK kg dg u \<or> g = RF u ga TRBT_BLACK kg dg"
      using gcol by (cases g) auto
    have red_uncle: ?thesis if "\<exists>h'. trbt_insert_case1 h (Some a) = trbt_insert_case1 h' (Some ga) \<and>
        frame_eq h h' \<and> rep h' (N x ga TRBT_RED kg dg y) gs"
      "invc (N x ga TRBT_RED kg dg y)" "invh (N x ga TRBT_RED kg dg y)" "bheight x = Suc (bheight l)"
      "inorder (N x ga TRBT_RED kg dg y) = inorder (plug ?t [f, g])" for x y
    proof -
      from that(1) obtain h' where h': "trbt_insert_case1 h (Some a) = trbt_insert_case1 h' (Some ga)"
        "frame_eq h h'" "rep h' (N x ga TRBT_RED kg dg y) gs" by blast
      have "cinv (bheight (N x ga TRBT_RED kg dg y)) gs"
        using less.prems(4) f g that(4) by (auto simp: fs)
      with less.hyps [OF _ h'(3) that(2,3)] have
        "fixed h' (trbt_insert_case1 h' (Some ga)) (inorder (plug (N x ga TRBT_RED kg dg y) gs))"
        by (simp add: fs)
      moreover have "inorder (plug (N x ga TRBT_RED kg dg y) gs) = inorder (plug ?t fs)"
        using f g that(5) by (auto simp: fs inorder_plug)
      ultimately show ?thesis using h' fixed_step by metis
    qed
    have black_uncle: ?thesis if "trbt_insert_case1 h (Some a) = trbt_insert_case4 h (Some a)"
      "\<exists>h'. trbt_insert_case4 h (Some a) = Some h' \<and> frame_eq h h' \<and> rep h' t' gs"
      "invc t'" "invh t'" "col t' = TRBT_BLACK" "bheight t' = Suc (bheight l)"
      "inorder t' = inorder (plug ?t [f, g])" for t'
    proof -
      from that(2) obtain h' where h': "trbt_insert_case4 h (Some a) = Some h'" "frame_eq h h'" "rep h' t' gs"
        by blast
      have "cinv (bheight t') gs" using less.prems(4) f g that(6) by (auto simp: fs)
      moreover have "inorder (plug t' gs) = inorder (plug ?t fs)"
        using f g that(7) by (auto simp: fs inorder_plug)
      ultimately show ?thesis using that h' by (intro fixed_plug [of _ h' h t' gs]) simp_all
    qed
    have inv: "invc l" "invc r" "invh l" "invh r" "col l = TRBT_BLACK" "col r = TRBT_BLACK"
      "bheight r = bheight l" using less.prems(2,3) by simp_all
    have sinv: "invc s" "invh s" "bheight s = bheight l" "col s = TRBT_BLACK"
      "invc u" "invh u" "bheight u = bheight l"
      using less.prems(4) f g by (auto simp: fs)
    consider (LL) "f = LF p TRBT_RED kp dp s" "g = LF ga TRBT_BLACK kg dg u"
      | (RL) "f = RF s p TRBT_RED kp dp" "g = LF ga TRBT_BLACK kg dg u"
      | (LR) "f = LF p TRBT_RED kp dp s" "g = RF u ga TRBT_BLACK kg dg"
      | (RR) "f = RF s p TRBT_RED kp dp" "g = RF u ga TRBT_BLACK kg dg" using f g by blast
    then show ?thesis
    proof cases
      case LL
      have rep': "rep h (N (N ?t p TRBT_RED kp dp s) ga TRBT_BLACK kg dg u) gs"
        using rep LL by (simp add: fs rep_left [symmetric] rep_right [symmetric])
      show ?thesis
      proof (cases "col u")
        case TRBT_RED
        then obtain ul ua uk ud ur where u: "u = N ul ua TRBT_RED uk ud ur" by (cases u) auto
        show ?thesis
          by (rule red_uncle [OF case1_recolor_left [OF rep' [unfolded u]]]) (use inv sinv u LL in auto)
      next
        case TRBT_BLACK
        show ?thesis
          by (rule black_uncle [OF case1_black_uncle_left [OF rep' _ TRBT_BLACK] case4_left_outer [OF rep']])
            (use inv sinv LL TRBT_BLACK in auto)
      qed
    next
      case RL
      have rep': "rep h (N (N s p TRBT_RED kp dp ?t) ga TRBT_BLACK kg dg u) gs"
        using rep RL by (simp add: fs rep_left [symmetric] rep_right [symmetric])
      show ?thesis
      proof (cases "col u")
        case TRBT_RED
        then obtain ul ua uk ud ur where u: "u = N ul ua TRBT_RED uk ud ur" by (cases u) auto
        show ?thesis
          by (rule red_uncle [OF case1_recolor_left [OF rep' [unfolded u]]]) (use inv sinv u RL in auto)
      next
        case TRBT_BLACK
        show ?thesis
          by (rule black_uncle [OF case1_black_uncle_left [OF rep' _ TRBT_BLACK] case4_left_inner [OF rep']])
            (use inv sinv RL TRBT_BLACK in auto)
      qed
    next
      case LR
      have rep': "rep h (N u ga TRBT_BLACK kg dg (N ?t p TRBT_RED kp dp s)) gs"
        using rep LR by (simp add: fs rep_left [symmetric] rep_right [symmetric])
      show ?thesis
      proof (cases "col u")
        case TRBT_RED
        then obtain ul ua uk ud ur where u: "u = N ul ua TRBT_RED uk ud ur" by (cases u) auto
        show ?thesis
          by (rule red_uncle [OF case1_recolor_right [OF rep' [unfolded u]]]) (use inv sinv u LR in auto)
      next
        case TRBT_BLACK
        show ?thesis
          by (rule black_uncle [OF case1_black_uncle_right [OF rep' _ TRBT_BLACK] case4_right_inner [OF rep']])
            (use inv sinv LR TRBT_BLACK in auto)
      qed
    next
      case RR
      have rep': "rep h (N u ga TRBT_BLACK kg dg (N s p TRBT_RED kp dp ?t)) gs"
        using rep RR by (simp add: fs rep_left [symmetric] rep_right [symmetric])
      show ?thesis
      proof (cases "col u")
        case TRBT_RED
        then obtain ul ua uk ud ur where u: "u = N ul ua TRBT_RED uk ud ur" by (cases u) auto
        show ?thesis
          by (rule red_uncle [OF case1_recolor_right [OF rep' [unfolded u]]]) (use inv sinv u RR in auto)
      next
        case TRBT_BLACK
        show ?thesis
          by (rule black_uncle [OF case1_black_uncle_right [OF rep' _ TRBT_BLACK] case4_right_outer [OF rep']])
            (use inv sinv RR TRBT_BLACK in auto)
      qed
    qed
  qed
qed

section \<open>Finding the place of a key\<close>

definition tree_ok :: "'d trbt_tree \<Rightarrow> 'd rtree \<Rightarrow> bool" where
  "tree_ok h t \<longleftrightarrow> rep h t [] \<and> bst t \<and> rb t"

text \<open>The data pointer stored under a key, NULL if there is none.\<close>

definition tlookup :: "'d rtree \<Rightarrow> u32 \<Rightarrow> 'd option" where
  "tlookup t key = (case map_of (inorder t) key of None \<Rightarrow> None | Some d \<Rightarrow> d)"

definition between :: "u32 \<Rightarrow> 'd frame list \<Rightarrow> bool" where
  "between key fs \<longleftrightarrow> (\<forall>x \<in> set (linorder_l fs). fst x < key) \<and> (\<forall>x \<in> set (linorder_r fs). key < fst x)"

lemma bst_N:
  "bst (N l a c k d r) \<longleftrightarrow>
     bst l \<and> bst r \<and> (\<forall>x \<in> set (inorder l). fst x < k) \<and> (\<forall>x \<in> set (inorder r). k < fst x)"
  by (fastforce simp: bst_def sorted_wrt_append)

lemma lookup_from_rep:
  "tree_at (tnodes h) par t \<Longrightarrow> bst t \<Longrightarrow> trbt_lookup_from h (rootp t) key = Some (tlookup t key)"
proof (induction t arbitrary: par)
  case E
  then show ?case by (subst trbt_lookup_from.simps) (simp add: tlookup_def)
next
  case (N l a c k d r)
  have "map_of (inorder l) key = None" if "k \<le> key"
    using N.prems(2) that by (fastforce simp: bst_N map_of_eq_None_iff)
  moreover have "map_of (inorder r) key = None" if "key \<le> k"
    using N.prems(2) that by (fastforce simp: bst_N map_of_eq_None_iff)
  ultimately show ?case
    using N by (subst trbt_lookup_from.simps)
      (auto simp: field_Some bst_N tlookup_def map_add_def not_less split: option.splits
        dest: order.strict_implies_order)
qed

lemma walk_rep:
  assumes "rep h t fs" "bst t" "between key fs" "t \<noteq> E"
  shows "(\<exists>l a c d r fs'. trbt_walk h (rootp t) key = Some (Existing (Some a)) \<and>
            plug (N l a c key d r) fs' = plug t fs \<and> between key fs') \<or>
         (\<exists>a c k d r fs'. trbt_walk h (rootp t) key = Some (New_left (Some a)) \<and>
            plug E (LF a c k d r # fs') = plug t fs \<and> between key (LF a c k d r # fs')) \<or>
         (\<exists>l a c k d fs'. trbt_walk h (rootp t) key = Some (New_right (Some a)) \<and>
            plug E (RF l a c k d # fs') = plug t fs \<and> between key (RF l a c k d # fs'))"
  using assms
proof (induction t arbitrary: fs)
  case (N l a c k d r)
  have node: "tnodes h a = Some (Node (parentp fs) (rootp l) (rootp r) c k d)"
    using N.prems(1) by (simp add: rep_def)
  consider (eq) "key = k" | (lt) "key < k" | (gt) "k < key" by (rule linorder_cases)
  then show ?case
  proof cases
    case eq
    then show ?thesis
      using node N.prems by (subst (1 2 3) trbt_walk.simps) (auto simp: field_Some)
  next
    case lt
    then have btw: "between key (LF a c k d r # fs)"
      using N.prems by (auto simp: between_def bst_N)
    show ?thesis
    proof (cases l)
      case E
      then have "trbt_walk h (rootp (N l a c k d r)) key = Some (New_left (Some a))"
        using node lt by (subst trbt_walk.simps) (auto simp: field_Some)
      with btw E show ?thesis by fastforce
    next
      case (N ll la lc lk ld lr)
      then have "trbt_walk h (rootp (N l a c k d r)) key = trbt_walk h (rootp l) key"
        using node lt by (subst trbt_walk.simps) (auto simp: field_Some)
      moreover have "rep h l (LF a c k d r # fs)" "bst l" "l \<noteq> E"
        using N.prems N by (auto simp: rep_left bst_N)
      ultimately show ?thesis using N.IH(1) [of "LF a c k d r # fs"] btw by simp
    qed
  next
    case gt
    then have btw: "between key (RF l a c k d # fs)"
      using N.prems by (auto simp: between_def bst_N)
    show ?thesis
    proof (cases r)
      case E
      then have "trbt_walk h (rootp (N l a c k d r)) key = Some (New_right (Some a))"
        using node gt by (subst trbt_walk.simps) (auto simp: field_Some)
      with btw E show ?thesis by fastforce
    next
      case (N rl ra rc rk rd rr)
      then have "trbt_walk h (rootp (N l a c k d r)) key = trbt_walk h (rootp r) key"
        using node gt by (subst trbt_walk.simps) (auto simp: field_Some)
      moreover have "rep h r (RF l a c k d # fs)" "bst r" "r \<noteq> E"
        using N.prems N by (auto simp: rep_right bst_N)
      ultimately show ?thesis using N.IH(2) [of "RF l a c k d # fs"] btw by simp
    qed
  qed
qed simp

section \<open>Insertion\<close>

lemma attach_left_rep:
  assumes "rep h E (LF p c k d r # fs)" "rb (plug E (LF p c k d r # fs))"
  shows "\<exists>h' t'. trbt_attach h (Some p) set_left key dat = Some h' \<and> tflags h' = tflags h \<and> rep h' t' [] \<and> rb t' \<and>
    inorder t' = linorder_l (LF p c k d r # fs) @ (key, dat) # linorder_r (LF p c k d r # fs)"
proof -
  define h1 where "h1 = Tree ((tnodes h)(p \<mapsto> Node (parentp fs) (Some (tnext h)) (rootp r) c k d,
    tnext h \<mapsto> Node (Some p) None None TRBT_RED key dat)) (troot h) (tflags h) (Suc (tnext h))"
  have fresh: "tnext h \<notin> set (p # addrs r @ faddrs fs)" using assms(1) by (auto simp: rep_def)
  then have "trbt_attach h (Some p) set_left key dat = trbt_insert_case1 h1 (Some (tnext h))"
    using assms(1)
    by (auto simp: trbt_attach_def trbt_create_node_def rep_def heap_simps h1_def fun_upd_twist)
  moreover have "rep h1 (N E (tnext h) TRBT_RED key dat E) (LF p c k d r # fs)"
    using assms(1) fresh by (auto simp: rep_def h1_def less_Suc_eq)
  from insert_case1_rep [OF this] cinv_plug [OF assms(2)] have
    "fixed h1 (trbt_insert_case1 h1 (Some (tnext h))) (inorder (plug (N E (tnext h) TRBT_RED key dat E) (LF p c k d r # fs)))"
    by simp
  ultimately show ?thesis
    by (auto simp: fixed_def frame_eq_def h1_def inorder_plug)
qed

lemma attach_right_rep:
  assumes "rep h E (RF l p c k d # fs)" "rb (plug E (RF l p c k d # fs))"
  shows "\<exists>h' t'. trbt_attach h (Some p) set_right key dat = Some h' \<and> tflags h' = tflags h \<and> rep h' t' [] \<and> rb t' \<and>
    inorder t' = linorder_l (RF l p c k d # fs) @ (key, dat) # linorder_r (RF l p c k d # fs)"
proof -
  define h1 where "h1 = Tree ((tnodes h)(p \<mapsto> Node (parentp fs) (rootp l) (Some (tnext h)) c k d,
    tnext h \<mapsto> Node (Some p) None None TRBT_RED key dat)) (troot h) (tflags h) (Suc (tnext h))"
  have fresh: "tnext h \<notin> set (p # addrs l @ faddrs fs)" using assms(1) by (auto simp: rep_def)
  then have "trbt_attach h (Some p) set_right key dat = trbt_insert_case1 h1 (Some (tnext h))"
    using assms(1)
    by (auto simp: trbt_attach_def trbt_create_node_def rep_def heap_simps h1_def fun_upd_twist)
  moreover have "rep h1 (N E (tnext h) TRBT_RED key dat E) (RF l p c k d # fs)"
    using assms(1) fresh by (auto simp: rep_def h1_def less_Suc_eq)
  from insert_case1_rep [OF this] cinv_plug [OF assms(2)] have
    "fixed h1 (trbt_insert_case1 h1 (Some (tnext h))) (inorder (plug (N E (tnext h) TRBT_RED key dat E) (RF l p c k d # fs)))"
    by simp
  ultimately show ?thesis
    by (auto simp: fixed_def frame_eq_def h1_def inorder_plug)
qed

text \<open>Ordered lists of entries as finite maps.\<close>

lemma map_of_less: "\<forall>x \<in> set L. fst x < key \<Longrightarrow> map_of L key = None" for key :: u32
  by (induction L) auto

lemma map_of_greater: "\<forall>x \<in> set L. key < fst x \<Longrightarrow> map_of L key = None" for key :: u32
  by (induction L) auto

lemma map_of_between:
  fixes key :: u32
  assumes "\<forall>x \<in> set L. fst x < key" "\<forall>x \<in> set R. key < fst x" "set (map fst M) \<subseteq> {key}"
  shows "map_of (L @ (key, d) # R) = (map_of (L @ M @ R))(key \<mapsto> d)"
proof -
  have "map_of M x = None" if "x \<noteq> key" for x
    using that assms(3) by (auto simp: map_of_eq_None_iff)
  moreover note map_of_less [OF assms(1)]
  ultimately show ?thesis by (auto simp: fun_eq_iff map_add_def split: option.splits)
qed

lemma sorted_between:
  fixes key :: u32
  assumes "\<forall>x \<in> set L. fst x < key" "\<forall>x \<in> set R. key < fst x"
  shows "sorted_wrt (<) (map fst (L @ (key, d) # R)) \<longleftrightarrow> sorted_wrt (<) (map fst (L @ R))"
  using assms by (fastforce simp: sorted_wrt_append)

lemma walk_cases:
  assumes ok: "tree_ok h t" and ne: "t \<noteq> E"
  obtains (existing) l a c d r fs where "trbt_walk h (troot h) key = Some (Existing (Some a))"
      "rep h (N l a c key d r) fs" "rb (plug (N l a c key d r) fs)" "between key fs"
      "inorder t = linorder_l fs @ (inorder l @ (key, d) # inorder r) @ linorder_r fs"
      "\<forall>x \<in> set (inorder l). fst x < key" "\<forall>x \<in> set (inorder r). key < fst x" "tlookup t key = d"
  | (left) a c k d r fs where "trbt_walk h (troot h) key = Some (New_left (Some a))"
      "rep h E (LF a c k d r # fs)" "rb (plug E (LF a c k d r # fs))" "between key (LF a c k d r # fs)"
      "inorder t = linorder_l (LF a c k d r # fs) @ linorder_r (LF a c k d r # fs)" "tlookup t key = None"
  | (right) l a c k d fs where "trbt_walk h (troot h) key = Some (New_right (Some a))"
      "rep h E (RF l a c k d # fs)" "rb (plug E (RF l a c k d # fs))" "between key (RF l a c k d # fs)"
      "inorder t = linorder_l (RF l a c k d # fs) @ linorder_r (RF l a c k d # fs)" "tlookup t key = None"
proof -
  have rep: "rep h t []" and bst: "bst t" and rb: "rb t" using ok by (simp_all add: tree_ok_def)
  then have root: "troot h = rootp t" by (simp add: rep_def)
  have absent: "tlookup t key = None" if "inorder t = linorder_l fs @ linorder_r fs" "between key fs" for fs
  proof -
    have "map_of (inorder t) key = None"
      using that map_of_less [of "linorder_l fs" key] map_of_greater [of "linorder_r fs" key]
      by (simp add: between_def map_add_def)
    then show ?thesis by (simp add: tlookup_def)
  qed
  have "between key []" by (simp add: between_def)
  from walk_rep [OF rep bst this ne] show thesis
  proof (elim disjE exE conjE)
    fix l a c d r fs
    assume A: "trbt_walk h (rootp t) key = Some (Existing (Some a))" "plug (N l a c key d r) fs = plug t []" "between key fs"
    then have t: "t = plug (N l a c key d r) fs" by simp
    have sorted: "sorted_wrt (<) (map fst (inorder l @ (key, d) # inorder r))"
      using bst by (auto simp: t bst_def inorder_plug sorted_wrt_append)
    then have ord: "\<forall>x \<in> set (inorder l). fst x < key" "\<forall>x \<in> set (inorder r). key < fst x"
      by (auto simp: sorted_wrt_append)
    have "map_of (inorder t) key = Some d"
      using A(3) ord map_of_less [of "linorder_l fs" key] map_of_less [of "inorder l" key]
      by (simp add: t inorder_plug between_def map_add_def)
    then have look: "tlookup t key = d" by (simp add: tlookup_def)
    show thesis
    proof (rule existing)
      show "trbt_walk h (troot h) key = Some (Existing (Some a))" using A(1) root by simp
      show "rep h (N l a c key d r) fs" using rep unfolding t by (rule rep_plug [THEN iffD2])
      show "rb (plug (N l a c key d r) fs)" using rb unfolding t .
      show "inorder t = linorder_l fs @ (inorder l @ (key, d) # inorder r) @ linorder_r fs"
        by (simp add: t inorder_plug)
    qed (rule A(3) ord look)+
  next
    fix a c k d r fs
    assume A: "trbt_walk h (rootp t) key = Some (New_left (Some a))" "plug E (LF a c k d r # fs) = plug t []"
      "between key (LF a c k d r # fs)"
    then have t: "t = plug E (LF a c k d r # fs)" by simp
    have "inorder t = linorder_l (LF a c k d r # fs) @ linorder_r (LF a c k d r # fs)"
      unfolding t inorder_plug by simp
    note content = this
    show thesis
    proof (rule left)
      show "trbt_walk h (troot h) key = Some (New_left (Some a))" using A(1) root by simp
      show "rep h E (LF a c k d r # fs)" using rep unfolding t by (rule rep_plug [THEN iffD2])
      show "rb (plug E (LF a c k d r # fs))" using rb unfolding t .
    qed (rule A(3) content absent [OF content A(3)])+
  next
    fix l a c k d fs
    assume A: "trbt_walk h (rootp t) key = Some (New_right (Some a))" "plug E (RF l a c k d # fs) = plug t []"
      "between key (RF l a c k d # fs)"
    then have t: "t = plug E (RF l a c k d # fs)" by simp
    have "inorder t = linorder_l (RF l a c k d # fs) @ linorder_r (RF l a c k d # fs)"
      unfolding t inorder_plug by simp
    note content = this
    show thesis
    proof (rule right)
      show "trbt_walk h (troot h) key = Some (New_right (Some a))" using A(1) root by simp
      show "rep h E (RF l a c k d # fs)" using rep unfolding t by (rule rep_plug [THEN iffD2])
      show "rb (plug E (RF l a c k d # fs))" using rb unfolding t .
    qed (rule A(3) content absent [OF content A(3)])+
  qed
qed

text \<open>The tree after an entry was put between what is left and what is right of its key.\<close>

lemma tree_ok_between:
  assumes "rep h' t' []" "rb t'" "inorder t' = L @ (key, d) # R" "inorder t = L @ M @ R" "bst t"
    and "\<forall>x \<in> set L. fst x < key" "\<forall>x \<in> set R. key < fst x" "set (map fst M) \<subseteq> {key}"
  shows "tree_ok h' t' \<and> map_of (inorder t') = (map_of (inorder t))(key \<mapsto> d)"
proof -
  have "sorted_wrt (<) (map fst (L @ R))"
    using assms(4,5) by (auto simp: bst_def sorted_wrt_append)
  then have "bst t'" using sorted_between [OF assms(6,7)] assms(3) by (simp add: bst_def)
  moreover have "map_of (inorder t') = (map_of (inorder t))(key \<mapsto> d)"
    unfolding assms(3,4) by (rule map_of_between [OF assms(6-8)])
  ultimately show ?thesis using assms(1,2) by (simp add: tree_ok_def)
qed

lemma set_data_ok:
  assumes "tree_ok h t" and rep: "rep h (N l a c key d r) fs" and rb: "rb (plug (N l a c key d r) fs)"
    and "between key fs" "inorder t = linorder_l fs @ (inorder l @ (key, d) # inorder r) @ linorder_r fs"
    "\<forall>x \<in> set (inorder l). fst x < key" "\<forall>x \<in> set (inorder r). key < fst x"
  shows "\<exists>h' t'. upd h (Some a) (set_data d') = Some h' \<and> tree_ok h' t' \<and> tflags h' = tflags h \<and>
    map_of (inorder t') = (map_of (inorder t))(key \<mapsto> d')"
proof -
  let ?t' = "plug (N l a c key d' r) fs"
  obtain h' where h': "upd h (Some a) (set_data d') = Some h'" "tflags h' = tflags h" "rep h' (N l a c key d' r) fs"
    using rep by (auto simp: rep_def heap_simps)
  have "rb ?t'" using cinv_plug [OF rb] by (intro rb_plug) auto
  moreover have "rep h' ?t' []" using h'(3) by (rule rep_plug [THEN iffD1])
  moreover have "inorder ?t' = (linorder_l fs @ inorder l) @ (key, d') # inorder r @ linorder_r fs"
    by (simp add: inorder_plug)
  moreover have "inorder t = (linorder_l fs @ inorder l) @ [(key, d)] @ inorder r @ linorder_r fs"
    using assms(5) by simp
  moreover have "bst t" using assms(1) by (simp add: tree_ok_def)
  moreover have "\<forall>x \<in> set (linorder_l fs @ inorder l). fst x < key"
    "\<forall>x \<in> set (inorder r @ linorder_r fs). key < fst x"
    using assms(4,6,7) by (auto simp: between_def)
  ultimately have "tree_ok h' ?t' \<and> map_of (inorder ?t') = (map_of (inorder t))(key \<mapsto> d')"
    by (intro tree_ok_between [where L = "linorder_l fs @ inorder l" and R = "inorder r @ linorder_r fs"
          and M = "[(key, d)]"]) simp_all
  with h' show ?thesis by blast
qed

lemma attach_ok:
  assumes "tree_ok h t" "between key fs" "inorder t = linorder_l fs @ linorder_r fs"
    and "rep h' t' []" "rb t'" "inorder t' = linorder_l fs @ (key, d) # linorder_r fs"
  shows "tree_ok h' t' \<and> map_of (inorder t') = (map_of (inorder t))(key \<mapsto> d)"
  using assms by (intro tree_ok_between [where M = "[]"]) (auto simp: tree_ok_def between_def)

lemma create_root_ok:
  assumes "tree_ok h E"
  shows "tree_ok (set_root (Some (tnext h)) (fst (trbt_create_node h None key d)))
    (N E (tnext h) TRBT_BLACK key d E)"
  by (simp add: tree_ok_def trbt_create_node_def rep_def bst_def rb_def)

lemma trbt_insert32_callback_ok:
  assumes ok: "tree_ok h t" and cb: "callback (tlookup t key) = Some d"
  shows "\<exists>h' t'. trbt_insert32_callback h key callback = Some h' \<and> tree_ok h' t' \<and> tflags h' = tflags h \<and>
    map_of (inorder t') = (map_of (inorder t))(key \<mapsto> d)"
proof (cases "t = E")
  case True
  with ok have "troot h = None" by (simp add: tree_ok_def rep_def)
  with create_root_ok [of h key d] ok cb True show ?thesis
    by (intro exI [of _ "set_root (Some (tnext h)) (fst (trbt_create_node h None key d))"]
        exI [of _ "N E (tnext h) TRBT_BLACK key d E"])
      (simp add: trbt_insert32_callback_def trbt_create_node_def tlookup_def)
next
  case False
  with ok obtain p where root: "troot h = Some p" by (cases t) (auto simp: tree_ok_def rep_def)
  from ok False show ?thesis
  proof (cases rule: walk_cases [where key = key])
    case (existing l a c d0 r fs)
    then have "field ndata h (Some a) = Some d0" by (simp add: rep_def field_Some)
    with existing(1) cb root existing(8) have "trbt_insert32_callback h key callback = upd h (Some a) (set_data d)"
      by (simp add: trbt_insert32_callback_def)
    with set_data_ok [OF ok existing(2-7), of d] show ?thesis by simp
  next
    case (left a c k d0 r fs)
    then have "trbt_insert32_callback h key callback = trbt_attach h (Some a) set_left key d"
      using cb root by (simp add: trbt_insert32_callback_def)
    with attach_left_rep [OF left(2,3), of key d] attach_ok [OF ok left(4,5)] show ?thesis by fastforce
  next
    case (right l a c k d0 fs)
    then have "trbt_insert32_callback h key callback = trbt_attach h (Some a) set_right key d"
      using cb root by (simp add: trbt_insert32_callback_def)
    with attach_right_rep [OF right(2,3), of key d] attach_ok [OF ok right(4,5)] show ?thesis by fastforce
  qed
qed

text \<open>\<^verbatim>\<open>trbt_insert32\<close> is the insertion with a constant callback that also returns the old data.\<close>

lemma trbt_insert32_callback_eq:
  assumes "tree_ok h t"
  shows "trbt_insert32 h key d =
    map_option (\<lambda>h'. (h', tlookup t key)) (trbt_insert32_callback h key (\<lambda>_. Some d))"
proof (cases "t = E")
  case True
  with assms show ?thesis
    by (simp add: tree_ok_def rep_def trbt_insert32_def trbt_insert32_callback_def tlookup_def split: prod.splits)
next
  case False
  with assms obtain p where root: "troot h = Some p" by (cases t) (auto simp: tree_ok_def rep_def)
  from assms False show ?thesis
  proof (cases rule: walk_cases [where key = key])
    case (existing l a c d0 r fs)
    then have "field ndata h (Some a) = Some d0" by (simp add: rep_def field_Some)
    with existing root show ?thesis
      by (cases "upd h (Some a) (set_data d)") (simp_all add: trbt_insert32_def trbt_insert32_callback_def)
  next
    case (left a c k d0 r fs)
    with root show ?thesis
      by (cases "trbt_attach h (Some a) set_left key d") (simp_all add: trbt_insert32_def trbt_insert32_callback_def)
  next
    case (right l a c k d0 fs)
    with root show ?thesis
      by (cases "trbt_attach h (Some a) set_right key d") (simp_all add: trbt_insert32_def trbt_insert32_callback_def)
  qed
qed

end
