(* ===== verification/Rb_Array.thy ===== *)
theory Rb_Array
  imports Rb_Insert
begin

text \<open>
  Trees whose key is an array of words: the data of a node is the subtree for the rest of the key,
  down to the last word, where it is the user's data.  An array key is the list of its words.
  Passing user data where a subtree is expected, or the other way round, has no value here.
\<close>

section \<open>The operations\<close>

datatype 'd tree_data = User 'd | Subtree "'d tree_data trbt_tree"

fun array_insert_callback ::
    "u32 list \<Rightarrow> ('d option \<Rightarrow> 'd option) \<Rightarrow> 'd tree_data option \<Rightarrow> 'd tree_data option option"
  and trbt_insertarray32_callback ::
    "u32 list \<Rightarrow> ('d option \<Rightarrow> 'd option) \<Rightarrow> 'd tree_data trbt_tree \<Rightarrow> 'd tree_data trbt_tree option" where
  "array_insert_callback [] callback data =
     (case data of
        None \<Rightarrow> Some (map_option User (callback None))
      | Some (User d) \<Rightarrow> Some (map_option User (callback (Some d)))
      | Some (Subtree t) \<Rightarrow> None)"
| "array_insert_callback (k # ks) callback data =
     do { tree \<leftarrow> (case data of
                     None \<Rightarrow> Some (trbt_create TRBT_AUTOFREE)
                   | Some (Subtree t) \<Rightarrow> Some t
                   | Some (User d) \<Rightarrow> None);
          tree \<leftarrow> trbt_insertarray32_callback (k # ks) callback tree;
          Some (Some (Subtree tree)) }"
| "trbt_insertarray32_callback [] callback tree = None"
| "trbt_insertarray32_callback (k # ks) callback tree =
     trbt_insert32_callback tree k (array_insert_callback ks callback)"

fun trbt_lookuparray32 :: "'d tree_data trbt_tree \<Rightarrow> u32 list \<Rightarrow> 'd option option" where
  "trbt_lookuparray32 tree [] = None"
| "trbt_lookuparray32 tree [k] =
     do { d \<leftarrow> trbt_lookup32 tree k;
          case d of None \<Rightarrow> Some None | Some (User x) \<Rightarrow> Some (Some x) | Some (Subtree t) \<Rightarrow> None }"
| "trbt_lookuparray32 tree (k # k' # ks) =
     do { d \<leftarrow> trbt_lookup32 tree k;
          case d of
            None \<Rightarrow> Some None
          | Some (Subtree t) \<Rightarrow> trbt_lookuparray32 t (k' # ks)
          | Some (User x) \<Rightarrow> None }"

text \<open>
  The traversal threads the state its callback changes and stops when the callback returns a
  value other than 0.  \<open>keylen\<close> counts the levels of subtrees below this one.
\<close>

partial_function (option) trbt_traversearray32_node ::
    "'d tree_data trbt_tree \<Rightarrow> ptr \<Rightarrow> nat \<Rightarrow> ('d option \<Rightarrow> 's \<Rightarrow> 's \<times> int) \<Rightarrow> 's \<Rightarrow> ('s \<times> int) option" where
  "trbt_traversearray32_node t node keylen callback s =
     do { l \<leftarrow> field nleft t node;
          r \<leftarrow> field nright t node;
          (s, ret) \<leftarrow> (if l \<noteq> None then trbt_traversearray32_node t l keylen callback s else Some (s, 0));
          if ret \<noteq> 0 then Some (s, ret)
          else do {
            d \<leftarrow> field ndata t node;
            (s, ret) \<leftarrow>
              (if keylen = 0 then
                 (case d of
                    None \<Rightarrow> Some (callback None s)
                  | Some (User x) \<Rightarrow> Some (callback (Some x) s)
                  | Some (Subtree t') \<Rightarrow> None)
               else
                 (case d of
                    None \<Rightarrow> Some (s, 0)
                  | Some (Subtree t') \<Rightarrow>
                      (if troot t' = None then Some (s, 0)
                       else trbt_traversearray32_node t' (troot t') (keylen - 1) callback s)
                  | Some (User x) \<Rightarrow> None));
            if ret \<noteq> 0 then Some (s, ret)
            else if r \<noteq> None then trbt_traversearray32_node t r keylen callback s
            else Some (s, 0) } }"

definition trbt_traversearray32 ::
    "'d tree_data trbt_tree option \<Rightarrow> nat \<Rightarrow> ('d option \<Rightarrow> 's \<Rightarrow> 's \<times> int) \<Rightarrow> 's \<Rightarrow> ('s \<times> int) option" where
  "trbt_traversearray32 tree keylen callback s =
     (case tree of
        None \<Rightarrow> Some (s, 0)
      | Some t \<Rightarrow> if troot t = None then Some (s, 0)
                  else trbt_traversearray32_node t (troot t) (keylen - 1) callback s)"

partial_function (option) trbt_leftmost :: "'d trbt_tree \<Rightarrow> ptr \<Rightarrow> ptr option" where
  "trbt_leftmost t node =
     do { l \<leftarrow> field nleft t node;
          if l \<noteq> None then trbt_leftmost t l else Some node }"

fun trbt_findfirstarray32 :: "'d tree_data trbt_tree option \<Rightarrow> nat \<Rightarrow> 'd option option" where
  "trbt_findfirstarray32 tree 0 = Some None"
| "trbt_findfirstarray32 None (Suc keylen) = Some None"
| "trbt_findfirstarray32 (Some t) (Suc keylen) =
     (if troot t = None then Some None
      else do {
        node \<leftarrow> trbt_leftmost t (troot t);
        d \<leftarrow> field ndata t node;
        if keylen = 0 then
          (case d of None \<Rightarrow> Some None | Some (User x) \<Rightarrow> Some (Some x) | Some (Subtree t') \<Rightarrow> None)
        else
          (case d of
             None \<Rightarrow> trbt_findfirstarray32 None keylen
           | Some (Subtree t') \<Rightarrow> trbt_findfirstarray32 (Some t') keylen
           | Some (User x) \<Rightarrow> None) })"

declare trbt_traversearray32_node.simps [code] trbt_leftmost.simps [code]

section \<open>Ordered association lists\<close>

fun ainsert :: "u32 \<Rightarrow> 'v \<Rightarrow> (u32 \<times> 'v) list \<Rightarrow> (u32 \<times> 'v) list" where
  "ainsert key v [] = [(key, v)]"
| "ainsert key v ((k, x) # xs) =
     (if key < k then (key, v) # (k, x) # xs
      else if key = k then (key, v) # xs else (k, x) # ainsert key v xs)"

definition keys_sorted :: "(u32 \<times> 'v) list \<Rightarrow> bool" where
  "keys_sorted xs \<longleftrightarrow> sorted_wrt (<) (map fst xs)"

lemma keys_sorted_Cons: "keys_sorted ((k, x) # xs) \<longleftrightarrow> keys_sorted xs \<and> (\<forall>y \<in> set xs. k < fst y)"
  by (auto simp: keys_sorted_def)

lemma set_ainsert: "fst ` set (ainsert key v xs) = insert key (fst ` set xs)"
  by (induction key v xs rule: ainsert.induct) (simp_all add: insert_commute)

lemma ainsert_sorted: "keys_sorted xs \<Longrightarrow> keys_sorted (ainsert key v xs)"
proof (induction xs)
  case (Cons y xs)
  obtain k x where y: "y = (k, x)" by (cases y)
  have "\<forall>z \<in> set (ainsert key v xs). k < fst z" if "k < key"
  proof
    fix z assume "z \<in> set (ainsert key v xs)"
    then have "fst z \<in> insert key (fst ` set xs)" using set_ainsert [of key v xs] by (metis image_eqI)
    with Cons.prems that show "k < fst z" by (auto simp: y keys_sorted_Cons)
  qed
  with Cons show ?case by (fastforce simp: y keys_sorted_Cons not_less)
qed (simp add: keys_sorted_def)

lemma map_of_ainsert: "keys_sorted xs \<Longrightarrow> map_of (ainsert key v xs) = (map_of xs)(key \<mapsto> v)"
  by (induction xs) (auto simp: keys_sorted_Cons fun_upd_twist)

lemma keys_sorted_map_of_unique:
  assumes "keys_sorted xs" "keys_sorted ys" "map_of xs = map_of ys"
  shows "xs = ys"
  using assms
proof (induction xs arbitrary: ys)
  case Nil
  then show ?case by (cases ys) (auto simp: fun_eq_iff split: if_splits)
next
  case (Cons y xs)
  obtain k x where y: "y = (k, x)" by (cases y)
  from Cons.prems(3) have "map_of ys k = Some x" by (simp add: y fun_eq_iff) metis
  then obtain k' x' zs where ys: "ys = (k', x') # zs" by (cases ys) auto
  have some: "map_of ((k, x) # xs) j = map_of ((k', x') # zs) j" for j using Cons.prems(3) y ys by metis
  have less: "map_of xs j = None" if "j \<le> k" for j
    using Cons.prems(1) that map_of_greater [of xs j] by (fastforce simp: y keys_sorted_Cons)
  have less': "map_of zs j = None" if "j \<le> k'" for j
    using Cons.prems(2) that map_of_greater [of zs j] by (fastforce simp: ys keys_sorted_Cons)
  have "k = k'" using some [of k] some [of k'] less [of k'] less' [of k]
    by (cases k k' rule: le_cases) (auto split: if_splits)
  moreover from this have "x = x'" using some [of k] by simp
  moreover have "map_of xs = map_of zs"
  proof
    fix j show "map_of xs j = map_of zs j"
      using some [of j] less [of k] less' [of k] \<open>k = k'\<close> by (cases "j = k") auto
  qed
  ultimately show ?case using Cons.IH [of zs] Cons.prems by (simp add: y ys keys_sorted_Cons)
qed

lemma ainsert_unique:
  assumes "keys_sorted xs" "keys_sorted ys" "map_of ys = (map_of xs)(key \<mapsto> v)"
  shows "ys = ainsert key v xs"
  using assms by (intro keys_sorted_map_of_unique) (simp_all add: ainsert_sorted map_of_ainsert)

lemma list_all2_ainsert:
  assumes "list_all2 P xs ys" "\<And>x y. P x y \<Longrightarrow> fst x = fst y" "P (key, v) (key, w)"
  shows "list_all2 P (ainsert key v xs) (ainsert key w ys)"
  using assms(1)
proof (induction rule: list_all2_induct)
  case (Cons x xs y ys)
  then show ?case using assms(2) [of x y] assms(3) by (cases x; cases y) auto
qed (use assms(3) in simp)

section \<open>The entries of an array tree\<close>

definition prefix_keys :: "u32 \<Rightarrow> (u32 list \<times> 'd option) list \<Rightarrow> (u32 list \<times> 'd option) list" where
  "prefix_keys k es = map (\<lambda>(ks, x). (k # ks, x)) es"

definition flatten :: "(u32 \<times> (u32 list \<times> 'd option) list) list \<Rightarrow> (u32 list \<times> 'd option) list" where
  "flatten kes = concat (map (\<lambda>(k, es). prefix_keys k es) kes)"

text \<open>
  \<open>arr n h es\<close>: the tree with keys of \<open>n + 1\<close> words is well formed at every level, no subtree is
  empty, and \<open>es\<close> are its entries in traversal order.
\<close>

primrec arr :: "nat \<Rightarrow> 'd tree_data trbt_tree \<Rightarrow> (u32 list \<times> 'd option) list \<Rightarrow> bool" where
  "arr 0 h es =
     (\<exists>t xs. tree_ok h t \<and> inorder t = map (\<lambda>(k, d). (k, map_option User d)) xs \<and>
        es = map (\<lambda>(k, d). ([k], d)) xs)"
| "arr (Suc n) h es =
     (\<exists>t kes. tree_ok h t \<and>
        list_all2 (\<lambda>x y. fst x = fst y \<and> (\<exists>h'. snd x = Some (Subtree h') \<and> arr n h' (snd y) \<and> snd y \<noteq> [])) (inorder t) kes \<and>
        es = flatten kes)"

definition arr_lookup :: "(u32 list \<times> 'd option) list \<Rightarrow> u32 list \<Rightarrow> 'd option" where
  "arr_lookup es key = (case map_of es key of None \<Rightarrow> None | Some d \<Rightarrow> d)"

lemma map_of_prefix_keys:
  "map_of (prefix_keys k es) [] = None"
  "map_of (prefix_keys k es) (k' # ks) = (if k = k' then map_of es ks else None)"
  by (induction es) (auto simp: prefix_keys_def)

lemma map_of_flatten_Nil: "map_of (flatten kes) [] = None"
  by (induction kes) (auto simp: flatten_def map_of_prefix_keys map_add_def split: option.splits)

lemma map_of_flatten:
  "keys_sorted kes \<Longrightarrow>
     map_of (flatten kes) (k # ks) = (case map_of kes k of None \<Rightarrow> None | Some es \<Rightarrow> map_of es ks)"
proof (induction kes)
  case (Cons y kes)
  obtain j es where y: "y = (j, es)" by (cases y)
  have "map_of kes j = None"
    using Cons.prems map_of_greater [of kes j] by (auto simp: y keys_sorted_Cons)
  with Cons show ?case
    by (auto simp: y flatten_def map_of_prefix_keys map_add_def keys_sorted_Cons split: option.splits)
qed (simp add: flatten_def)

section \<open>Insertion and lookup\<close>

lemma tree_ok_keys_sorted: "tree_ok h t \<Longrightarrow> keys_sorted (inorder t)"
  by (simp add: tree_ok_def bst_def keys_sorted_def)

lemma insert_inorder:
  assumes "tree_ok h t" "callback (tlookup t key) = Some d"
  shows "\<exists>h' t'. trbt_insert32_callback h key callback = Some h' \<and> tree_ok h' t' \<and>
    inorder t' = ainsert key d (inorder t)"
proof -
  from trbt_insert32_callback_ok [where callback = callback, OF assms] obtain h' t' where
    h': "trbt_insert32_callback h key callback = Some h'" "tree_ok h' t'"
    "map_of (inorder t') = (map_of (inorder t))(key \<mapsto> d)" by auto
  then have "inorder t' = ainsert key d (inorder t)"
    using ainsert_unique tree_ok_keys_sorted assms(1) by metis
  with h' show ?thesis by auto
qed

lemma lookup_ok: "tree_ok h t \<Longrightarrow> trbt_lookup32 h key = Some (tlookup t key)"
  using lookup_from_rep [of h None t key] by (simp add: trbt_lookup32_def tree_ok_def rep_def)

lemma ainsert_map: "ainsert k (f v) (map (\<lambda>(k, d). (k, f d)) xs) = map (\<lambda>(k, d). (k, f d)) (ainsert k v xs)"
  by (induction xs) auto

lemma map_of_single: "map_of (map (\<lambda>(k, d). ([k], d)) xs) ks = (case ks of [k] \<Rightarrow> map_of xs k | _ \<Rightarrow> None)"
  by (induction xs) (auto split: list.splits)

lemma map_of_map_snd: "map_of (map (\<lambda>(k, d). (k, f d)) xs) k = map_option f (map_of xs k)"
  by (induction xs) auto

lemma keys_sorted_map: "keys_sorted (map (\<lambda>(k, d). (k, f d)) xs) = keys_sorted xs"
  by (simp add: keys_sorted_def case_prod_unfold comp_def)

lemma arr_empty: "arr n (trbt_create fl) []"
proof -
  have "tree_ok (trbt_create fl) E"
    by (simp add: tree_ok_def trbt_create_def rep_def bst_def rb_def)
  then show ?thesis
    by (cases n) (auto simp: flatten_def intro!: exI [of _ E] exI [of _ "[]"])
qed

lemma list_all2_fst: "list_all2 (\<lambda>x y. fst x = fst y \<and> Q x y) xs ys \<Longrightarrow> map fst xs = map fst ys"
  by (induction rule: list_all2_induct) auto

lemma list_all2_map_of_None:
  "list_all2 (\<lambda>x y. fst x = fst y \<and> Q x y) xs ys \<Longrightarrow> map_of xs k = None \<longleftrightarrow> map_of ys k = None"
  using list_all2_fst [of Q xs ys] by (simp add: map_of_eq_None_iff flip: set_map)

lemma list_all2_map_of_Some:
  "list_all2 (\<lambda>x y. fst x = fst y \<and> Q x y) xs ys \<Longrightarrow> map_of xs k = Some d \<Longrightarrow>
     \<exists>w. map_of ys k = Some w \<and> Q (k, d) (k, w)"
proof (induction rule: list_all2_induct)
  case (Cons x xs y ys)
  obtain j v w where "x = (j, v)" "y = (j, w)" using Cons.hyps(1) by (cases x; cases y) simp
  with Cons show ?case by (cases "k = j") simp_all
qed simp

lemma insertarray_ok:
  "arr n h es \<Longrightarrow> length key = Suc n \<Longrightarrow>
     \<exists>h' es'. trbt_insertarray32_callback key callback h = Some h' \<and> arr n h' es' \<and>
       map_of es' = (map_of es)(key \<mapsto> callback (arr_lookup es key))"
proof (induction n arbitrary: h es key)
  case 0
  then obtain t xs k where ok: "tree_ok h t" and xs: "inorder t = map (\<lambda>(k, d). (k, map_option User d)) xs"
    and es: "es = map (\<lambda>(k, d). ([k], d)) xs" and key: "key = [k]"
    by (auto simp: length_Suc_conv)
  have sorted: "keys_sorted xs" using tree_ok_keys_sorted [OF ok] xs by (simp add: keys_sorted_map)
  define d where "d = callback (arr_lookup es key)"
  have "tlookup t k = map_option User (arr_lookup es key)"
    by (simp add: tlookup_def arr_lookup_def xs es key map_of_single map_of_map_snd split: option.splits)
  then have "array_insert_callback [] callback (tlookup t k) = Some (map_option User d)"
    by (cases "arr_lookup es key") (simp_all add: d_def)
  from insert_inorder [where callback = "array_insert_callback [] callback", OF ok this] obtain h' t' where
    h': "trbt_insertarray32_callback key callback h = Some h'" "tree_ok h' t'"
    "inorder t' = map (\<lambda>(k, d). (k, map_option User d)) (ainsert k d xs)"
    by (auto simp: key xs ainsert_map)
  have "map_of (map (\<lambda>(k, d). ([k], d)) (ainsert k d xs)) = (map_of es)(key \<mapsto> d)"
    by (auto simp: fun_eq_iff map_of_single map_of_ainsert [OF sorted] es key split: list.splits)
  moreover have "arr 0 h' (map (\<lambda>(k, d). ([k], d)) (ainsert k d xs))" using h'(2,3) by auto
  ultimately show ?case using h'(1) unfolding d_def by blast
next
  case (Suc n)
  let ?P = "\<lambda>x y. fst x = fst y \<and> (\<exists>h'. snd x = Some (Subtree h') \<and> arr n h' (snd y) \<and> snd y \<noteq> [])"
  from Suc.prems obtain t kes k ks where ok: "tree_ok h t" and all: "list_all2 ?P (inorder t) kes"
    and es: "es = flatten kes" and key: "key = k # ks" "length ks = Suc n"
    by (auto simp: length_Suc_conv)
  then obtain k' ks' where ks: "ks = k' # ks'" by (auto simp: length_Suc_conv)
  note keys = list_all2_fst [OF all] list_all2_map_of_None [OF all, of k] list_all2_map_of_Some [OF all, of k]
  have sorted: "keys_sorted kes" using tree_ok_keys_sorted [OF ok] keys(1) by (simp add: keys_sorted_def)
  define es0 where "es0 = (case map_of kes k of None \<Rightarrow> [] | Some e \<Rightarrow> e)"
  obtain h0 where h0: "arr n h0 es0" "case tlookup t k of None \<Rightarrow> h0 = trbt_create TRBT_AUTOFREE
      | Some (Subtree h1) \<Rightarrow> h0 = h1 | Some (User u) \<Rightarrow> False"
  proof (cases "map_of (inorder t) k")
    case None
    then show thesis
      using that [of "trbt_create TRBT_AUTOFREE"] keys(2) arr_empty [of n TRBT_AUTOFREE]
      by (simp add: es0_def tlookup_def)
  next
    case (Some d)
    with keys(3) [of d] that show thesis by (auto simp: es0_def tlookup_def)
  qed
  from Suc.IH [OF h0(1) key(2)] obtain h1 es1 where
    h1: "trbt_insertarray32_callback ks callback h0 = Some h1" "arr n h1 es1"
    "map_of es1 = (map_of es0)(ks \<mapsto> callback (arr_lookup es0 ks))" by blast
  have "array_insert_callback ks callback (tlookup t k) = Some (Some (Subtree h1))"
    using h0(2) h1(1) ks by (auto split: option.splits tree_data.splits)
  from insert_inorder [where callback = "array_insert_callback ks callback", OF ok this] obtain h' t' where
    h': "trbt_insertarray32_callback key callback h = Some h'" "tree_ok h' t'"
    "inorder t' = ainsert k (Some (Subtree h1)) (inorder t)"
    by (auto simp: key)
  have "map_of es1 ks \<noteq> None" by (simp add: h1(3))
  then have "es1 \<noteq> []" by auto
  then have "list_all2 ?P (inorder t') (ainsert k es1 kes)"
    unfolding h'(3) using all h1(2) by (intro list_all2_ainsert) simp_all
  then have "arr (Suc n) h' (flatten (ainsert k es1 kes))" unfolding arr.simps using h'(2) by blast
  moreover have "map_of (flatten (ainsert k es1 kes)) = (map_of es)(key \<mapsto> callback (arr_lookup es key))"
  proof
    fix x show "map_of (flatten (ainsert k es1 kes)) x = ((map_of es)(key \<mapsto> callback (arr_lookup es key))) x"
      using sorted by (cases x) (auto simp: map_of_flatten_Nil map_of_flatten ainsert_sorted map_of_ainsert
          es key h1(3) arr_lookup_def es0_def split: option.splits)
  qed
  ultimately show ?case using h'(1) by blast
qed

lemma lookuparray_ok:
  "arr n h es \<Longrightarrow> length key = Suc n \<Longrightarrow> trbt_lookuparray32 h key = Some (arr_lookup es key)"
proof (induction n arbitrary: h es key)
  case 0
  then obtain t xs k where "tree_ok h t" "inorder t = map (\<lambda>(k, d). (k, map_option User d)) xs"
    "es = map (\<lambda>(k, d). ([k], d)) xs" "key = [k]"
    by (auto simp: length_Suc_conv)
  then show ?case
    by (auto simp: lookup_ok tlookup_def arr_lookup_def map_of_single map_of_map_snd split: option.splits)
next
  case (Suc n)
  let ?P = "\<lambda>x y. fst x = fst y \<and> (\<exists>h'. snd x = Some (Subtree h') \<and> arr n h' (snd y) \<and> snd y \<noteq> [])"
  from Suc.prems obtain t kes k k' ks where ok: "tree_ok h t" and all: "list_all2 ?P (inorder t) kes"
    and es: "es = flatten kes" and key: "key = k # k' # ks" "length (k' # ks) = Suc n"
    by (auto simp: length_Suc_conv)
  note keys = list_all2_fst [OF all] list_all2_map_of_None [OF all, of k] list_all2_map_of_Some [OF all, of k]
  have sorted: "keys_sorted kes" using tree_ok_keys_sorted [OF ok] keys(1) by (simp add: keys_sorted_def)
  show ?case
  proof (cases "map_of (inorder t) k")
    case None
    with keys(2) sorted ok show ?thesis
      by (simp add: key lookup_ok tlookup_def arr_lookup_def es map_of_flatten)
  next
    case (Some d)
    with keys(3) [of d] obtain h' es' where h': "d = Some (Subtree h')" "arr n h' es'" "map_of kes k = Some es'" by auto
    with Suc.IH [OF h'(2) key(2)] Some sorted ok show ?thesis
      by (simp add: key lookup_ok tlookup_def arr_lookup_def es map_of_flatten)
  qed
qed

section \<open>Traversal\<close>

text \<open>The callbacks run one after the other, up to the first that does not return 0.\<close>

fun run_callbacks :: "('d option \<Rightarrow> 's \<Rightarrow> 's \<times> int) \<Rightarrow> 'd option list \<Rightarrow> 's \<Rightarrow> 's \<times> int" where
  "run_callbacks cb [] s = (s, 0)"
| "run_callbacks cb (d # ds) s =
     (case cb d s of (s', ret) \<Rightarrow> if ret \<noteq> 0 then (s', ret) else run_callbacks cb ds s')"

lemma run_callbacks_append:
  "run_callbacks cb (ds @ ds') s =
     (case run_callbacks cb ds s of (s', ret) \<Rightarrow> if ret \<noteq> 0 then (s', ret) else run_callbacks cb ds' s')"
  by (induction ds arbitrary: s) (auto split: prod.splits)

definition visit_data ::
    "nat \<Rightarrow> ('d option \<Rightarrow> 's \<Rightarrow> 's \<times> int) \<Rightarrow> 'd tree_data option \<Rightarrow> 's \<Rightarrow> ('s \<times> int) option" where
  "visit_data keylen callback d s =
     (if keylen = 0 then
        (case d of
           None \<Rightarrow> Some (callback None s)
         | Some (User x) \<Rightarrow> Some (callback (Some x) s)
         | Some (Subtree t') \<Rightarrow> None)
      else
        (case d of
           None \<Rightarrow> Some (s, 0)
         | Some (Subtree t') \<Rightarrow>
             (if troot t' = None then Some (s, 0)
              else trbt_traversearray32_node t' (troot t') (keylen - 1) callback s)
         | Some (User x) \<Rightarrow> None))"

lemma traverse_node:
  assumes "tree_at (tnodes h) par t" "t \<noteq> E"
    and "list_all2 (\<lambda>x e. \<forall>s. visit_data keylen cb (snd x) s = Some (run_callbacks cb e s)) (inorder t) ess"
  shows "trbt_traversearray32_node h (rootp t) keylen cb s = Some (run_callbacks cb (concat ess) s)"
  using assms
proof (induction t arbitrary: par ess s)
  case (N l a c k d r)
  let ?ok = "\<lambda>x e. \<forall>s. visit_data keylen cb (snd x) s = Some (run_callbacks cb e s)"
  from N.prems(3) obtain el e er where ess: "ess = el @ e # er"
    "list_all2 ?ok (inorder l) el" "\<forall>s. visit_data keylen cb d s = Some (run_callbacks cb e s)"
    "list_all2 ?ok (inorder r) er"
    by (auto simp: list_all2_append1 list_all2_Cons1)
  have node: "tnodes h a = Some (Node par (rootp l) (rootp r) c k d)"
    and l: "tree_at (tnodes h) (Some a) l" and r: "tree_at (tnodes h) (Some a) r"
    using N.prems(1) by simp_all
  have left: "(if rootp l \<noteq> None then trbt_traversearray32_node h (rootp l) keylen cb s else Some (s, 0)) =
      Some (run_callbacks cb (concat el) s)" for s
    using N.IH(1) [OF l _ ess(2)] ess(2) by (cases "l = E") (auto split: if_splits elim: rootp.elims)
  have right: "(if rootp r \<noteq> None then trbt_traversearray32_node h (rootp r) keylen cb s else Some (s, 0)) =
      Some (run_callbacks cb (concat er) s)" for s
    using N.IH(2) [OF r _ ess(4)] ess(4) by (cases "r = E") (auto split: if_splits elim: rootp.elims)
  have "trbt_traversearray32_node h (Some a) keylen cb s =
    do { (s, ret) \<leftarrow> (if rootp l \<noteq> None then trbt_traversearray32_node h (rootp l) keylen cb s else Some (s, 0));
         if ret \<noteq> 0 then Some (s, ret)
         else do {
           (s, ret) \<leftarrow> visit_data keylen cb d s;
           if ret \<noteq> 0 then Some (s, ret)
           else (if rootp r \<noteq> None then trbt_traversearray32_node h (rootp r) keylen cb s else Some (s, 0)) } }"
    by (subst trbt_traversearray32_node.simps) (simp add: field_Some node visit_data_def cong: if_cong)
  then show ?case
    unfolding left right using ess(3)
    by (auto simp: ess(1) run_callbacks_append split: prod.splits)
qed simp

lemma traversearray_ok:
  "arr n h es \<Longrightarrow>
     (if troot h = None then Some (s, 0) else trbt_traversearray32_node h (troot h) n cb s) =
       Some (run_callbacks cb (map snd es) s)"
proof (induction n arbitrary: h es s)
  case 0
  then obtain t xs where t: "tree_ok h t" "inorder t = map (\<lambda>(k, d). (k, map_option User d)) xs"
    "es = map (\<lambda>(k, d). ([k], d)) xs" by auto
  have "list_all2 (\<lambda>x e. \<forall>s. visit_data 0 cb (snd x) s = Some (run_callbacks cb e s)) (inorder t) (map (\<lambda>x. [snd x]) xs)"
    unfolding t(2) list_all2_map1 list_all2_map2 list_all2_same
    by (auto simp: visit_data_def split: option.splits prod.splits)
  from traverse_node [OF _ _ this, of h None] t show ?case
    by (cases "t = E") (auto simp: tree_ok_def rep_def comp_def case_prod_unfold elim: rootp.elims split: if_splits)
next
  case (Suc n)
  let ?P = "\<lambda>x y. fst x = fst y \<and> (\<exists>h'. snd x = Some (Subtree h') \<and> arr n h' (snd y) \<and> snd y \<noteq> [])"
  from Suc.prems obtain t kes where t: "tree_ok h t" "list_all2 ?P (inorder t) kes" "es = flatten kes" by auto
  have "list_all2 (\<lambda>x e. \<forall>s. visit_data (Suc n) cb (snd x) s = Some (run_callbacks cb e s)) (inorder t) (map (map snd o snd) kes)"
    unfolding list_all2_map2 using t(2)
    by (rule list_all2_mono) (auto simp: visit_data_def Suc.IH split del: if_split cong: if_cong)
  moreover have "concat (map (map snd o snd) kes) = map snd es"
    unfolding t(3) by (induction kes) (auto simp: flatten_def prefix_keys_def case_prod_unfold)
  ultimately show ?case
    using traverse_node [of h None t "Suc n" cb "map (map snd o snd) kes" s] t(1,2)
    by (cases "t = E") (auto simp: tree_ok_def rep_def flatten_def elim: rootp.elims split: if_splits)
qed

section \<open>Order and first entry\<close>

lemma list_all2_member2: "list_all2 P xs ys \<Longrightarrow> y \<in> set ys \<Longrightarrow> \<exists>x. P x y"
  by (metis in_set_conv_nth list_all2_conv_all_nth)

lemma in_flatten:
  "x \<in> set (flatten kes) \<longleftrightarrow> (\<exists>k es ks d. (k, es) \<in> set kes \<and> (ks, d) \<in> set es \<and> x = (k # ks, d))"
  unfolding flatten_def prefix_keys_def by (cases x) fastforce

lemma flatten_sorted:
  assumes "keys_sorted kes" "\<forall>y \<in> set kes. sorted_wrt ord_class.lexordp (map fst (snd y))"
  shows "sorted_wrt ord_class.lexordp (map fst (flatten kes))"
  using assms
proof (induction kes)
  case (Cons y kes)
  obtain k es where y: "y = (k, es)" by (cases y)
  have "sorted_wrt ord_class.lexordp (map fst (prefix_keys k es))"
    using Cons.prems(2) by (simp add: y prefix_keys_def sorted_wrt_map case_prod_unfold)
  moreover have "ord_class.lexordp (fst p) (fst q)" if "p \<in> set (prefix_keys k es)" "q \<in> set (flatten kes)" for p q
  proof -
    from that(2) obtain j es' ks d where "(j, es') \<in> set kes" "q = (j # ks, d)"
      unfolding in_flatten by blast
    with that(1) Cons.prems(1) show ?thesis by (force simp: y keys_sorted_Cons prefix_keys_def)
  qed
  moreover have "sorted_wrt ord_class.lexordp (map fst (flatten kes))"
    using Cons by (simp add: y keys_sorted_Cons)
  moreover have "flatten (y # kes) = prefix_keys k es @ flatten kes" by (simp add: y flatten_def)
  ultimately show ?case by (simp add: sorted_wrt_append)
qed (simp add: flatten_def)

lemma arr_sorted: "arr n h es \<Longrightarrow> sorted_wrt ord_class.lexordp (map fst es)"
proof (induction n arbitrary: h es)
  case 0
  then obtain t xs where "tree_ok h t" "inorder t = map (\<lambda>(k, d). (k, map_option User d)) xs"
    "es = map (\<lambda>(k, d). ([k], d)) xs" by auto
  then show ?case
    using tree_ok_keys_sorted [of h t]
    by (auto simp: keys_sorted_map keys_sorted_def sorted_wrt_map case_prod_unfold elim: sorted_wrt_mono_rel [rotated])
next
  case (Suc n)
  let ?P = "\<lambda>x y. fst x = fst y \<and> (\<exists>h'. snd x = Some (Subtree h') \<and> arr n h' (snd y) \<and> snd y \<noteq> [])"
  from Suc.prems obtain t kes where t: "tree_ok h t" "list_all2 ?P (inorder t) kes" "es = flatten kes" by auto
  have "keys_sorted kes"
    using tree_ok_keys_sorted [OF t(1)] list_all2_fst [OF t(2)] by (simp add: keys_sorted_def)
  moreover have "\<forall>y \<in> set kes. sorted_wrt ord_class.lexordp (map fst (snd y))"
  proof
    fix y assume "y \<in> set kes"
    with list_all2_member2 [OF t(2)] obtain h' where "arr n h' (snd y)" by blast
    with Suc.IH show "sorted_wrt ord_class.lexordp (map fst (snd y))" by blast
  qed
  ultimately show ?case unfolding t(3) by (rule flatten_sorted)
qed

lemma leftmost_rep:
  "tree_at (tnodes h) par t \<Longrightarrow> t \<noteq> E \<Longrightarrow>
     \<exists>a. trbt_leftmost h (rootp t) = Some (Some a) \<and> field ndata h (Some a) = Some (snd (hd (inorder t)))"
proof (induction t arbitrary: par)
  case (N l a c k d r)
  show ?case
  proof (cases l)
    case E
    with N.prems show ?thesis by (subst trbt_leftmost.simps) (simp add: field_Some)
  next
    case (N ll la lc lk ld lr)
    then have "trbt_leftmost h (rootp (N l a c k d r)) = trbt_leftmost h (rootp l)"
      using N.prems by (subst trbt_leftmost.simps) (simp add: field_Some)
    moreover have "hd (inorder (N l a c k d r)) = hd (inorder l)" using N by (simp add: hd_append)
    ultimately show ?thesis using N.IH(1) [of "Some a"] N.prems N by simp
  qed
qed simp

lemma findfirst_ok:
  "arr n h es \<Longrightarrow> trbt_findfirstarray32 (Some h) (Suc n) = Some (if es = [] then None else snd (hd es))"
proof (induction n arbitrary: h es)
  case 0
  then obtain t xs where t: "tree_ok h t" "inorder t = map (\<lambda>(k, d). (k, map_option User d)) xs"
    "es = map (\<lambda>(k, d). ([k], d)) xs" by auto
  show ?case
  proof (cases t)
    case E
    with t show ?thesis by (simp add: tree_ok_def rep_def)
  next
    case (N l a c k d r)
    then obtain x xs' where xs: "xs = x # xs'" using t(2) by (cases xs) auto
    from N t(1) leftmost_rep [of h None t] obtain b where
      "trbt_leftmost h (troot h) = Some (Some b)" "field ndata h (Some b) = Some (snd (hd (inorder t)))" "troot h \<noteq> None"
      by (auto simp: tree_ok_def rep_def)
    then show ?thesis by (cases x; cases "snd x") (auto simp: t(2,3) xs)
  qed
next
  case (Suc n)
  let ?P = "\<lambda>x y. fst x = fst y \<and> (\<exists>h'. snd x = Some (Subtree h') \<and> arr n h' (snd y) \<and> snd y \<noteq> [])"
  from Suc.prems obtain t kes where t: "tree_ok h t" "list_all2 ?P (inorder t) kes" "es = flatten kes" by auto
  show ?case
  proof (cases t)
    case E
    with t show ?thesis by (simp add: tree_ok_def rep_def flatten_def)
  next
    case (N l a c k d r)
    then obtain x xs y kes' where xy: "inorder t = x # xs" "kes = y # kes'" "?P x y"
      using t(2) by (cases "inorder t") (auto simp: list_all2_Cons1)
    then obtain h' z zs where h': "snd x = Some (Subtree h')" "arr n h' (snd y)" "snd y = z # zs"
      by (auto simp: neq_Nil_conv)
    from N t(1) leftmost_rep [of h None t] obtain b where
      "trbt_leftmost h (troot h) = Some (Some b)" "field ndata h (Some b) = Some (snd (hd (inorder t)))" "troot h \<noteq> None"
      by (auto simp: tree_ok_def rep_def)
    then have "trbt_findfirstarray32 (Some h) (Suc (Suc n)) = trbt_findfirstarray32 (Some h') (Suc n)"
      by (auto simp: xy h')
    moreover have "es \<noteq> []" "snd (hd es) = snd z"
      by (simp_all add: t(3) xy(2) flatten_def prefix_keys_def case_prod_unfold h'(3))
    ultimately show ?thesis using Suc.IH [OF h'(2)] h'(3) by simp
  qed
qed

section \<open>The interface of a store with array keys\<close>

text \<open>
  What users of array trees rely on: inserting through a callback changes one entry, and a lookup
  finds what was put there.
\<close>

locale keyed_store =
  fixes store_ok :: "'t \<Rightarrow> (u32 list \<times> 'd option) list \<Rightarrow> bool" and key_ok :: "u32 list \<Rightarrow> bool"
    and ins :: "u32 list \<Rightarrow> ('d option \<Rightarrow> 'd option) \<Rightarrow> 't \<Rightarrow> 't option"
    and look :: "'t \<Rightarrow> u32 list \<Rightarrow> 'd option option"
  assumes ins_ok: "store_ok t es \<Longrightarrow> key_ok key \<Longrightarrow>
      \<exists>t' es'. ins key cb t = Some t' \<and> store_ok t' es' \<and> map_of es' = (map_of es)(key \<mapsto> cb (arr_lookup es key))"
    and look_ok: "store_ok t es \<Longrightarrow> key_ok key \<Longrightarrow> look t key = Some (arr_lookup es key)"
begin

lemma look_ins:
  assumes "store_ok t es" "key_ok key" "key_ok key'"
  shows "\<exists>t'. ins key cb t = Some t' \<and>
    look t' key' = (if key' = key then Some (cb (arr_lookup es key)) else look t key')"
proof -
  from ins_ok [OF assms(1,2)] obtain t' es' where
    "ins key cb t = Some t'" "store_ok t' es'" "map_of es' = (map_of es)(key \<mapsto> cb (arr_lookup es key))" by blast
  with look_ok [of t' es' key'] look_ok [OF assms(1,3)] assms(3) show ?thesis by (auto simp: arr_lookup_def)
qed

text \<open>A sequence of insertions, each with its own key and callback.\<close>

lemma ins_all:
  assumes "store_ok t es" "\<forall>x \<in> set ops. key_ok (fst x)"
  shows "\<exists>t' es'. foldl (\<lambda>s x. Option.bind s (ins (fst x) (snd x))) (Some t) ops = Some t' \<and> store_ok t' es' \<and>
    map_of es' = fold (\<lambda>x m. m(fst x \<mapsto> snd x (case m (fst x) of None \<Rightarrow> None | Some d \<Rightarrow> d))) ops (map_of es)"
  using assms
proof (induction ops arbitrary: t es)
  case (Cons x ops)
  from ins_ok [of t es "fst x" "snd x"] Cons.prems obtain t1 es1 where t1: "ins (fst x) (snd x) t = Some t1"
    "store_ok t1 es1" "map_of es1 = (map_of es)(fst x \<mapsto> snd x (arr_lookup es (fst x)))" by auto
  from Cons.IH [OF t1(2)] Cons.prems(2) t1(1,3) show ?case by (simp add: arr_lookup_def)
qed auto

end

interpretation arr_store: keyed_store "arr n" "\<lambda>key. length key = Suc n" trbt_insertarray32_callback trbt_lookuparray32
  for n
  by unfold_locales (rule insertarray_ok lookuparray_ok; assumption)+

section \<open>Balance\<close>

fun height :: "'d rtree \<Rightarrow> nat" where
  "height E = 0"
| "height (N l a c k d r) = Suc (max (height l) (height r))"

lemma height_bheight:
  "invc t \<Longrightarrow> invh t \<Longrightarrow> height t \<le> 2 * bheight t + (if col t = TRBT_RED then 1 else 0)"
proof (induction t)
  case (N l a c k d r)
  then show ?case by (cases c) (auto split: if_splits)
qed simp

lemma bheight_size: "invh t \<Longrightarrow> 2 ^ bheight t \<le> Suc (length (inorder t))"
  by (induction t) auto

section \<open>Properties\<close>

lemma create_ok: "tree_ok (trbt_create fl) E"
  by (simp add: tree_ok_def trbt_create_def rep_def bst_def rb_def)

text \<open>
  C23: inserting into a well-formed pointer tree never dereferences NULL and ends, gives a
  well-formed red-black search tree again, returns the data stored before under the key, and
  afterwards the key has the new data while every other key has what it had.
\<close>

theorem trbt_insert32_correct:
  assumes "tree_ok h t"
  shows "\<exists>h' t'. trbt_insert32 h key d = Some (h', tlookup t key) \<and> tree_ok h' t' \<and>
    (\<forall>k. trbt_lookup32 h' k = (if k = key then Some d else trbt_lookup32 h k))"
proof -
  from trbt_insert32_callback_ok [OF assms, of "\<lambda>_. Some d" key d] obtain h' t' where
    h': "trbt_insert32_callback h key (\<lambda>_. Some d) = Some h'" "tree_ok h' t'"
    "map_of (inorder t') = (map_of (inorder t))(key \<mapsto> d)" by auto
  then have "trbt_insert32 h key d = Some (h', tlookup t key)"
    using trbt_insert32_callback_eq [OF assms, of key d] by simp
  with h' show ?thesis by (auto simp: lookup_ok [OF h'(2)] lookup_ok [OF assms] tlookup_def)
qed

theorem trbt_insert32_correct_witness:
  "\<exists>h' t'. trbt_insert32 (trbt_create 0) 7 (Some True) = Some (h', None) \<and> tree_ok h' t' \<and>
     trbt_lookup32 h' 7 = Some (Some True)"
  using trbt_insert32_correct [OF create_ok [of 0], of 7 "Some True"] by (auto simp: tlookup_def)



text \<open>
  C24: an insertion under an array of words never fails on a well-formed array tree; the callback
  sees the data stored under that key, its result is what a later lookup of the key finds, and
  lookups of all other keys of this length are unchanged.
\<close>

theorem trbt_insertarray32_lookup:
  assumes "arr n h es" "length key = Suc n"
  shows "\<exists>h' es'. trbt_insertarray32_callback key callback h = Some h' \<and> arr n h' es' \<and>
    (\<forall>k. length k = Suc n \<longrightarrow> trbt_lookuparray32 h' k =
       (if k = key then map_option callback (trbt_lookuparray32 h key) else trbt_lookuparray32 h k))"
proof -
  from insertarray_ok [OF assms] obtain h' es' where h': "trbt_insertarray32_callback key callback h = Some h'"
    "arr n h' es'" "map_of es' = (map_of es)(key \<mapsto> callback (arr_lookup es key))" by blast
  then have "trbt_lookuparray32 h' k =
       (if k = key then map_option callback (trbt_lookuparray32 h key) else trbt_lookuparray32 h k)"
    if "length k = Suc n" for k
    using arr_store.look_ins [OF assms that, of callback] lookuparray_ok [OF assms] by auto
  with h' show ?thesis by blast
qed

theorem trbt_insertarray32_lookup_witness:
  "\<exists>h'. trbt_insertarray32_callback [1, 2] (\<lambda>_. Some True) (trbt_create 0) = Some h' \<and>
     trbt_lookuparray32 h' [1, 2] = Some (Some True)"
proof -
  have "trbt_lookuparray32 (trbt_create 0 :: bool tree_data trbt_tree) [1, 2] = Some None"
    using lookuparray_ok [OF arr_empty, of "[1, 2]" 1 0] by (simp add: arr_lookup_def)
  moreover have "length [1 :: u32, 2] = Suc 1" by simp
  ultimately show ?thesis
    using trbt_insertarray32_lookup [OF arr_empty, of "[1, 2]" 1 "\<lambda>_. Some True" 0] by fastforce
qed

text \<open>
  C25: a traversal of a well-formed array tree calls the callback on the entries in strictly
  ascending lexicographic order of their keys, so on each exactly once, and stops at the first
  callback that does not return 0.
\<close>

theorem trbt_traversearray32_ordered:
  assumes "arr n h es"
  shows "trbt_traversearray32 (Some h) (Suc n) callback s = Some (run_callbacks callback (map snd es) s) \<and>
    sorted_wrt ord_class.lexordp (map fst es) \<and>
    (\<forall>key. length key = Suc n \<longrightarrow> trbt_lookuparray32 h key = Some (arr_lookup es key))"
  using traversearray_ok [OF assms, of s callback] arr_sorted [OF assms] lookuparray_ok [OF assms]
  by (auto simp: trbt_traversearray32_def)

theorem trbt_traversearray32_ordered_witness:
  "\<exists>h es. arr 1 h es \<and> map_of es = [[2, 1] \<mapsto> Some False, [1, 5] \<mapsto> Some True] \<and>
     trbt_traversearray32 (Some h) 2 (\<lambda>d s. (d # s, 0)) [] = Some (run_callbacks (\<lambda>d s. (d # s, 0)) (map snd es) [])"
proof -
  from insertarray_ok [OF arr_empty [of 1 0], of "[2, 1]" "\<lambda>_. Some False"] obtain h1 es1 where
    1: "arr 1 h1 es1" "map_of es1 = [[2, 1] \<mapsto> Some False]" by auto
  from insertarray_ok [OF 1(1), of "[1, 5]" "\<lambda>_. Some True"] obtain h2 es2 where
    2: "arr 1 h2 es2" "map_of es2 = [[2, 1] \<mapsto> Some False, [1, 5] \<mapsto> Some True]" by (auto simp: 1(2))
  from trbt_traversearray32_ordered [OF 2(1), of "\<lambda>d s. (d # s, 0)" "[]"] 2 show ?thesis
    by (intro exI [of _ h2] exI [of _ es2]) (simp add: numeral_2_eq_2)
qed

end
