(* ===== verification/Client_Async.thy ===== *)
theory Client_Async
  imports Sock_Addr
begin

text \<open>
  Node maps with their flags, the node lists of \<^verbatim>\<open>client/ctdb_client.c\<close>, and its asynchronous
  controls: a batch of messages is sent, and a callback runs for each answer as it arrives.  The
  network is an environment: it says for which messages \<^verbatim>\<open>ctdb_control_send\<close> returns NULL and which
  answers arrive in which order, and may depend on everything sent before.
\<close>

section \<open>Node maps\<close>

definition NODE_FLAGS_DISCONNECTED :: u32 where "NODE_FLAGS_DISCONNECTED = 0x01"
definition NODE_FLAGS_UNHEALTHY :: u32 where "NODE_FLAGS_UNHEALTHY = 0x02"
definition NODE_FLAGS_PERMANENTLY_DISABLED :: u32 where "NODE_FLAGS_PERMANENTLY_DISABLED = 0x04"
definition NODE_FLAGS_BANNED :: u32 where "NODE_FLAGS_BANNED = 0x08"
definition NODE_FLAGS_DELETED :: u32 where "NODE_FLAGS_DELETED = 0x10"
definition NODE_FLAGS_STOPPED :: u32 where "NODE_FLAGS_STOPPED = 0x20"

definition NODE_FLAGS_DISABLED :: u32 where
  "NODE_FLAGS_DISABLED = NODE_FLAGS_UNHEALTHY OR NODE_FLAGS_PERMANENTLY_DISABLED"

definition NODE_FLAGS_INACTIVE :: u32 where
  "NODE_FLAGS_INACTIVE =
     NODE_FLAGS_DELETED OR NODE_FLAGS_DISCONNECTED OR NODE_FLAGS_BANNED OR NODE_FLAGS_STOPPED"

record ctdb_node_and_flags =
  nf_pnn :: u32
  nf_flags :: u32
  nf_addr :: ctdb_sock_addr

type_synonym ctdb_node_map = "ctdb_node_and_flags list"

definition list_of_nodes :: "ctdb_node_map \<Rightarrow> u32 \<Rightarrow> u32 \<Rightarrow> u32 list" where
  "list_of_nodes node_map m exclude_pnn =
     map nf_pnn (filter (\<lambda>n. \<not> has_flag (nf_flags n) m \<and> nf_pnn n \<noteq> exclude_pnn) node_map)"

definition list_of_active_nodes :: "u32 \<Rightarrow> ctdb_node_map \<Rightarrow> bool \<Rightarrow> u32 list" where
  "list_of_active_nodes pnn node_map include_self =
     list_of_nodes node_map NODE_FLAGS_INACTIVE (if include_self then -1 else pnn)"

definition list_of_connected_nodes :: "u32 \<Rightarrow> ctdb_node_map \<Rightarrow> bool \<Rightarrow> u32 list" where
  "list_of_connected_nodes pnn node_map include_self =
     list_of_nodes node_map NODE_FLAGS_DISCONNECTED (if include_self then -1 else pnn)"

definition list_of_vnnmap_nodes :: "u32 \<Rightarrow> u32 list \<Rightarrow> bool \<Rightarrow> u32 list" where
  "list_of_vnnmap_nodes pnn vnn_map include_self =
     filter (\<lambda>v. \<not> (v = pnn \<and> \<not> include_self)) vnn_map"

definition all_nodes_are_disabled :: "ctdb_node_map \<Rightarrow> bool" where
  "all_nodes_are_disabled nodemap =
     (length (filter (\<lambda>n. \<not> has_flag (nf_flags n) (NODE_FLAGS_INACTIVE OR NODE_FLAGS_DISABLED)) nodemap) = 0)"

section \<open>Asynchronous controls\<close>

datatype control_state = CTDB_CONTROL_WAIT | CTDB_CONTROL_DONE | CTDB_CONTROL_ERROR | CTDB_CONTROL_TIMEOUT

text \<open>
  An answer: the node the control went to, the state of the control, and what \<^verbatim>\<open>ctdb_control_recv\<close>
  returns and delivers.
\<close>

record control_reply =
  destnode :: u32
  cstate :: control_state
  recv_ret :: int
  recv_res :: int
  recv_outdata :: "u8 list"

definition ETIME :: int where "ETIME = 62"
definition EINVAL :: int where "EINVAL = 22"

type_synonym 's client_async_callback = "u32 \<Rightarrow> int \<Rightarrow> u8 list \<Rightarrow> 's \<Rightarrow> 's"

text \<open>The number of failures and the state behind \<^verbatim>\<open>callback_data\<close>.\<close>

definition async_callback ::
    "'s client_async_callback option \<Rightarrow> 's client_async_callback option \<Rightarrow> control_reply \<Rightarrow> nat \<times> 's \<Rightarrow> nat \<times> 's" where
  "async_callback callback fail_callback reply st =
     (case st of (fail_count, s) \<Rightarrow>
        if cstate reply \<noteq> CTDB_CONTROL_DONE then
          let res = (if cstate reply = CTDB_CONTROL_TIMEOUT then - ETIME else -1)
          in (Suc fail_count,
              case fail_callback of None \<Rightarrow> s | Some f \<Rightarrow> f (destnode reply) res [] s)
        else
          let failed = (recv_ret reply \<noteq> 0 \<or> recv_res reply \<noteq> 0);
              s1 = (if failed then
                      (case fail_callback of
                         None \<Rightarrow> s
                       | Some f \<Rightarrow> f (destnode reply) (recv_res reply) (recv_outdata reply) s)
                    else s);
              s2 = (if recv_ret reply = 0 then
                      (case callback of
                         None \<Rightarrow> s1
                       | Some f \<Rightarrow> f (destnode reply) (recv_res reply) (recv_outdata reply) s1)
                    else s1)
          in (if failed then Suc fail_count else fail_count, s2))"

definition ctdb_client_async_wait ::
    "'s client_async_callback option \<Rightarrow> 's client_async_callback option \<Rightarrow> control_reply list \<Rightarrow> 's \<Rightarrow> int \<times> 's" where
  "ctdb_client_async_wait callback fail_callback replies s =
     (case fold (async_callback callback fail_callback) replies (0, s) of
        (fail_count, s') \<Rightarrow> (if fail_count \<noteq> 0 then -1 else 0, s'))"

text \<open>A message is a destination and a control; the trace is what was sent so far.\<close>

type_synonym 'c msg = "u32 \<times> 'c"

record 'c client_env =
  send_fails :: "'c msg list \<Rightarrow> 'c msg \<Rightarrow> bool"
  replies :: "'c msg list \<Rightarrow> 'c msg list \<Rightarrow> control_reply list"

text \<open>Sending stops at the first message that cannot be sent; the flag says whether all went out.\<close>

fun send_all :: "'c client_env \<Rightarrow> 'c msg list \<Rightarrow> 'c msg list \<Rightarrow> bool \<times> 'c msg list" where
  "send_all env trace [] = (True, trace)"
| "send_all env trace (m # ms) =
     (if send_fails env trace m then (False, trace) else send_all env (trace @ [m]) ms)"

definition async_batch ::
    "'c client_env \<Rightarrow> 'c msg list \<Rightarrow> 's client_async_callback option \<Rightarrow> 's client_async_callback option \<Rightarrow>
     'c msg list \<times> 's \<Rightarrow> int \<times> 'c msg list \<times> 's" where
  "async_batch env msgs callback fail_callback st =
     (case st of (trace, s) \<Rightarrow>
        case send_all env trace msgs of
          (False, trace') \<Rightarrow> (-1, trace', s)
        | (True, trace') \<Rightarrow>
            case ctdb_client_async_wait callback fail_callback (replies env trace msgs) s of
              (ret, s') \<Rightarrow> (ret, trace', s'))"

definition ctdb_client_async_control ::
    "'c client_env \<Rightarrow> 'c \<Rightarrow> u32 list \<Rightarrow> 's client_async_callback option \<Rightarrow> 's client_async_callback option \<Rightarrow>
     'c msg list \<times> 's \<Rightarrow> int \<times> 'c msg list \<times> 's" where
  "ctdb_client_async_control env opcode nodes callback fail_callback st =
     async_batch env (map (\<lambda>pnn. (pnn, opcode)) nodes) callback fail_callback st"

section \<open>Lemmas\<close>

definition reply_ok :: "control_reply \<Rightarrow> bool" where
  "reply_ok r \<longleftrightarrow> cstate r = CTDB_CONTROL_DONE \<and> recv_ret r = 0 \<and> recv_res r = 0"

lemma fail_count_mono: "fst (fold (async_callback cb fcb) rs (n, s)) = n + length (filter (\<lambda>r. \<not> reply_ok r) rs)"
proof (induction rs arbitrary: n s)
  case (Cons r rs)
  obtain m s' where step: "async_callback cb fcb r (n, s) = (m, s')" by fastforce
  then have "m = (if reply_ok r then n else Suc n)"
    by (auto simp: async_callback_def reply_ok_def Let_def split: if_splits)
  with Cons step show ?case by simp
qed simp

text \<open>The wait succeeds exactly if every answer is a success; then only the callback has run.\<close>

lemma async_wait_0_iff:
  "fst (ctdb_client_async_wait cb fcb rs s) = 0 \<longleftrightarrow> (\<forall>r \<in> set rs. reply_ok r)"
  using fail_count_mono [of cb fcb rs 0 s]
  by (auto simp: ctdb_client_async_wait_def filter_empty_conv split: prod.splits)

lemma async_fold_ok:
  "\<forall>r \<in> set rs. reply_ok r \<Longrightarrow>
     fold (async_callback (Some cb) fcb) rs (n, s) =
       (n, fold (\<lambda>r. cb (destnode r) 0 (recv_outdata r)) rs s)"
  by (induction rs arbitrary: s) (auto simp: async_callback_def reply_ok_def Let_def)

lemma send_all_trace: "send_all env tr ms = (b, tr') \<Longrightarrow> \<exists>k. tr' = tr @ take k ms \<and> (b \<longrightarrow> tr' = tr @ ms)"
proof (induction ms arbitrary: tr)
  case (Cons m ms)
  show ?case
  proof (cases "send_fails env tr m")
    case True
    with Cons.prems show ?thesis by (intro exI [of _ 0]) auto
  next
    case False
    with Cons.prems Cons.IH [of "tr @ [m]"] obtain k where "tr' = (tr @ [m]) @ take k ms \<and> (b \<longrightarrow> tr' = (tr @ [m]) @ ms)" by auto
    then show ?thesis by (intro exI [of _ "Suc k"]) auto
  qed
qed auto

end
