(* ===== verification/Takeover_Run.thy ===== *)
theory Takeover_Run
  imports Ip_Alloc_Lcp2 Rb_Array Client_Async
begin

text \<open>
  The takeover run of \<^verbatim>\<open>server/ctdb_takeover.c\<close>: the merged list of public addresses built through
  the red-black tree, the choice of the allocation algorithm, the flags that say which node may
  host or take over addresses, and the messages that release, take over and announce addresses.
\<close>

section \<open>The merged list of addresses\<close>

definition add_ip_callback ::
    "ctdb_public_ip_list \<Rightarrow> ctdb_public_ip_list option \<Rightarrow> ctdb_public_ip_list option" where
  "add_ip_callback this_ip prev_ip =
     (case prev_ip of
        None \<Rightarrow> Some this_ip
      | Some prev \<Rightarrow>
          Some (if ip_pnn this_ip = -1 then this_ip\<lparr>ip_pnn := ip_pnn prev\<rparr> else this_ip))"

definition getips_count_callback ::
    "ctdb_public_ip_list option \<Rightarrow> ip_list \<Rightarrow> ip_list \<times> int" where
  "getips_count_callback new_ip ips = (case new_ip of None \<Rightarrow> (ips, 0) | Some ip \<Rightarrow> (ip # ips, 0))"

text \<open>The elements the code creates for the addresses one node knows.\<close>

definition node_ip_entries :: "ctdb_node \<Rightarrow> ip_list" where
  "node_ip_entries node =
     (if has_flag (node_flags node) NODE_FLAGS_DELETED then []
      else case known_public_ips node of
             None \<Rightarrow> []
           | Some public_ips \<Rightarrow>
               map (\<lambda>p. \<lparr>ip_pnn = (if pub_pnn p = node_pnn node then pub_pnn p else -1),
                         ip_addr = pub_addr p\<rparr>) public_ips)"

type_synonym ip_tree = "ctdb_public_ip_list tree_data trbt_tree"

definition insert_ip :: "ip_tree option \<Rightarrow> ctdb_public_ip_list \<Rightarrow> ip_tree option" where
  "insert_ip t tmp_ip =
     Option.bind t (trbt_insertarray32_callback (ip_key (ip_addr tmp_ip)) (add_ip_callback tmp_ip))"

definition create_merged_ip_list :: "ctdb_context \<Rightarrow> (ip_tree \<times> ip_list) option" where
  "create_merged_ip_list ctdb =
     do { tree \<leftarrow> foldl insert_ip (Some (trbt_create 0)) (concat (map node_ip_entries (nodes ctdb)));
          (ips, ret) \<leftarrow> trbt_traversearray32 (Some tree) 4 getips_count_callback [];
          Some (tree, ips) }"

section \<open>The calculation\<close>

definition ctdb_takeover_run_core ::
    "qsort_fn \<Rightarrow> ctdb_context \<Rightarrow> ctdb_ipflags list \<Rightarrow> u32 list option \<Rightarrow> ip_list option" where
  "ctdb_takeover_run_core qsort ctdb ipflags force_rebalance_nodes =
     do { (tree, all_ips) \<leftarrow> create_merged_ip_list ctdb;
          if lcp2_public_ip_assignment (tunable ctdb) = 1 then
            ip_alloc_lcp2 qsort ctdb ipflags all_ips force_rebalance_nodes
          else if deterministic_public_ips (tunable ctdb) = 1 then
            Some (ip_alloc_deterministic_ips ctdb ipflags all_ips)
          else Some (ip_alloc_nondeterministic_ips ctdb ipflags all_ips) }"

section \<open>Which nodes may host addresses\<close>

datatype ctdb_runstate =
  CTDB_RUNSTATE_UNKNOWN | CTDB_RUNSTATE_INIT | CTDB_RUNSTATE_SETUP | CTDB_RUNSTATE_FIRST_RECOVERY
  | CTDB_RUNSTATE_STARTUP | CTDB_RUNSTATE_RUNNING | CTDB_RUNSTATE_SHUTDOWN | Runstate_other u32

definition runstate_of_u32 :: "u32 \<Rightarrow> ctdb_runstate" where
  "runstate_of_u32 n =
     (if n = 0 then CTDB_RUNSTATE_UNKNOWN else if n = 1 then CTDB_RUNSTATE_INIT
      else if n = 2 then CTDB_RUNSTATE_SETUP else if n = 3 then CTDB_RUNSTATE_FIRST_RECOVERY
      else if n = 4 then CTDB_RUNSTATE_STARTUP else if n = 5 then CTDB_RUNSTATE_RUNNING
      else if n = 6 then CTDB_RUNSTATE_SHUTDOWN else Runstate_other n)"

datatype takeover_control =
    GET_TUNABLE string | GET_RUNSTATE
  | RELEASE_IPv4 int ctdb_sock_addr | RELEASE_IP int ctdb_sock_addr
  | TAKEOVER_IPv4 int ctdb_sock_addr | TAKEOVER_IP int ctdb_sock_addr
  | IPREALLOCATED | RUN_EVENTSCRIPTS string

text \<open>The callback data: the array \<^verbatim>\<open>out\<close> and the flag \<^verbatim>\<open>fatal\<close>.\<close>

definition get_tunable_callback :: "(u32 list \<times> bool) client_async_callback" where
  "get_tunable_callback pnn res outdata cd =
     (case cd of (out, fatal) \<Rightarrow>
        if res \<noteq> 0 then cd
        else if length outdata \<noteq> 4 then (out, True)
        else if length out \<le> unat pnn then cd
        else (out[unat pnn := u32_of_bytes outdata], fatal))"

definition get_tunable_fail_callback :: "(u32 list \<times> bool) client_async_callback" where
  "get_tunable_fail_callback pnn res outdata cd =
     (case cd of (out, fatal) \<Rightarrow>
        if res = - ETIME then (out, True)
        else if res = - EINVAL \<or> res = -1 then cd
        else (out, True))"

definition get_tunable_from_nodes ::
    "takeover_control client_env \<Rightarrow> u32 \<Rightarrow> ctdb_node_map \<Rightarrow> string \<Rightarrow> u32 \<Rightarrow> takeover_control msg list \<Rightarrow>
     u32 list option \<times> takeover_control msg list" where
  "get_tunable_from_nodes env pnn nodemap name default_value trace =
     (case ctdb_client_async_control env (GET_TUNABLE name) (list_of_connected_nodes pnn nodemap True)
             (Some get_tunable_callback) (Some get_tunable_fail_callback)
             (trace, replicate (length nodemap) default_value, False) of
        (ret, trace', tvals, fatal) \<Rightarrow> (if ret \<noteq> 0 \<and> fatal then None else Some tvals, trace'))"

definition get_runstate_callback :: "(ctdb_runstate list \<times> bool) client_async_callback" where
  "get_runstate_callback pnn res outdata cd =
     (case cd of (out, fatal) \<Rightarrow>
        if res \<noteq> 0 then cd
        else if length outdata \<noteq> 4 then (out, True)
        else if length out \<le> unat pnn then cd
        else (out[unat pnn := runstate_of_u32 (u32_of_bytes outdata)], fatal))"

definition get_runstate_fail_callback :: "(ctdb_runstate list \<times> bool) client_async_callback" where
  "get_runstate_fail_callback pnn res outdata cd =
     (case cd of (out, fatal) \<Rightarrow> if res = - ETIME then (out, True) else cd)"

definition get_runstate_from_nodes ::
    "takeover_control client_env \<Rightarrow> u32 \<Rightarrow> ctdb_node_map \<Rightarrow> ctdb_runstate \<Rightarrow> takeover_control msg list \<Rightarrow>
     ctdb_runstate list option \<times> takeover_control msg list" where
  "get_runstate_from_nodes env pnn nodemap default_value trace =
     (case ctdb_client_async_control env GET_RUNSTATE (list_of_connected_nodes pnn nodemap True)
             (Some get_runstate_callback) (Some get_runstate_fail_callback)
             (trace, replicate (length nodemap) default_value, False) of
        (ret, trace', rs, fatal) \<Rightarrow> (if ret \<noteq> 0 \<and> fatal then None else Some rs, trace'))"

definition set_ipflags_internal ::
    "ctdb_node_map \<Rightarrow> u32 list \<Rightarrow> u32 list \<Rightarrow> ctdb_runstate list \<Rightarrow> ctdb_ipflags list" where
  "set_ipflags_internal nodemap tval_noiptakeover tval_noiphostonalldisabled runstate =
     (let first = map (\<lambda>i. \<lparr>noiptakeover = (tval_noiptakeover ! i \<noteq> 0),
                            noiphost = (if runstate ! i \<noteq> CTDB_RUNSTATE_RUNNING then True
                                        else has_flag (nf_flags (nodemap ! i)) NODE_FLAGS_INACTIVE)\<rparr>)
                    [0..<length nodemap]
      in if all_nodes_are_disabled nodemap then
           map (\<lambda>i. if tval_noiphostonalldisabled ! i \<noteq> 0 then (first ! i)\<lparr>noiphost := True\<rparr> else first ! i)
             [0..<length nodemap]
         else
           map (\<lambda>i. if has_flag (nf_flags (nodemap ! i)) NODE_FLAGS_DISABLED
                    then (first ! i)\<lparr>noiphost := True\<rparr> else first ! i)
             [0..<length nodemap])"

definition set_ipflags ::
    "takeover_control client_env \<Rightarrow> u32 \<Rightarrow> ctdb_node_map \<Rightarrow> takeover_control msg list \<Rightarrow>
     ctdb_ipflags list option \<times> takeover_control msg list" where
  "set_ipflags env pnn nodemap trace =
     (case get_tunable_from_nodes env pnn nodemap ''NoIPTakeover'' 0 trace of
        (None, trace) \<Rightarrow> (None, trace)
      | (Some tval_noiptakeover, trace) \<Rightarrow>
          (case get_tunable_from_nodes env pnn nodemap ''NoIPHostOnAllDisabled'' 0 trace of
             (None, trace) \<Rightarrow> (None, trace)
           | (Some tval_noiphostonalldisabled, trace) \<Rightarrow>
               (case get_runstate_from_nodes env pnn nodemap CTDB_RUNSTATE_RUNNING trace of
                  (None, trace) \<Rightarrow> (None, trace)
                | (Some runstate, trace) \<Rightarrow>
                    (Some (set_ipflags_internal nodemap tval_noiptakeover tval_noiphostonalldisabled runstate),
                     trace))))"

section \<open>Telling the nodes\<close>

text \<open>
  State of the retry callback: the flagged nodes, their number, whether an element outside the
  array was accessed, and the state of the caller's fail callback.
\<close>

record 's iprealloc_data =
  retry_nodes :: "bool list"
  retry_count :: nat
  out_of_bounds :: bool
  fail_state :: 's

definition iprealloc_fail_callback ::
    "ctdb_node_map \<Rightarrow> 's client_async_callback \<Rightarrow> 's iprealloc_data client_async_callback" where
  "iprealloc_fail_callback nodemap fail_callback pnn res outdata cd =
     (if res = - ETIME then cd\<lparr>fail_state := fail_callback pnn res outdata (fail_state cd)\<rparr>
      else let numnodes = length (retry_nodes cd)
           in if unat pnn > numnodes then cd
              else if unat pnn = numnodes then cd\<lparr>out_of_bounds := True\<rparr>
              else if has_flag (nf_flags (nodemap ! unat pnn)) NODE_FLAGS_INACTIVE then cd
              else cd\<lparr>retry_nodes := (retry_nodes cd)[unat pnn := True], retry_count := retry_count cd + 1\<rparr>)"

text \<open>The fail callback of the release phase reports a node at most once.\<close>

definition takeover_run_fail_callback ::
    "ctdb_node_map \<Rightarrow> 's client_async_callback \<Rightarrow> (bool list \<times> 's) client_async_callback" where
  "takeover_run_fail_callback nodemap fail_callback failed_pnn res outdata cd =
     (case cd of (node_failed, s) \<Rightarrow>
        case find (\<lambda>i. failed_pnn = nf_pnn (nodemap ! i)) [0..<length nodemap] of
          None \<Rightarrow> cd
        | Some i \<Rightarrow>
            if \<not> node_failed ! i
            then (node_failed[i := True], fail_callback failed_pnn res outdata s)
            else cd)"

definition release_control :: "ctdb_public_ip_list \<Rightarrow> takeover_control" where
  "release_control ip =
     (if is_Inet (ip_addr ip) then RELEASE_IPv4 (ip_pnn ip) (ip_addr ip) else RELEASE_IP (ip_pnn ip) (ip_addr ip))"

definition takeover_ip_control :: "ctdb_public_ip_list \<Rightarrow> takeover_control" where
  "takeover_ip_control ip =
     (if is_Inet (ip_addr ip) then TAKEOVER_IPv4 (ip_pnn ip) (ip_addr ip) else TAKEOVER_IP (ip_pnn ip) (ip_addr ip))"

definition release_msgs :: "ctdb_node_map \<Rightarrow> ip_list \<Rightarrow> takeover_control msg list" where
  "release_msgs nodemap all_ips =
     concat (map (\<lambda>n. if has_flag (nf_flags n) NODE_FLAGS_DISCONNECTED then []
                      else map (\<lambda>ip. (nf_pnn n, release_control ip))
                             (filter (\<lambda>ip. word_of_int (ip_pnn ip) \<noteq> nf_pnn n) all_ips)) nodemap)"

definition takeover_msgs :: "ip_list \<Rightarrow> takeover_control msg list" where
  "takeover_msgs all_ips =
     map (\<lambda>ip. (word_of_int (ip_pnn ip), takeover_ip_control ip)) (filter (\<lambda>ip. ip_pnn ip \<noteq> -1) all_ips)"

text \<open>The last phase: the ipreallocated event, with a retry for nodes that do not know the control.\<close>

definition run_ipreallocated ::
    "takeover_control client_env \<Rightarrow> u32 \<Rightarrow> ctdb_node_map \<Rightarrow> 's client_async_callback \<Rightarrow>
     takeover_control msg list \<Rightarrow> 's \<Rightarrow> int \<times> takeover_control msg list \<times> 's" where
  "run_ipreallocated env pnn nodemap fail_callback trace s =
     (case ctdb_client_async_control env IPREALLOCATED (list_of_connected_nodes pnn nodemap True)
             None (Some (iprealloc_fail_callback nodemap fail_callback))
             (trace, \<lparr>retry_nodes = replicate (length nodemap) False, retry_count = 0,
                      out_of_bounds = False, fail_state = s\<rparr>) of
        (ret, trace, cd) \<Rightarrow>
          if ret \<noteq> 0 then
            ctdb_client_async_control env (RUN_EVENTSCRIPTS ''ipreallocated'')
              (map of_nat (filter (\<lambda>i. retry_nodes cd ! i) [0..<length nodemap]))
              None (Some fail_callback) (trace, fail_state cd)
          else (ret, trace, fail_state cd))"

definition ctdb_takeover_run ::
    "qsort_fn \<Rightarrow> takeover_control client_env \<Rightarrow> ctdb_context \<Rightarrow> u32 \<Rightarrow> ctdb_node_map \<Rightarrow> u32 list option \<Rightarrow>
     's client_async_callback \<Rightarrow> takeover_control msg list \<Rightarrow> 's \<Rightarrow> (int \<times> takeover_control msg list \<times> 's) option" where
  "ctdb_takeover_run qsort env ctdb pnn nodemap force_rebalance_nodes fail_callback trace s =
     (if disable_ip_failover (tunable ctdb) \<noteq> 0 then
        Some (run_ipreallocated env pnn nodemap fail_callback trace s)
      else
        case set_ipflags env pnn nodemap trace of
          (None, trace) \<Rightarrow> Some (-1, trace, s)
        | (Some ipflags, trace) \<Rightarrow>
            do { all_ips \<leftarrow> ctdb_takeover_run_core qsort ctdb ipflags force_rebalance_nodes;
                 (case async_batch env (release_msgs nodemap all_ips) None
                         (Some (takeover_run_fail_callback nodemap fail_callback))
                         (trace, replicate (length nodemap) False, s) of
                    (ret, trace, node_failed, s) \<Rightarrow>
                      if ret \<noteq> 0 then Some (-1, trace, s)
                      else
                        (case async_batch env (takeover_msgs all_ips) None (Some fail_callback) (trace, s) of
                           (ret, trace, s) \<Rightarrow>
                             if ret \<noteq> 0 then Some (-1, trace, s)
                             else Some (run_ipreallocated env pnn nodemap fail_callback trace s))) })"

section \<open>Lemmas on the merged list\<close>

definition merge_step ::
    "ctdb_public_ip_list \<Rightarrow> (u32 list \<Rightarrow> ctdb_public_ip_list option option) \<Rightarrow> u32 list \<Rightarrow> ctdb_public_ip_list option option" where
  "merge_step ip m =
     m(ip_key (ip_addr ip) \<mapsto> add_ip_callback ip (case m (ip_key (ip_addr ip)) of None \<Rightarrow> None | Some d \<Rightarrow> d))"

text \<open>An entry holds an address with its key, and a node number one of the elements for that key has.\<close>

lemma merge_entries:
  "fold merge_step ips Map.empty key = Some d \<Longrightarrow>
     \<exists>ip. d = Some ip \<and> ip_key (ip_addr ip) = key \<and> ip_addr ip \<in> ip_addr ` set ips \<and>
       (ip_pnn ip = -1 \<or> (\<exists>x \<in> set ips. ip_pnn x = ip_pnn ip \<and> ip_key (ip_addr x) = key))"
proof (induction ips arbitrary: d rule: rev_induct)
  case (snoc y ips)
  define m where "m = fold merge_step ips Map.empty"
  have IH: "\<exists>ip. d = Some ip \<and> ip_key (ip_addr ip) = key \<and> ip_addr ip \<in> ip_addr ` set ips \<and>
       (ip_pnn ip = -1 \<or> (\<exists>x \<in> set ips. ip_pnn x = ip_pnn ip \<and> ip_key (ip_addr x) = key))" if "m key = Some d" for d
    using snoc.IH [of d] that by (simp add: m_def)
  from snoc.prems have step: "merge_step y m key = Some d" by (simp add: m_def)
  show ?case
  proof (cases "key = ip_key (ip_addr y)")
    case True
    show ?thesis
    proof (cases "m key")
      case None
      with step True show ?thesis by (auto simp: merge_step_def add_ip_callback_def)
    next
      case (Some d')
      with IH obtain ip' where "d' = Some ip'"
        "ip_pnn ip' = -1 \<or> (\<exists>x \<in> set ips. ip_pnn x = ip_pnn ip' \<and> ip_key (ip_addr x) = key)" by blast
      with step True Some show ?thesis by (auto simp: merge_step_def add_ip_callback_def split: if_splits)
    qed
  next
    case False
    with step have "m key = Some d" by (simp add: merge_step_def)
    with IH [of d] show ?thesis by (auto 4 3)
  qed
qed simp

lemma merge_dom: "dom (fold merge_step ips m) = dom m \<union> (ip_key o ip_addr) ` set ips"
  by (induction ips arbitrary: m) (auto simp: merge_step_def)

lemma run_getips: "run_callbacks getips_count_callback ds s = (rev (List.map_filter id ds) @ s, 0)"
  by (induction ds arbitrary: s) (auto simp: getips_count_callback_def List.map_filter_simps split: option.splits)

lemma lexordp_distinct: "sorted_wrt ord_class.lexordp (ks :: u32 list list) \<Longrightarrow> distinct ks"
proof (induction ks)
  case (Cons k ks)
  then show ?case using lexordp_irreflexive' [of k] by auto
qed simp

lemma insert_ip_fold:
  "foldl insert_ip t ips =
     foldl (\<lambda>s x. Option.bind s (trbt_insertarray32_callback (fst x) (snd x))) t
       (map (\<lambda>ip. (ip_key (ip_addr ip), add_ip_callback ip)) ips)"
  by (induction ips arbitrary: t) (auto simp: insert_ip_def)

lemma find_by_key: "find (\<lambda>x. f x = k) xs = map_of (map (\<lambda>x. (f x, x)) xs) k"
  by (induction xs) auto

lemma map_filter_id_Some: "(\<And>x. x \<in> set es \<Longrightarrow> snd x \<noteq> None) \<Longrightarrow> List.map_filter id (map snd es) = map (the o snd) es"
  by (induction es) (fastforce simp: List.map_filter_simps)+

lemma find_rev_by_key:
  assumes "distinct (map fst es)" and "\<And>x. x \<in> set es \<Longrightarrow> \<exists>v. snd x = Some v \<and> f v = fst x"
  shows "find (\<lambda>v. f v = key) (rev (map (the o snd) es)) = arr_lookup es key"
proof -
  let ?vs = "rev (map (the o snd) es)"
  have keys: "map (\<lambda>v. (f v, v)) ?vs = rev (map (\<lambda>x. (fst x, the (snd x))) es)"
    unfolding rev_map map_map by (rule map_cong [OF refl]) (use assms(2) in force)
  have "map_of (map (\<lambda>v. (f v, v)) ?vs) = map_of (map (\<lambda>x. (fst x, the (snd x))) es)"
    unfolding keys using assms(1) by (subst map_of_inject_set) (simp_all add: comp_def rev_map [symmetric])
  then have "find (\<lambda>v. f v = key) ?vs = map_option the (map_of es key)"
    using map_of_map [of the es] by (simp add: find_by_key case_prod_unfold)
  also have "\<dots> = arr_lookup es key"
    unfolding arr_lookup_def using assms(2) map_of_SomeD [of es key] by (cases "map_of es key") force+
  finally show ?thesis .
qed

text \<open>The merged list exists, has one element per key, in descending order of keys.\<close>

lemma create_merged_ip_list_spec:
  defines "inputs ctdb \<equiv> concat (map node_ip_entries (nodes ctdb))"
  shows "\<exists>tree ips. create_merged_ip_list ctdb = Some (tree, ips) \<and>
    sorted_wrt (\<lambda>a b. ord_class.lexordp b a) (map (ip_key o ip_addr) ips) \<and>
    distinct (map (ip_key o ip_addr) ips) \<and>
    set (map (ip_key o ip_addr) ips) = (ip_key o ip_addr) ` set (inputs ctdb) \<and>
    (\<forall>ip \<in> set ips. ip_addr ip \<in> ip_addr ` set (inputs ctdb) \<and>
       (ip_pnn ip = -1 \<or> (\<exists>x \<in> set (inputs ctdb). ip_pnn x = ip_pnn ip \<and> ip_key (ip_addr x) = ip_key (ip_addr ip)))) \<and>
    (\<forall>key. length key = 4 \<longrightarrow> trbt_lookuparray32 tree key = Some (find (\<lambda>ip. ip_key (ip_addr ip) = key) ips))"
proof -
  let ?ops = "map (\<lambda>ip. (ip_key (ip_addr ip), add_ip_callback ip)) (inputs ctdb)"
  have "\<forall>x \<in> set ?ops. length (fst x) = Suc 3" by auto
  from arr_store.ins_all [OF arr_empty [of 3 0] this] obtain tree es where
    tree: "foldl insert_ip (Some (trbt_create 0)) (inputs ctdb) = Some tree" "arr 3 tree es"
    and es: "map_of es = fold merge_step (inputs ctdb) Map.empty"
    by (auto simp: insert_ip_fold fold_map comp_def merge_step_def [abs_def])
  have lex: "sorted_wrt ord_class.lexordp (map fst es)" by (rule arr_sorted [OF tree(2)])
  then have dist: "distinct (map fst es)" by (rule lexordp_distinct)
  have entry: "\<exists>ip. snd x = Some ip \<and> ip_key (ip_addr ip) = fst x \<and> ip_addr ip \<in> ip_addr ` set (inputs ctdb) \<and>
      (ip_pnn ip = -1 \<or> (\<exists>y \<in> set (inputs ctdb). ip_pnn y = ip_pnn ip \<and> ip_key (ip_addr y) = fst x))"
    if "x \<in> set es" for x
    using merge_entries [of "inputs ctdb" "fst x" "snd x"] that dist by (simp add: es [symmetric])
  define ips where "ips = rev (map (the o snd) es)"
  have "List.map_filter id (map snd es) = map (the o snd) es"
    by (rule map_filter_id_Some) (use entry in force)
  then have "trbt_traversearray32 (Some tree) 4 getips_count_callback [] = Some (ips, 0)"
    using traversearray_ok [OF tree(2), of "[]" getips_count_callback]
    by (auto simp add: trbt_traversearray32_def run_getips ips_def split: if_splits)
  then have created: "create_merged_ip_list ctdb = Some (tree, ips)"
    using tree(1) by (simp add: create_merged_ip_list_def inputs_def)
  have keys: "map (ip_key o ip_addr) ips = rev (map fst es)"
    unfolding ips_def rev_map map_map by (rule map_cong [OF refl]) (use entry in force)
  have dom: "fst ` set es = (ip_key o ip_addr) ` set (inputs ctdb)"
    using merge_dom [of "inputs ctdb" Map.empty] by (simp add: es [symmetric] dom_map_of_conv_image_fst)
  have look: "trbt_lookuparray32 tree key = Some (find (\<lambda>ip. ip_key (ip_addr ip) = key) ips)" if "length key = 4" for key
    using lookuparray_ok [OF tree(2)] find_rev_by_key [OF dist, of "ip_key o ip_addr" key] entry that
    by (force simp: ips_def)
  have good: "\<forall>ip \<in> set ips. ip_addr ip \<in> ip_addr ` set (inputs ctdb) \<and>
       (ip_pnn ip = -1 \<or> (\<exists>x \<in> set (inputs ctdb). ip_pnn x = ip_pnn ip \<and> ip_key (ip_addr x) = ip_key (ip_addr ip)))"
    unfolding ips_def using entry by force
  have key_list: "sorted_wrt (\<lambda>a b. ord_class.lexordp b a) (map (ip_key o ip_addr) ips)"
    "distinct (map (ip_key o ip_addr) ips)" "set (map (ip_key o ip_addr) ips) = (ip_key o ip_addr) ` set (inputs ctdb)"
    unfolding keys using lex dist dom by (simp_all add: sorted_wrt_rev)
  show ?thesis using created key_list good look by blast
qed

end
