(* ===== verification/Takeover_Correct.thy ===== *)
theory Takeover_Correct
  imports Takeover_Run
begin

text \<open>
  What a takeover run guarantees: the calculation gives a good allocation whichever algorithm is
  chosen, no address is served by two nodes, only suitable nodes take addresses over, and a run in
  which nothing fails sends every release and every takeover of the calculated allocation.
\<close>


section \<open>The calculation gives a good allocation\<close>

text \<open>Node numbers are positions in the array of nodes, and there are flags for each node.\<close>

definition cluster_ok :: "ctdb_context \<Rightarrow> ctdb_ipflags list \<Rightarrow> bool" where
  "cluster_ok ctdb ipflags \<longleftrightarrow>
     length ipflags = length (nodes ctdb) \<and> map node_pnn (nodes ctdb) = map int [0..<length (nodes ctdb)]"

definition known_ips :: "ctdb_context \<Rightarrow> ip_list" where
  "known_ips ctdb = concat (map node_ip_entries (nodes ctdb))"

lemma cluster_ok_pnn:
  assumes "cluster_ok ctdb fl" "x \<in> set (known_ips ctdb)"
  shows "ip_pnn x = -1 \<or> 0 \<le> ip_pnn x \<and> ip_pnn x < int (length fl)"
proof -
  from assms(2) obtain n where n: "n \<in> set (nodes ctdb)" "x \<in> set (node_ip_entries n)"
    by (auto simp: known_ips_def)
  from n(1) have "node_pnn n \<in> set (map node_pnn (nodes ctdb))" by simp
  also have "map node_pnn (nodes ctdb) = map int [0..<length fl]" using assms(1) by (simp add: cluster_ok_def)
  finally have "node_pnn n \<in> int ` {0..<length fl}" by simp
  with n(2) show ?thesis by (auto simp: node_ip_entries_def split: if_splits option.splits)
qed

lemma merged_list_ok:
  assumes "cluster_ok ctdb fl"
  obtains tree ips where "create_merged_ip_list ctdb = Some (tree, ips)" "ips_ok (length fl) ips"
    "distinct (map (ip_key o ip_addr) ips)"
    "set (map (ip_key o ip_addr) ips) = (ip_key o ip_addr) ` set (known_ips ctdb)"
proof -
  from create_merged_ip_list_spec [of ctdb] obtain tree ips where
    c: "create_merged_ip_list ctdb = Some (tree, ips)" "distinct (map (ip_key o ip_addr) ips)"
    and k: "set (map (ip_key o ip_addr) ips) = (ip_key o ip_addr) ` set (known_ips ctdb)"
    and p: "\<forall>ip \<in> set ips. ip_addr ip \<in> ip_addr ` set (known_ips ctdb) \<and>
      (ip_pnn ip = -1 \<or> (\<exists>x \<in> set (known_ips ctdb). ip_pnn x = ip_pnn ip \<and> ip_key (ip_addr x) = ip_key (ip_addr ip)))"
    unfolding known_ips_def by blast
  have "ips_ok (length fl) ips"
  proof -
    have "known_ips ctdb = []" if "fl = []" using assms that by (simp add: cluster_ok_def known_ips_def)
    with p have "ips = [] \<or> 0 < length fl" by (cases "fl = []") (auto simp: neq_Nil_conv)
    moreover have "ip_pnn ip = -1 \<or> 0 \<le> ip_pnn ip \<and> ip_pnn ip < int (length fl)" if "ip \<in> set ips" for ip
      using p that cluster_ok_pnn [OF assms] by metis
    ultimately show ?thesis by (auto simp: ips_ok_def)
  qed
  with that c k show ?thesis by blast
qed

lemma length_distinct_keys:
  "distinct (map f xs) \<Longrightarrow> set (map f xs) = f ` set ys \<Longrightarrow> length xs \<le> length ys"
  by (metis card_image_le card_length distinct_card finite_set length_map order_trans)

text \<open>The three algorithms behind one interface, as the code chooses between them.\<close>

definition chosen_alloc ::
    "qsort_fn \<Rightarrow> u32 list option \<Rightarrow> ctdb_context \<Rightarrow> ctdb_ipflags list \<Rightarrow> ip_list \<Rightarrow> ip_list option" where
  "chosen_alloc qsort force ctdb fl ips =
     (if lcp2_public_ip_assignment (tunable ctdb) = 1 then ip_alloc_lcp2 qsort ctdb fl ips force
      else if deterministic_public_ips (tunable ctdb) = 1 then Some (ip_alloc_deterministic_ips ctdb fl ips)
      else Some (ip_alloc_nondeterministic_ips ctdb fl ips))"

lemma run_core_chosen:
  "create_merged_ip_list ctdb = Some (tree, ips) \<Longrightarrow>
     ctdb_takeover_run_core qsort ctdb fl force = chosen_alloc qsort force ctdb fl ips"
  by (simp add: ctdb_takeover_run_core_def chosen_alloc_def)

sublocale lcp2_environment \<subseteq> chosen: ip_allocator
  "chosen_alloc qsort force" "\<lambda>ips. length ips < 2 ^ 18"
  by unfold_locales
    (auto simp: chosen_alloc_def det.addrs det.served det.complete nondet.addrs nondet.served nondet.complete
      intro: lcp2_alloc.returns lcp2_alloc.served lcp2_alloc.complete dest: lcp2_alloc.addrs split: if_splits)

context lcp2_environment begin

lemma core_addrs:
  "ctdb_takeover_run_core qsort ctdb fl force = Some ips' \<Longrightarrow> create_merged_ip_list ctdb = Some (tree, ips) \<Longrightarrow>
     map ip_addr ips' = map ip_addr ips"
  by (simp add: run_core_chosen chosen.addrs)

lemma core_result:
  assumes "create_merged_ip_list ctdb = Some (tree, ips)" "ips_ok (length fl) ips" "length ips < 2 ^ 18"
  shows "\<exists>ips'. ctdb_takeover_run_core qsort ctdb fl force = Some ips' \<and> map ip_addr ips' = map ip_addr ips \<and>
    well_served ctdb fl ips' \<and> complete_alloc ctdb fl ips'"
  using chosen.returns [OF assms(3,2), of ctdb] chosen.addrs chosen.served [OF _ assms(2)] chosen.complete [OF _ assms(2)]
  by (auto simp: run_core_chosen [OF assms(1)])

end



fun release_addr :: "takeover_control \<Rightarrow> ctdb_sock_addr option" where
  "release_addr (RELEASE_IPv4 _ a) = Some a"
| "release_addr (RELEASE_IP _ a) = Some a"
| "release_addr _ = None"

fun takeover_addr :: "takeover_control \<Rightarrow> ctdb_sock_addr option" where
  "takeover_addr (TAKEOVER_IPv4 _ a) = Some a"
| "takeover_addr (TAKEOVER_IP _ a) = Some a"
| "takeover_addr _ = None"

definition quiet :: "takeover_control msg list \<Rightarrow> bool" where
  "quiet ms \<longleftrightarrow> (\<forall>m \<in> set ms. release_addr (snd m) = None \<and> takeover_addr (snd m) = None)"

lemma quiet_append [simp]: "quiet (ms @ ns) = (quiet ms \<and> quiet ns)"
  by (auto simp: quiet_def)

lemma quiet_Nil [simp]: "quiet []"
  by (simp add: quiet_def)

lemma async_batch_trace:
  assumes "async_batch env ms cb fcb (tr, s) = (ret, tr', s')"
  shows "\<exists>k. tr' = tr @ take k ms"
    and "ret = 0 \<Longrightarrow> tr' = tr @ ms \<and> (\<forall>r \<in> set (replies env tr ms). reply_ok r)"
proof -
  obtain b tr1 where sent: "send_all env tr ms = (b, tr1)" by fastforce
  from send_all_trace [OF sent] obtain k where k: "tr1 = tr @ take k ms" "b \<longrightarrow> tr1 = tr @ ms" by blast
  have "tr' = tr1 \<and> (ret = 0 \<longrightarrow> b \<and> (\<forall>r \<in> set (replies env tr ms). reply_ok r))"
    using assms sent async_wait_0_iff [of cb fcb "replies env tr ms" s]
    by (auto simp: async_batch_def split: bool.splits prod.splits)
  with k show "\<exists>k. tr' = tr @ take k ms"
    and "ret = 0 \<Longrightarrow> tr' = tr @ ms \<and> (\<forall>r \<in> set (replies env tr ms). reply_ok r)" by auto
qed

lemma async_control_quiet:
  assumes "ctdb_client_async_control env c ns cb fcb (tr, s) = (ret, tr', s')"
    and "release_addr c = None" "takeover_addr c = None"
  shows "\<exists>q. tr' = tr @ q \<and> quiet q"
  using async_batch_trace(1) [OF assms(1) [unfolded ctdb_client_async_control_def]] assms(2,3)
  by (auto simp: quiet_def dest!: in_set_takeD)

lemma get_tunable_quiet:
  "get_tunable_from_nodes env pnn nm name d tr = (r, tr') \<Longrightarrow> \<exists>q. tr' = tr @ q \<and> quiet q"
  unfolding get_tunable_from_nodes_def
  by (auto split: prod.splits dest!: async_control_quiet)

lemma get_runstate_quiet:
  "get_runstate_from_nodes env pnn nm d tr = (r, tr') \<Longrightarrow> \<exists>q. tr' = tr @ q \<and> quiet q"
  unfolding get_runstate_from_nodes_def
  by (auto split: prod.splits dest!: async_control_quiet)

lemma set_ipflags_quiet: "set_ipflags env pnn nm tr = (r, tr') \<Longrightarrow> \<exists>q. tr' = tr @ q \<and> quiet q"
  unfolding set_ipflags_def
  by (auto split: prod.splits option.splits dest!: get_tunable_quiet get_runstate_quiet)

lemma run_ipreallocated_quiet:
  "run_ipreallocated env pnn nm fcb tr s = (ret, tr', s') \<Longrightarrow> \<exists>q. tr' = tr @ q \<and> quiet q"
  unfolding run_ipreallocated_def
  by (auto split: prod.splits if_splits dest!: async_control_quiet)


text \<open>
  What a run sends: questions, then releases, and takeovers only after every release was sent and
  answered with success.
\<close>

lemma takeover_run_trace:
  assumes "ctdb_takeover_run qsort env ctdb pnn nm force fcb tr s = Some (ret, tr', s')"
  shows "(\<exists>q. quiet q \<and> tr' = tr @ q) \<or>
    (\<exists>fl ips q. set_ipflags env pnn nm tr = (Some fl, tr @ q) \<and>
       ctdb_takeover_run_core qsort ctdb fl force = Some ips \<and> quiet q \<and>
       ((\<exists>k. tr' = tr @ q @ take k (release_msgs nm ips)) \<or>
        (\<exists>l p. quiet p \<and> tr' = tr @ q @ release_msgs nm ips @ take l (takeover_msgs ips) @ p \<and>
           (\<forall>r \<in> set (replies env (tr @ q) (release_msgs nm ips)). reply_ok r))))"
proof (cases "disable_ip_failover (tunable ctdb) = 0")
  case False
  with assms run_ipreallocated_quiet [of env pnn nm fcb tr s ret tr' s'] show ?thesis
    by (auto simp: ctdb_takeover_run_def)
next
  case True
  obtain r tr1 where fl: "set_ipflags env pnn nm tr = (r, tr1)" by fastforce
  from set_ipflags_quiet [OF fl] obtain q where q: "tr1 = tr @ q" "quiet q" by blast
  show ?thesis
  proof (cases r)
    case None
    with assms True fl q show ?thesis by (auto simp: ctdb_takeover_run_def)
  next
    case (Some flags)
    from assms True fl Some obtain ips where
      core: "ctdb_takeover_run_core qsort ctdb flags force = Some ips"
      by (auto simp: ctdb_takeover_run_def bind_eq_Some_conv)
    have fl': "set_ipflags env pnn nm tr = (Some flags, tr @ q)" using fl Some q by simp
    obtain ret2 tr2 nf s2 where rel: "async_batch env (release_msgs nm ips) None
        (Some (takeover_run_fail_callback nm fcb)) (tr1, replicate (length nm) False, s) = (ret2, tr2, nf, s2)"
      by (metis prod.exhaust)
    note R = async_batch_trace [OF rel]
    obtain ret3 tr3 s3 where tk: "async_batch env (takeover_msgs ips) None (Some fcb) (tr2, s2) = (ret3, tr3, s3)"
      by (metis prod.exhaust)
    note K = async_batch_trace [OF tk]
    have "ret2 \<noteq> 0 \<and> tr' = tr2 \<or> ret2 = 0 \<and> ret3 \<noteq> 0 \<and> tr' = tr3 \<or>
        ret2 = 0 \<and> ret3 = 0 \<and> run_ipreallocated env pnn nm fcb tr3 s3 = (ret, tr', s')"
      using assms True fl Some core rel tk by (auto simp: ctdb_takeover_run_def split: if_splits)
    then consider "tr' = tr2" | "ret2 = 0" "tr' = tr3"
      | p where "ret2 = 0" "ret3 = 0" "quiet p" "tr' = tr3 @ p"
      using run_ipreallocated_quiet [of env pnn nm fcb tr3 s3] by blast
    then show ?thesis
    proof cases
      case 1
      with R(1) q core fl' show ?thesis by fastforce
    next
      case 2
      with K(1) R(2) q core fl' show ?thesis by (metis append.right_neutral append_assoc quiet_Nil)
    next
      case 3
      then have "tr' = tr @ q @ release_msgs nm ips @ take (length (takeover_msgs ips)) (takeover_msgs ips) @ p"
        using K(2) R(2) q by simp
      with 3 R(2) q core fl' show ?thesis by blast
    qed
  qed
qed

lemma release_msg_iff:
  "m \<in> set (release_msgs nm ips) \<longleftrightarrow>
     (\<exists>n ip. n \<in> set nm \<and> \<not> has_flag (nf_flags n) NODE_FLAGS_DISCONNECTED \<and> ip \<in> set ips \<and>
        word_of_int (ip_pnn ip) \<noteq> nf_pnn n \<and> m = (nf_pnn n, release_control ip))"
  by (auto simp: release_msgs_def split: if_splits)

lemma takeover_msg_iff:
  "m \<in> set (takeover_msgs ips) \<longleftrightarrow>
     (\<exists>ip. ip \<in> set ips \<and> ip_pnn ip \<noteq> -1 \<and> m = (word_of_int (ip_pnn ip), takeover_ip_control ip))"
  by (auto simp: takeover_msgs_def)

lemma control_addrs [simp]:
  "release_addr (release_control ip) = Some (ip_addr ip)" "takeover_addr (release_control ip) = None"
  "takeover_addr (takeover_ip_control ip) = Some (ip_addr ip)" "release_addr (takeover_ip_control ip) = None"
  by (simp_all add: release_control_def takeover_ip_control_def)

lemma distinct_key_unique:
  "distinct (map f xs) \<Longrightarrow> x \<in> set xs \<Longrightarrow> y \<in> set xs \<Longrightarrow> f x = f y \<Longrightarrow> x = y"
  by (auto simp: distinct_map dest: inj_onD)

lemma core_keys_distinct:
  assumes "qsort_ok qsort" "ctdb_takeover_run_core qsort ctdb fl force = Some ips"
  shows "distinct (map (\<lambda>ip. ip_key (ip_addr ip)) ips)"
proof -
  from create_merged_ip_list_spec [of ctdb] obtain tree ips0 where
    m: "create_merged_ip_list ctdb = Some (tree, ips0)" "distinct (map (ip_key o ip_addr) ips0)" by blast
  have "map ip_addr ips = map ip_addr ips0"
    using lcp2_environment.core_addrs [OF lcp2_environment.intro [OF assms(1)] assms(2) m(1)] .
  then have "map (ip_key o ip_addr) ips = map (ip_key o ip_addr) ips0" by (metis map_map)
  with m(2) show ?thesis by (simp add: comp_def)
qed


section \<open>A run without failures\<close>

definition env_ok :: "'c client_env \<Rightarrow> bool" where
  "env_ok env \<longleftrightarrow> (\<forall>tr m. \<not> send_fails env tr m) \<and> (\<forall>tr ms. \<forall>r \<in> set (replies env tr ms). reply_ok r)"

lemma send_all_ok: "env_ok env \<Longrightarrow> send_all env tr ms = (True, tr @ ms)"
  by (induction ms arbitrary: tr) (auto simp: env_ok_def)

lemma async_fold_no_callback:
  "\<forall>r \<in> set rs. reply_ok r \<Longrightarrow> fold (async_callback None fcb) rs (n, s) = (n, s)"
  by (induction rs) (auto simp: async_callback_def reply_ok_def Let_def)

lemma async_batch_ok:
  assumes "env_ok env"
  shows "async_batch env ms None fcb (tr, s) = (0, tr @ ms, s)"
    and "async_batch env ms (Some cb) fcb (tr, s) =
      (0, tr @ ms, fold (\<lambda>r. cb (destnode r) 0 (recv_outdata r)) (replies env tr ms) s)"
  using assms
  by (auto simp: async_batch_def send_all_ok ctdb_client_async_wait_def env_ok_def async_fold_no_callback async_fold_ok)

lemma async_control_ok:
  assumes "env_ok env"
  shows "\<exists>s'. ctdb_client_async_control env c ns (Some cb) fcb (tr, s) = (0, tr @ map (\<lambda>pnn. (pnn, c)) ns, s')"
    and "ctdb_client_async_control env c ns None fcb (tr, s) = (0, tr @ map (\<lambda>pnn. (pnn, c)) ns, s)"
  using assms by (simp_all add: ctdb_client_async_control_def async_batch_ok)

lemma get_from_nodes_ok:
  assumes "env_ok env"
  shows "\<exists>tvals tr'. get_tunable_from_nodes env pnn nm name d tr = (Some tvals, tr')"
    and "\<exists>rs tr'. get_runstate_from_nodes env pnn nm rd tr = (Some rs, tr')"
proof -
  obtain c where c: "ctdb_client_async_control env (GET_TUNABLE name) (list_of_connected_nodes pnn nm True)
      (Some get_tunable_callback) (Some get_tunable_fail_callback) (tr, replicate (length nm) d, False) = (0, c)"
    using async_control_ok(1) [OF assms] by metis
  show "\<exists>tvals tr'. get_tunable_from_nodes env pnn nm name d tr = (Some tvals, tr')"
    by (simp add: get_tunable_from_nodes_def c split: prod.splits)
next
  obtain c where c: "ctdb_client_async_control env GET_RUNSTATE (list_of_connected_nodes pnn nm True)
      (Some get_runstate_callback) (Some get_runstate_fail_callback) (tr, replicate (length nm) rd, False) = (0, c)"
    using async_control_ok(1) [OF assms] by metis
  show "\<exists>rs tr'. get_runstate_from_nodes env pnn nm rd tr = (Some rs, tr')"
    by (simp add: get_runstate_from_nodes_def c split: prod.splits)
qed

lemma set_ipflags_ok:
  assumes "env_ok env"
  shows "\<exists>fl tr'. set_ipflags env pnn nm tr = (Some fl, tr')"
proof -
  obtain t1 tr1 where 1: "get_tunable_from_nodes env pnn nm ''NoIPTakeover'' 0 tr = (Some t1, tr1)"
    using get_from_nodes_ok [OF assms] by blast
  obtain t2 tr2 where 2: "get_tunable_from_nodes env pnn nm ''NoIPHostOnAllDisabled'' 0 tr1 = (Some t2, tr2)"
    using get_from_nodes_ok [OF assms] by blast
  obtain t3 tr3 where 3: "get_runstate_from_nodes env pnn nm CTDB_RUNSTATE_RUNNING tr2 = (Some t3, tr3)"
    using get_from_nodes_ok [OF assms] by blast
  show ?thesis by (simp add: set_ipflags_def 1 2 3)
qed

lemma run_ipreallocated_ok:
  assumes "env_ok env"
  shows "\<exists>p. run_ipreallocated env pnn nm fcb tr s = (0, tr @ p, s) \<and> quiet p"
  using assms by (auto simp: run_ipreallocated_def async_control_ok quiet_def)

lemma set_ipflags_result:
  "set_ipflags env pnn nm tr = (Some fl, tr') \<Longrightarrow> \<exists>t1 t2 rs. fl = set_ipflags_internal nm t1 t2 rs"
  by (auto simp: set_ipflags_def split: prod.splits option.splits)

lemma length_set_ipflags [simp]: "length (set_ipflags_internal nm t1 t2 rs) = length nm"
  by (simp add: set_ipflags_internal_def Let_def)

text \<open>
  No address is taken over twice or by a node that is told to release it, and all other connected
  nodes are told to release it.
\<close>

definition exclusive :: "ctdb_node_map \<Rightarrow> takeover_control msg list \<Rightarrow> takeover_control msg list \<Rightarrow> bool" where
  "exclusive nodemap releases takeovers \<longleftrightarrow>
     (\<forall>dst c a. (dst, c) \<in> set takeovers \<longrightarrow> takeover_addr c = Some a \<longrightarrow>
        (\<forall>n \<in> set nodemap. \<not> has_flag (nf_flags n) NODE_FLAGS_DISCONNECTED \<longrightarrow> nf_pnn n \<noteq> dst \<longrightarrow>
           (\<exists>c'. (nf_pnn n, c') \<in> set releases \<and> release_addr c' = Some a)) \<and>
        (\<forall>m \<in> set takeovers. \<forall>a'. takeover_addr (snd m) = Some a' \<longrightarrow> ip_key a' = ip_key a \<longrightarrow> m = (dst, c)) \<and>
        (\<forall>m \<in> set releases. release_addr (snd m) = Some a \<longrightarrow> fst m \<noteq> dst))"

lemma exclusive_msgs:
  assumes "distinct (map (\<lambda>ip. ip_key (ip_addr ip)) ips)"
  shows "exclusive nm (release_msgs nm ips) (take l (takeover_msgs ips))"
  unfolding exclusive_def
proof (intro allI impI)
  fix dst c a assume "(dst, c) \<in> set (take l (takeover_msgs ips))" "takeover_addr c = Some a"
  then obtain ip where ip: "ip \<in> set ips" "dst = word_of_int (ip_pnn ip)" "c = takeover_ip_control ip" "a = ip_addr ip"
    by (auto simp: takeover_msg_iff dest!: in_set_takeD)
  note unique = distinct_key_unique [OF assms ip(1)]
  have rel: "\<exists>c'. (nf_pnn n, c') \<in> set (release_msgs nm ips) \<and> release_addr c' = Some a"
    if "n \<in> set nm" "\<not> has_flag (nf_flags n) NODE_FLAGS_DISCONNECTED" "nf_pnn n \<noteq> dst" for n
  proof -
    have "(nf_pnn n, release_control ip) \<in> set (release_msgs nm ips)"
      unfolding release_msg_iff using that ip by metis
    then show ?thesis using ip by auto
  qed
  have keep: "fst m \<noteq> dst" if "m \<in> set (release_msgs nm ips)" "release_addr (snd m) = Some a" for m
  proof -
    from that(1) obtain n :: ctdb_node_and_flags and y where y: "y \<in> set ips" "word_of_int (ip_pnn y) \<noteq> nf_pnn n"
      "m = (nf_pnn n, release_control y)" unfolding release_msg_iff by blast
    with that(2) ip have "ip = y" by (intro unique) simp_all
    with y ip show ?thesis by auto
  qed
  have same: "m = (dst, c)"
    if "m \<in> set (take l (takeover_msgs ips))" "takeover_addr (snd m) = Some a'" "ip_key a' = ip_key a" for m a'
  proof -
    from in_set_takeD [OF that(1)] obtain y where y: "y \<in> set ips"
      "m = (word_of_int (ip_pnn y), takeover_ip_control y)" unfolding takeover_msg_iff by blast
    with that(2,3) ip have "ip = y" by (intro unique) simp_all
    with y ip show ?thesis by auto
  qed
  from rel keep same show "(\<forall>n \<in> set nm. \<not> has_flag (nf_flags n) NODE_FLAGS_DISCONNECTED \<longrightarrow> nf_pnn n \<noteq> dst \<longrightarrow>
           (\<exists>c'. (nf_pnn n, c') \<in> set (release_msgs nm ips) \<and> release_addr c' = Some a)) \<and>
        (\<forall>m \<in> set (take l (takeover_msgs ips)). \<forall>a'. takeover_addr (snd m) = Some a' \<longrightarrow> ip_key a' = ip_key a \<longrightarrow> m = (dst, c)) \<and>
        (\<forall>m \<in> set (release_msgs nm ips). release_addr (snd m) = Some a \<longrightarrow> fst m \<noteq> dst)"
    by blast
qed

lemma run_core_ok:
  assumes "qsort_ok qsort" "cluster_ok ctdb fl" "length (known_ips ctdb) < 2 ^ 18"
  shows "\<exists>ips. ctdb_takeover_run_core qsort ctdb fl force = Some ips \<and>
    distinct (map (ip_key o ip_addr) ips) \<and>
    set (map (ip_key o ip_addr) ips) = (ip_key o ip_addr) ` set (known_ips ctdb) \<and>
    well_served ctdb fl ips \<and> complete_alloc ctdb fl ips"
proof -
  from merged_list_ok [OF assms(2)] obtain tree ips0 where
    m: "create_merged_ip_list ctdb = Some (tree, ips0)" "ips_ok (length fl) ips0"
    and k: "distinct (map (ip_key o ip_addr) ips0)"
      "set (map (ip_key o ip_addr) ips0) = (ip_key o ip_addr) ` set (known_ips ctdb)" by blast
  from length_distinct_keys [OF k] assms(3) have "length ips0 < 2 ^ 18" by simp
  from lcp2_environment.core_result [OF lcp2_environment.intro [OF assms(1)] m this, of force]
  obtain ips where ips: "ctdb_takeover_run_core qsort ctdb fl force = Some ips"
    "map ip_addr ips = map ip_addr ips0" "well_served ctdb fl ips" "complete_alloc ctdb fl ips" by blast
  then have "map (ip_key o ip_addr) ips = map (ip_key o ip_addr) ips0" by (metis map_map)
  with ips k show ?thesis by metis
qed

lemma takeover_run_ok:
  assumes "qsort_ok qsort" "env_ok env" "disable_ip_failover (tunable ctdb) = 0"
    "map node_pnn (nodes ctdb) = map int [0..<length nodemap]" "length (known_ips ctdb) < 2 ^ 18"
  shows "\<exists>ipflags ips q p. set_ipflags env pnn nodemap [] = (Some ipflags, q) \<and>
    ctdb_takeover_run_core qsort ctdb ipflags force = Some ips \<and> quiet q \<and> quiet p \<and>
    ctdb_takeover_run qsort env ctdb pnn nodemap force fail_callback [] s =
      Some (0, q @ release_msgs nodemap ips @ takeover_msgs ips @ p, s)"
proof -
  from set_ipflags_ok [OF assms(2)] obtain fl q where fl: "set_ipflags env pnn nodemap [] = (Some fl, q)" by blast
  from set_ipflags_quiet [OF fl] have q: "quiet q" by simp
  from set_ipflags_result [OF fl] have len: "length fl = length nodemap" by auto
  have "length (nodes ctdb) = length nodemap" using assms(4) by (metis length_map length_upt diff_zero)
  with assms(4) len have "cluster_ok ctdb fl" by (simp add: cluster_ok_def)
  from run_core_ok [OF assms(1) this assms(5), of force]
  obtain ips where ips: "ctdb_takeover_run_core qsort ctdb fl force = Some ips" by blast
  from run_ipreallocated_ok [OF assms(2), of pnn nodemap fail_callback
      "q @ release_msgs nodemap ips @ takeover_msgs ips" s] obtain p where
    p: "run_ipreallocated env pnn nodemap fail_callback (q @ release_msgs nodemap ips @ takeover_msgs ips) s =
          (0, (q @ release_msgs nodemap ips @ takeover_msgs ips) @ p, s)" "quiet p" by blast
  show ?thesis
    using fl q ips p assms(3) by (auto simp: ctdb_takeover_run_def async_batch_ok [OF assms(2)])
qed

section \<open>Only suitable nodes take addresses over\<close>

lemma set_ipflags_internal_nth:
  assumes "i < length nm"
  shows "noiptakeover (set_ipflags_internal nm t1 t2 rs ! i) \<longleftrightarrow> t1 ! i \<noteq> 0"
    and "noiphost (set_ipflags_internal nm t1 t2 rs ! i) \<longleftrightarrow>
      rs ! i \<noteq> CTDB_RUNSTATE_RUNNING \<or> has_flag (nf_flags (nm ! i)) NODE_FLAGS_INACTIVE \<or>
      (if all_nodes_are_disabled nm then t2 ! i \<noteq> 0 else has_flag (nf_flags (nm ! i)) NODE_FLAGS_DISABLED)"
  using assms by (simp_all add: set_ipflags_internal_def Let_def)

lemma hosted_suitable:
  assumes "hosted ctdb (set_ipflags_internal nm t1 t2 rs) ip"
  obtains i ips where "i < length nm" "ip_pnn ip = int i" "rs ! i = CTDB_RUNSTATE_RUNNING"
    "\<not> has_flag (nf_flags (nm ! i)) NODE_FLAGS_INACTIVE"
    "has_flag (nf_flags (nm ! i)) NODE_FLAGS_DISABLED \<Longrightarrow> all_nodes_are_disabled nm"
    "available_public_ips (nodes ctdb ! i) = Some ips" "\<exists>p \<in> set ips. ctdb_same_ip (ip_addr ip) (pub_addr p)"
proof -
  define i where "i = nat (ip_pnn ip)"
  with assms have i: "i < length nm" "ip_pnn ip = int i"
    and host: "can_node_host_ip ctdb (int i) (set_ipflags_internal nm t1 t2 rs ! i) ip"
    by (auto simp: hosted_def)
  from host have "\<not> noiphost (set_ipflags_internal nm t1 t2 rs ! i)"
    and "\<exists>ips. available_public_ips (nodes ctdb ! i) = Some ips \<and> (\<exists>p \<in> set ips. ctdb_same_ip (ip_addr ip) (pub_addr p))"
    by (auto simp: can_node_host_ip_def list_ex_iff split: if_splits option.splits)
  with i that show ?thesis unfolding set_ipflags_internal_nth(2) [OF i(1)] by (auto split: if_splits)
qed

lemma get_tunable_callback_bad_sizes:
  "\<forall>r \<in> set rs. length (recv_outdata r) \<noteq> 4 \<Longrightarrow>
     fst (fold (\<lambda>r. get_tunable_callback (destnode r) 0 (recv_outdata r)) rs (out, f)) = out"
  by (induction rs arbitrary: f) (auto simp: get_tunable_callback_def)

section \<open>An example cluster\<close>

definition ex_flags0 :: "ctdb_ipflags list" where
  "ex_flags0 = ex_ipflags[0 := \<lparr>noiptakeover = False, noiphost = True\<rparr>]"

definition ex_env :: "takeover_control client_env" where
  "ex_env = \<lparr>send_fails = (\<lambda>_ _. False),
     replies = (\<lambda>_ ms. map (\<lambda>(dst, c). \<lparr>destnode = dst, cstate = CTDB_CONTROL_DONE, recv_ret = 0, recv_res = 0,
                  recv_outdata = (if c = GET_RUNSTATE then [5, 0, 0, 0] else [0, 0, 0, 0])\<rparr>) ms)\<rparr>"

definition ex_nodemap :: ctdb_node_map where
  "ex_nodemap = map (\<lambda>i. \<lparr>nf_pnn = i, nf_flags = 0, nf_addr = ex_addr i\<rparr>) [0, 1]"

lemma ex_env_ok: "env_ok ex_env"
  by (auto simp: env_ok_def ex_env_def reply_ok_def)

lemma ex_cluster:
  "disable_ip_failover (tunable ex_ctdb) = 0" "length (known_ips ex_ctdb) < 2 ^ 18"
  "map node_pnn (nodes ex_ctdb) = map int [0..<length ex_nodemap]"
proof -
  have "length (known_ips ex_ctdb) = 8" by code_simp
  then show "length (known_ips ex_ctdb) < 2 ^ 18" by simp
qed code_simp+

lemma ex_run:
  "case ctdb_takeover_run cmp_sort ex_env ex_ctdb 0 ex_nodemap None (\<lambda>_ _ _ n. Suc n) [] (0::nat) of
     None \<Rightarrow> False
   | Some (ret, trace, n) \<Rightarrow> ret = 0 \<and> n = 0 \<and> (1, TAKEOVER_IPv4 1 (ex_addr 1)) \<in> set trace"
  by code_simp

section \<open>Properties\<close>

text \<open>
  C16: with fewer than \<open>2 ^ 18\<close> known addresses, whichever of the three algorithms the tunables
  choose, the calculation of a takeover run returns a list with exactly one entry for the key of
  each known address; every entry that is assigned is on a node that can host it, and an entry
  stays unassigned only if no node may take it over.
\<close>

theorem takeover_run_core_correct:
  assumes "qsort_ok qsort" "cluster_ok ctdb ipflags" "length (known_ips ctdb) < 2 ^ 18"
  shows "\<exists>ips. ctdb_takeover_run_core qsort ctdb ipflags force = Some ips \<and>
    distinct (map (ip_key o ip_addr) ips) \<and>
    set (map (ip_key o ip_addr) ips) = (ip_key o ip_addr) ` set (known_ips ctdb) \<and>
    well_served ctdb ipflags ips \<and> complete_alloc ctdb ipflags ips"
  by (rule run_core_ok [OF assms])

theorem takeover_run_core_correct_witness:
  "\<exists>ips. ctdb_takeover_run_core cmp_sort ex_ctdb ex_flags0 None = Some ips \<and>
     set (map (ip_key o ip_addr) ips) = (ip_key o ip_addr) ` set (known_ips ex_ctdb) \<and>
     known_ips ex_ctdb \<noteq> [] \<and> well_served ex_ctdb ex_flags0 ips"
proof -
  have "cluster_ok ex_ctdb ex_flags0" "length (known_ips ex_ctdb) = 8" by code_simp+
  moreover from this(2) have "known_ips ex_ctdb \<noteq> []" by auto
  ultimately show ?thesis
    using takeover_run_core_correct [OF qsort_ok_cmp_sort, of ex_ctdb ex_flags0 None] by auto
qed




text \<open>
  C17: a takeover run in which no message is lost and every node answers with success returns 0
  without calling the fail callback; it has sent, between questions at the start and the
  announcement at the end, all the releases and then all the takeovers of the allocation that was
  calculated from the flags the nodes reported.
\<close>

theorem takeover_run_success:
  assumes "qsort_ok qsort" "env_ok env" "disable_ip_failover (tunable ctdb) = 0"
    "map node_pnn (nodes ctdb) = map int [0..<length nodemap]" "length (known_ips ctdb) < 2 ^ 18"
  shows "\<exists>ipflags ips q p. set_ipflags env pnn nodemap [] = (Some ipflags, q) \<and>
    ctdb_takeover_run_core qsort ctdb ipflags force = Some ips \<and> quiet q \<and> quiet p \<and>
    ctdb_takeover_run qsort env ctdb pnn nodemap force fail_callback [] s =
      Some (0, q @ release_msgs nodemap ips @ takeover_msgs ips @ p, s)"
  by (rule takeover_run_ok [OF assms])

theorem takeover_run_success_witness:
  "\<exists>q ips p. ctdb_takeover_run cmp_sort ex_env ex_ctdb 0 ex_nodemap None (\<lambda>_ _ _ n. Suc n) [] 0 =
     Some (0, q @ release_msgs ex_nodemap ips @ takeover_msgs ips @ p, 0)"
  using takeover_run_success [OF qsort_ok_cmp_sort ex_env_ok ex_cluster(1,3,2), of 0 None "\<lambda>_ _ _ n. Suc n" 0] by blast

text \<open>
  C18: in every takeover run a node is told to take an address over only if it is active and lists
  the address among those it can serve, and only if it is not disabled or all nodes are.
\<close>

theorem takeover_run_suitable_hosts:
  assumes "qsort_ok qsort" "map node_pnn (nodes ctdb) = map int [0..<length nodemap]"
    "length (known_ips ctdb) < 2 ^ 18"
    "ctdb_takeover_run qsort env ctdb pnn nodemap force fail_callback [] s = Some (ret, trace, s')"
    "(dst, c) \<in> set trace" "takeover_addr c = Some a"
  shows "\<exists>i < length nodemap. dst = of_nat i \<and> \<not> has_flag (nf_flags (nodemap ! i)) NODE_FLAGS_INACTIVE \<and>
    (has_flag (nf_flags (nodemap ! i)) NODE_FLAGS_DISABLED \<longrightarrow> all_nodes_are_disabled nodemap) \<and>
    (\<exists>ips. available_public_ips (nodes ctdb ! i) = Some ips \<and> (\<exists>p \<in> set ips. ctdb_same_ip a (pub_addr p)))"
proof -
  have not_quiet: "\<not> quiet q" if "(dst, c) \<in> set q" for q
    using that assms(6) by (force simp: quiet_def)
  have not_release: "(dst, c) \<notin> set (take k (release_msgs nodemap ips))" for k ips
    using assms(6) by (auto simp: release_msg_iff dest!: in_set_takeD)
  from takeover_run_trace [OF assms(4)]
  have "\<exists>fl ips q l. set_ipflags env pnn nodemap [] = (Some fl, q) \<and>
    ctdb_takeover_run_core qsort ctdb fl force = Some ips \<and> (dst, c) \<in> set (take l (takeover_msgs ips))"
  proof (elim disjE exE conjE)
    fix q assume "quiet q" "trace = [] @ q"
    with assms(5) not_quiet show ?thesis by auto
  next
    fix fl ips q k assume "quiet q" "trace = [] @ q @ take k (release_msgs nodemap ips)"
    with assms(5) not_quiet not_release show ?thesis by auto
  next
    fix fl ips q l p assume "set_ipflags env pnn nodemap [] = (Some fl, [] @ q)"
      "ctdb_takeover_run_core qsort ctdb fl force = Some ips" "quiet q" "quiet p"
      "trace = [] @ q @ release_msgs nodemap ips @ take l (takeover_msgs ips) @ p"
    with assms(5) not_quiet not_release [of "length (release_msgs nodemap ips)" ips] show ?thesis by auto
  qed
  then obtain fl ips q l where flags: "set_ipflags env pnn nodemap [] = (Some fl, q)"
    and core: "ctdb_takeover_run_core qsort ctdb fl force = Some ips"
    and msg: "(dst, c) \<in> set (take l (takeover_msgs ips))" by blast
  from msg assms(6) obtain ip where ip: "ip \<in> set ips" "ip_pnn ip \<noteq> -1" "dst = word_of_int (ip_pnn ip)" "a = ip_addr ip"
    by (auto simp: takeover_msg_iff dest!: in_set_takeD)
  from set_ipflags_result [OF flags] obtain t1 t2 rs where fl: "fl = set_ipflags_internal nodemap t1 t2 rs" by blast
  have "length (nodes ctdb) = length nodemap" using assms(2) by (metis length_map length_upt diff_zero)
  with assms(2) fl have "cluster_ok ctdb fl" by (simp add: cluster_ok_def)
  from run_core_ok [OF assms(1) this assms(3), of force] core have "well_served ctdb fl ips" by simp
  with ip have "hosted ctdb (set_ipflags_internal nodemap t1 t2 rs) ip" by (auto simp: well_served_def fl)
  then show ?thesis by (cases rule: hosted_suitable) (use ip in auto)
qed

theorem takeover_run_suitable_hosts_witness:
  "\<exists>trace. ctdb_takeover_run cmp_sort ex_env ex_ctdb 0 ex_nodemap None (\<lambda>_ _ _ n. Suc n) [] (0::nat) = Some (0, trace, 0) \<and>
     (1, TAKEOVER_IPv4 1 (ex_addr 1)) \<in> set trace \<and> (\<exists>i < length ex_nodemap. (1::u32) = of_nat i)"
proof -
  from ex_run obtain trace where run: "ctdb_takeover_run cmp_sort ex_env ex_ctdb 0 ex_nodemap None (\<lambda>_ _ _ n. Suc n) [] (0::nat) =
    Some (0, trace, 0)" and msg: "(1, TAKEOVER_IPv4 1 (ex_addr 1)) \<in> set trace"
    by (auto split: option.splits)
  from takeover_run_suitable_hosts [OF qsort_ok_cmp_sort ex_cluster(3,2) run msg] run msg show ?thesis by auto
qed

text \<open>
  A node that answers the question for a tunable with data of the wrong size does not stop the
  run, although the callback marks the failure as fatal: the flag is looked at only if a control
  failed, and the run goes on with the default values.
\<close>

lemma get_tunable_bad_size_ignored:
  assumes "env_ok env"
    "\<forall>r \<in> set (replies env trace (map (\<lambda>n. (n, GET_TUNABLE name)) (list_of_connected_nodes pnn nodemap True))).
       length (recv_outdata r) \<noteq> 4"
  shows "fst (get_tunable_from_nodes env pnn nodemap name default_value trace) =
    Some (replicate (length nodemap) default_value)"
  using get_tunable_callback_bad_sizes [OF assms(2), of "replicate (length nodemap) default_value" False]
  by (auto simp add: get_tunable_from_nodes_def ctdb_client_async_control_def async_batch_ok(2) [OF assms(1)] split: prod.splits)

end
