(* ===== verification/Tdb_Hash.thy ===== *)
theory Tdb_Hash
  imports Ctdb_Prelude
begin

text \<open>
  The hash functions of \<^verbatim>\<open>lib/tdb/common/hash.c\<close>: the old gdbm hash and the Jenkins hash that
  decides which node is the lmaster of a key.  \<^verbatim>\<open>hashlittle\<close> reads its input in 32-bit words, 16-bit
  words or bytes, depending on the byte order of the host and the alignment of the key; the three
  ways are three definitions here.  The theorems show that they compute the same hash, so that nodes
  of a cluster agree on the lmaster however their copies of a key lie in memory, and that the mixing
  step loses no information.
\<close>

section \<open>The old hash\<close>

definition tdb_old_hash :: "u8 list \<Rightarrow> u32" where
  "tdb_old_hash key =
     (let value = fold (\<lambda>i value. value + push_bit (i * 5 mod 24) (ucast (key ! i)))
                    [0..<length key] (0x238F13AF * of_nat (length key))
      in 1103515243 * value + 12345)"

section \<open>Mixing\<close>

definition rot :: "u32 \<Rightarrow> nat \<Rightarrow> u32" where
  "rot x k = push_bit k x OR drop_bit (32 - k) x"

type_synonym hash_state = "u32 \<times> u32 \<times> u32"

text \<open>One line of the macro: \<^verbatim>\<open>a -= c; a ^= rot(c, k); c += b\<close>.\<close>

definition mix_line :: "nat \<Rightarrow> hash_state \<Rightarrow> hash_state" where
  "mix_line k = (\<lambda>(a, b, c). let a = a - c; a = a XOR rot c k; c = c + b in (a, b, c))"

definition mix :: "hash_state \<Rightarrow> hash_state" where
  "mix = (\<lambda>(a, b, c).
     let (a, b, c) = mix_line 4 (a, b, c);
         (b, c, a) = mix_line 6 (b, c, a);
         (c, a, b) = mix_line 8 (c, a, b);
         (a, b, c) = mix_line 16 (a, b, c);
         (b, c, a) = mix_line 19 (b, c, a);
         (c, a, b) = mix_line 4 (c, a, b)
     in (a, b, c))"

definition final :: "hash_state \<Rightarrow> hash_state" where
  "final = (\<lambda>(a, b, c).
     let c = c XOR b; c = c - rot b 14;
         a = a XOR c; a = a - rot c 11;
         b = b XOR a; b = b - rot a 25;
         c = c XOR b; c = c - rot b 16;
         a = a XOR c; a = a - rot c 4;
         b = b XOR a; b = b - rot a 14;
         c = c XOR b; c = c - rot b 24
     in (a, b, c))"

section \<open>Reading the key\<close>

text \<open>A byte, a 16-bit word and a 32-bit word of the key at an index, as a little-endian host reads them.\<close>

definition k8 :: "u8 list \<Rightarrow> nat \<Rightarrow> u32" where
  "k8 k i = ucast (k ! i)"

definition k16 :: "u8 list \<Rightarrow> nat \<Rightarrow> u16" where
  "k16 k i = ucast (k ! (2 * i)) OR push_bit 8 (ucast (k ! (2 * i + 1)))"

definition k32 :: "u8 list \<Rightarrow> nat \<Rightarrow> u32" where
  "k32 k i = u32_of_bytes (take 4 (drop (4 * i) k))"

text \<open>All but the last block, in the three ways; the result is the state and the bytes that are left.\<close>

function blocks32 :: "u8 list \<Rightarrow> hash_state \<Rightarrow> u8 list \<times> hash_state" where
  "blocks32 k (a, b, c) =
     (if length k > 12 then blocks32 (drop 12 k) (mix (a + k32 k 0, b + k32 k 1, c + k32 k 2))
      else (k, a, b, c))"
  by pat_completeness auto
termination by (relation "measure (\<lambda>(k, _). length k)") auto

function blocks16 :: "u8 list \<Rightarrow> hash_state \<Rightarrow> u8 list \<times> hash_state" where
  "blocks16 k (a, b, c) =
     (if length k > 12 then
        blocks16 (drop 12 k)
          (mix (a + (ucast (k16 k 0) + push_bit 16 (ucast (k16 k 1))),
                b + (ucast (k16 k 2) + push_bit 16 (ucast (k16 k 3))),
                c + (ucast (k16 k 4) + push_bit 16 (ucast (k16 k 5)))))
      else (k, a, b, c))"
  by pat_completeness auto
termination by (relation "measure (\<lambda>(k, _). length k)") auto

function blocks8 :: "u8 list \<Rightarrow> hash_state \<Rightarrow> u8 list \<times> hash_state" where
  "blocks8 k (a, b, c) =
     (if length k > 12 then
        (let a = a + k8 k 0; a = a + push_bit 8 (k8 k 1);
             a = a + push_bit 16 (k8 k 2); a = a + push_bit 24 (k8 k 3);
             b = b + k8 k 4; b = b + push_bit 8 (k8 k 5);
             b = b + push_bit 16 (k8 k 6); b = b + push_bit 24 (k8 k 7);
             c = c + k8 k 8; c = c + push_bit 8 (k8 k 9);
             c = c + push_bit 16 (k8 k 10); c = c + push_bit 24 (k8 k 11)
         in blocks8 (drop 12 k) (mix (a, b, c)))
      else (k, a, b, c))"
  by pat_completeness auto
termination by (relation "measure (\<lambda>(k, _). length k)") auto

declare blocks32.simps [simp del] blocks16.simps [simp del] blocks8.simps [simp del]

text \<open>
  The switch on the number \<open>n\<close> of bytes left, between 1 and 12: a case label that falls through
  is executed for every larger \<open>n\<close> up to the next \<^verbatim>\<open>break\<close>.
\<close>

definition last32 :: "u8 list \<Rightarrow> hash_state \<Rightarrow> hash_state" where
  "last32 k = (\<lambda>(a, b, c).
     let n = length k
     in if n = 12 then (a + k32 k 0, b + k32 k 1, c + k32 k 2)
        else if n \<ge> 8 then
          (let c = (if n \<ge> 11 then c + push_bit 16 (k8 k 10) else c);
               c = (if n \<ge> 10 then c + push_bit 8 (k8 k 9) else c);
               c = (if n \<ge> 9 then c + k8 k 8 else c)
           in (a + k32 k 0, b + k32 k 1, c))
        else if n \<ge> 4 then
          (let b = (if n \<ge> 7 then b + push_bit 16 (k8 k 6) else b);
               b = (if n \<ge> 6 then b + push_bit 8 (k8 k 5) else b);
               b = (if n \<ge> 5 then b + k8 k 4 else b)
           in (a + k32 k 0, b, c))
        else
          (let a = (if n \<ge> 3 then a + push_bit 16 (k8 k 2) else a);
               a = (if n \<ge> 2 then a + push_bit 8 (k8 k 1) else a);
               a = (if n \<ge> 1 then a + k8 k 0 else a)
           in (a, b, c)))"

definition last16 :: "u8 list \<Rightarrow> hash_state \<Rightarrow> hash_state" where
  "last16 k = (\<lambda>(a, b, c).
     let n = length k;
         w = (\<lambda>i j. ucast (k16 k i) + push_bit 16 (ucast (k16 k j)))
     in if n = 12 then (a + w 0 1, b + w 2 3, c + w 4 5)
        else if n \<ge> 10 then
          (let c = (if n \<ge> 11 then c + push_bit 16 (k8 k 10) else c)
           in (a + w 0 1, b + w 2 3, c + ucast (k16 k 4)))
        else if n \<ge> 8 then
          (let c = (if n \<ge> 9 then c + k8 k 8 else c) in (a + w 0 1, b + w 2 3, c))
        else if n \<ge> 6 then
          (let b = (if n \<ge> 7 then b + push_bit 16 (k8 k 6) else b)
           in (a + w 0 1, b + ucast (k16 k 2), c))
        else if n \<ge> 4 then
          (let b = (if n \<ge> 5 then b + k8 k 4 else b) in (a + w 0 1, b, c))
        else if n \<ge> 2 then
          (let a = (if n \<ge> 3 then a + push_bit 16 (k8 k 2) else a)
           in (a + ucast (k16 k 0), b, c))
        else if n = 1 then (a + k8 k 0, b, c)
        else (a, b, c))"

definition last8 :: "u8 list \<Rightarrow> hash_state \<Rightarrow> hash_state" where
  "last8 k = (\<lambda>(a, b, c).
     let n = length k;
         c = (if n \<ge> 12 then c + push_bit 24 (k8 k 11) else c);
         c = (if n \<ge> 11 then c + push_bit 16 (k8 k 10) else c);
         c = (if n \<ge> 10 then c + push_bit 8 (k8 k 9) else c);
         c = (if n \<ge> 9 then c + k8 k 8 else c);
         b = (if n \<ge> 8 then b + push_bit 24 (k8 k 7) else b);
         b = (if n \<ge> 7 then b + push_bit 16 (k8 k 6) else b);
         b = (if n \<ge> 6 then b + push_bit 8 (k8 k 5) else b);
         b = (if n \<ge> 5 then b + k8 k 4 else b);
         a = (if n \<ge> 4 then a + push_bit 24 (k8 k 3) else a);
         a = (if n \<ge> 3 then a + push_bit 16 (k8 k 2) else a);
         a = (if n \<ge> 2 then a + push_bit 8 (k8 k 1) else a);
         a = (if n \<ge> 1 then a + k8 k 0 else a)
     in (a, b, c))"

text \<open>With no byte left the code returns \<open>c\<close> without the final mixing.\<close>

definition finish :: "(u8 list \<Rightarrow> hash_state \<Rightarrow> hash_state) \<Rightarrow> u8 list \<times> hash_state \<Rightarrow> u32" where
  "finish rest = (\<lambda>(k, a, b, c). if k = [] then c else snd (snd (final (rest k (a, b, c)))))"

definition hashlittle :: "bool \<Rightarrow> nat \<Rightarrow> u8 list \<Rightarrow> u32" where
  "hashlittle little_endian addr key =
     (let i = 0xdeadbeef + of_nat (length key)
      in if little_endian \<and> addr AND 3 = 0 then finish last32 (blocks32 key (i, i, i))
         else if little_endian \<and> addr AND 1 = 0 then finish last16 (blocks16 key (i, i, i))
         else finish last8 (blocks8 key (i, i, i)))"

definition tdb_jenkins_hash :: "bool \<Rightarrow> nat \<Rightarrow> u8 list \<Rightarrow> u32" where
  "tdb_jenkins_hash little_endian addr key = hashlittle little_endian addr key"

section \<open>The three ways agree\<close>

lemma u8_bit: "bit (b :: u8) n \<Longrightarrow> n < 8"
  using bit_imp_le_length [of b n] by simp

lemma u32_of_bytes_Cons_add: "u32_of_bytes (b # bs) = ucast b + push_bit 8 (u32_of_bytes bs)"
proof -
  have "bit (ucast b :: u32) n \<Longrightarrow> \<not> bit (push_bit 8 (u32_of_bytes bs)) n" for n
    by (auto simp: bit_push_bit_iff bit_unsigned_iff dest: u8_bit)
  then show ?thesis by (subst disjunctive_add) auto
qed

lemma word_of_4_bytes:
  "u32_of_bytes [b0, b1, b2, b3] =
     ucast b0 + (push_bit 8 (ucast b1) + (push_bit 16 (ucast b2) + push_bit 24 (ucast b3)))"
  unfolding u32_of_bytes_Cons_add by (simp add: push_bit_add)

lemma ucast_16_of_bytes:
  fixes b0 b1 :: u8
  shows "(ucast (ucast b0 OR push_bit 8 (ucast b1) :: u16) :: u32) = ucast b0 + push_bit 8 (ucast b1)"
proof -
  have "(ucast (ucast b0 OR push_bit 8 (ucast b1) :: u16) :: u32) = ucast b0 OR push_bit 8 (ucast b1)"
    by (rule bit_word_eqI) (auto simp: bit_unsigned_iff bit_or_iff bit_push_bit_iff dest: u8_bit)
  also have "\<dots> = ucast b0 + push_bit 8 (ucast b1)"
    by (rule disjunctive_add [symmetric]) (auto simp: bit_push_bit_iff bit_unsigned_iff dest: u8_bit)
  finally show ?thesis .
qed

lemma k32_bytes:
  assumes "4 * i + 3 < length k"
  shows "k32 k i = k8 k (4 * i) + (push_bit 8 (k8 k (4 * i + 1)) +
    (push_bit 16 (k8 k (4 * i + 2)) + push_bit 24 (k8 k (4 * i + 3))))"
proof -
  have bytes: "take 4 (drop (4 * i) k) = [k ! (4 * i), k ! (4 * i + 1), k ! (4 * i + 2), k ! (4 * i + 3)]"
    using assms by (intro nth_equalityI) (auto simp: less_Suc_eq numeral_eq_Suc)
  show ?thesis unfolding k32_def k8_def bytes word_of_4_bytes ..
qed

lemma k32_index:
  "3 < length k \<Longrightarrow> k32 k 0 = k8 k 0 + (push_bit 8 (k8 k 1) + (push_bit 16 (k8 k 2) + push_bit 24 (k8 k 3)))"
  "7 < length k \<Longrightarrow> k32 k (Suc 0) = k8 k 4 + (push_bit 8 (k8 k 5) + (push_bit 16 (k8 k 6) + push_bit 24 (k8 k 7)))"
  "11 < length k \<Longrightarrow> k32 k 2 = k8 k 8 + (push_bit 8 (k8 k 9) + (push_bit 16 (k8 k 10) + push_bit 24 (k8 k 11)))"
  using k32_bytes [of 0 k] k32_bytes [of "Suc 0" k] k32_bytes [of 2 k] by (simp_all add: numeral_2_eq_2)

lemma k16_bytes: "(ucast (k16 k i) :: u32) = k8 k (2 * i) + push_bit 8 (k8 k (2 * i + 1))"
  by (simp add: k16_def k8_def ucast_16_of_bytes)

lemma k16_index:
  "(ucast (k16 k 0) :: u32) = k8 k 0 + push_bit 8 (k8 k 1)" "(ucast (k16 k (Suc 0)) :: u32) = k8 k 2 + push_bit 8 (k8 k 3)"
  "(ucast (k16 k 2) :: u32) = k8 k 4 + push_bit 8 (k8 k 5)" "(ucast (k16 k 3) :: u32) = k8 k 6 + push_bit 8 (k8 k 7)"
  "(ucast (k16 k 4) :: u32) = k8 k 8 + push_bit 8 (k8 k 9)" "(ucast (k16 k 5) :: u32) = k8 k 10 + push_bit 8 (k8 k 11)"
  using k16_bytes [of k 0] k16_bytes [of k 1] k16_bytes [of k 2] k16_bytes [of k 3] k16_bytes [of k 4] k16_bytes [of k 5]
  by simp_all

lemmas key_bytes = k32_index k16_index push_bit_add

lemma blocks_eq: "blocks32 k st = blocks8 k st" "blocks16 k st = blocks8 k st"
proof -
  have "blocks32 k st = blocks8 k st \<and> blocks16 k st = blocks8 k st"
  proof (induction "length k" arbitrary: k st rule: less_induct)
    case less
    obtain a b c where st: "st = (a, b, c)" by (cases st)
    show ?case
    proof (cases "length k > 12")
      case True
      then have IH: "blocks32 (drop 12 k) st' = blocks8 (drop 12 k) st'"
        "blocks16 (drop 12 k) st' = blocks8 (drop 12 k) st'" for st'
        using less [of "drop 12 k" st'] by simp_all
      show ?thesis
        unfolding st blocks32.simps [of k] blocks16.simps [of k] blocks8.simps [of k] IH Let_def
        using True by (simp add: key_bytes add.assoc)
    next
      case False
      then show ?thesis by (simp add: st blocks32.simps blocks16.simps blocks8.simps)
    qed
  qed
  then show "blocks32 k st = blocks8 k st" "blocks16 k st = blocks8 k st" by simp_all
qed

lemma blocks8_length: "blocks8 k st = (k', st') \<Longrightarrow> length k' \<le> 12"
proof (induction "length k" arbitrary: k st rule: less_induct)
  case less
  obtain a b c where st: "st = (a, b, c)" by (cases st)
  show ?case
  proof (cases "length k > 12")
    case True
    with less.prems obtain st'' where "blocks8 (drop 12 k) st'' = (k', st')"
      unfolding st blocks8.simps [of k] Let_def by auto
    with less.hyps [of "drop 12 k" st''] True show ?thesis by auto
  next
    case False
    with less.prems show ?thesis by (simp add: st blocks8.simps)
  qed
qed

lemma last_eq:
  assumes "length k \<le> 12"
  shows "last32 k st = last8 k st" "last16 k st = last8 k st"
proof -
  obtain a b c where st: "st = (a, b, c)" by (cases st)
  have n: "length k = 0 \<or> length k = 1 \<or> length k = 2 \<or> length k = 3 \<or> length k = 4 \<or> length k = 5 \<or> length k = 6 \<or>
    length k = 7 \<or> length k = 8 \<or> length k = 9 \<or> length k = 10 \<or> length k = 11 \<or> length k = 12"
    using assms by presburger
  show "last32 k st = last8 k st"
    using n by (elim disjE) (simp_all add: last32_def last8_def st key_bytes ac_simps)
  show "last16 k st = last8 k st"
    using n by (elim disjE) (simp_all add: last16_def last8_def st key_bytes ac_simps)
qed

lemma hashlittle_bytewise:
  "hashlittle little_endian addr key =
     (let i = 0xdeadbeef + of_nat (length key) in finish last8 (blocks8 key (i, i, i)))"
proof -
  define i :: u32 where "i = 0xdeadbeef + of_nat (length key)"
  obtain k' st' where b: "blocks8 key (i, i, i) = (k', st')" by (cases "blocks8 key (i, i, i)")
  have "last32 k' st' = last8 k' st'" "last16 k' st' = last8 k' st'"
    using last_eq [OF blocks8_length [OF b]] by auto
  then have "finish last32 (k', st') = finish last8 (k', st')" "finish last16 (k', st') = finish last8 (k', st')"
    by (cases st'; simp add: finish_def)+
  with b show ?thesis by (simp add: hashlittle_def blocks_eq i_def [symmetric])
qed

section \<open>Mixing is reversible\<close>

definition unmix_line :: "nat \<Rightarrow> hash_state \<Rightarrow> hash_state" where
  "unmix_line k = (\<lambda>(a, b, c). let c = c - b; a = a XOR rot c k; a = a + c in (a, b, c))"

lemma xor_cancel: "(a XOR b) XOR b = (a :: u32)"
  by (simp add: xor.assoc)

lemma unmix_mix_line [simp]: "unmix_line k (mix_line k s) = s"
  by (cases s) (simp add: mix_line_def unmix_line_def xor_cancel Let_def)

lemma mix_unmix_line [simp]: "mix_line k (unmix_line k s) = s"
  by (cases s) (simp add: mix_line_def unmix_line_def xor_cancel Let_def)

text \<open>The roles of the three variables rotate from line to line.\<close>

definition rotate3 :: "hash_state \<Rightarrow> hash_state" where
  "rotate3 = (\<lambda>(a, b, c). (b, c, a))"

definition rotate3_back :: "hash_state \<Rightarrow> hash_state" where
  "rotate3_back = (\<lambda>(b, c, a). (a, b, c))"

lemma rotate3_inverse [simp]: "rotate3_back (rotate3 s) = s" "rotate3 (rotate3_back s) = s"
  by (cases s; simp add: rotate3_def rotate3_back_def)+

definition mix_lines :: "nat list \<Rightarrow> hash_state \<Rightarrow> hash_state" where
  "mix_lines = fold (\<lambda>k. rotate3 o mix_line k)"

definition unmix_lines :: "nat list \<Rightarrow> hash_state \<Rightarrow> hash_state" where
  "unmix_lines ks = fold (\<lambda>k. unmix_line k o rotate3_back) (rev ks)"

lemma unmix_mix_lines: "unmix_lines ks (mix_lines ks s) = s"
  by (induction ks arbitrary: s) (simp_all add: mix_lines_def unmix_lines_def)

lemma mix_unmix_lines: "mix_lines ks (unmix_lines ks s) = s"
  by (induction ks arbitrary: s) (simp_all add: mix_lines_def unmix_lines_def)

lemma mix_lines: "mix s = mix_lines [4, 6, 8, 16, 19, 4] s"
  by (cases s) (simp add: mix_def mix_lines_def rotate3_def mix_line_def Let_def)

section \<open>Properties\<close>

text \<open>
  C31: the hash of a key depends on its bytes alone: it is the same on hosts of either byte order
  and however the key is aligned in memory, although the code reads 32-bit words, 16-bit words or
  bytes accordingly.
\<close>

theorem tdb_jenkins_hash_portable:
  "tdb_jenkins_hash little_endian addr key = tdb_jenkins_hash little_endian' addr' key"
  by (simp add: tdb_jenkins_hash_def hashlittle_bytewise)

text \<open>
  The mixing step is reversible, as its comment says: it is a bijection on the three words of
  the state.
\<close>

lemma mix_reversible: "bij mix"
proof (rule o_bij)
  show "unmix_lines [4, 6, 8, 16, 19, 4] o mix = id"
    by (rule ext) (simp only: mix_lines o_apply unmix_mix_lines id_apply)
  show "mix o unmix_lines [4, 6, 8, 16, 19, 4] = id"
    by (rule ext) (simp only: mix_lines o_apply mix_unmix_lines id_apply)
qed

end
