(* ===== verification/Rb_Delete.thy ===== *)
theory Rb_Delete
  imports Rb_Array
begin

text \<open>
  Deletion from the red-black tree of \<^verbatim>\<open>common/rb_tree.c\<close>: \<^verbatim>\<open>delete_node\<close> with its six rebalancing
  cases, the destructor that removes a node when its data is freed, and \<^verbatim>\<open>trbt_delete32\<close>.  Freeing
  data keeps the red-black invariants and removes exactly one entry; \<^verbatim>\<open>trbt_delete32\<close> runs the
  removal twice and can lose another entry.
\<close>

section \<open>Rebalancing after a deletion\<close>

definition trbt_delete_case6 :: "'d trbt_tree \<Rightarrow> ptr \<Rightarrow> 'd trbt_tree option" where
  "trbt_delete_case6 t node =
     do { sib \<leftarrow> trbt_sibling t node;
          par \<leftarrow> trbt_parent t node;
          pc \<leftarrow> field rb_color t par;
          t \<leftarrow> trbt_set_color t sib pc;
          t \<leftarrow> trbt_set_color t par TRBT_BLACK;
          pl \<leftarrow> field nleft t par;
          if node = pl then do { t \<leftarrow> trbt_set_color_right t sib TRBT_BLACK; trbt_rotate_left t par }
          else do { t \<leftarrow> trbt_set_color_left t sib TRBT_BLACK; trbt_rotate_right t par } }"

definition trbt_delete_case5 :: "'d trbt_tree \<Rightarrow> ptr \<Rightarrow> 'd trbt_tree option" where
  "trbt_delete_case5 t node =
     do { par \<leftarrow> trbt_parent t node;
          sib \<leftarrow> trbt_sibling t node;
          pl \<leftarrow> field nleft t par;
          pr \<leftarrow> field nright t par;
          sc \<leftarrow> trbt_get_color t sib;
          sl \<leftarrow> trbt_get_color_left t sib;
          sr \<leftarrow> trbt_get_color_right t sib;
          if node = pl \<and> sc = TRBT_BLACK \<and> sl = TRBT_RED \<and> sr = TRBT_BLACK then
            do { t \<leftarrow> trbt_set_color t sib TRBT_RED;
                 t \<leftarrow> trbt_set_color_left t sib TRBT_BLACK;
                 t \<leftarrow> trbt_rotate_right t sib;
                 trbt_delete_case6 t node }
          else if node = pr \<and> sc = TRBT_BLACK \<and> sr = TRBT_RED \<and> sl = TRBT_BLACK then
            do { t \<leftarrow> trbt_set_color t sib TRBT_RED;
                 t \<leftarrow> trbt_set_color_right t sib TRBT_BLACK;
                 t \<leftarrow> trbt_rotate_left t sib;
                 trbt_delete_case6 t node }
          else trbt_delete_case6 t node }"

definition trbt_delete_case4 :: "'d trbt_tree \<Rightarrow> ptr \<Rightarrow> 'd trbt_tree option" where
  "trbt_delete_case4 t node =
     do { sib \<leftarrow> trbt_sibling t node;
          par \<leftarrow> field nparent t node;
          pc \<leftarrow> trbt_get_color t par;
          sc \<leftarrow> trbt_get_color t sib;
          sl \<leftarrow> trbt_get_color_left t sib;
          sr \<leftarrow> trbt_get_color_right t sib;
          if pc = TRBT_RED \<and> sc = TRBT_BLACK \<and> sl = TRBT_BLACK \<and> sr = TRBT_BLACK then
            do { t \<leftarrow> trbt_set_color t sib TRBT_RED;
                 par \<leftarrow> field nparent t node;
                 trbt_set_color t par TRBT_BLACK }
          else trbt_delete_case5 t node }"

text \<open>Case 2 turns a red sibling into a black one, then cases 3 to 6 follow.\<close>

definition trbt_delete_case2_rotate :: "'d trbt_tree \<Rightarrow> ptr \<Rightarrow> 'd trbt_tree option" where
  "trbt_delete_case2_rotate t node =
     do { sib \<leftarrow> trbt_sibling t node;
          sc \<leftarrow> trbt_get_color t sib;
          if sc = TRBT_RED then
            do { par \<leftarrow> field nparent t node;
                 t \<leftarrow> trbt_set_color t par TRBT_RED;
                 t \<leftarrow> trbt_set_color t sib TRBT_BLACK;
                 par \<leftarrow> field nparent t node;
                 pl \<leftarrow> field nleft t par;
                 if node = pl then trbt_rotate_left t par else trbt_rotate_right t par }
          else Some t }"

text \<open>Cases 1 to 3 call each other; case 3 goes on at the parent.\<close>

partial_function (option) trbt_delete_case1 :: "'d trbt_tree \<Rightarrow> ptr \<Rightarrow> 'd trbt_tree option" where
  "trbt_delete_case1 t node =
     do { par \<leftarrow> field nparent t node;
          if par = None then Some t
          else do {
            t \<leftarrow> trbt_delete_case2_rotate t node;
            sib \<leftarrow> trbt_sibling t node;
            par \<leftarrow> field nparent t node;
            pc \<leftarrow> trbt_get_color t par;
            sc \<leftarrow> trbt_get_color t sib;
            sl \<leftarrow> trbt_get_color_left t sib;
            sr \<leftarrow> trbt_get_color_right t sib;
            if pc = TRBT_BLACK \<and> sc = TRBT_BLACK \<and> sl = TRBT_BLACK \<and> sr = TRBT_BLACK then
              do { t \<leftarrow> trbt_set_color t sib TRBT_RED;
                   par \<leftarrow> field nparent t node;
                   trbt_delete_case1 t par }
            else trbt_delete_case4 t node } }"

section \<open>Removing a node\<close>

definition release_node :: "nat \<Rightarrow> 'd trbt_tree \<Rightarrow> 'd trbt_tree" where
  "release_node a t = Tree ((tnodes t)(a := None)) (troot t) (tflags t) (tnext t)"

text \<open>
  The part of \<^verbatim>\<open>delete_node\<close> for a node with at most one child.  A node without a child is replaced
  by the black dummy node \<^verbatim>\<open>dc\<close> on the stack while the tree is rebalanced.
\<close>

definition link_child :: "'d trbt_tree \<Rightarrow> ptr \<Rightarrow> ptr \<Rightarrow> 'd trbt_tree option" where
  "link_child t node child =
     do { par \<leftarrow> trbt_parent t node;
          t \<leftarrow> (if par \<noteq> None then
                 do { pl \<leftarrow> field nleft t par;
                      if pl = node then upd t par (set_left child) else upd t par (set_right child) }
               else Some (set_root child t));
          np \<leftarrow> field nparent t node;
          upd t child (set_parent np) }"

definition drop_dummy :: "'d trbt_tree \<Rightarrow> ptr \<Rightarrow> 'd trbt_tree option" where
  "drop_dummy t child =
     do { cp \<leftarrow> field nparent t child;
          if cp = None then Some (set_root None t)
          else do { cl \<leftarrow> field nleft t cp;
                    if child = cl then upd t cp (set_left None) else upd t cp (set_right None) } }"

definition unlink_node :: "'d trbt_tree \<Rightarrow> ptr \<Rightarrow> 'd trbt_tree option" where
  "unlink_node t node =
     do { l \<leftarrow> field nleft t node;
          r \<leftarrow> field nright t node;
          let child = (if r \<noteq> None then r else l);
          let dc = tnext t;
          let dummy = (child = None);
          let child = (if dummy then Some dc else child);
          let t = (if dummy then Tree ((tnodes t)(dc \<mapsto> Node None None None TRBT_BLACK 0 None))
                                   (troot t) (tflags t) (Suc dc) else t);
          t \<leftarrow> link_child t node child;
          nc \<leftarrow> field rb_color t node;
          t \<leftarrow> (if nc = TRBT_BLACK then
                 do { cc \<leftarrow> trbt_get_color t child;
                      if cc = TRBT_RED then upd t child (set_col TRBT_BLACK) else trbt_delete_case1 t child }
               else Some t);
          if dummy then do { t \<leftarrow> drop_dummy t child; Some (release_node dc t) }
          else Some t }"

partial_function (option) trbt_rightmost :: "'d trbt_tree \<Rightarrow> ptr \<Rightarrow> ptr option" where
  "trbt_rightmost t node =
     do { r \<leftarrow> field nright t node; if r \<noteq> None then trbt_rightmost t r else Some node }"

text \<open>
  The node \<^verbatim>\<open>temp\<close> takes the place of the node that is being freed: its key, colour, data and all
  pointers from and to it.
\<close>

definition swap_child :: "'d trbt_tree \<Rightarrow> ptr \<Rightarrow> ptr \<Rightarrow> ptr \<Rightarrow> 'd trbt_tree option" where
  "swap_child t par node temp =
     (if par \<noteq> None then
        do { pl \<leftarrow> field nleft t par;
             if pl = node then upd t par (set_left temp) else upd t par (set_right temp) }
      else Some t)"

definition adopt :: "'d trbt_tree \<Rightarrow> ptr \<Rightarrow> ptr \<Rightarrow> 'd trbt_tree option" where
  "adopt t child temp = (if child \<noteq> None then upd t child (set_parent temp) else Some t)"

definition replace_node :: "'d trbt_tree \<Rightarrow> ptr \<Rightarrow> ptr \<Rightarrow> 'd trbt_tree option" where
  "replace_node t node temp =
     do { k \<leftarrow> field key32 t node; t \<leftarrow> upd t temp (set_key k);
          c \<leftarrow> field rb_color t node; t \<leftarrow> upd t temp (set_col c);
          d \<leftarrow> field ndata t node; t \<leftarrow> upd t temp (set_data d);
          p \<leftarrow> field nparent t node; t \<leftarrow> upd t temp (set_parent p);
          t \<leftarrow> swap_child t p node temp;
          l \<leftarrow> field nleft t node; t \<leftarrow> upd t temp (set_left l);
          t \<leftarrow> adopt t l temp;
          r \<leftarrow> field nright t node; t \<leftarrow> upd t temp (set_right r);
          t \<leftarrow> adopt t r temp;
          Some (if troot t = node then set_root temp t else t) }"

text \<open>
  \<^verbatim>\<open>delete_node(node, true)\<close>, as the destructor calls it.  A node with two children gets the contents
  of its predecessor \<^verbatim>\<open>temp\<close>, which has no right child, so that the recursive call for it only
  unlinks it; then \<^verbatim>\<open>temp\<close> replaces the node.  The flag says whether the tree frees itself.
\<close>

definition node_destructor :: "'d trbt_tree \<Rightarrow> ptr \<Rightarrow> ('d trbt_tree \<times> bool) option" where
  "node_destructor t node =
     do { l \<leftarrow> field nleft t node;
          r \<leftarrow> field nright t node;
          t \<leftarrow> (if l \<noteq> None \<and> r \<noteq> None then
                 do { temp \<leftarrow> trbt_rightmost t l;
                      k \<leftarrow> field key32 t temp;
                      d \<leftarrow> field ndata t temp;
                      t \<leftarrow> upd t node (set_key k);
                      t \<leftarrow> upd t node (set_data d);
                      t \<leftarrow> upd t temp (set_data None);
                      t \<leftarrow> upd t temp (set_key (-1));
                      t \<leftarrow> unlink_node t temp;
                      replace_node t node temp }
               else unlink_node t node);
          Some (t, tflags t AND TRBT_AUTOFREE \<noteq> 0 \<and> troot t = None) }"

text \<open>Freeing the data of the entry for a key frees the node that hangs off it.\<close>

definition trbt_free_data :: "'d trbt_tree \<Rightarrow> u32 \<Rightarrow> ('d trbt_tree \<times> bool) option" where
  "trbt_free_data t key =
     (if troot t = None then Some (t, False)
      else do {
        slot \<leftarrow> trbt_walk t (troot t) key;
        case slot of
          Existing node \<Rightarrow>
            do { (t, autofree) \<leftarrow> node_destructor t node;
                 Some (release_node (the node) t, autofree) }
        | _ \<Rightarrow> Some (t, False) })"

text \<open>
  \<^verbatim>\<open>trbt_delete32\<close> calls \<^verbatim>\<open>delete_node(node, false)\<close>.  There every node that was unlinked, and in the
  case of two children also the node that has just got the contents of its predecessor, is freed
  with \<^verbatim>\<open>talloc_free\<close>, which runs the destructor \<^verbatim>\<open>delete_node(node, true)\<close> once more.  The test of the
  autofree flag that follows in the code reads the node that was just freed; it is left out, so
  the model stands for trees without that flag.
\<close>

definition talloc_free_node :: "'d trbt_tree \<Rightarrow> ptr \<Rightarrow> 'd trbt_tree option" where
  "talloc_free_node t node = do { (t, autofree) \<leftarrow> node_destructor t node; Some (release_node (the node) t) }"

definition delete_node_free :: "'d trbt_tree \<Rightarrow> ptr \<Rightarrow> 'd trbt_tree option" where
  "delete_node_free t node =
     do { l \<leftarrow> field nleft t node;
          r \<leftarrow> field nright t node;
          if l \<noteq> None \<and> r \<noteq> None then
            do { temp \<leftarrow> trbt_rightmost t l;
                 k \<leftarrow> field key32 t temp;
                 d \<leftarrow> field ndata t temp;
                 t \<leftarrow> upd t node (set_key k);
                 t \<leftarrow> upd t node (set_data d);
                 t \<leftarrow> upd t temp (set_data None);
                 t \<leftarrow> upd t temp (set_key (-1));
                 t \<leftarrow> unlink_node t temp;
                 t \<leftarrow> talloc_free_node t temp;
                 talloc_free_node t node }
          else do { t \<leftarrow> unlink_node t node; talloc_free_node t node } }"

definition trbt_delete32 :: "'d trbt_tree \<Rightarrow> u32 \<Rightarrow> 'd trbt_tree option" where
  "trbt_delete32 t key =
     (if troot t = None then Some t
      else do {
        slot \<leftarrow> trbt_walk t (troot t) key;
        case slot of Existing node \<Rightarrow> delete_node_free t node | _ \<Rightarrow> Some t })"

declare trbt_delete_case1.simps [code] trbt_rightmost.simps [code]


text \<open>The entries in order, each with the address of its node.\<close>

fun entries :: "'d rtree \<Rightarrow> (nat \<times> u32 \<times> 'd option) list" where
  "entries E = []"
| "entries (N l a c k d r) = entries l @ (a, k, d) # entries r"

fun entries_l :: "'d frame list \<Rightarrow> (nat \<times> u32 \<times> 'd option) list" where
  "entries_l [] = []"
| "entries_l (LF a c k d r # fs) = entries_l fs"
| "entries_l (RF l a c k d # fs) = entries_l fs @ entries l @ [(a, k, d)]"

fun entries_r :: "'d frame list \<Rightarrow> (nat \<times> u32 \<times> 'd option) list" where
  "entries_r [] = []"
| "entries_r (LF a c k d r # fs) = (a, k, d) # entries r @ entries_r fs"
| "entries_r (RF l a c k d # fs) = entries_r fs"

lemma entries_plug: "entries (plug t fs) = entries_l fs @ entries t @ entries_r fs"
  by (induction t fs rule: plug.induct) auto

lemma inorder_entries: "inorder t = map snd (entries t)"
  by (induction t) auto

lemma addrs_entries: "addrs t = map fst (entries t)"
  by (induction t) auto

section \<open>What the rebalancing reads\<close>

lemma get_color_rep: "tree_at (tnodes h) par t \<Longrightarrow> trbt_get_color h (rootp t) = Some (col t)"
  by (cases t) (auto simp: trbt_get_color_def field_Some)

lemma get_color_children:
  assumes "tree_at (tnodes h) par (N l b c k d r)"
  shows "trbt_get_color_left h (Some b) = Some (col l)" "trbt_get_color_right h (Some b) = Some (col r)"
  using assms get_color_rep [of h "Some b" l] get_color_rep [of h "Some b" r]
  by (cases l; cases r; auto simp: trbt_get_color_left_def trbt_get_color_right_def trbt_get_color_def field_Some)+

lemma set_color_Some [simp]: "trbt_set_color h (Some b) c = upd h (Some b) (set_col c)"
  by (simp add: trbt_set_color_def)

text \<open>The position of a black node with its parent and sibling, on either side.\<close>

lemma position_left:
  assumes "rep h x (LF p c kp dp (N sl b sc sk sd sr) # fs)" "rootp x = Some a"
  shows "field nparent h (Some a) = Some (Some p)" "trbt_sibling h (Some a) = Some (Some b)"
    "field nleft h (Some p) = Some (Some a)" "field nright h (Some p) = Some (Some b)"
    "field rb_color h (Some p) = Some c" "trbt_get_color h (Some p) = Some c"
    "trbt_get_color h (Some b) = Some sc" "trbt_get_color_left h (Some b) = Some (col sl)"
    "trbt_get_color_right h (Some b) = Some (col sr)" "Some a \<noteq> Some b"
proof -
  from assms(2) obtain l ca k d r where x: "x = N l a ca k d r" by (cases x) auto
  have at: "tree_at (tnodes h) (Some p) (N sl b sc sk sd sr)" using assms(1) by (simp add: rep_def)
  note get_color_children [OF at] get_color_rep [OF at]
  moreover have "tnodes h a = Some (Node (Some p) (rootp l) (rootp r) ca k d)"
    "tnodes h p = Some (Node (parentp fs) (Some a) (Some b) c kp dp)" "a \<noteq> b"
    using assms(1) by (auto simp: rep_def x)
  ultimately show "field nparent h (Some a) = Some (Some p)" "trbt_sibling h (Some a) = Some (Some b)"
    "field nleft h (Some p) = Some (Some a)" "field nright h (Some p) = Some (Some b)"
    "field rb_color h (Some p) = Some c" "trbt_get_color h (Some p) = Some c"
    "trbt_get_color h (Some b) = Some sc" "trbt_get_color_left h (Some b) = Some (col sl)"
    "trbt_get_color_right h (Some b) = Some (col sr)" "Some a \<noteq> Some b"
    by (simp_all add: trbt_sibling_def trbt_parent_def trbt_get_color_def field_Some)
qed

lemma position_right:
  assumes "rep h x (RF (N sl b sc sk sd sr) p c kp dp # fs)" "rootp x = Some a"
  shows "field nparent h (Some a) = Some (Some p)" "trbt_sibling h (Some a) = Some (Some b)"
    "field nleft h (Some p) = Some (Some b)" "field nright h (Some p) = Some (Some a)"
    "field rb_color h (Some p) = Some c" "trbt_get_color h (Some p) = Some c"
    "trbt_get_color h (Some b) = Some sc" "trbt_get_color_left h (Some b) = Some (col sl)"
    "trbt_get_color_right h (Some b) = Some (col sr)" "Some a \<noteq> Some b"
proof -
  from assms(2) obtain l ca k d r where x: "x = N l a ca k d r" by (cases x) auto
  have at: "tree_at (tnodes h) (Some p) (N sl b sc sk sd sr)" using assms(1) by (simp add: rep_def)
  note get_color_children [OF at] get_color_rep [OF at]
  moreover have "tnodes h a = Some (Node (Some p) (rootp l) (rootp r) ca k d)"
    "tnodes h p = Some (Node (parentp fs) (Some b) (Some a) c kp dp)" "a \<noteq> b"
    using assms(1) by (auto simp: rep_def x)
  ultimately show "field nparent h (Some a) = Some (Some p)" "trbt_sibling h (Some a) = Some (Some b)"
    "field nleft h (Some p) = Some (Some b)" "field nright h (Some p) = Some (Some a)"
    "field rb_color h (Some p) = Some c" "trbt_get_color h (Some p) = Some c"
    "trbt_get_color h (Some b) = Some sc" "trbt_get_color_left h (Some b) = Some (col sl)"
    "trbt_get_color_right h (Some b) = Some (col sr)" "Some a \<noteq> Some b"
    by (simp_all add: trbt_sibling_def trbt_parent_def trbt_get_color_def field_Some)
qed

section \<open>Colour changes around the position\<close>

lemmas rep_up = rep_left [symmetric] rep_right [symmetric]

lemma color_sibling_left:
  assumes "rep h x (LF p c kp dp (N sl b sc sk sd sr) # fs)"
  shows "\<exists>h'. upd h (Some b) (set_col c') = Some h' \<and> frame_eq h h' \<and> rep h' x (LF p c kp dp (N sl b c' sk sd sr) # fs)"
proof -
  have "rep h (N sl b sc sk sd sr) (RF x p c kp dp # fs)" using assms by (simp add: rep_up)
  from set_col_rep [OF this, of c'] show ?thesis by (simp add: rep_up)
qed

lemma color_sibling_right:
  assumes "rep h x (RF (N sl b sc sk sd sr) p c kp dp # fs)"
  shows "\<exists>h'. upd h (Some b) (set_col c') = Some h' \<and> frame_eq h h' \<and> rep h' x (RF (N sl b c' sk sd sr) p c kp dp # fs)"
proof -
  have "rep h (N sl b sc sk sd sr) (LF p c kp dp x # fs)" using assms by (simp add: rep_up)
  from set_col_rep [OF this, of c'] show ?thesis by (simp add: rep_up)
qed

lemma color_parent_left:
  assumes "rep h x (LF p c kp dp s # fs)"
  shows "\<exists>h'. upd h (Some p) (set_col c') = Some h' \<and> frame_eq h h' \<and> rep h' x (LF p c' kp dp s # fs)"
  using set_col_rep [of h x p c kp dp s fs c'] assms by (simp add: rep_up)

lemma color_parent_right:
  assumes "rep h x (RF s p c kp dp # fs)"
  shows "\<exists>h'. upd h (Some p) (set_col c') = Some h' \<and> frame_eq h h' \<and> rep h' x (RF s p c' kp dp # fs)"
  using set_col_rep [of h s p c kp dp x fs c'] assms by (simp add: rep_up)

text \<open>Painting a child of the sibling black, whether it exists or not.\<close>

fun paint :: "color \<Rightarrow> 'd rtree \<Rightarrow> 'd rtree" where
  "paint c E = E"
| "paint c (N l a c' k d r) = N l a c k d r"

lemma paint_simps [simp]:
  "invh (paint c t) = invh t" "entries (paint c t) = entries t" "rootp (paint c t) = rootp t"
  "invc t \<Longrightarrow> invc (paint TRBT_BLACK t)" "col (paint TRBT_BLACK t) = TRBT_BLACK"
  by (cases t; simp)+

lemma bheight_paint_black: "col t = TRBT_RED \<Longrightarrow> bheight (paint TRBT_BLACK t) = Suc (bheight t)"
  by (cases t) auto

lemma paint_right_rep:
  assumes "rep h (N sl b sc sk sd sr) fs"
  shows "\<exists>h'. trbt_set_color_right h (Some b) TRBT_BLACK = Some h' \<and> frame_eq h h' \<and>
    rep h' (N sl b sc sk sd (paint TRBT_BLACK sr)) fs"
proof (cases sr)
  case E
  with assms show ?thesis by (auto simp: trbt_set_color_right_def rep_def field_Some frame_eq_def)
next
  case (N l e ec ek ed r)
  then have "rep h (N l e ec ek ed r) (RF sl b sc sk sd # fs)" using assms by (simp add: rep_up)
  from set_col_rep [OF this, of TRBT_BLACK] N assms show ?thesis
    by (auto simp: trbt_set_color_right_def rep_node [OF assms] field_Some rep_up)
qed

lemma paint_left_rep:
  assumes "rep h (N sl b sc sk sd sr) fs"
  shows "\<exists>h'. trbt_set_color_left h (Some b) TRBT_BLACK = Some h' \<and> frame_eq h h' \<and>
    rep h' (N (paint TRBT_BLACK sl) b sc sk sd sr) fs"
proof (cases sl)
  case E
  with assms show ?thesis by (auto simp: trbt_set_color_left_def rep_def field_Some frame_eq_def)
next
  case (N l e ec ek ed r)
  then have "rep h (N l e ec ek ed r) (LF b sc sk sd sr # fs)" using assms by (simp add: rep_up)
  from set_col_rep [OF this, of TRBT_BLACK] N assms show ?thesis
    by (auto simp: trbt_set_color_left_def rep_node [OF assms] field_Some rep_up)
qed

section \<open>The cases\<close>

text \<open>
  The subtree \<open>x\<close> with the black node on top stays as it is; only the context above it changes,
  to one that fits a subtree of black height \<open>n\<close>.
\<close>

definition rebalanced ::
    "'d trbt_tree \<Rightarrow> 'd trbt_tree option \<Rightarrow> 'd rtree \<Rightarrow> nat \<Rightarrow> 'd frame list \<Rightarrow> bool" where
  "rebalanced h res x n fs \<longleftrightarrow>
     (\<exists>h' fs'. res = Some h' \<and> frame_eq h h' \<and> rep h' x fs' \<and> cinv n fs' \<and>
        entries_l fs' = entries_l fs \<and> entries_r fs' = entries_r fs)"

lemma rebalancedI:
  "res = Some h' \<Longrightarrow> frame_eq h h' \<Longrightarrow> rep h' x fs' \<Longrightarrow> cinv n fs' \<Longrightarrow> entries_l fs' = entries_l fs \<Longrightarrow>
     entries_r fs' = entries_r fs \<Longrightarrow> rebalanced h res x n fs"
  unfolding rebalanced_def by blast

lemma rebalanced_step:
  "rebalanced h1 res x n fs1 \<Longrightarrow> frame_eq h h1 \<Longrightarrow> entries_l fs1 = entries_l fs \<Longrightarrow> entries_r fs1 = entries_r fs \<Longrightarrow>
     rebalanced h res x n fs"
  unfolding rebalanced_def by (metis frame_eq_trans)

lemma delete_case6_left:
  assumes rep: "rep h x (LF p c kp dp (N sl b TRBT_BLACK sk sd sr) # fs)" and x: "rootp x = Some a"
    and inv: "cinv (Suc n) (LF p c kp dp (N sl b TRBT_BLACK sk sd sr) # fs)" and red: "col sr = TRBT_RED"
  shows "rebalanced h (trbt_delete_case6 h (Some a)) x n (LF p c kp dp (N sl b TRBT_BLACK sk sd sr) # fs)"
proof -
  note P = position_left [OF rep x]
  from color_sibling_left [OF rep, of c] obtain h1 where h1: "upd h (Some b) (set_col c) = Some h1" "frame_eq h h1"
    "rep h1 x (LF p c kp dp (N sl b c sk sd sr) # fs)" by blast
  from color_parent_left [OF h1(3), of TRBT_BLACK] obtain h2 where h2: "upd h1 (Some p) (set_col TRBT_BLACK) = Some h2"
    "frame_eq h1 h2" "rep h2 x (LF p TRBT_BLACK kp dp (N sl b c sk sd sr) # fs)" by blast
  from h2(3) have "rep h2 (N sl b c sk sd sr) (RF x p TRBT_BLACK kp dp # fs)" by (simp add: rep_up)
  from paint_right_rep [OF this] obtain h3 where h3: "trbt_set_color_right h2 (Some b) TRBT_BLACK = Some h3"
    "frame_eq h2 h3" "rep h3 (N x p TRBT_BLACK kp dp (N sl b c sk sd (paint TRBT_BLACK sr))) fs" by (auto simp: rep_up)
  from rotate_left_rep [OF h3(3)] obtain h4 where h4: "trbt_rotate_left h3 (Some p) = Some h4" "frame_eq h3 h4"
    "rep h4 x (LF p TRBT_BLACK kp dp sl # LF b c sk sd (paint TRBT_BLACK sr) # fs)" by (auto simp: rep_up)
  have "trbt_delete_case6 h (Some a) = Some h4"
    using P position_left(3) [OF h2(3) x] h1 h2 h3 h4 by (simp add: trbt_delete_case6_def trbt_parent_def)
  moreover have "frame_eq h h4" using h1 h2 h3 h4 by (blast intro: frame_eq_trans)
  moreover have "cinv n (LF p TRBT_BLACK kp dp sl # LF b c sk sd (paint TRBT_BLACK sr) # fs)"
    using inv red bheight_paint_black [OF red] by auto
  ultimately show ?thesis by (intro rebalancedI [OF _ _ h4(3)]) simp_all
qed


lemma delete_case6_right:
  assumes rep: "rep h x (RF (N sl b TRBT_BLACK sk sd sr) p c kp dp # fs)" and x: "rootp x = Some a"
    and inv: "cinv (Suc n) (RF (N sl b TRBT_BLACK sk sd sr) p c kp dp # fs)" and red: "col sl = TRBT_RED"
  shows "rebalanced h (trbt_delete_case6 h (Some a)) x n (RF (N sl b TRBT_BLACK sk sd sr) p c kp dp # fs)"
proof -
  note P = position_right [OF rep x]
  from color_sibling_right [OF rep, of c] obtain h1 where h1: "upd h (Some b) (set_col c) = Some h1" "frame_eq h h1"
    "rep h1 x (RF (N sl b c sk sd sr) p c kp dp # fs)" by blast
  from color_parent_right [OF h1(3), of TRBT_BLACK] obtain h2 where h2: "upd h1 (Some p) (set_col TRBT_BLACK) = Some h2"
    "frame_eq h1 h2" "rep h2 x (RF (N sl b c sk sd sr) p TRBT_BLACK kp dp # fs)" by blast
  from h2(3) have "rep h2 (N sl b c sk sd sr) (LF p TRBT_BLACK kp dp x # fs)" by (simp add: rep_up)
  from paint_left_rep [OF this] obtain h3 where h3: "trbt_set_color_left h2 (Some b) TRBT_BLACK = Some h3"
    "frame_eq h2 h3" "rep h3 (N (N (paint TRBT_BLACK sl) b c sk sd sr) p TRBT_BLACK kp dp x) fs" by (auto simp: rep_up)
  from rotate_right_rep [OF h3(3)] obtain h4 where h4: "trbt_rotate_right h3 (Some p) = Some h4" "frame_eq h3 h4"
    "rep h4 x (RF sr p TRBT_BLACK kp dp # RF (paint TRBT_BLACK sl) b c sk sd # fs)" by (auto simp: rep_up)
  have "trbt_delete_case6 h (Some a) = Some h4"
    using P position_right(3) [OF h2(3) x] h1 h2 h3 h4 by (simp add: trbt_delete_case6_def trbt_parent_def)
  moreover have "frame_eq h h4" using h1 h2 h3 h4 by (blast intro: frame_eq_trans)
  moreover have "cinv n (RF sr p TRBT_BLACK kp dp # RF (paint TRBT_BLACK sl) b c sk sd # fs)"
    using inv red bheight_paint_black [OF red] by auto
  ultimately show ?thesis by (intro rebalancedI [OF _ _ h4(3)]) simp_all
qed

lemma delete_case5_left:
  assumes rep: "rep h x (LF p c kp dp (N sl b TRBT_BLACK sk sd sr) # fs)" and x: "rootp x = Some a"
    and inv: "cinv (Suc n) (LF p c kp dp (N sl b TRBT_BLACK sk sd sr) # fs)" and red: "col sl = TRBT_RED \<or> col sr = TRBT_RED"
  shows "rebalanced h (trbt_delete_case5 h (Some a)) x n (LF p c kp dp (N sl b TRBT_BLACK sk sd sr) # fs)"
proof (cases "col sr")
  case TRBT_RED
  then have "trbt_delete_case5 h (Some a) = trbt_delete_case6 h (Some a)"
    using position_left [OF rep x] by (simp add: trbt_delete_case5_def trbt_parent_def)
  with delete_case6_left [OF rep x inv TRBT_RED] show ?thesis by simp
next
  case TRBT_BLACK
  with red obtain sll e ek ed slr where sl: "sl = N sll e TRBT_RED ek ed slr" by (cases sl) auto
  note P = position_left [OF rep x]
  from color_sibling_left [OF rep, of TRBT_RED] obtain h1 where h1: "upd h (Some b) (set_col TRBT_RED) = Some h1"
    "frame_eq h h1" "rep h1 (N sl b TRBT_RED sk sd sr) (RF x p c kp dp # fs)" by (auto simp: rep_up)
  from paint_left_rep [OF h1(3)] obtain h2 where h2: "trbt_set_color_left h1 (Some b) TRBT_BLACK = Some h2"
    "frame_eq h1 h2" "rep h2 (N (N sll e TRBT_BLACK ek ed slr) b TRBT_RED sk sd sr) (RF x p c kp dp # fs)" by (auto simp: sl)
  let ?fs = "LF p c kp dp (N sll e TRBT_BLACK ek ed (N slr b TRBT_RED sk sd sr)) # fs"
  from rotate_right_rep [OF h2(3)] obtain h3 where h3: "trbt_rotate_right h2 (Some b) = Some h3" "frame_eq h2 h3"
    "rep h3 x ?fs" by (auto simp: rep_up)
  have step: "trbt_delete_case5 h (Some a) = trbt_delete_case6 h3 (Some a)"
    using P h1 h2 h3 sl TRBT_BLACK by (simp add: trbt_delete_case5_def trbt_parent_def)
  have "cinv (Suc n) ?fs" using inv TRBT_BLACK by (auto simp: sl)
  from delete_case6_left [OF h3(3) x this] have "rebalanced h3 (trbt_delete_case6 h3 (Some a)) x n ?fs" by simp
  then show ?thesis unfolding step
    by (rule rebalanced_step) (use h1 h2 h3 in \<open>auto intro: frame_eq_trans simp: sl\<close>)
qed

lemma delete_case5_right:
  assumes rep: "rep h x (RF (N sl b TRBT_BLACK sk sd sr) p c kp dp # fs)" and x: "rootp x = Some a"
    and inv: "cinv (Suc n) (RF (N sl b TRBT_BLACK sk sd sr) p c kp dp # fs)" and red: "col sl = TRBT_RED \<or> col sr = TRBT_RED"
  shows "rebalanced h (trbt_delete_case5 h (Some a)) x n (RF (N sl b TRBT_BLACK sk sd sr) p c kp dp # fs)"
proof (cases "col sl")
  case TRBT_RED
  then have "trbt_delete_case5 h (Some a) = trbt_delete_case6 h (Some a)"
    using position_right [OF rep x] by (simp add: trbt_delete_case5_def trbt_parent_def)
  with delete_case6_right [OF rep x inv TRBT_RED] show ?thesis by simp
next
  case TRBT_BLACK
  with red obtain srl e ek ed srr where sr: "sr = N srl e TRBT_RED ek ed srr" by (cases sr) auto
  note P = position_right [OF rep x]
  from color_sibling_right [OF rep, of TRBT_RED] obtain h1 where h1: "upd h (Some b) (set_col TRBT_RED) = Some h1"
    "frame_eq h h1" "rep h1 (N sl b TRBT_RED sk sd sr) (LF p c kp dp x # fs)" by (auto simp: rep_up)
  from paint_right_rep [OF h1(3)] obtain h2 where h2: "trbt_set_color_right h1 (Some b) TRBT_BLACK = Some h2"
    "frame_eq h1 h2" "rep h2 (N sl b TRBT_RED sk sd (N srl e TRBT_BLACK ek ed srr)) (LF p c kp dp x # fs)" by (auto simp: sr)
  let ?fs = "RF (N (N sl b TRBT_RED sk sd srl) e TRBT_BLACK ek ed srr) p c kp dp # fs"
  from rotate_left_rep [OF h2(3)] obtain h3 where h3: "trbt_rotate_left h2 (Some b) = Some h3" "frame_eq h2 h3"
    "rep h3 x ?fs" by (auto simp: rep_up)
  have step: "trbt_delete_case5 h (Some a) = trbt_delete_case6 h3 (Some a)"
    using P h1 h2 h3 sr TRBT_BLACK by (simp add: trbt_delete_case5_def trbt_parent_def)
  have "cinv (Suc n) ?fs" using inv TRBT_BLACK by (auto simp: sr)
  from delete_case6_right [OF h3(3) x this] have "rebalanced h3 (trbt_delete_case6 h3 (Some a)) x n ?fs" by simp
  then show ?thesis unfolding step
    by (rule rebalanced_step) (use h1 h2 h3 in \<open>auto intro: frame_eq_trans simp: sr\<close>)
qed

lemma delete_case4_left:
  assumes rep: "rep h x (LF p c kp dp (N sl b TRBT_BLACK sk sd sr) # fs)" and x: "rootp x = Some a"
    and inv: "cinv (Suc n) (LF p c kp dp (N sl b TRBT_BLACK sk sd sr) # fs)"
    and not3: "c = TRBT_RED \<or> col sl = TRBT_RED \<or> col sr = TRBT_RED"
  shows "rebalanced h (trbt_delete_case4 h (Some a)) x n (LF p c kp dp (N sl b TRBT_BLACK sk sd sr) # fs)"
proof (cases "col sl = TRBT_RED \<or> col sr = TRBT_RED")
  case True
  then have "trbt_delete_case4 h (Some a) = trbt_delete_case5 h (Some a)"
    using position_left [OF rep x] by (auto simp: trbt_delete_case4_def)
  with delete_case5_left [OF rep x inv True] show ?thesis by simp
next
  case False
  then have black: "col sl = TRBT_BLACK" "col sr = TRBT_BLACK" "c = TRBT_RED" using not3 by (auto intro: color.exhaust)
  from color_sibling_left [OF rep, of TRBT_RED] obtain h1 where h1: "upd h (Some b) (set_col TRBT_RED) = Some h1"
    "frame_eq h h1" "rep h1 x (LF p c kp dp (N sl b TRBT_RED sk sd sr) # fs)" by blast
  from color_parent_left [OF h1(3), of TRBT_BLACK] obtain h2 where h2: "upd h1 (Some p) (set_col TRBT_BLACK) = Some h2"
    "frame_eq h1 h2" "rep h2 x (LF p TRBT_BLACK kp dp (N sl b TRBT_RED sk sd sr) # fs)" by blast
  have "trbt_delete_case4 h (Some a) = Some h2"
    using position_left [OF rep x] position_left(1) [OF h1(3) x] h1 h2 black by (simp add: trbt_delete_case4_def)
  moreover have "frame_eq h h2" using h1 h2 by (blast intro: frame_eq_trans)
  moreover have "cinv n (LF p TRBT_BLACK kp dp (N sl b TRBT_RED sk sd sr) # fs)" using inv black by auto
  ultimately show ?thesis by (intro rebalancedI [OF _ _ h2(3)]) simp_all
qed

lemma delete_case4_right:
  assumes rep: "rep h x (RF (N sl b TRBT_BLACK sk sd sr) p c kp dp # fs)" and x: "rootp x = Some a"
    and inv: "cinv (Suc n) (RF (N sl b TRBT_BLACK sk sd sr) p c kp dp # fs)"
    and not3: "c = TRBT_RED \<or> col sl = TRBT_RED \<or> col sr = TRBT_RED"
  shows "rebalanced h (trbt_delete_case4 h (Some a)) x n (RF (N sl b TRBT_BLACK sk sd sr) p c kp dp # fs)"
proof (cases "col sl = TRBT_RED \<or> col sr = TRBT_RED")
  case True
  then have "trbt_delete_case4 h (Some a) = trbt_delete_case5 h (Some a)"
    using position_right [OF rep x] by (auto simp: trbt_delete_case4_def)
  with delete_case5_right [OF rep x inv True] show ?thesis by simp
next
  case False
  then have black: "col sl = TRBT_BLACK" "col sr = TRBT_BLACK" "c = TRBT_RED" using not3 by (auto intro: color.exhaust)
  from color_sibling_right [OF rep, of TRBT_RED] obtain h1 where h1: "upd h (Some b) (set_col TRBT_RED) = Some h1"
    "frame_eq h h1" "rep h1 x (RF (N sl b TRBT_RED sk sd sr) p c kp dp # fs)" by blast
  from color_parent_right [OF h1(3), of TRBT_BLACK] obtain h2 where h2: "upd h1 (Some p) (set_col TRBT_BLACK) = Some h2"
    "frame_eq h1 h2" "rep h2 x (RF (N sl b TRBT_RED sk sd sr) p TRBT_BLACK kp dp # fs)" by blast
  have "trbt_delete_case4 h (Some a) = Some h2"
    using position_right [OF rep x] position_right(1) [OF h1(3) x] h1 h2 black by (simp add: trbt_delete_case4_def)
  moreover have "frame_eq h h2" using h1 h2 by (blast intro: frame_eq_trans)
  moreover have "cinv n (RF (N sl b TRBT_RED sk sd sr) p TRBT_BLACK kp dp # fs)" using inv black by auto
  ultimately show ?thesis by (intro rebalancedI [OF _ _ h2(3)]) simp_all
qed


lemma case2_red_left:
  assumes rep: "rep h x (LF p c kp dp (N sl b TRBT_RED sk sd sr) # fs)" and x: "rootp x = Some a"
  shows "\<exists>h'. trbt_delete_case2_rotate h (Some a) = Some h' \<and> frame_eq h h' \<and>
    rep h' x (LF p TRBT_RED kp dp sl # LF b TRBT_BLACK sk sd sr # fs)"
proof -
  from color_parent_left [OF rep, of TRBT_RED] obtain h1 where h1: "upd h (Some p) (set_col TRBT_RED) = Some h1"
    "frame_eq h h1" "rep h1 x (LF p TRBT_RED kp dp (N sl b TRBT_RED sk sd sr) # fs)" by blast
  from color_sibling_left [OF h1(3), of TRBT_BLACK] obtain h2 where h2: "upd h1 (Some b) (set_col TRBT_BLACK) = Some h2"
    "frame_eq h1 h2" "rep h2 x (LF p TRBT_RED kp dp (N sl b TRBT_BLACK sk sd sr) # fs)" by blast
  from h2(3) have "rep h2 (N x p TRBT_RED kp dp (N sl b TRBT_BLACK sk sd sr)) fs" by (simp add: rep_up)
  from rotate_left_rep [OF this] obtain h3 where h3: "trbt_rotate_left h2 (Some p) = Some h3" "frame_eq h2 h3"
    "rep h3 x (LF p TRBT_RED kp dp sl # LF b TRBT_BLACK sk sd sr # fs)" by (auto simp: rep_up)
  have "trbt_delete_case2_rotate h (Some a) = Some h3"
    using position_left [OF rep x] position_left(1,3) [OF h2(3) x] h1 h2 h3 by (simp add: trbt_delete_case2_rotate_def)
  moreover have "frame_eq h h3" using h1 h2 h3 by (blast intro: frame_eq_trans)
  ultimately show ?thesis using h3 by blast
qed

lemma case2_red_right:
  assumes rep: "rep h x (RF (N sl b TRBT_RED sk sd sr) p c kp dp # fs)" and x: "rootp x = Some a"
  shows "\<exists>h'. trbt_delete_case2_rotate h (Some a) = Some h' \<and> frame_eq h h' \<and>
    rep h' x (RF sr p TRBT_RED kp dp # RF sl b TRBT_BLACK sk sd # fs)"
proof -
  from color_parent_right [OF rep, of TRBT_RED] obtain h1 where h1: "upd h (Some p) (set_col TRBT_RED) = Some h1"
    "frame_eq h h1" "rep h1 x (RF (N sl b TRBT_RED sk sd sr) p TRBT_RED kp dp # fs)" by blast
  from color_sibling_right [OF h1(3), of TRBT_BLACK] obtain h2 where h2: "upd h1 (Some b) (set_col TRBT_BLACK) = Some h2"
    "frame_eq h1 h2" "rep h2 x (RF (N sl b TRBT_BLACK sk sd sr) p TRBT_RED kp dp # fs)" by blast
  from h2(3) have "rep h2 (N (N sl b TRBT_BLACK sk sd sr) p TRBT_RED kp dp x) fs" by (simp add: rep_up)
  from rotate_right_rep [OF this] obtain h3 where h3: "trbt_rotate_right h2 (Some p) = Some h3" "frame_eq h2 h3"
    "rep h3 x (RF sr p TRBT_RED kp dp # RF sl b TRBT_BLACK sk sd # fs)" by (auto simp: rep_up)
  have "trbt_delete_case2_rotate h (Some a) = Some h3"
    using position_right [OF rep x] position_right(1,3) [OF h2(3) x] h1 h2 h3 by (simp add: trbt_delete_case2_rotate_def)
  moreover have "frame_eq h h3" using h1 h2 h3 by (blast intro: frame_eq_trans)
  ultimately show ?thesis using h3 by blast
qed

lemma bheight_pos: "bheight t = Suc n \<Longrightarrow> \<exists>l a c k d r. t = N l a c k d r"
  by (cases t) auto

text \<open>The step at a left or right frame, given the result for the frames above.\<close>

lemma case1_left:
  assumes rep: "rep h x (LF p c kp dp s # gs)" and x: "rootp x = Some a" and inv: "cinv (Suc n) (LF p c kp dp s # gs)"
    and IH: "\<And>h1 x1. rep h1 x1 gs \<Longrightarrow> rootp x1 = Some p \<Longrightarrow> cinv (Suc (Suc n)) gs \<Longrightarrow>
      rebalanced h1 (trbt_delete_case1 h1 (Some p)) x1 (Suc n) gs"
  shows "rebalanced h (trbt_delete_case1 h (Some a)) x n (LF p c kp dp s # gs)"
proof -
  from inv bheight_pos [of s n] obtain sl b sc sk sd sr where s: "s = N sl b sc sk sd sr" by auto
  note rep = rep [unfolded s] and inv = inv [unfolded s]
  note P = position_left [OF rep x]
  show ?thesis
  proof (cases sc)
    case TRBT_RED
    note rep = rep [unfolded TRBT_RED] and inv = inv [unfolded TRBT_RED]
    from case2_red_left [OF rep x] obtain h1 where h1: "trbt_delete_case2_rotate h (Some a) = Some h1" "frame_eq h h1"
      "rep h1 x (LF p TRBT_RED kp dp sl # LF b TRBT_BLACK sk sd sr # gs)" by blast
    from inv bheight_pos [of sl n] obtain sll e ek ed slr where sl: "sl = N sll e TRBT_BLACK ek ed slr" by fastforce
    have "c = TRBT_BLACK" using inv by (cases c) auto
    then have inv1: "cinv (Suc n) (LF p TRBT_RED kp dp sl # LF b TRBT_BLACK sk sd sr # gs)" using inv by auto
    have "trbt_delete_case1 h (Some a) = trbt_delete_case4 h1 (Some a)"
      by (subst trbt_delete_case1.simps) (use P h1(1) position_left [OF h1(3) [unfolded sl] x] in simp)
    moreover have "rebalanced h1 (trbt_delete_case4 h1 (Some a)) x n (LF p TRBT_RED kp dp sl # LF b TRBT_BLACK sk sd sr # gs)"
      unfolding sl by (rule delete_case4_left [OF h1(3) [unfolded sl] x inv1 [unfolded sl]]) simp
    ultimately show ?thesis using h1(2) by (auto simp: s elim!: rebalanced_step)
  next
    case TRBT_BLACK
    note rep = rep [unfolded TRBT_BLACK] and inv = inv [unfolded TRBT_BLACK]
    have same: "trbt_delete_case2_rotate h (Some a) = Some h"
      using P TRBT_BLACK by (simp add: trbt_delete_case2_rotate_def)
    show ?thesis
    proof (cases "c = TRBT_BLACK \<and> col sl = TRBT_BLACK \<and> col sr = TRBT_BLACK")
      case True
      from color_sibling_left [OF rep, of TRBT_RED] obtain h1 where h1: "upd h (Some b) (set_col TRBT_RED) = Some h1"
        "frame_eq h h1" "rep h1 x (LF p c kp dp (N sl b TRBT_RED sk sd sr) # gs)" by blast
      let ?x = "N x p c kp dp (N sl b TRBT_RED sk sd sr)"
      have step: "trbt_delete_case1 h (Some a) = trbt_delete_case1 h1 (Some p)"
        by (subst trbt_delete_case1.simps) (use P same h1(1) position_left(1) [OF h1(3) x] True TRBT_BLACK in simp)
      have "rebalanced h1 (trbt_delete_case1 h1 (Some p)) ?x (Suc n) gs"
        using IH [of h1 ?x] h1(3) inv True by (simp add: rep_up)
      then obtain h' gs' where h': "trbt_delete_case1 h1 (Some p) = Some h'" "frame_eq h1 h'" "rep h' ?x gs'"
        "cinv (Suc n) gs'" "entries_l gs' = entries_l gs" "entries_r gs' = entries_r gs"
        by (auto simp: rebalanced_def)
      from h'(3) have r: "rep h' x (LF p c kp dp (N sl b TRBT_RED sk sd sr) # gs')" by (simp add: rep_up)
      show ?thesis
        by (rule rebalancedI [OF _ _ r]) (use step h' h1(2) inv True in \<open>auto intro: frame_eq_trans simp: s\<close>)
    next
      case False
      then have "trbt_delete_case1 h (Some a) = trbt_delete_case4 h (Some a)"
        by (subst trbt_delete_case1.simps) (use P same TRBT_BLACK in auto)
      moreover have "c = TRBT_RED \<or> col sl = TRBT_RED \<or> col sr = TRBT_RED" using False by (auto intro: color.exhaust)
      from delete_case4_left [OF rep x inv this] have
        "rebalanced h (trbt_delete_case4 h (Some a)) x n (LF p c kp dp (N sl b TRBT_BLACK sk sd sr) # gs)" .
      ultimately show ?thesis by (simp add: s TRBT_BLACK)
    qed
  qed
qed

lemma case1_right:
  assumes rep: "rep h x (RF s p c kp dp # gs)" and x: "rootp x = Some a" and inv: "cinv (Suc n) (RF s p c kp dp # gs)"
    and IH: "\<And>h1 x1. rep h1 x1 gs \<Longrightarrow> rootp x1 = Some p \<Longrightarrow> cinv (Suc (Suc n)) gs \<Longrightarrow>
      rebalanced h1 (trbt_delete_case1 h1 (Some p)) x1 (Suc n) gs"
  shows "rebalanced h (trbt_delete_case1 h (Some a)) x n (RF s p c kp dp # gs)"
proof -
  from inv bheight_pos [of s n] obtain sl b sc sk sd sr where s: "s = N sl b sc sk sd sr" by auto
  note rep = rep [unfolded s] and inv = inv [unfolded s]
  note P = position_right [OF rep x]
  show ?thesis
  proof (cases sc)
    case TRBT_RED
    note rep = rep [unfolded TRBT_RED] and inv = inv [unfolded TRBT_RED]
    from case2_red_right [OF rep x] obtain h1 where h1: "trbt_delete_case2_rotate h (Some a) = Some h1" "frame_eq h h1"
      "rep h1 x (RF sr p TRBT_RED kp dp # RF sl b TRBT_BLACK sk sd # gs)" by blast
    from inv bheight_pos [of sr n] obtain srl e ek ed srr where sr: "sr = N srl e TRBT_BLACK ek ed srr" by fastforce
    have "c = TRBT_BLACK" using inv by (cases c) auto
    then have inv1: "cinv (Suc n) (RF sr p TRBT_RED kp dp # RF sl b TRBT_BLACK sk sd # gs)" using inv by auto
    have "trbt_delete_case1 h (Some a) = trbt_delete_case4 h1 (Some a)"
      by (subst trbt_delete_case1.simps) (use P h1(1) position_right [OF h1(3) [unfolded sr] x] in simp)
    moreover have "rebalanced h1 (trbt_delete_case4 h1 (Some a)) x n (RF sr p TRBT_RED kp dp # RF sl b TRBT_BLACK sk sd # gs)"
      unfolding sr by (rule delete_case4_right [OF h1(3) [unfolded sr] x inv1 [unfolded sr]]) simp
    ultimately show ?thesis using h1(2) by (auto simp: s elim!: rebalanced_step)
  next
    case TRBT_BLACK
    note rep = rep [unfolded TRBT_BLACK] and inv = inv [unfolded TRBT_BLACK]
    have same: "trbt_delete_case2_rotate h (Some a) = Some h"
      using P TRBT_BLACK by (simp add: trbt_delete_case2_rotate_def)
    show ?thesis
    proof (cases "c = TRBT_BLACK \<and> col sl = TRBT_BLACK \<and> col sr = TRBT_BLACK")
      case True
      from color_sibling_right [OF rep, of TRBT_RED] obtain h1 where h1: "upd h (Some b) (set_col TRBT_RED) = Some h1"
        "frame_eq h h1" "rep h1 x (RF (N sl b TRBT_RED sk sd sr) p c kp dp # gs)" by blast
      let ?x = "N (N sl b TRBT_RED sk sd sr) p c kp dp x"
      have step: "trbt_delete_case1 h (Some a) = trbt_delete_case1 h1 (Some p)"
        by (subst trbt_delete_case1.simps) (use P same h1(1) position_right(1) [OF h1(3) x] True TRBT_BLACK in simp)
      have "rebalanced h1 (trbt_delete_case1 h1 (Some p)) ?x (Suc n) gs"
        using IH [of h1 ?x] h1(3) inv True by (simp add: rep_up)
      then obtain h' gs' where h': "trbt_delete_case1 h1 (Some p) = Some h'" "frame_eq h1 h'" "rep h' ?x gs'"
        "cinv (Suc n) gs'" "entries_l gs' = entries_l gs" "entries_r gs' = entries_r gs"
        by (auto simp: rebalanced_def)
      from h'(3) have r: "rep h' x (RF (N sl b TRBT_RED sk sd sr) p c kp dp # gs')" by (simp add: rep_up)
      show ?thesis
        by (rule rebalancedI [OF _ _ r]) (use step h' h1(2) inv True in \<open>auto intro: frame_eq_trans simp: s\<close>)
    next
      case False
      then have "trbt_delete_case1 h (Some a) = trbt_delete_case4 h (Some a)"
        by (subst trbt_delete_case1.simps) (use P same TRBT_BLACK in auto)
      moreover have "c = TRBT_RED \<or> col sl = TRBT_RED \<or> col sr = TRBT_RED" using False by (auto intro: color.exhaust)
      from delete_case4_right [OF rep x inv this] have
        "rebalanced h (trbt_delete_case4 h (Some a)) x n (RF (N sl b TRBT_BLACK sk sd sr) p c kp dp # gs)" .
      ultimately show ?thesis by (simp add: s TRBT_BLACK)
    qed
  qed
qed

lemma delete_case1_rep:
  "rep h x fs \<Longrightarrow> rootp x = Some a \<Longrightarrow> cinv (Suc n) fs \<Longrightarrow> rebalanced h (trbt_delete_case1 h (Some a)) x n fs"
proof (induction fs arbitrary: h x a n)
  case Nil
  then obtain l ca k d r where x: "x = N l a ca k d r" by (cases x) auto
  then have "trbt_delete_case1 h (Some a) = Some h"
    using Nil by (subst trbt_delete_case1.simps) (simp add: rep_def field_Some)
  then show ?case by (rule rebalancedI) (use Nil in \<open>auto simp: frame_eq_def\<close>)
next
  case (Cons f gs)
  show ?case
  proof (cases f)
    case (LF p c kp dp s)
    show ?thesis using case1_left Cons unfolding LF by blast
  next
    case (RF s p c kp dp)
    show ?thesis using case1_right Cons unfolding RF by blast
  qed
qed

section \<open>Unlinking a node\<close>

lemma rep_release:
  "rep h t fs \<Longrightarrow> a \<notin> set (addrs t @ faddrs fs) \<Longrightarrow> rep (release_node a h) t fs"
  by (simp add: rep_def release_node_def)

lemma link_child_rep:
  assumes "rep h (N l a c k d r) fs" "y = N yl b yc yk yd yr" "tree_at (tnodes h) q y"
    "distinct (addrs y @ faddrs fs)" "a \<notin> set (addrs y)" "\<forall>z \<in> set (addrs y). z < tnext h"
  shows "\<exists>h'. link_child h (Some a) (Some b) = Some h' \<and> frame_eq h h' \<and> rep h' y fs \<and> tnodes h' a = tnodes h a"
  using assms
  by (cases fs rule: parentp.cases)
    (auto simp: rep_def link_child_def trbt_parent_def heap_simps frame_eq_def insert_absorb domI dest: rootp_eq_Some)

lemma drop_dummy_rep:
  assumes "rep h (N E b c k d E) fs"
  shows "\<exists>h'. drop_dummy h (Some b) = Some h' \<and> frame_eq h h' \<and> rep h' E fs \<and> b \<notin> set (faddrs fs)"
  using assms
  by (cases fs rule: parentp.cases)
    (auto simp: rep_def drop_dummy_def heap_simps frame_eq_def insert_absorb domI dest: rootp_eq_Some rootp_eq_Some [OF sym])

definition unlinked :: "'d trbt_tree \<Rightarrow> 'd trbt_tree option \<Rightarrow> (nat \<times> u32 \<times> 'd option) list \<Rightarrow> bool" where
  "unlinked h res xs \<longleftrightarrow>
     (\<exists>h' t. res = Some h' \<and> tflags h' = tflags h \<and> tnext h \<le> tnext h' \<and>
        (\<forall>b < tnext h. b \<in> dom (tnodes h') \<longleftrightarrow> b \<in> dom (tnodes h)) \<and>
        rep h' t [] \<and> rb t \<and> entries t = xs)"

lemma unlink_leaf:
  assumes rep: "rep h (N E a c k d E) fs" and rb: "rb (plug (N E a c k d E) fs)"
  shows "unlinked h (unlink_node h (Some a)) (entries_l fs @ entries_r fs)"
proof -
  define dc where "dc = tnext h"
  define h0 where "h0 = Tree ((tnodes h)(dc \<mapsto> Node None None None TRBT_BLACK 0 None)) (troot h) (tflags h) (Suc dc)"
  define y where "y = N E dc TRBT_BLACK 0 (None :: 'a option) E"
  have rep0: "rep h0 (N E a c k d E) fs"
    using rep by (fastforce simp: rep_def h0_def dc_def)
  have fresh: "dc \<notin> set (faddrs fs)" "dc \<noteq> a" using rep by (auto simp: rep_def dc_def)
  from link_child_rep [OF rep0 y_def, of None] fresh rep obtain h1 where
    h1: "link_child h0 (Some a) (Some dc) = Some h1" "frame_eq h0 h1" "rep h1 y fs" "tnodes h1 a = tnodes h0 a"
    by (auto simp: y_def h0_def rep_def)
  have col: "field rb_color h1 (Some a) = Some c" using h1(4) rep0 by (simp add: rep_def field_Some)
  have cc: "trbt_get_color h1 (Some dc) = Some TRBT_BLACK" using h1(3) by (simp add: trbt_get_color_def rep_def y_def field_Some)
  from rb have C: "cinv (if c = TRBT_BLACK then 1 else 0) fs" using cinv_plug [OF rb] by (cases c) auto
  have "rebalanced h1 (if c = TRBT_BLACK then trbt_delete_case1 h1 (Some dc) else Some h1) y 0 fs"
  proof (cases c)
    case TRBT_RED
    then show ?thesis using h1(3) C by (auto intro!: rebalancedI simp: frame_eq_def)
  next
    case TRBT_BLACK
    then show ?thesis using delete_case1_rep [OF h1(3), of dc 0] C by (simp add: y_def)
  qed
  then obtain h2 fs' where h2: "(if c = TRBT_BLACK then trbt_delete_case1 h1 (Some dc) else Some h1) = Some h2"
    "frame_eq h1 h2" "rep h2 y fs'" "cinv 0 fs'" "entries_l fs' = entries_l fs" "entries_r fs' = entries_r fs"
    by (auto simp: rebalanced_def)
  from drop_dummy_rep [OF h2(3) [unfolded y_def]] obtain h3 where
    h3: "drop_dummy h2 (Some dc) = Some h3" "frame_eq h2 h3" "rep h3 E fs'" "dc \<notin> set (faddrs fs')" by blast
  have "unlink_node h (Some a) = Some (release_node dc h3)"
    using rep h1(1) h2(1) h3(1) col cc
    by (simp add: unlink_node_def rep_def field_Some Let_def h0_def dc_def split: if_splits)
  moreover have "rep (release_node dc h3) (plug E fs') []"
    using rep_release [OF h3(3), of dc] h3(4) by (simp add: rep_plug [symmetric])
  moreover have "rb (plug E fs')" using h2(4) by (simp add: rb_plug)
  moreover have "entries (plug E fs') = entries_l fs @ entries_r fs" using h2(5,6) by (simp add: entries_plug)
  ultimately show ?thesis
    using h1(2) h2(2) h3(2) by (auto simp: unlinked_def frame_eq_def release_node_def h0_def dc_def)
qed

lemma unlink_one_child:
  assumes rep: "rep h (N l a c k d r) fs" and rb: "rb (plug (N l a c k d r) fs)"
    and one: "(l = E) \<noteq> (r = E)"
  shows "unlinked h (unlink_node h (Some a)) (entries_l fs @ entries l @ entries r @ entries_r fs)"
proof -
  from one obtain y yl b yc yk yd yr where y: "y = N yl b yc yk yd yr" "y = (if r = E then l else r)"
    by (cases l; cases r) auto
  have inv: "cinv (bheight (N l a c k d r)) fs" "invc (N l a c k d r)" "invh (N l a c k d r)"
    using cinv_plug [OF rb] by blast+
  have E: "c = TRBT_BLACK" "yc = TRBT_RED" "yl = E" "yr = E"
    using inv(2,3) one y by (cases c; cases yc; cases l; cases r; cases yl; cases yr; force)+
  have at: "tree_at (tnodes h) (Some a) y" "distinct (addrs y @ faddrs fs)" "a \<notin> set (addrs y)" "\<forall>z \<in> set (addrs y). z < tnext h"
    using rep y(2) by (auto simp: rep_def)
  from link_child_rep [OF rep y(1) at] obtain h1 where
    h1: "link_child h (Some a) (Some b) = Some h1" "frame_eq h h1" "rep h1 y fs" "tnodes h1 a = tnodes h a" by blast
  from set_col_rep [OF h1(3) [unfolded y(1)], of TRBT_BLACK] obtain h2 where h2: "upd h1 (Some b) (set_col TRBT_BLACK) = Some h2" "frame_eq h1 h2"
    "rep h2 (N yl b TRBT_BLACK yk yd yr) fs" by blast
  have "field rb_color h1 (Some a) = Some c" using h1(4) rep by (simp add: rep_def field_Some)
  moreover have "trbt_get_color h1 (Some b) = Some TRBT_RED"
    using h1(3) E by (simp add: trbt_get_color_def rep_def y(1) field_Some)
  moreover have "(if rootp r \<noteq> None then rootp r else rootp l) = Some b"
    using y one by (cases r) (auto split: if_splits)
  ultimately have "unlink_node h (Some a) = Some h2"
    using rep h1(1) h2(1) E by (auto simp: unlink_node_def rep_def field_Some Let_def split: if_splits)
  moreover have "rep h2 (plug (N yl b TRBT_BLACK yk yd yr) fs) []" using h2(3) by (simp add: rep_plug [symmetric])
  moreover have "rb (plug (N yl b TRBT_BLACK yk yd yr) fs)"
    by (rule rb_plug) (use inv E y one in \<open>auto split: if_splits\<close>)
  moreover have "entries (plug (N yl b TRBT_BLACK yk yd yr) fs) = entries_l fs @ entries l @ entries r @ entries_r fs"
    using y one by (auto simp: entries_plug split: if_splits)
  ultimately show ?thesis using h1(2) h2(2) by (auto simp: unlinked_def frame_eq_def)
qed

lemma unlink_node_rep:
  assumes "rep h (N l a c k d r) fs" "rb (plug (N l a c k d r) fs)" "l = E \<or> r = E"
  shows "unlinked h (unlink_node h (Some a)) (entries_l fs @ entries l @ entries r @ entries_r fs)"
proof (cases "l = E \<and> r = E")
  case True
  then show ?thesis using unlink_leaf assms by auto
next
  case False
  then show ?thesis using unlink_one_child assms by blast
qed


section \<open>Replacing a node by its predecessor\<close>

lemma plug_append: "plug t (fs @ gs) = plug (plug t fs) gs"
  by (induction t fs rule: plug.induct) auto

lemma entries_r_append: "entries_r (fs @ gs) = entries_r fs @ entries_r gs"
  by (induction fs rule: entries_r.induct) auto

lemma entries_l_append: "entries_l (fs @ gs) = entries_l gs @ entries_l fs"
  by (induction fs rule: entries_l.induct) auto

lemma rightmost_rep:
  "tree_at (tnodes h) q (N l a c k d r) \<Longrightarrow>
     \<exists>fs l' b c' k' d'. trbt_rightmost h (Some a) = Some (Some b) \<and> plug (N l' b c' k' d' E) fs = N l a c k d r \<and>
       entries_r fs = []"
proof (induction r arbitrary: q l a c k d)
  case E
  then have "trbt_rightmost h (Some a) = Some (Some a)"
    by (subst trbt_rightmost.simps) (simp add: field_Some)
  then show ?case by (intro exI [of _ "[]"]) auto
next
  case (N rl b rc rk rd rr)
  from N.prems have "tree_at (tnodes h) (Some a) (N rl b rc rk rd rr)" by simp
  from N.IH(2) [OF this] obtain fs l' b' c' k' d' where I: "trbt_rightmost h (Some b) = Some (Some b')"
    "plug (N l' b' c' k' d' E) fs = N rl b rc rk rd rr" "entries_r fs = []" by blast
  have "trbt_rightmost h (Some a) = Some (Some b')"
    using N.prems I(1) by (subst trbt_rightmost.simps) (simp add: field_Some)
  moreover have "plug (N l' b' c' k' d' E) (fs @ [RF l a c k d]) = N l a c k d (N rl b rc rk rd rr)"
    using I(2) plug_append [of _ fs] by simp
  moreover have "entries_r (fs @ [RF l a c k d]) = []" using I(3) by (simp add: entries_r_append)
  ultimately show ?case by blast
qed


lemma rep_append: "rep h t (fs @ gs) \<longleftrightarrow> rep h (plug t fs) gs"
  using rep_plug [of h t "fs @ gs"] rep_plug [of h "plug t fs" gs] by (simp add: plug_append)

lemma set_key_rep:
  assumes "rep h (N l a c k d r) fs"
  shows "\<exists>h'. upd h (Some a) (set_key k') = Some h' \<and> frame_eq h h' \<and> rep h' (N l a c k' d r) fs"
  using assms by (auto simp: rep_def heap_simps frame_eq_def)

lemma set_data_rep:
  assumes "rep h (N l a c k d r) fs"
  shows "\<exists>h'. upd h (Some a) (set_data d') = Some h' \<and> frame_eq h h' \<and> rep h' (N l a c k d' r) fs"
  using assms by (auto simp: rep_def heap_simps frame_eq_def)

lemma entries_split:
  "entries t = L @ (a, k, d) # R \<Longrightarrow>
     \<exists>l c r fs. t = plug (N l a c k d r) fs \<and> L = entries_l fs @ entries l \<and> R = entries r @ entries_r fs"
proof (induction t arbitrary: L R)
  case (N l b c' k' d' r)
  consider (here) "L = entries l" "(a, k, d) = (b, k', d')" "R = entries r"
    | (left) M where "entries l = L @ (a, k, d) # M" "R = M @ (b, k', d') # entries r"
    | (right) M where "L = entries l @ (b, k', d') # M" "entries r = M @ (a, k, d) # R"
    using N.prems by (auto simp: append_eq_append_conv2 Cons_eq_append_conv append_eq_Cons_conv)
  then show ?case
  proof cases
    case here
    then show ?thesis by (intro exI [of _ l] exI [of _ c'] exI [of _ r] exI [of _ "[]"]) auto
  next
    case left
    from N.IH(1) [OF left(1)] obtain l1 c1 r1 fs1 where "l = plug (N l1 a c1 k d r1) fs1" "L = entries_l fs1 @ entries l1"
      "M = entries r1 @ entries_r fs1" by blast
    then show ?thesis using left(2)
      by (intro exI [of _ l1] exI [of _ c1] exI [of _ r1] exI [of _ "fs1 @ [LF b c' k' d' r]"])
        (simp add: plug_append entries_l_append entries_r_append)
  next
    case right
    from N.IH(2) [OF right(2)] obtain l1 c1 r1 fs1 where "r = plug (N l1 a c1 k d r1) fs1" "M = entries_l fs1 @ entries l1"
      "R = entries r1 @ entries_r fs1" by blast
    then show ?thesis using right(1)
      by (intro exI [of _ l1] exI [of _ c1] exI [of _ r1] exI [of _ "fs1 @ [RF l b c' k' d']"])
        (simp add: plug_append entries_l_append entries_r_append)
  qed
qed simp

text \<open>What of the memory an operation may change.\<close>

definition only_changes :: "nat set \<Rightarrow> 'd trbt_tree \<Rightarrow> 'd trbt_tree \<Rightarrow> bool" where
  "only_changes S t t' \<longleftrightarrow> frame_eq t t' \<and> troot t' = troot t \<and> (\<forall>x. x \<notin> S \<longrightarrow> tnodes t' x = tnodes t x)"

lemma tree_at_cong: "(\<And>x. x \<in> set (addrs y) \<Longrightarrow> ns' x = ns x) \<Longrightarrow> tree_at ns' p y = tree_at ns p y"
  by (induction y arbitrary: p) auto

lemma ctx_at_cong: "(\<And>x. x \<in> set (faddrs fs) \<Longrightarrow> ns' x = ns x) \<Longrightarrow> ctx_at ns' root p fs = ctx_at ns root p fs"
proof (induction fs arbitrary: p rule: faddrs.induct)
  case (2 a c k d r fs)
  then show ?case using tree_at_cong [of r ns' ns] by simp
next
  case (3 l a c k d fs)
  then show ?case using tree_at_cong [of l ns' ns] by simp
qed simp

lemma adopt_rep:
  assumes "tree_at (tnodes t) q y" "distinct (addrs y)"
  shows "\<exists>t'. adopt t (rootp y) p = Some t' \<and> only_changes (set (addrs y)) t t' \<and> tree_at (tnodes t') p y"
  using assms by (cases y) (auto simp: adopt_def heap_simps only_changes_def frame_eq_def insert_absorb domI)

lemma swap_child_rep:
  assumes "ctx_at (tnodes t) root (Some a) fs" "distinct (faddrs fs)" "a \<notin> set (faddrs fs)"
  shows "\<exists>t'. swap_child t (parentp fs) (Some a) (Some b) = Some t' \<and> only_changes (set (faddrs fs)) t t' \<and>
    ctx_at (tnodes t') (if fs = [] then Some b else root) (Some b) fs"
  using assms
  by (cases fs rule: parentp.cases)
    (auto simp: swap_child_def heap_simps only_changes_def frame_eq_def insert_absorb domI dest: rootp_eq_Some)

lemma ctx_at_root: "ctx_at ns root p fs \<Longrightarrow> fs \<noteq> [] \<Longrightarrow> \<exists>a \<in> set (faddrs fs). root = Some a"
proof (induction fs arbitrary: p rule: faddrs.induct)
  case (2 a c k d r fs)
  then show ?case by (cases fs) auto
next
  case (3 l a c k d fs)
  then show ?case by (cases fs) auto
qed simp

lemma root_above: "rep h (N l a c k d r) fs \<Longrightarrow> troot h = Some a \<longleftrightarrow> fs = []"
  using ctx_at_root [of "tnodes h" "troot h" "Some a" fs] by (cases "fs = []") (auto simp: rep_def)

lemma upd_only:
  "n \<in> dom (tnodes t) \<Longrightarrow> \<exists>t'. upd t (Some n) f = Some t' \<and> only_changes {n} t t' \<and> tnodes t' n = map_option f (tnodes t n)"
  by (auto simp: heap_simps only_changes_def frame_eq_def insert_absorb)


lemma replace_node_rep:
  assumes rep: "rep h (N l a c k d r) fs" and b: "b \<notin> set (addrs l @ a # addrs r @ faddrs fs)" "b < tnext h" "b \<in> dom (tnodes h)"
  shows "\<exists>h'. replace_node h (Some a) (Some b) = Some h' \<and> frame_eq h h' \<and> rep h' (N l b c k d r) fs"
proof -
  from b(3) obtain p0 nl nr c0 k0 d0 where n: "tnodes h b = Some (Node p0 nl nr c0 k0 d0)" by (cases "the (tnodes h b)") auto
  have a: "tnodes h a = Some (Node (parentp fs) (rootp l) (rootp r) c k d)" using rep by (simp add: rep_def)
  have D: "distinct (addrs l)" "distinct (addrs r)" "distinct (faddrs fs)" "set (addrs l) \<inter> set (addrs r) = {}"
    "set (addrs l) \<inter> set (faddrs fs) = {}" "set (addrs r) \<inter> set (faddrs fs) = {}"
    "a \<notin> set (addrs l)" "a \<notin> set (addrs r)" "a \<notin> set (faddrs fs)" "b \<noteq> a"
    "b \<notin> set (addrs l)" "b \<notin> set (addrs r)" "b \<notin> set (faddrs fs)" using rep b(1) by (auto simp: rep_def)
  define h4 where "h4 = Tree ((tnodes h)(b \<mapsto> Node (parentp fs) nl nr c k d)) (troot h) (tflags h) (tnext h)"
  have "ctx_at (tnodes h4) (troot h) (Some a) fs" using rep D by (simp add: h4_def rep_def)
  from swap_child_rep [OF this D(3,9), of b] obtain h5 where h5: "swap_child h4 (parentp fs) (Some a) (Some b) = Some h5"
    "only_changes (set (faddrs fs)) h4 h5" "ctx_at (tnodes h5) (if fs = [] then Some b else troot h) (Some b) fs" by blast
  have at5: "tnodes h5 a = tnodes h a" "tnodes h5 b = Some (Node (parentp fs) nl nr c k d)"
    using h5(2) D by (simp_all add: only_changes_def h4_def)
  define h6 where "h6 = Tree ((tnodes h5)(b \<mapsto> Node (parentp fs) (rootp l) nr c k d)) (troot h5) (tflags h5) (tnext h5)"
  have same5: "tnodes h5 x = tnodes h x" if "x \<notin> set (faddrs fs)" "x \<noteq> b" for x
    using that h5(2) by (simp add: only_changes_def h4_def)
  have "tnodes h6 x = tnodes h x" if "x \<in> set (addrs l)" for x
    using that D same5 [of x] by (auto simp: h6_def)
  then have "tree_at (tnodes h6) (Some a) l" using rep tree_at_cong [of l "tnodes h6" "tnodes h"] by (simp add: rep_def)
  from adopt_rep [OF this D(1), of "Some b"] obtain h7 where h7: "adopt h6 (rootp l) (Some b) = Some h7"
    "only_changes (set (addrs l)) h6 h7" "tree_at (tnodes h7) (Some b) l" by blast
  have at7: "tnodes h7 a = tnodes h a" "tnodes h7 b = Some (Node (parentp fs) (rootp l) nr c k d)"
    using h7(2) D at5 by (simp_all add: only_changes_def h6_def)
  define h8 where "h8 = Tree ((tnodes h7)(b \<mapsto> Node (parentp fs) (rootp l) (rootp r) c k d)) (troot h7) (tflags h7) (tnext h7)"
  have same: "tnodes h8 x = tnodes h5 x" if "x \<notin> set (addrs l)" "x \<noteq> b" for x
    using that h7(2) by (simp add: h8_def h6_def only_changes_def)
  have "tnodes h8 x = tnodes h x" if "x \<in> set (addrs r)" for x
    using that D same5 [of x] same [of x] by (metis disjoint_iff)
  then have "tree_at (tnodes h8) (Some a) r" using rep tree_at_cong [of r "tnodes h8" "tnodes h"] by (simp add: rep_def)
  from adopt_rep [OF this D(2), of "Some b"] obtain h9 where h9: "adopt h8 (rootp r) (Some b) = Some h9"
    "only_changes (set (addrs r)) h8 h9" "tree_at (tnodes h9) (Some b) r" by blast
  have root: "troot h9 = troot h" using h5(2) h7(2) h9(2) by (simp add: only_changes_def h4_def h6_def h8_def)
  let ?h = "if troot h9 = Some a then set_root (Some b) h9 else h9"
  have "replace_node h (Some a) (Some b) = Some ?h"
    using a n D(10) h5(1) h7(1) h9(1) at5 at7
    by (simp add: replace_node_def field_Some upd_Some h4_def h6_def h8_def)
  moreover have "frame_eq h ?h"
    using h5(2) h7(2) h9(2) n at5 at7 by (auto simp: only_changes_def frame_eq_def h4_def h6_def h8_def insert_absorb domI)
  moreover have "tnodes h9 x = tnodes h5 x" if "x \<in> set (faddrs fs)" for x
    using that h9(2) D same [of x] by (metis disjoint_iff only_changes_def)
  then have "ctx_at (tnodes h9) (troot ?h) (Some b) fs"
    using h5(3) root root_above [OF rep] ctx_at_cong [of fs "tnodes h9" "tnodes h5"] by (cases "fs = []") simp_all
  moreover have "tnodes h9 x = tnodes h7 x" if "x \<in> set (addrs l)" for x
    using that h9(2) D by (auto simp: only_changes_def h8_def)
  then have "tree_at (tnodes h9) (Some b) l" using h7(3) tree_at_cong [of l "tnodes h9" "tnodes h7"] by simp
  moreover have "tnodes h9 b = Some (Node (parentp fs) (rootp l) (rootp r) c k d)"
    using h9(2) D by (simp add: only_changes_def h8_def)
  ultimately show ?thesis using rep b D h9(3) by (auto simp: rep_def frame_eq_def)
qed

section \<open>The destructor\<close>

lemma linorder_entries: "linorder_l fs = map snd (entries_l fs)" "linorder_r fs = map snd (entries_r fs)"
  by (induction fs rule: entries_l.induct) (simp_all add: inorder_entries)

lemma rb_readdress: "rb (plug (N l a c k d r) fs) \<Longrightarrow> rb (plug (N l b c k' d' r) fs)"
  using cinv_plug [of "N l a c k d r" fs] by (auto intro!: rb_plug)

lemma addrs_plug: "set (addrs (plug t fs)) = set (addrs t) \<union> set (faddrs fs)"
  by (induction t fs rule: plug.induct) auto

text \<open>The state after the node at address \<open>a\<close> was removed.\<close>

definition removed :: "nat \<Rightarrow> 'd trbt_tree \<Rightarrow> ('d trbt_tree \<times> bool) option \<Rightarrow> (u32 \<times> 'd option) list \<Rightarrow> bool" where
  "removed a h res xs \<longleftrightarrow>
     (\<exists>h' t. res = Some (h', tflags h AND TRBT_AUTOFREE \<noteq> 0 \<and> t = E) \<and> tflags h' = tflags h \<and>
        rep (release_node a h') t [] \<and> rb t \<and> inorder t = xs)"

lemma rep_root: "rep h t [] \<Longrightarrow> troot h = rootp t"
  by (simp add: rep_def)

lemma rootp_None: "rootp t = None \<longleftrightarrow> t = E"
  by (cases t) auto

lemma destructor_simple:
  assumes rep: "rep h (N l a c k d r) fs" and rb: "rb (plug (N l a c k d r) fs)" and one: "l = E \<or> r = E"
  shows "removed a h (node_destructor h (Some a)) (linorder_l fs @ inorder l @ inorder r @ linorder_r fs)"
proof -
  from unlink_node_rep [OF rep rb one] obtain h' t where h': "unlink_node h (Some a) = Some h'" "tflags h' = tflags h"
    "rep h' t []" "rb t" "entries t = entries_l fs @ entries l @ entries r @ entries_r fs" by (auto simp: unlinked_def)
  have "node_destructor h (Some a) = Some (h', tflags h AND TRBT_AUTOFREE \<noteq> 0 \<and> t = E)"
    using rep h' one by (auto simp: node_destructor_def rep_def field_Some rootp_None)
  moreover have "a \<notin> set (addrs t)"
  proof -
    have "addrs (plug (N l a c k d r) fs) = map fst (entries_l fs) @ addrs l @ a # addrs r @ map fst (entries_r fs)"
      by (simp add: addrs_entries entries_plug)
    moreover have "distinct (addrs (plug (N l a c k d r) fs))"
      using rep unfolding rep_plug [of h "N l a c k d r" fs] by (simp add: rep_def)
    ultimately show ?thesis by (auto simp: addrs_entries h'(5))
  qed
  then have "rep (release_node a h') t []" using h'(3) by (intro rep_release) simp_all
  moreover have "inorder t = linorder_l fs @ inorder l @ inorder r @ linorder_r fs"
    using h'(5) by (simp add: inorder_entries linorder_entries)
  ultimately show ?thesis using h' by (auto simp: removed_def)
qed


text \<open>The contents of the predecessor are moved to the node, then the predecessor is unlinked.\<close>

lemma move_predecessor:
  assumes rep: "rep h (N (plug (N l' b c' k' d' E) gs) a c k d r) fs"
  shows "\<exists>h1 h2 h3 h4. upd h (Some a) (set_key k') = Some h1 \<and> upd h1 (Some a) (set_data d') = Some h2 \<and>
    upd h2 (Some b) (set_data None) = Some h3 \<and> upd h3 (Some b) (set_key (-1)) = Some h4 \<and> frame_eq h h4 \<and>
    rep h4 (N l' b c' (-1) None E) (gs @ LF a c k' d' r # fs)"
proof -
  from set_key_rep [OF rep, of k'] obtain h1 where h1: "upd h (Some a) (set_key k') = Some h1" "frame_eq h h1"
    "rep h1 (N (plug (N l' b c' k' d' E) gs) a c k' d r) fs" by blast
  from set_data_rep [OF h1(3), of d'] obtain h2 where h2: "upd h1 (Some a) (set_data d') = Some h2" "frame_eq h1 h2"
    "rep h2 (N (plug (N l' b c' k' d' E) gs) a c k' d' r) fs" by blast
  then have "rep h2 (N l' b c' k' d' E) (gs @ LF a c k' d' r # fs)" by (simp add: rep_append rep_left)
  from set_data_rep [OF this, of None] obtain h3 where h3: "upd h2 (Some b) (set_data None) = Some h3" "frame_eq h2 h3"
    "rep h3 (N l' b c' k' None E) (gs @ LF a c k' d' r # fs)" by blast
  from set_key_rep [OF this(3), of "-1"] obtain h4 where h4: "upd h3 (Some b) (set_key (-1)) = Some h4" "frame_eq h3 h4"
    "rep h4 (N l' b c' (-1) None E) (gs @ LF a c k' d' r # fs)" by blast
  have "frame_eq h h4" using h1(2) h2(2) h3(2) h4(2) by (blast intro: frame_eq_trans)
  then show ?thesis using h1(1) h2(1) h3(1) h4(1,3) by blast
qed

lemma distinct_entries: "rep h t [] \<Longrightarrow> distinct (map fst (entries t))"
  by (simp add: rep_def addrs_entries)

lemma destructor_two_children:
  assumes rep: "rep h (N l a c k d r) fs" and rb: "rb (plug (N l a c k d r) fs)" and two: "l \<noteq> E" "r \<noteq> E"
  shows "removed a h (node_destructor h (Some a)) (linorder_l fs @ inorder l @ inorder r @ linorder_r fs)"
proof -
  from two(1) obtain ll x lc lk ld lr where l: "l = N ll x lc lk ld lr" by (cases l) auto
  have "tree_at (tnodes h) (Some a) (N ll x lc lk ld lr)" using rep by (simp add: rep_def l)
  from rightmost_rep [OF this] obtain gs l' b c' k' d' where
    b: "trbt_rightmost h (Some x) = Some (Some b)" "plug (N l' b c' k' d' E) gs = l" "entries_r gs = []"
    by (auto simp: l)
  note rep' = rep [folded b(2)]
  from move_predecessor [OF rep'] obtain h1 h2 h3 h4 where
    h4: "upd h (Some a) (set_key k') = Some h1" "upd h1 (Some a) (set_data d') = Some h2"
      "upd h2 (Some b) (set_data None) = Some h3" "upd h3 (Some b) (set_key (-1)) = Some h4" "frame_eq h h4"
      "rep h4 (N l' b c' (-1) None E) (gs @ LF a c k' d' r # fs)" by blast
  have contents: "rep h (N l' b c' k' d' E) (gs @ LF a c k d r # fs)"
    using rep' by (simp add: rep_append rep_left)
  have "rb (plug (N l' b c' k' d' E) (gs @ LF a c k d r # fs))" using rb b(2) by (simp add: plug_append)
  then have "rb (plug (N l' b c' (-1) None E) (gs @ LF a c k d r # fs))" by (rule rb_readdress)
  then have "rb (plug (N (plug (N l' b c' (-1) None E) gs) a c k d r) fs)" by (simp add: plug_append)
  then have "rb (plug (N (plug (N l' b c' (-1) None E) gs) a c k' d' r) fs)" by (rule rb_readdress)
  then have rb4: "rb (plug (N l' b c' (-1) None E) (gs @ LF a c k' d' r # fs))" by (simp add: plug_append)
  from unlink_node_rep [OF h4(6) rb4] obtain h5 t where h5: "unlink_node h4 (Some b) = Some h5" "tflags h5 = tflags h4"
    "tnext h4 \<le> tnext h5" "\<forall>z < tnext h4. z \<in> dom (tnodes h5) \<longleftrightarrow> z \<in> dom (tnodes h4)" "rep h5 t []" "rb t"
    "entries t = (entries_l fs @ entries_l gs @ entries l') @ (a, k', d') # (entries r @ entries_r fs)"
    by (auto simp: unlinked_def entries_l_append entries_r_append b(3))
  from entries_split [OF h5(7)] obtain l2 c2 r2 fs2 where
    t: "t = plug (N l2 a c2 k' d' r2) fs2" "entries_l fs @ entries_l gs @ entries l' = entries_l fs2 @ entries l2"
      "entries r @ entries_r fs = entries r2 @ entries_r fs2" by blast
  have rep5: "rep h5 (N l2 a c2 k' d' r2) fs2" using h5(5) rep_plug t(1) by blast
  have b4: "b < tnext h4" "b \<in> dom (tnodes h4)" using h4(6) by (auto simp: rep_def)
  let ?old = "plug (N l' b c' (-1) None E) (gs @ LF a c k' d' r # fs)"
  have old: "entries ?old = entries_l fs @ entries_l gs @ entries l' @ (b, -1, None) # (a, k', d') # entries r @ entries_r fs"
    by (simp add: entries_plug entries_l_append entries_r_append b(3))
  have "distinct (map fst (entries ?old))" using h4(6) rep_plug distinct_entries by blast
  then have bt: "b \<notin> set (addrs t)" "b \<noteq> a" by (auto simp: old addrs_entries h5(7))
  have mem: "set (addrs t) = set (addrs l2 @ a # addrs r2 @ faddrs fs2)" by (auto simp: t(1) addrs_plug)
  from replace_node_rep [OF rep5, of b] obtain h6 where h6: "replace_node h5 (Some a) (Some b) = Some h6" "frame_eq h5 h6"
    "rep h6 (N l2 b c2 k' d' r2) fs2"
    using bt(1) b4 h5(3,4) mem by (auto dest: order.strict_trans2)
  let ?t = "plug (N l2 b c2 k' d' r2) fs2"
  have flags: "tflags h6 = tflags h" using h6(2) h5(2) h4(5) by (simp add: frame_eq_def)
  have t6: "rep h6 ?t []" using h6(3) rep_plug by blast
  have "?t \<noteq> E" using addrs_plug [of "N l2 b c2 k' d' r2" fs2] by auto
  then have "node_destructor h (Some a) = Some (h6, tflags h AND TRBT_AUTOFREE \<noteq> 0 \<and> ?t = E)"
    using rep two b(1) h4(1-4) h5(1) h6(1) flags rep_root [OF t6] contents
    by (auto simp: node_destructor_def rep_def field_Some rootp_None l)
  moreover have "a \<notin> set (addrs ?t)"
  proof -
    have "distinct (addrs l2 @ a # addrs r2 @ faddrs fs2)" using rep5 by (simp add: rep_def)
    then show ?thesis using bt(2) by (auto simp: addrs_plug)
  qed
  then have "rep (release_node a h6) ?t []" using t6 by (intro rep_release) simp_all
  moreover have "rb ?t" using h5(6) unfolding t(1) by (rule rb_readdress)
  moreover have "inorder ?t = linorder_l fs @ inorder l @ inorder r @ linorder_r fs"
  proof -
    have "map snd (entries ?t) = map snd (entries t)" by (simp add: t(1) entries_plug)
    also have "\<dots> = map snd (entries_l fs @ (entries_l gs @ entries l' @ [(b, k', d')]) @ entries r @ entries_r fs)"
      by (simp add: h5(7))
    also have "entries_l gs @ entries l' @ [(b, k', d')] = entries l" by (simp add: b(2) [symmetric] b(3) entries_plug)
    finally show ?thesis by (simp add: inorder_entries linorder_entries)
  qed
  ultimately show ?thesis using flags unfolding removed_def by blast
qed

lemma node_destructor_rep:
  assumes "rep h (N l a c k d r) fs" "rb (plug (N l a c k d r) fs)"
  shows "removed a h (node_destructor h (Some a)) (linorder_l fs @ inorder l @ inorder r @ linorder_r fs)"
  using assms destructor_simple destructor_two_children by blast

text \<open>Freeing the data of a key removes its entry and nothing else.\<close>

lemma filter_other:
  fixes key :: u32
  shows "\<forall>x \<in> set xs. fst x < key \<Longrightarrow> filter (\<lambda>e. fst e \<noteq> key) xs = xs"
    and "\<forall>x \<in> set xs. key < fst x \<Longrightarrow> filter (\<lambda>e. fst e \<noteq> key) xs = xs"
  by (auto simp: filter_id_conv)

lemma trbt_free_data_ok:
  assumes ok: "tree_ok h t"
  shows "\<exists>h' t'. trbt_free_data h key = Some (h', tflags h AND TRBT_AUTOFREE \<noteq> 0 \<and> t \<noteq> E \<and> t' = E) \<and>
    tree_ok h' t' \<and> inorder t' = filter (\<lambda>e. fst e \<noteq> key) (inorder t) \<and> tflags h' = tflags h"
proof (cases "t = E")
  case True
  then have "trbt_free_data h key = Some (h, False)"
    using ok by (simp add: trbt_free_data_def tree_ok_def rep_def)
  then show ?thesis using ok True by (intro exI [of _ h] exI [of _ t]) simp
next
  case False
  have root: "troot h \<noteq> None" using ok False by (auto simp: tree_ok_def rep_def rootp_None)
  have keep: "filter (\<lambda>e. fst e \<noteq> key) (linorder_l fs @ linorder_r fs) = linorder_l fs @ linorder_r fs" if "between key fs" for fs
    using that by (simp add: between_def filter_other)
  from ok False show ?thesis
  proof (cases rule: walk_cases [where key = key])
    case (existing l a c d r fs)
    from node_destructor_rep [OF existing(2,3)] obtain h' t' where
      h': "node_destructor h (Some a) = Some (h', tflags h AND TRBT_AUTOFREE \<noteq> 0 \<and> t' = E)" "tflags h' = tflags h"
        "rep (release_node a h') t' []" "rb t'" "inorder t' = linorder_l fs @ inorder l @ inorder r @ linorder_r fs"
      by (auto simp: removed_def)
    have cont: "inorder t' = filter (\<lambda>e. fst e \<noteq> key) (inorder t)"
      using existing(4,6,7) unfolding existing(5) h'(5) by (simp add: between_def filter_other)
    moreover have "bst t'"
      using ok by (simp add: tree_ok_def bst_def cont sorted_wrt_map sorted_wrt_filter)
    moreover have "trbt_free_data h key = Some (release_node a h', tflags h AND TRBT_AUTOFREE \<noteq> 0 \<and> t \<noteq> E \<and> t' = E)"
      using root existing(1) h'(1) False by (auto simp: trbt_free_data_def)
    ultimately show ?thesis
      using h' by (intro exI [of _ "release_node a h'"] exI [of _ t']) (simp add: tree_ok_def release_node_def)
  next
    case (left a c k d r fs)
    then have "trbt_free_data h key = Some (h, False)" using root by (auto simp: trbt_free_data_def)
    then show ?thesis using keep [OF left(4)] ok False left(5) by (intro exI [of _ h] exI [of _ t]) simp
  next
    case (right l a c k d fs)
    then have "trbt_free_data h key = Some (h, False)" using root by (auto simp: trbt_free_data_def)
    then show ?thesis using keep [OF right(4)] ok False right(5) by (intro exI [of _ h] exI [of _ t]) simp
  qed
qed

section \<open>Properties\<close>

text \<open>
  C30: freeing the data of an entry, the way entries are removed from these trees, never dereferences
  NULL and ends; the tree is a red-black search tree afterwards, the entry is gone and every other
  entry is kept; the tree asks to be freed exactly when it has just become empty and was created
  with the autofree flag.
\<close>

theorem trbt_free_data_correct:
  assumes "tree_ok h t"
  shows "\<exists>h' t'. trbt_free_data h key = Some (h', tflags h AND TRBT_AUTOFREE \<noteq> 0 \<and> t \<noteq> E \<and> t' = E) \<and>
    tree_ok h' t' \<and> inorder t' = filter (\<lambda>e. fst e \<noteq> key) (inorder t) \<and>
    (\<forall>k. trbt_lookup32 h' k = (if k = key then Some None else trbt_lookup32 h k))"
proof -
  from trbt_free_data_ok [OF assms, of key] obtain h' t' where
    h': "trbt_free_data h key = Some (h', tflags h AND TRBT_AUTOFREE \<noteq> 0 \<and> t \<noteq> E \<and> t' = E)" "tree_ok h' t'"
      "inorder t' = filter (\<lambda>e. fst e \<noteq> key) (inorder t)" by blast
  have "map_of (filter (\<lambda>e. fst e \<noteq> key) xs) k = (if k = key then None else map_of xs k)" for xs :: "(u32 \<times> 'a option) list" and k
    by (induction xs) auto
  then have "trbt_lookup32 h' k = (if k = key then Some None else trbt_lookup32 h k)" for k
    by (simp add: lookup_ok [OF h'(2)] lookup_ok [OF assms] tlookup_def h'(3))
  with h' show ?thesis by blast
qed

theorem trbt_free_data_correct_witness:
  "\<exists>h h'. trbt_insert32 (trbt_create 1) 7 (Some True) = Some (h, None) \<and>
     trbt_free_data h 7 = Some (h', True) \<and> trbt_lookup32 h' 7 = Some None"
proof -
  have ok: "tree_ok (set_root (Some 0) (fst (trbt_create_node (trbt_create 1) None 7 (Some True))))
      (N E 0 TRBT_BLACK 7 (Some True) E)" (is "tree_ok ?h _")
    using create_root_ok [OF create_ok, of 1 7 "Some True"] by (simp add: trbt_create_def)
  have ins: "trbt_insert32 (trbt_create 1) 7 (Some True) = Some (?h, None)"
    by (simp add: trbt_insert32_def trbt_create_def trbt_create_node_def)
  from trbt_free_data_correct [OF ok, of 7] obtain h' t' where
    R: "trbt_free_data ?h 7 = Some (h', tflags ?h AND TRBT_AUTOFREE \<noteq> 0 \<and> N E 0 TRBT_BLACK 7 (Some True) E \<noteq> E \<and> t' = E)"
      "inorder t' = filter (\<lambda>e. fst e \<noteq> 7) (inorder (N E 0 TRBT_BLACK 7 (Some True) E))"
      "\<forall>k. trbt_lookup32 h' k = (if k = 7 then Some None else trbt_lookup32 ?h k)" by blast
  have "t' = E" using R(2) by (cases t') auto
  moreover have "tflags ?h AND TRBT_AUTOFREE \<noteq> 0" by code_simp
  ultimately show ?thesis using ins R(1,3) by auto
qed


end
