(* ===== verification/Marshall.thy ===== *)
theory Marshall
  imports Tdb_Hash
begin

text \<open>
  Records on the wire: the record header of \<^verbatim>\<open>include/ctdb_protocol.h\<close> and the marshalling buffers of
  \<^verbatim>\<open>common/ctdb_util.c\<close>.  Buffers are lists of bytes; a read past the end of a buffer, which is
  undefined in C, is an explicit outcome.  What was marshalled is read back unchanged.
\<close>

section \<open>Record headers\<close>

record ctdb_ltdb_header =
  rsn :: u64
  dmaster :: u32
  reserved1 :: u32
  hflags :: u32

definition CTDB_REC_FLAG_MIGRATED_WITH_DATA :: u32 where "CTDB_REC_FLAG_MIGRATED_WITH_DATA = 0x00010000"
definition CTDB_REC_FLAG_VACUUM_MIGRATED :: u32 where "CTDB_REC_FLAG_VACUUM_MIGRATED = 0x00020000"
definition CTDB_REC_FLAG_AUTOMATIC :: u32 where "CTDB_REC_FLAG_AUTOMATIC = 0x00040000"
definition CTDB_REC_RO_HAVE_DELEGATIONS :: u32 where "CTDB_REC_RO_HAVE_DELEGATIONS = 0x01000000"
definition CTDB_REC_RO_HAVE_READONLY :: u32 where "CTDB_REC_RO_HAVE_READONLY = 0x02000000"
definition CTDB_REC_RO_REVOKING_READONLY :: u32 where "CTDB_REC_RO_REVOKING_READONLY = 0x04000000"
definition CTDB_REC_RO_REVOKE_COMPLETE :: u32 where "CTDB_REC_RO_REVOKE_COMPLETE = 0x08000000"

definition CTDB_REC_RO_FLAGS :: u32 where
  "CTDB_REC_RO_FLAGS =
     CTDB_REC_RO_HAVE_DELEGATIONS OR CTDB_REC_RO_HAVE_READONLY OR
     CTDB_REC_RO_REVOKING_READONLY OR CTDB_REC_RO_REVOKE_COMPLETE"

text \<open>The header in memory: 20 bytes of fields and 4 bytes of padding, which nothing reads.\<close>

definition bytes_of_u64 :: "u64 \<Rightarrow> u8 list" where
  "bytes_of_u64 w = bytes_of_u32 (ucast w) @ bytes_of_u32 (ucast (drop_bit 32 w))"

definition u64_of_bytes :: "u8 list \<Rightarrow> u64" where
  "u64_of_bytes bs = ucast (u32_of_bytes (take 4 bs)) OR push_bit 32 (ucast (u32_of_bytes (drop 4 bs)))"

definition bytes_of_header :: "ctdb_ltdb_header \<Rightarrow> u8 list" where
  "bytes_of_header h =
     bytes_of_u64 (rsn h) @ bytes_of_u32 (dmaster h) @ bytes_of_u32 (reserved1 h) @ bytes_of_u32 (hflags h) @ replicate 4 0"

definition word_at :: "u8 list \<Rightarrow> nat \<Rightarrow> u32" where
  "word_at bs i = u32_of_bytes (take 4 (drop i bs))"

definition header_of_bytes :: "u8 list \<Rightarrow> ctdb_ltdb_header" where
  "header_of_bytes bs =
     \<lparr>rsn = u64_of_bytes (take 8 bs), dmaster = word_at bs 8, reserved1 = word_at bs 12, hflags = word_at bs 16\<rparr>"

definition sizeof_header :: nat where
  "sizeof_header = 24"

lemma u64_of_bytes_of_u64 [simp]: "u64_of_bytes (bytes_of_u64 w) = w"
proof (rule bit_word_eqI)
  fix n assume n: "n < LENGTH(64)"
  then show "bit (u64_of_bytes (bytes_of_u64 w)) n = bit w n"
    by (cases "n < 32")
      (auto simp: u64_of_bytes_def bytes_of_u64_def bit_or_iff bit_push_bit_iff bit_unsigned_iff bit_drop_bit_eq)
qed

lemma length_bytes_of_u64 [simp]: "length (bytes_of_u64 w) = 8"
  by (simp add: bytes_of_u64_def)

lemma length_bytes_of_header [simp]: "length (bytes_of_header h) = sizeof_header"
  by (simp add: bytes_of_header_def sizeof_header_def)

lemma word_at_skip: "length xs \<le> i \<Longrightarrow> word_at (xs @ ys) i = word_at ys (i - length xs)"
  by (simp add: word_at_def)

lemma word_at_here [simp]: "word_at (bytes_of_u32 w @ ys) 0 = w"
  by (simp add: word_at_def)

lemma header_of_bytes_of_header [simp]: "header_of_bytes (bytes_of_header h @ bs) = h"
  by (simp add: header_of_bytes_def bytes_of_header_def word_at_skip)

section \<open>Marshalling\<close>

record ctdb_rec_data =
  rec_length :: u32
  rec_reqid :: u32
  keylen :: u32
  datalen :: u32
  rec_data :: "u8 list"

definition sizeof_rec_data :: nat where
  "sizeof_rec_data = 16"

definition ctdb_marshall_record ::
    "u32 \<Rightarrow> u8 list \<Rightarrow> ctdb_ltdb_header option \<Rightarrow> u8 list \<Rightarrow> ctdb_rec_data" where
  "ctdb_marshall_record reqid key header data =
     (let len = sizeof_rec_data + length key + length data + (case header of None \<Rightarrow> 0 | Some h \<Rightarrow> sizeof_header)
      in \<lparr>rec_length = of_nat len, rec_reqid = reqid, keylen = of_nat (length key),
          datalen = (case header of None \<Rightarrow> of_nat (length data) | Some h \<Rightarrow> of_nat (length data + sizeof_header)),
          rec_data = key @ (case header of None \<Rightarrow> [] | Some h \<Rightarrow> bytes_of_header h) @ data\<rparr>)"

definition bytes_of_rec :: "ctdb_rec_data \<Rightarrow> u8 list" where
  "bytes_of_rec r =
     bytes_of_u32 (rec_length r) @ bytes_of_u32 (rec_reqid r) @ bytes_of_u32 (keylen r) @ bytes_of_u32 (datalen r) @ rec_data r"

record ctdb_marshall_buffer =
  m_db_id :: u32
  m_count :: u32
  m_data :: "u8 list"

text \<open>The 64-bit database id of the interface is cut to 32 bits when it is stored.\<close>

definition ctdb_marshall_add ::
    "ctdb_marshall_buffer option \<Rightarrow> u64 \<Rightarrow> u32 \<Rightarrow> u8 list \<Rightarrow> ctdb_ltdb_header option \<Rightarrow> u8 list \<Rightarrow> ctdb_marshall_buffer" where
  "ctdb_marshall_add m db_id reqid key header data =
     (let r = ctdb_marshall_record reqid key header data;
          m = (case m of None \<Rightarrow> \<lparr>m_db_id = ucast db_id, m_count = 0, m_data = []\<rparr> | Some m \<Rightarrow> m)
      in m\<lparr>m_data := m_data m @ bytes_of_rec r, m_count := m_count m + 1\<rparr>)"

definition ctdb_marshall_finish :: "ctdb_marshall_buffer \<Rightarrow> u8 list" where
  "ctdb_marshall_finish m = bytes_of_u32 (m_db_id m) @ bytes_of_u32 (m_count m) @ m_data m"

text \<open>A received blob read as a buffer.\<close>

definition sizeof_marshall_buffer :: nat where
  "sizeof_marshall_buffer = 8"

definition buffer_of_bytes :: "u8 list \<Rightarrow> ctdb_marshall_buffer" where
  "buffer_of_bytes bs = \<lparr>m_db_id = word_at bs 0, m_count = word_at bs 4, m_data = drop sizeof_marshall_buffer bs\<rparr>"

datatype loop_next =
    Out_of_bounds
  | Null
  | Next nat u32 "ctdb_ltdb_header option" "u8 list" "u8 list"

definition slice :: "u8 list \<Rightarrow> nat \<Rightarrow> nat \<Rightarrow> u8 list option" where
  "slice bs i n = (if i + n \<le> length bs then Some (take n (drop i bs)) else None)"

text \<open>
  One step of the loop over a buffer.  The position of a record is its offset in the data of the
  buffer; a header is read when the caller asks for one.  The bytes of key and data are returned,
  so they must lie in the buffer.
\<close>

definition next_pos :: "u8 list \<Rightarrow> nat option \<Rightarrow> nat option" where
  "next_pos bs r =
     (case r of None \<Rightarrow> Some 0
      | Some p \<Rightarrow> if p + 4 \<le> length bs then Some (p + unat (word_at bs p)) else None)"

definition read_rec :: "u8 list \<Rightarrow> nat \<Rightarrow> bool \<Rightarrow> loop_next" where
  "read_rec bs p want_header =
     (if p + sizeof_rec_data > length bs then Out_of_bounds
      else
        let reqid = word_at bs (p + 4);
            klen = unat (word_at bs (p + 8));
            dlen = unat (word_at bs (p + 12));
            start = p + sizeof_rec_data
        in case slice bs start klen of
             None \<Rightarrow> Out_of_bounds
           | Some key \<Rightarrow>
               if want_header \<and> dlen < sizeof_header then Null
               else (case slice bs (start + klen) dlen of
                       None \<Rightarrow> Out_of_bounds
                     | Some d \<Rightarrow>
                         if want_header then Next p reqid (Some (header_of_bytes d)) key (drop sizeof_header d)
                         else Next p reqid None key d))"

definition ctdb_marshall_loop_next :: "ctdb_marshall_buffer \<Rightarrow> nat option \<Rightarrow> bool \<Rightarrow> loop_next" where
  "ctdb_marshall_loop_next m r want_header =
     (case next_pos (m_data m) r of None \<Rightarrow> Out_of_bounds | Some p \<Rightarrow> read_rec (m_data m) p want_header)"

text \<open>The loop of the callers, as often as the count of the buffer says.\<close>

type_synonym rec_entry = "u32 \<times> ctdb_ltdb_header option \<times> u8 list \<times> u8 list"

fun unmarshall :: "ctdb_marshall_buffer \<Rightarrow> bool \<Rightarrow> nat \<Rightarrow> nat option \<Rightarrow> rec_entry list option" where
  "unmarshall m want_header 0 r = Some []"
| "unmarshall m want_header (Suc n) r =
     (case ctdb_marshall_loop_next m r want_header of
        Next p reqid h key data \<Rightarrow> map_option (Cons (reqid, h, key, data)) (unmarshall m want_header n (Some p))
      | _ \<Rightarrow> None)"

definition marshall_all :: "u64 \<Rightarrow> rec_entry list \<Rightarrow> ctdb_marshall_buffer option" where
  "marshall_all db_id recs =
     fold (\<lambda>(reqid, h, key, data) m. Some (ctdb_marshall_add m db_id reqid key h data)) recs None"

section \<open>Reading back what was written\<close>

fun rec_size :: "rec_entry \<Rightarrow> nat" where
  "rec_size (reqid, h, key, data) =
     sizeof_rec_data + length key + length data + (case h of None \<Rightarrow> 0 | Some h \<Rightarrow> sizeof_header)"

fun rec_bytes :: "rec_entry \<Rightarrow> u8 list" where
  "rec_bytes (reqid, h, key, data) = bytes_of_rec (ctdb_marshall_record reqid key h data)"

fun has_header :: "rec_entry \<Rightarrow> bool" where
  "has_header (reqid, h, key, data) = (h \<noteq> None)"

lemma length_rec_bytes: "length (rec_bytes e) = rec_size e"
  by (cases e) (auto simp: bytes_of_rec_def ctdb_marshall_record_def Let_def sizeof_rec_data_def split: option.splits)

lemma slice_append: "length xs = i \<Longrightarrow> length ys = n \<Longrightarrow> slice (xs @ ys @ zs) i n = Some ys"
  by (auto simp: slice_def)

lemma unat_fits: "n < 2 ^ 32 \<Longrightarrow> unat (of_nat n :: u32) = n"
  by (rule unat_of_nat_small) simp

lemma word_at_length: "word_at (pre @ rec_bytes e @ post) (length pre) = of_nat (rec_size e)"
  by (cases e) (auto simp: bytes_of_rec_def ctdb_marshall_record_def Let_def word_at_skip split: option.splits)

lemma read_rec_marshalled:
  assumes "rec_size (reqid, h, key, data) < 2 ^ 32"
  shows "read_rec (pre @ rec_bytes (reqid, h, key, data) @ post) (length pre) (h \<noteq> None) =
    Next (length pre) reqid h key data"
proof -
  let ?hd = "case h of None \<Rightarrow> [] | Some h \<Rightarrow> bytes_of_header h"
  let ?r = "ctdb_marshall_record reqid key h data"
  let ?bs = "pre @ rec_bytes (reqid, h, key, data) @ post"
  have bs: "?bs = (pre @ bytes_of_u32 (rec_length ?r) @ bytes_of_u32 reqid @ bytes_of_u32 (of_nat (length key)) @
      bytes_of_u32 (datalen ?r)) @ key @ (?hd @ data) @ post"
    by (simp add: bytes_of_rec_def ctdb_marshall_record_def Let_def)
  have dl: "unat (datalen ?r) = length (?hd @ data)" and kl: "unat (of_nat (length key) :: u32) = length key"
    using assms unat_fits [of "length key"] unat_fits [of "length data"] unat_fits [of "length data + sizeof_header"]
    by (auto simp: ctdb_marshall_record_def Let_def sizeof_header_def simp del: of_nat_add split: option.splits)
  have w: "word_at ?bs (length pre + 4) = reqid" "word_at ?bs (length pre + 8) = of_nat (length key)"
    "word_at ?bs (length pre + 12) = datalen ?r"
    unfolding bs by (simp_all add: word_at_skip)
  have k: "slice ?bs (length pre + sizeof_rec_data) (length key) = Some key"
    unfolding bs by (rule slice_append) (simp_all add: sizeof_rec_data_def)
  have d: "slice ?bs (length pre + sizeof_rec_data + length key) (length (?hd @ data)) = Some (?hd @ data)"
    unfolding bs append_assoc [symmetric, of _ key] by (rule slice_append) (simp_all add: sizeof_rec_data_def)
  have len: "\<not> length pre + sizeof_rec_data > length ?bs" unfolding bs by (simp add: sizeof_rec_data_def)
  show ?thesis
    using len d unfolding read_rec_def w kl dl k Let_def
    by (cases h) (simp_all add: sizeof_header_def)
qed

lemma unmarshall_from:
  assumes "\<forall>e \<in> set es. rec_size e < 2 ^ 32 \<and> has_header e = want"
    and "next_pos (m_data m) r = Some (length pre)" and "m_data m = pre @ concat (map rec_bytes es)"
  shows "unmarshall m want (length es) r = Some es"
  using assms
proof (induction es arbitrary: r pre)
  case (Cons e es)
  obtain reqid h key data where e: "e = (reqid, h, key, data)" by (cases e)
  have "read_rec (m_data m) (length pre) want = Next (length pre) reqid h key data"
    using read_rec_marshalled [of reqid h key data pre "concat (map rec_bytes es)"] Cons.prems by (auto simp: e)
  moreover have "unmarshall m want (length es) (Some (length pre)) = Some es"
  proof (rule Cons.IH [of _ "pre @ rec_bytes e"])
    have "unat (word_at (m_data m) (length pre)) = rec_size e"
      using Cons.prems(1,3) word_at_length [of pre e] unat_fits [of "rec_size e"] by simp
    moreover have "length pre + 4 \<le> length (m_data m)"
      using Cons.prems(3) length_rec_bytes [of e] by (simp add: e sizeof_rec_data_def)
    ultimately show "next_pos (m_data m) (Some (length pre)) = Some (length (pre @ rec_bytes e))"
      by (simp add: next_pos_def length_rec_bytes)
  qed (use Cons.prems in auto)
  ultimately show ?case using Cons.prems(2) by (simp add: ctdb_marshall_loop_next_def e)
qed simp

lemma marshall_all_append:
  "fold (\<lambda>(reqid, h, key, data) m. Some (ctdb_marshall_add m db_id reqid key h data)) es (Some m) =
     Some (m\<lparr>m_data := m_data m @ concat (map rec_bytes es), m_count := m_count m + of_nat (length es)\<rparr>)"
proof (induction es arbitrary: m)
  case (Cons e es)
  obtain reqid h key data where e: "e = (reqid, h, key, data)" by (cases e)
  show ?case using Cons.IH by (simp add: e ctdb_marshall_add_def Let_def algebra_simps)
qed simp

lemma marshall_all_Cons:
  "marshall_all db_id (e # es) =
     Some \<lparr>m_db_id = ucast db_id, m_count = of_nat (length (e # es)), m_data = concat (map rec_bytes (e # es))\<rparr>"
proof -
  obtain reqid h key data where e: "e = (reqid, h, key, data)" by (cases e)
  have "ctdb_marshall_add None db_id reqid key h data =
      \<lparr>m_db_id = ucast db_id, m_count = 1, m_data = rec_bytes e\<rparr>" by (simp add: e ctdb_marshall_add_def Let_def)
  then show ?thesis by (simp add: marshall_all_def e marshall_all_append)
qed

lemma buffer_of_finish [simp]: "buffer_of_bytes (ctdb_marshall_finish m) = m"
  by (simp add: buffer_of_bytes_def ctdb_marshall_finish_def word_at_skip sizeof_marshall_buffer_def)

text \<open>
  C36: records marshalled one after the other, sent as a blob and looped over by the receiver come
  out unchanged and in order, as long as no record reaches 4 GB, their number fits its 32-bit count
  and either all of them carry a header or none does.
\<close>

theorem marshall_roundtrip:
  assumes "recs \<noteq> []" "\<forall>e \<in> set recs. rec_size e < 2 ^ 32 \<and> has_header e = want_header" "length recs < 2 ^ 32"
    and "marshall_all db_id recs = Some m"
  shows "unmarshall (buffer_of_bytes (ctdb_marshall_finish m)) want_header
      (unat (m_count (buffer_of_bytes (ctdb_marshall_finish m)))) None = Some recs \<and>
    m_db_id (buffer_of_bytes (ctdb_marshall_finish m)) = ucast db_id"
proof -
  from assms(1) obtain e es where recs: "recs = e # es" by (cases recs) auto
  have m: "m = \<lparr>m_db_id = ucast db_id, m_count = of_nat (length recs), m_data = concat (map rec_bytes recs)\<rparr>"
    using assms(4) unfolding recs marshall_all_Cons by simp
  have "unat (of_nat (length recs) :: u32) = length recs" using assms(3) by (rule unat_fits)
  then show ?thesis
    using unmarshall_from [OF assms(2), of m None "[]"] by (simp add: m next_pos_def)
qed

theorem marshall_roundtrip_witness:
  "\<exists>m. marshall_all 7 [(1, None, [1, 2], [3]), (2, None, [4], [])] = Some m \<and>
     unmarshall (buffer_of_bytes (ctdb_marshall_finish m)) False 2 None =
       Some [(1, None, [1, 2], [3]), (2, None, [4], [])]"
proof -
  obtain m where m: "marshall_all 7 [(1, None, [1, 2], [3]), (2, None, [4], [])] = Some m" "m_count m = 2"
    by (simp add: marshall_all_Cons)
  then show ?thesis
    using marshall_roundtrip [of "[(1, None, [1, 2], [3]), (2, None, [4], [])]" False 7 m]
    by (simp add: sizeof_rec_data_def)
qed

end
