(* ===== verification/Ltdb.thy ===== *)
theory Ltdb
  imports Marshall
begin

text \<open>
  The local copy of a database: \<^verbatim>\<open>common/ctdb_ltdb.c\<close>, the store function of the daemon in
  \<^verbatim>\<open>server/ctdb_ltdb_server.c\<close> and the queue of records to be deleted of \<^verbatim>\<open>server/ctdb_vacuum.c\<close>.
  The tdb file itself is a map from keys to records whose writes may fail; the red-black tree of the
  delete queue is a map from hashes.  Memory allocation does not fail and the torture mode is off.
\<close>

section \<open>State\<close>

record ctdb_vnn_map =
  generation :: u32
  vmap :: "u32 list"

record ltdb_context =
  pnn :: u32
  vnn_map :: "ctdb_vnn_map option"
  main_daemon :: bool
  can_send_controls :: bool

record delete_record_data =
  dd_key :: "u8 list"
  dd_hdr :: ctdb_ltdb_header

record ctdb_db_context =
  db_id :: u32
  persistent :: bool
  readonly :: bool
  sticky :: bool
  ctdb_ltdb_store_fn :: bool
  seqnum_update :: bool
  ltdb :: "u8 list \<rightharpoonup> u8 list"
  tdb_seqnum :: u32
  chainlocks :: "u8 list \<Rightarrow> nat"
  rottdb :: "u8 list \<rightharpoonup> u8 list"
  delete_queue :: "u32 \<rightharpoonup> delete_record_data"
  deletion_controls :: "(ctdb_ltdb_header \<times> u8 list) list"

text \<open>
  Whether the write of a record, or with \<open>None\<close> the deletion of the record, under a key succeeds.
\<close>

type_synonym tdb_io = "u8 list \<Rightarrow> u8 list option \<Rightarrow> bool"

definition tdb_store :: "tdb_io \<Rightarrow> bool \<Rightarrow> u8 list \<Rightarrow> u8 list \<Rightarrow> 'a ctdb_db_context_scheme \<Rightarrow> int \<times> 'a ctdb_db_context_scheme" where
  "tdb_store io seqnum key r db =
     (if io key (Some r) then
        (0, db\<lparr>ltdb := (ltdb db)(key \<mapsto> r), tdb_seqnum := tdb_seqnum db + (if seqnum then 1 else 0)\<rparr>)
      else (-1, db))"

definition tdb_delete :: "tdb_io \<Rightarrow> bool \<Rightarrow> u8 list \<Rightarrow> 'a ctdb_db_context_scheme \<Rightarrow> int \<times> 'a ctdb_db_context_scheme" where
  "tdb_delete io seqnum key db =
     (if ltdb db key \<noteq> None \<and> io key None then
        (0, db\<lparr>ltdb := (ltdb db)(key := None), tdb_seqnum := tdb_seqnum db + (if seqnum then 1 else 0)\<rparr>)
      else (-1, db))"

section \<open>Where a record lives\<close>

definition ctdb_hash :: "u8 list \<Rightarrow> u32" where
  "ctdb_hash key = tdb_jenkins_hash True 0 key"

definition ctdb_lmaster :: "ctdb_vnn_map \<Rightarrow> u8 list \<Rightarrow> u32" where
  "ctdb_lmaster m key = vmap m ! (unat (ctdb_hash key) mod length (vmap m))"

definition zero_header :: ctdb_ltdb_header where
  "zero_header = \<lparr>rsn = 0, dmaster = 0, reserved1 = 0, hflags = 0\<rparr>"

definition ltdb_initial_header :: "ctdb_vnn_map \<Rightarrow> u8 list \<Rightarrow> ctdb_ltdb_header" where
  "ltdb_initial_header m key = zero_header\<lparr>dmaster := ctdb_lmaster m key, hflags := CTDB_REC_FLAG_AUTOMATIC\<rparr>"

section \<open>The delete queue\<close>

definition insert_delete_record_data_into_tree ::
    "(u32 \<rightharpoonup> delete_record_data) \<Rightarrow> ctdb_ltdb_header \<Rightarrow> u8 list \<Rightarrow> (u32 \<rightharpoonup> delete_record_data)" where
  "insert_delete_record_data_into_tree tree hdr key = tree(ctdb_hash key \<mapsto> \<lparr>dd_key = key, dd_hdr = hdr\<rparr>)"

definition insert_record_into_delete_queue ::
    "'a ctdb_db_context_scheme \<Rightarrow> ctdb_ltdb_header \<Rightarrow> u8 list \<Rightarrow> 'a ctdb_db_context_scheme" where
  "insert_record_into_delete_queue db hdr key =
     (case delete_queue db (ctdb_hash key) of
        Some kd \<Rightarrow>
          if dd_key kd \<noteq> key then db
          else db\<lparr>delete_queue := insert_delete_record_data_into_tree (delete_queue db) hdr key\<rparr>
      | None \<Rightarrow> db\<lparr>delete_queue := insert_delete_record_data_into_tree (delete_queue db) hdr key\<rparr>)"

definition remove_record_from_delete_queue :: "'a ctdb_db_context_scheme \<Rightarrow> u8 list \<Rightarrow> 'a ctdb_db_context_scheme" where
  "remove_record_from_delete_queue db key =
     (case delete_queue db (ctdb_hash key) of
        None \<Rightarrow> db
      | Some kd \<Rightarrow>
          if dd_key kd \<noteq> key then db
          else db\<lparr>delete_queue := (delete_queue db)(ctdb_hash key := None)\<rparr>)"

text \<open>A child process cannot change the queue; it sends a control to the daemon instead.\<close>

definition ctdb_local_schedule_for_deletion ::
    "'c ltdb_context_scheme \<Rightarrow> 'a ctdb_db_context_scheme \<Rightarrow> ctdb_ltdb_header \<Rightarrow> u8 list \<Rightarrow> 'a ctdb_db_context_scheme" where
  "ctdb_local_schedule_for_deletion ctdb db hdr key =
     (if main_daemon ctdb then insert_record_into_delete_queue db hdr key
      else if \<not> can_send_controls ctdb then db
      else db\<lparr>deletion_controls := deletion_controls db @ [(hdr, key)]\<rparr>)"

definition ctdb_local_remove_from_delete_queue ::
    "'c ltdb_context_scheme \<Rightarrow> 'a ctdb_db_context_scheme \<Rightarrow> u8 list \<Rightarrow> 'a ctdb_db_context_scheme" where
  "ctdb_local_remove_from_delete_queue ctdb db key =
     (if \<not> main_daemon ctdb then db else remove_record_from_delete_queue db key)"

section \<open>Storing and fetching\<close>

text \<open>Whether a new record only differs from the old one in its header.\<close>

definition same_data :: "u8 list option \<Rightarrow> u8 list \<Rightarrow> bool" where
  "same_data old r =
     (case old of None \<Rightarrow> False
      | Some old \<Rightarrow> length old = length r \<and> drop sizeof_header old = drop sizeof_header r)"

text \<open>
  The decision of the daemon about a record it stores: whether it is kept or deleted, and whether
  it is put on the delete queue at once.
\<close>

definition store_keep :: "u32 \<Rightarrow> u32 \<Rightarrow> bool \<Rightarrow> ctdb_ltdb_header \<Rightarrow> u8 list \<Rightarrow> bool \<times> bool" where
  "store_keep self lmaster pers header data =
     (if data \<noteq> [] then (True, False)
      else if has_flag (hflags header) CTDB_REC_RO_FLAGS then (True, False)
      else if pers then (True, False)
      else if has_flag (hflags header) CTDB_REC_FLAG_AUTOMATIC then (True, True)
      else if has_flag (hflags header) CTDB_REC_FLAG_MIGRATED_WITH_DATA then (True, False)
      else if self = lmaster then
        (\<not> has_flag (hflags header) CTDB_REC_FLAG_VACUUM_MIGRATED \<or> self \<noteq> dmaster header, False)
      else (self = dmaster header, False))"

definition store_record ::
    "tdb_io \<Rightarrow> 'c ltdb_context_scheme \<Rightarrow> 'a ctdb_db_context_scheme \<Rightarrow> u8 list \<Rightarrow> ctdb_ltdb_header \<Rightarrow> u8 list \<Rightarrow>
     bool \<Rightarrow> bool \<Rightarrow> bool \<Rightarrow> int \<times> ctdb_ltdb_header \<times> 'a ctdb_db_context_scheme" where
  "store_record io ctdb db key header data keep schedule_for_deletion remove_from_delete_queue =
     (let header = header\<lparr>hflags := hflags header AND NOT CTDB_REC_FLAG_VACUUM_MIGRATED AND NOT CTDB_REC_FLAG_AUTOMATIC\<rparr>;
          r = bytes_of_header header @ data;
          seqnum_suppressed = (seqnum_update db \<and> same_data (ltdb db key) r);
          seqnum = (seqnum_update db \<and> \<not> seqnum_suppressed);
          (ret, db) = (if keep then tdb_store io seqnum key r db else tdb_delete io seqnum key db);
          schedule_for_deletion = (schedule_for_deletion \<and> ret = 0);
          remove_from_delete_queue = (remove_from_delete_queue \<and> ret = 0);
          db = (if schedule_for_deletion then ctdb_local_schedule_for_deletion ctdb db header key else db);
          db = (if remove_from_delete_queue then ctdb_local_remove_from_delete_queue ctdb db key else db)
      in (ret, header, db))"

text \<open>The header is updated in place, so the caller sees its new sequence number and flags.\<close>

definition ctdb_ltdb_store_server ::
    "tdb_io \<Rightarrow> 'c ltdb_context_scheme \<Rightarrow> 'a ctdb_db_context_scheme \<Rightarrow> u8 list \<Rightarrow> ctdb_ltdb_header \<Rightarrow> u8 list \<Rightarrow>
     int \<times> ctdb_ltdb_header \<times> 'a ctdb_db_context_scheme" where
  "ctdb_ltdb_store_server io ctdb db key header data =
     (case vnn_map ctdb of
        None \<Rightarrow> store_record io ctdb db key header data True False False
      | Some m \<Rightarrow>
          let (keep, schedule_for_deletion) = store_keep (pnn ctdb) (ctdb_lmaster m key) (persistent db) header data;
              own = (keep \<and> \<not> persistent db \<and> pnn ctdb = dmaster header \<and> \<not> has_flag (hflags header) CTDB_REC_RO_FLAGS);
              header = (if own then header\<lparr>rsn := rsn header + 1\<rparr> else header);
              schedule_for_deletion = (schedule_for_deletion \<or> (own \<and> data = []));
              remove_from_delete_queue = (keep \<and> \<not> schedule_for_deletion)
          in store_record io ctdb db key header data keep schedule_for_deletion remove_from_delete_queue)"

definition ctdb_ltdb_store ::
    "tdb_io \<Rightarrow> 'c ltdb_context_scheme \<Rightarrow> 'a ctdb_db_context_scheme \<Rightarrow> u8 list \<Rightarrow> ctdb_ltdb_header \<Rightarrow> u8 list \<Rightarrow>
     int \<times> ctdb_ltdb_header \<times> 'a ctdb_db_context_scheme" where
  "ctdb_ltdb_store io ctdb db key header data =
     (if ctdb_ltdb_store_fn db then ctdb_ltdb_store_server io ctdb db key header data
      else
        let r = bytes_of_header header @ data;
            seqnum_suppressed = (seqnum_update db \<and> same_data (ltdb db key) r);
            (ret, db) = tdb_store io (seqnum_update db \<and> \<not> seqnum_suppressed) key r db
        in (ret, header, db))"

text \<open>
  Fetching creates a record with an initial header where there is none.  The header argument holds
  what the memory of the caller contained before.
\<close>

definition ctdb_ltdb_fetch ::
    "tdb_io \<Rightarrow> 'c ltdb_context_scheme \<Rightarrow> 'a ctdb_db_context_scheme \<Rightarrow> u8 list \<Rightarrow> ctdb_ltdb_header \<Rightarrow>
     int \<times> ctdb_ltdb_header \<times> u8 list \<times> 'a ctdb_db_context_scheme" where
  "ctdb_ltdb_fetch io ctdb db key header =
     (let r = (case ltdb db key of None \<Rightarrow> [] | Some r \<Rightarrow> r)
      in if length r < sizeof_header then
           (case vnn_map ctdb of
              None \<Rightarrow> (-1, header\<lparr>dmaster := -1\<rparr>, [], db)
            | Some m \<Rightarrow>
                let header = ltdb_initial_header m key
                in if persistent db \<or> dmaster header = pnn ctdb then
                     let (ret, header, db) = ctdb_ltdb_store io ctdb db key header []
                     in (0, header, [], db)
                   else (0, header, [], db))
         else (0, header_of_bytes r, drop sizeof_header r, db))"

definition ctdb_ltdb_fetch_with_header :: "'a ctdb_db_context_scheme \<Rightarrow> u8 list \<Rightarrow> (ctdb_ltdb_header \<times> u8 list) option" where
  "ctdb_ltdb_fetch_with_header db key =
     (let r = (case ltdb db key of None \<Rightarrow> [] | Some r \<Rightarrow> r)
      in if length r < sizeof_header then None else Some (header_of_bytes r, drop sizeof_header r))"

definition ctdb_ltdb_delete :: "tdb_io \<Rightarrow> 'a ctdb_db_context_scheme \<Rightarrow> u8 list \<Rightarrow> int \<times> 'a ctdb_db_context_scheme" where
  "ctdb_ltdb_delete io db key = (if persistent db then (0, db) else tdb_delete io (seqnum_update db) key db)"

section \<open>Locking\<close>

definition ctdb_ltdb_lock :: "bool \<Rightarrow> 'a ctdb_db_context_scheme \<Rightarrow> u8 list \<Rightarrow> int \<times> 'a ctdb_db_context_scheme" where
  "ctdb_ltdb_lock ok db key =
     (if ok then (0, db\<lparr>chainlocks := (chainlocks db)(key := Suc (chainlocks db key))\<rparr>) else (-1, db))"

definition ctdb_ltdb_unlock :: "'a ctdb_db_context_scheme \<Rightarrow> u8 list \<Rightarrow> int \<times> 'a ctdb_db_context_scheme" where
  "ctdb_ltdb_unlock db key =
     (case chainlocks db key of
        0 \<Rightarrow> (-1, db)
      | Suc n \<Rightarrow> (0, db\<lparr>chainlocks := (chainlocks db)(key := n)\<rparr>))"

text \<open>
  What the attempt to lock a chain without waiting gives: the lock, an error, or contention, after
  which the request for the lock is queued or cannot be queued.
\<close>

datatype lock_outcome = Lock_ok | Lock_error | Lock_contended bool

definition ctdb_ltdb_lock_requeue ::
    "lock_outcome \<Rightarrow> 'a ctdb_db_context_scheme \<Rightarrow> u8 list \<Rightarrow> int \<times> 'a ctdb_db_context_scheme" where
  "ctdb_ltdb_lock_requeue lock db key =
     (case lock of
        Lock_ok \<Rightarrow> ctdb_ltdb_lock True db key
      | Lock_error \<Rightarrow> (-1, db)
      | Lock_contended queued \<Rightarrow> (if queued then -2 else -1, db))"

definition ctdb_ltdb_lock_fetch_requeue ::
    "tdb_io \<Rightarrow> lock_outcome \<Rightarrow> 'c ltdb_context_scheme \<Rightarrow> 'a ctdb_db_context_scheme \<Rightarrow> u8 list \<Rightarrow> ctdb_ltdb_header \<Rightarrow>
     int \<times> ctdb_ltdb_header \<times> u8 list \<times> 'a ctdb_db_context_scheme" where
  "ctdb_ltdb_lock_fetch_requeue io lock ctdb db key header =
     (let (ret, db) = ctdb_ltdb_lock_requeue lock db key
      in if ret = 0 then
           let (ret, header, data, db) = ctdb_ltdb_fetch io ctdb db key header
           in if ret \<noteq> 0 then (ret, header, data, snd (ctdb_ltdb_unlock db key)) else (ret, header, data, db)
         else (ret, header, [], db))"

section \<open>Tracking of read-only copies\<close>

definition ctdb_trackingdb_add_pnn :: "u8 list \<Rightarrow> u32 \<Rightarrow> u8 list" where
  "ctdb_trackingdb_add_pnn data p =
     (let byte_pos = unat p div 8;
          bit_mask = push_bit (unat p mod 8) 1;
          buf = (if byte_pos + 1 > length data then data @ replicate (byte_pos + 1 - length data) 0 else data)
      in buf[byte_pos := buf ! byte_pos OR bit_mask])"

text \<open>The node numbers in the order in which the callback sees them.\<close>

definition ctdb_trackingdb_traverse :: "u8 list \<Rightarrow> nat list" where
  "ctdb_trackingdb_traverse data =
     concat (map (\<lambda>i. map (\<lambda>j. i * 8 + j) (filter (\<lambda>j. data ! i AND push_bit j 1 \<noteq> 0) [0..<8])) [0..<length data])"

section \<open>What storing does\<close>

lemma has_flag_0 [simp]: "\<not> has_flag 0 m"
  by (simp add: has_flag_def)

text \<open>The header as it is written: the two flags that only steer the store are cleared.\<close>

definition stored_flags :: "u32 \<Rightarrow> u32" where
  "stored_flags f = f AND NOT CTDB_REC_FLAG_VACUUM_MIGRATED AND NOT CTDB_REC_FLAG_AUTOMATIC"

lemma bit_stored_flags:
  "bit (stored_flags f) n \<longleftrightarrow> bit f n \<and> \<not> bit CTDB_REC_FLAG_VACUUM_MIGRATED n \<and> \<not> bit CTDB_REC_FLAG_AUTOMATIC n"
  by (auto simp: stored_flags_def bit_and_iff bit_not_iff dest: bit_imp_le_length)

lemma has_flag_bit: "has_flag f m \<longleftrightarrow> (\<exists>n. bit f n \<and> bit m n)"
  by (fastforce simp: has_flag_def bit_eq_iff bit_and_iff dest: bit_imp_le_length)

lemma has_flag_stored:
  "\<not> has_flag (stored_flags f) CTDB_REC_FLAG_VACUUM_MIGRATED"
  "\<not> has_flag (stored_flags f) CTDB_REC_FLAG_AUTOMATIC"
  by (auto simp: has_flag_bit bit_stored_flags)

lemma has_flag_stored_other:
  assumes "\<not> has_flag m CTDB_REC_FLAG_VACUUM_MIGRATED" "\<not> has_flag m CTDB_REC_FLAG_AUTOMATIC"
  shows "has_flag (stored_flags f) m = has_flag f m"
  using assms by (auto simp: has_flag_bit bit_stored_flags)

lemma has_flag_stored_flags [simp]:
  "has_flag (stored_flags f) CTDB_REC_FLAG_MIGRATED_WITH_DATA = has_flag f CTDB_REC_FLAG_MIGRATED_WITH_DATA"
  "has_flag (stored_flags f) CTDB_REC_RO_FLAGS = has_flag f CTDB_REC_RO_FLAGS"
  by (rule has_flag_stored_other; simp add: has_flag_def CTDB_REC_FLAG_AUTOMATIC_def CTDB_REC_FLAG_VACUUM_MIGRATED_def
    CTDB_REC_FLAG_MIGRATED_WITH_DATA_def CTDB_REC_RO_FLAGS_def CTDB_REC_RO_HAVE_DELEGATIONS_def CTDB_REC_RO_HAVE_READONLY_def
    CTDB_REC_RO_REVOKING_READONLY_def CTDB_REC_RO_REVOKE_COMPLETE_def)+

text \<open>The parts of the state that storing and queueing leave alone.\<close>

definition db_same :: "'a ctdb_db_context_scheme \<Rightarrow> 'a ctdb_db_context_scheme \<Rightarrow> bool" where
  "db_same db db' \<longleftrightarrow>
     db_id db' = db_id db \<and> persistent db' = persistent db \<and> readonly db' = readonly db \<and> sticky db' = sticky db \<and>
     ctdb_ltdb_store_fn db' = ctdb_ltdb_store_fn db \<and> seqnum_update db' = seqnum_update db \<and>
     chainlocks db' = chainlocks db \<and> rottdb db' = rottdb db \<and>
     ctdb_db_context.more db' = ctdb_db_context.more db"

lemma db_same_refl [simp]: "db_same db db"
  by (simp add: db_same_def)

lemma db_same_trans: "db_same a b \<Longrightarrow> db_same b c \<Longrightarrow> db_same a c"
  by (simp add: db_same_def)

lemma queue_same [simp]:
  "db_same db (insert_record_into_delete_queue db hdr key)"
  "db_same db (remove_record_from_delete_queue db key)"
  "db_same db (ctdb_local_schedule_for_deletion ctdb db hdr key)"
  "db_same db (ctdb_local_remove_from_delete_queue ctdb db key)"
  by (auto simp: db_same_def insert_record_into_delete_queue_def remove_record_from_delete_queue_def
    ctdb_local_schedule_for_deletion_def ctdb_local_remove_from_delete_queue_def split: option.splits)

lemma queue_ltdb [simp]:
  "ltdb (insert_record_into_delete_queue db hdr key) = ltdb db"
  "ltdb (remove_record_from_delete_queue db key) = ltdb db"
  "ltdb (ctdb_local_schedule_for_deletion ctdb db hdr key) = ltdb db"
  "ltdb (ctdb_local_remove_from_delete_queue ctdb db key) = ltdb db"
  by (auto simp: insert_record_into_delete_queue_def remove_record_from_delete_queue_def
    ctdb_local_schedule_for_deletion_def ctdb_local_remove_from_delete_queue_def split: option.splits)

lemma remove_queue:
  "delete_queue (remove_record_from_delete_queue db key) =
     (if map_option dd_key (delete_queue db (ctdb_hash key)) = Some key then (delete_queue db)(ctdb_hash key := None)
      else delete_queue db)"
  by (auto simp: remove_record_from_delete_queue_def split: option.splits)

lemma insert_queue:
  "delete_queue (insert_record_into_delete_queue db hdr key) =
     (if delete_queue db (ctdb_hash key) = None \<or> map_option dd_key (delete_queue db (ctdb_hash key)) = Some key
      then (delete_queue db)(ctdb_hash key \<mapsto> \<lparr>dd_key = key, dd_hdr = hdr\<rparr>) else delete_queue db)"
  by (auto simp: insert_record_into_delete_queue_def insert_delete_record_data_into_tree_def split: option.splits)

lemma tdb_write_same: "db_same db (snd (tdb_store io b key r db))" "db_same db (snd (tdb_delete io b key db))"
  by (simp_all add: tdb_store_def tdb_delete_def db_same_def)

lemma store_record_result:
  assumes "store_record io ctdb db key header data keep sched rem = (ret, header', db')"
  shows "header' = header\<lparr>hflags := stored_flags (hflags header)\<rparr>" "db_same db db'"
    "ret = 0 \<longleftrightarrow> (if keep then io key (Some (bytes_of_header header' @ data)) else ltdb db key \<noteq> None \<and> io key None)"
    "ltdb db' = (if ret = 0 then (ltdb db)(key := if keep then Some (bytes_of_header header' @ data) else None) else ltdb db)"
    "ret = 0 \<Longrightarrow> main_daemon ctdb \<Longrightarrow> delete_queue db' =
       (let q = (if sched then delete_queue (insert_record_into_delete_queue db header' key) else delete_queue db)
        in if rem \<and> map_option dd_key (q (ctdb_hash key)) = Some key then q(ctdb_hash key := None) else q)"
proof -
  let ?h = "header\<lparr>hflags := stored_flags (hflags header)\<rparr>"
  let ?r = "bytes_of_header ?h @ data"
  let ?sq = "seqnum_update db \<and> \<not> (seqnum_update db \<and> same_data (ltdb db key) ?r)"
  define w where "w = (if keep then tdb_store io ?sq key ?r db else tdb_delete io ?sq key db)"
  define q where "q = (if sched \<and> fst w = 0 then ctdb_local_schedule_for_deletion ctdb (snd w) ?h key else snd w)"
  have "store_record io ctdb db key header data keep sched rem =
      (fst w, ?h, if rem \<and> fst w = 0 then ctdb_local_remove_from_delete_queue ctdb q key else q)"
    unfolding store_record_def Let_def w_def q_def stored_flags_def split_beta by (simp only: fst_conv snd_conv)
  then have res: "ret = fst w" "header' = ?h"
    "db' = (if rem \<and> fst w = 0 then ctdb_local_remove_from_delete_queue ctdb q key else q)"
    using assms by auto
  show "header' = ?h" by (fact res)
  have "db_same db (snd w)" by (simp add: w_def tdb_write_same)
  then show "db_same db db'" by (auto simp: res q_def) (meson db_same_trans queue_same)+
  show "ret = 0 \<longleftrightarrow> (if keep then io key (Some (bytes_of_header header' @ data)) else ltdb db key \<noteq> None \<and> io key None)"
    by (simp add: res w_def tdb_store_def tdb_delete_def)
  show "ltdb db' = (if ret = 0 then (ltdb db)(key := if keep then Some (bytes_of_header header' @ data) else None) else ltdb db)"
    by (simp add: res q_def) (simp add: w_def tdb_store_def tdb_delete_def)
  have dq: "delete_queue (snd w) = delete_queue db" by (simp add: w_def tdb_store_def tdb_delete_def)
  assume "ret = 0" "main_daemon ctdb"
  then show "delete_queue db' =
       (let q = (if sched then delete_queue (insert_record_into_delete_queue db header' key) else delete_queue db)
        in if rem \<and> map_option dd_key (q (ctdb_hash key)) = Some key then q(ctdb_hash key := None) else q)"
    unfolding res(2,3) q_def Let_def
    by (cases sched; cases rem)
      (simp_all add: res(1) ctdb_local_schedule_for_deletion_def ctdb_local_remove_from_delete_queue_def
        remove_queue insert_queue dq del: map_option_eq_Some cong: if_cong split del: if_split)
qed

text \<open>The same for the store of the daemon.\<close>

definition owned :: "'c ltdb_context_scheme \<Rightarrow> 'a ctdb_db_context_scheme \<Rightarrow> ctdb_ltdb_header \<Rightarrow> bool" where
  "owned ctdb db header \<longleftrightarrow>
     \<not> persistent db \<and> pnn ctdb = dmaster header \<and> \<not> has_flag (hflags header) CTDB_REC_RO_FLAGS"

lemma store_server_result:
  assumes "vnn_map ctdb = Some m" "ctdb_ltdb_store_server io ctdb db key header data = (ret, header', db')"
    and "store_keep (pnn ctdb) (ctdb_lmaster m key) (persistent db) header data = (keep, sched)"
  shows "header' = header\<lparr>rsn := (if keep \<and> owned ctdb db header then rsn header + 1 else rsn header),
      hflags := stored_flags (hflags header)\<rparr>" "db_same db db'"
    "ret = 0 \<longleftrightarrow> (if keep then io key (Some (bytes_of_header header' @ data)) else ltdb db key \<noteq> None \<and> io key None)"
    "ltdb db' = (if ret = 0 then (ltdb db)(key := if keep then Some (bytes_of_header header' @ data) else None) else ltdb db)"
    "ret = 0 \<Longrightarrow> main_daemon ctdb \<Longrightarrow> delete_queue db' =
       (let s = (sched \<or> (keep \<and> owned ctdb db header \<and> data = []));
            q = (if s then delete_queue (insert_record_into_delete_queue db header' key) else delete_queue db)
        in if keep \<and> \<not> s \<and> map_option dd_key (q (ctdb_hash key)) = Some key then q(ctdb_hash key := None) else q)"
proof -
  let ?own = "keep \<and> owned ctdb db header"
  let ?h = "if ?own then header\<lparr>rsn := rsn header + 1\<rparr> else header"
  have "store_record io ctdb db key ?h data keep (sched \<or> (?own \<and> data = [])) (keep \<and> \<not> (sched \<or> (?own \<and> data = []))) =
      (ret, header', db')"
    using assms by (simp only: ctdb_ltdb_store_server_def owned_def option.simps Let_def split_beta fst_conv snd_conv)
  note R = store_record_result [OF this]
  show "header' = header\<lparr>rsn := (if keep \<and> owned ctdb db header then rsn header + 1 else rsn header),
      hflags := stored_flags (hflags header)\<rparr>" using R(1) by simp
  show "db_same db db'" by (fact R)
  show "ret = 0 \<longleftrightarrow> (if keep then io key (Some (bytes_of_header header' @ data)) else ltdb db key \<noteq> None \<and> io key None)"
    by (fact R)
  show "ltdb db' = (if ret = 0 then (ltdb db)(key := if keep then Some (bytes_of_header header' @ data) else None) else ltdb db)"
    by (fact R)
  assume "ret = 0" "main_daemon ctdb"
  from R(5) [OF this] show "delete_queue db' =
       (let s = (sched \<or> (keep \<and> owned ctdb db header \<and> data = []));
            q = (if s then delete_queue (insert_record_into_delete_queue db header' key) else delete_queue db)
        in if keep \<and> \<not> s \<and> map_option dd_key (q (ctdb_hash key)) = Some key then q(ctdb_hash key := None) else q)"
    by (simp only: Let_def conj_assoc)
qed

lemma store_keep_data: "data \<noteq> [] \<Longrightarrow> store_keep self lmaster pers header data = (True, False)"
  by (simp add: store_keep_def)

lemma store_keep_False:
  "store_keep self lmaster pers header data = (False, sched) \<Longrightarrow>
     data = [] \<and> \<not> pers \<and> \<not> sched \<and> \<not> has_flag (hflags header) CTDB_REC_FLAG_MIGRATED_WITH_DATA \<and>
     (self = dmaster header \<longleftrightarrow> self = lmaster)"
  by (auto simp: store_keep_def split: if_splits)



section \<open>Fetching\<close>

lemma fetch_stored:
  "ltdb db key = Some (bytes_of_header h @ data) \<Longrightarrow> ctdb_ltdb_fetch io ctdb db key h0 = (0, h, data, db)"
  by (simp add: ctdb_ltdb_fetch_def Let_def)

lemma fetch_missing:
  assumes "ltdb db key = None" "vnn_map ctdb = Some m"
  shows "\<exists>h db'. ctdb_ltdb_fetch io ctdb db key h0 = (0, h, [], db') \<and> dmaster h = ctdb_lmaster m key"
proof -
  let ?h = "ltdb_initial_header m key"
  have "dmaster (fst (snd (ctdb_ltdb_store io ctdb db key ?h []))) = dmaster ?h"
  proof (cases "ctdb_ltdb_store_fn db")
    case True
    obtain ret h' db' where st: "ctdb_ltdb_store_server io ctdb db key ?h [] = (ret, h', db')" by (cases "ctdb_ltdb_store_server io ctdb db key ?h []") auto
    obtain keep sched where "store_keep (pnn ctdb) (ctdb_lmaster m key) (persistent db) ?h [] = (keep, sched)" by fastforce
    from store_server_result(1) [OF assms(2) st this] st True show ?thesis by (simp add: ctdb_ltdb_store_def)
  qed (simp add: ctdb_ltdb_store_def Let_def split_beta)
  then show ?thesis
    using assms by (auto simp: ctdb_ltdb_fetch_def Let_def sizeof_header_def ltdb_initial_header_def split_beta)
qed

lemma store_server_fetch:
  assumes m: "vnn_map ctdb = Some m" and st: "ctdb_ltdb_store_server io ctdb db key header data = (0, header', db')"
  shows "\<exists>h db''. ctdb_ltdb_fetch io' ctdb db' key h0 = (0, h, data, db'') \<and>
    (dmaster h = pnn ctdb \<longleftrightarrow> dmaster header = pnn ctdb) \<and>
    (ltdb db' key \<noteq> None \<longrightarrow> h = header' \<and> db'' = db') \<and>
    (ltdb db' key = None \<longrightarrow> \<not> persistent db \<and> \<not> has_flag (hflags header) CTDB_REC_FLAG_MIGRATED_WITH_DATA)"
proof -
  obtain keep sched where k: "store_keep (pnn ctdb) (ctdb_lmaster m key) (persistent db) header data = (keep, sched)" by fastforce
  note R = store_server_result [OF m st k]
  show ?thesis
  proof (cases keep)
    case True
    then have "ltdb db' key = Some (bytes_of_header header' @ data)" using R(4) by simp
    from fetch_stored [OF this, of io' ctdb h0] show ?thesis using R(1) True R(4) by auto
  next
    case False
    with k have K: "data = []" "\<not> persistent db" "\<not> has_flag (hflags header) CTDB_REC_FLAG_MIGRATED_WITH_DATA"
      "pnn ctdb = dmaster header \<longleftrightarrow> pnn ctdb = ctdb_lmaster m key"
      using store_keep_False [of "pnn ctdb" "ctdb_lmaster m key" "persistent db" header data sched] by auto
    have none: "ltdb db' key = None" using R(4) False by simp
    from fetch_missing [OF this m, of io' h0] obtain h db'' where
      F: "ctdb_ltdb_fetch io' ctdb db' key h0 = (0, h, [], db'')" "dmaster h = ctdb_lmaster m key" by blast
    then have "dmaster h = pnn ctdb \<longleftrightarrow> dmaster header = pnn ctdb" using K(4) by metis
    then show ?thesis using F(1) none K(1-3) by simp
  qed
qed


section \<open>Properties\<close>

text \<open>
  C37: what the daemon stores is what it fetches.  After a successful store the data comes back, also
  where an empty record was deleted instead of being stored; the node is the data master afterwards
  exactly if the stored header says so; a record that was not deleted comes back with the header as
  the store left it, and only records of volatile databases that never carried data are deleted.
\<close>

theorem ltdb_store_fetch:
  assumes "vnn_map ctdb = Some m" "ctdb_ltdb_store_server io ctdb db key header data = (0, header', db')"
  shows "\<exists>h db''. ctdb_ltdb_fetch io' ctdb db' key h0 = (0, h, data, db'') \<and>
    (dmaster h = pnn ctdb \<longleftrightarrow> dmaster header = pnn ctdb) \<and>
    (ltdb db' key \<noteq> None \<longrightarrow> h = header' \<and> db'' = db') \<and>
    (ltdb db' key = None \<longrightarrow> \<not> persistent db \<and> \<not> has_flag (hflags header) CTDB_REC_FLAG_MIGRATED_WITH_DATA)"
  using assms by (rule store_server_fetch)

definition ex_ctdb :: ltdb_context where
  "ex_ctdb = \<lparr>pnn = 0, vnn_map = Some \<lparr>generation = 1, vmap = [0, 1]\<rparr>, main_daemon = True, can_send_controls = True\<rparr>"

definition ex_db :: ctdb_db_context where
  "ex_db = \<lparr>db_id = 7, persistent = False, readonly = False, sticky = False, ctdb_ltdb_store_fn = True,
     seqnum_update = False, ltdb = Map.empty, tdb_seqnum = 0, chainlocks = (\<lambda>_. 0), rottdb = Map.empty,
     delete_queue = Map.empty, deletion_controls = []\<rparr>"

theorem ltdb_store_fetch_witness:
  "\<exists>h' db' db''. ctdb_ltdb_store_server (\<lambda>_ _. True) ex_ctdb ex_db [1] zero_header [5, 6] = (0, h', db') \<and>
     ctdb_ltdb_fetch (\<lambda>_ _. True) ex_ctdb db' [1] zero_header = (0, h', [5, 6], db'')"
proof -
  obtain ret h' db' where st: "ctdb_ltdb_store_server (\<lambda>_ _. True) ex_ctdb ex_db [1] zero_header [5, 6] = (ret, h', db')"
    by (cases "ctdb_ltdb_store_server (\<lambda>_ _. True) ex_ctdb ex_db [1] zero_header [5, 6]") auto
  have m: "vnn_map ex_ctdb = Some \<lparr>generation = 1, vmap = [0, 1]\<rparr>" by (simp add: ex_ctdb_def)
  note R = store_server_result [OF m st store_keep_data]
  have "ret = 0" "ltdb db' [1] \<noteq> None" using R(3,4) by simp_all
  then show ?thesis using ltdb_store_fetch [OF m, of "\<lambda>_ _. True" ex_db "[1]" zero_header "[5, 6]" h' db' "\<lambda>_ _. True" zero_header] st
    by auto
qed

text \<open>The delete queue files records under the hash of their key.\<close>

definition queue_ok :: "'a ctdb_db_context_scheme \<Rightarrow> bool" where
  "queue_ok db \<longleftrightarrow> (\<forall>h dd. delete_queue db h = Some dd \<longrightarrow> ctdb_hash (dd_key dd) = h)"

text \<open>
  C38: the delete queue follows the stores of the daemon.  Entries stay filed under the hash of their
  key; after a store of data the key is not on the queue; after a store of an empty record that the
  node owns, the key is on the queue with the header as stored, unless another key with the same
  hash is in its place; other entries are untouched.
\<close>

theorem store_updates_delete_queue:
  assumes "vnn_map ctdb = Some m" "main_daemon ctdb" "queue_ok db"
    and "ctdb_ltdb_store_server io ctdb db key header data = (0, header', db')"
  shows "queue_ok db' \<and>
    (data \<noteq> [] \<longrightarrow> (\<forall>dd. delete_queue db' (ctdb_hash key) = Some dd \<longrightarrow> dd_key dd \<noteq> key)) \<and>
    (data = [] \<and> owned ctdb db header \<and> ltdb db' key \<noteq> None \<longrightarrow>
       (\<exists>dd. delete_queue db' (ctdb_hash key) = Some dd \<and> (dd_key dd = key \<longrightarrow> dd_hdr dd = header'))) \<and>
    (\<forall>h. h \<noteq> ctdb_hash key \<longrightarrow> delete_queue db' h = delete_queue db h)"
proof -
  obtain keep sched where k: "store_keep (pnn ctdb) (ctdb_lmaster m key) (persistent db) header data = (keep, sched)" by fastforce
  note R = store_server_result [OF assms(1,4) k]
  define s where "s = (sched \<or> (keep \<and> owned ctdb db header \<and> data = []))"
  define q where "q = (if s then delete_queue (insert_record_into_delete_queue db header' key) else delete_queue db)"
  have Q: "delete_queue db' = (if keep \<and> \<not> s \<and> map_option dd_key (q (ctdb_hash key)) = Some key then q(ctdb_hash key := None) else q)"
    using R(5) [OF refl assms(2)] by (simp only: Let_def s_def q_def)
  have other: "q h = delete_queue db h" if "h \<noteq> ctdb_hash key" for h using that by (simp add: q_def insert_queue)
  have ins: "\<exists>dd. q (ctdb_hash key) = Some dd \<and> (dd_key dd = key \<longrightarrow> dd_hdr dd = header')" if s
    using that by (auto simp: q_def insert_queue)
  have base: "ctdb_hash (dd_key dd) = h" if "delete_queue db h = Some dd" for h dd
    using that assms(3) by (simp add: queue_ok_def)
  have qok: "ctdb_hash (dd_key dd) = h" if "q h = Some dd" for h dd
    using that base [of h dd] unfolding q_def insert_queue
    by (cases "h = ctdb_hash key"; cases s) (auto split: if_splits)
  have "queue_ok db'" using qok by (auto simp: queue_ok_def Q split: if_splits)
  moreover have "dd_key dd \<noteq> key" if "data \<noteq> []" "delete_queue db' (ctdb_hash key) = Some dd" for dd
  proof -
    have "keep" "\<not> s" using that(1) k store_keep_data [OF that(1)] by (simp_all add: s_def)
    then show ?thesis using that(2) by (auto simp: Q split: if_splits)
  qed
  moreover have "\<exists>dd. delete_queue db' (ctdb_hash key) = Some dd \<and> (dd_key dd = key \<longrightarrow> dd_hdr dd = header')"
    if "data = []" "owned ctdb db header" "ltdb db' key \<noteq> None"
  proof -
    have keep using R(4) that(3) by (cases keep) simp_all
    then have s using that by (simp add: s_def)
    then show ?thesis using ins by (simp add: Q)
  qed
  moreover have "delete_queue db' h = delete_queue db h" if "h \<noteq> ctdb_hash key" for h
    using other [OF that] that by (simp add: Q)
  ultimately show ?thesis by blast
qed

theorem store_updates_delete_queue_witness:
  "\<exists>h' db'. ctdb_ltdb_store_server (\<lambda>_ _. True) ex_ctdb ex_db [1] zero_header [5, 6] = (0, h', db') \<and> queue_ok db'"
proof -
  obtain ret h' db' where st: "ctdb_ltdb_store_server (\<lambda>_ _. True) ex_ctdb ex_db [1] zero_header [5, 6] = (ret, h', db')"
    by (cases "ctdb_ltdb_store_server (\<lambda>_ _. True) ex_ctdb ex_db [1] zero_header [5, 6]") auto
  have m: "vnn_map ex_ctdb = Some \<lparr>generation = 1, vmap = [0, 1]\<rparr>" "main_daemon ex_ctdb" "queue_ok ex_db"
    by (simp_all add: ex_ctdb_def ex_db_def queue_ok_def)
  have "ret = 0" using store_server_result(3) [OF m(1) st store_keep_data] by simp
  then show ?thesis using store_updates_delete_queue [OF m, of "\<lambda>_ _. True" "[1]" zero_header "[5, 6]" h' db'] st by auto
qed

lemma mask_test: "(w :: u8) AND 2 ^ j = 0 \<longleftrightarrow> \<not> bit w j"
  using and_exp_eq_0_iff_not_bit [of w j] by simp

lemma tracking_mem: "n \<in> set (ctdb_trackingdb_traverse d) \<longleftrightarrow> n div 8 < length d \<and> bit (d ! (n div 8)) (n mod 8)"
proof
  assume "n \<in> set (ctdb_trackingdb_traverse d)"
  then obtain i j where "i < length d" "j < 8" "bit (d ! i) j" "n = i * 8 + j"
    by (auto simp: ctdb_trackingdb_traverse_def mask_test)
  moreover from this have "n div 8 = i" "n mod 8 = j" by simp_all
  ultimately show "n div 8 < length d \<and> bit (d ! (n div 8)) (n mod 8)" by simp
next
  assume "n div 8 < length d \<and> bit (d ! (n div 8)) (n mod 8)"
  moreover have "n = n div 8 * 8 + n mod 8" by simp
  moreover have "n mod 8 < 8" by simp
  ultimately show "n \<in> set (ctdb_trackingdb_traverse d)"
    by (force simp: ctdb_trackingdb_traverse_def mask_test)
qed

lemma tracking_sorted: "sorted_wrt (<) (ctdb_trackingdb_traverse data)"
proof -
  have "sorted_wrt (<) (concat (map (\<lambda>i. map (\<lambda>j. i * 8 + j) (filter (P i) [0..<8])) [0..<n]))" for P :: "nat \<Rightarrow> nat \<Rightarrow> bool" and n
  proof (induction n)
    case (Suc n)
    have "sorted_wrt (<) (map (\<lambda>j. n * 8 + j) (filter (P n) [0..<8]))"
      by (simp add: sorted_wrt_map sorted_wrt_filter)
    moreover have "x < n * 8" if "x \<in> set (concat (map (\<lambda>i. map (\<lambda>j. i * 8 + j) (filter (P i) [0..<8])) [0..<n]))" for x
      using that by auto
    ultimately show ?case using Suc by (fastforce simp: sorted_wrt_append)
  qed simp
  then show ?thesis unfolding ctdb_trackingdb_traverse_def .
qed

text \<open>
  C39: the tracking record of read-only copies is a set of nodes: after a node is added, a traversal
  reports this node and the nodes reported before, in ascending order and each once.
\<close>

theorem trackingdb_add_traverse:
  "set (ctdb_trackingdb_traverse (ctdb_trackingdb_add_pnn data p)) = insert (unat p) (set (ctdb_trackingdb_traverse data)) \<and>
   sorted_wrt (<) (ctdb_trackingdb_traverse data)"
proof -
  let ?b = "unat p div 8"
  let ?buf = "if ?b + 1 > length data then data @ replicate (?b + 1 - length data) 0 else data"
  have buf: "?b < length ?buf" "length data \<le> length ?buf"
    "bit (?buf ! i) j \<longleftrightarrow> i < length data \<and> bit (data ! i) j" if "i < length ?buf" for i j
    using that by (auto simp: nth_append)
  have m: "bit (2 ^ (unat p mod 8) :: u8) j \<longleftrightarrow> j = unat p mod 8" if "j < 8" for j
    using that by (auto simp: bit_exp_iff)
  have add: "ctdb_trackingdb_add_pnn data p = ?buf[?b := ?buf ! ?b OR push_bit (unat p mod 8) 1]"
    by (simp add: ctdb_trackingdb_add_pnn_def Let_def)
  have "n \<in> set (ctdb_trackingdb_traverse (ctdb_trackingdb_add_pnn data p)) \<longleftrightarrow>
      n = unat p \<or> n \<in> set (ctdb_trackingdb_traverse data)" for n
  proof (cases "n div 8 = ?b")
    case True
    then have "n = unat p \<longleftrightarrow> n mod 8 = unat p mod 8" by (metis div_mult_mod_eq)
    then show ?thesis
      using True buf by (auto simp: tracking_mem add bit_or_iff m nth_append split: if_splits)
  next
    case False
    then have "n \<noteq> unat p" by auto
    then show ?thesis
      using False buf by (auto simp: tracking_mem add nth_append split: if_splits)
  qed
  then show ?thesis using tracking_sorted by auto
qed

end
