(* ===== verification/Call.thy ===== *)
theory Call
  imports Ltdb Client_Async
begin

text \<open>
  Calls on records and the migration of records between nodes: the packet handlers of
  \<^verbatim>\<open>server/ctdb_call.c\<close> with the packet input and queueing of \<^verbatim>\<open>server/ctdb_server.c\<close> and
  \<^verbatim>\<open>ctdb_call_local\<close> of \<^verbatim>\<open>client/ctdb_client.c\<close>.  A handler maps the state of the daemon to its new
  state, in which the packets it sent are appended to the output, or to \<open>None\<close> when it ends the
  process with \<^verbatim>\<open>ctdb_fatal\<close>.  Statistics other than the hot keys and log messages are left out.
\<close>

section \<open>Packets\<close>

record ctdb_req_header =
  h_generation :: u32
  h_destnode :: u32
  h_srcnode :: u32
  h_reqid :: u32

record ctdb_req_call =
  c_hdr :: ctdb_req_header
  c_flags :: u32
  c_db_id :: u32
  c_callid :: u32
  c_hopcount :: u32
  c_key :: "u8 list"
  c_calldata :: "u8 list"

text \<open>The record flags at the end of the packet are absent in packets of older versions.\<close>

record ctdb_req_dmaster =
  rd_hdr :: ctdb_req_header
  rd_db_id :: u32
  rd_rsn :: u64
  rd_dmaster :: u32
  rd_key :: "u8 list"
  rd_data :: "u8 list"
  rd_flags :: "u32 option"

record ctdb_reply_dmaster_pkt =
  yd_hdr :: ctdb_req_header
  yd_db_id :: u32
  yd_rsn :: u64
  yd_key :: "u8 list"
  yd_data :: "u8 list"
  yd_flags :: "u32 option"

datatype packet =
    Req_call ctdb_req_call
  | Reply_call ctdb_req_header u32 "u8 list"
  | Reply_error ctdb_req_header u32
  | Req_dmaster ctdb_req_dmaster
  | Reply_dmaster ctdb_reply_dmaster_pkt

fun packet_hdr :: "packet \<Rightarrow> ctdb_req_header" where
  "packet_hdr (Req_call c) = c_hdr c"
| "packet_hdr (Reply_call hdr status data) = hdr"
| "packet_hdr (Reply_error hdr status) = hdr"
| "packet_hdr (Req_dmaster c) = rd_hdr c"
| "packet_hdr (Reply_dmaster c) = yd_hdr c"

definition CTDB_NULL_FUNC :: u32 where "CTDB_NULL_FUNC = 0xFF000001"
definition CTDB_FETCH_FUNC :: u32 where "CTDB_FETCH_FUNC = 0xFF000002"
definition CTDB_FETCH_WITH_HEADER_FUNC :: u32 where "CTDB_FETCH_WITH_HEADER_FUNC = 0xFF000003"
definition CTDB_CALL_FLAG_VACUUM_MIGRATION :: u32 where "CTDB_CALL_FLAG_VACUUM_MIGRATION = 2"
definition CTDB_WANT_READONLY :: u32 where "CTDB_WANT_READONLY = 4"

section \<open>State\<close>

record ctdb_call =
  call_id :: u32
  call_key :: "u8 list"
  call_data :: "u8 list"
  reply_data :: "u8 list"
  status :: u32
  call_flags :: u32

datatype call_state = CTDB_CALL_WAIT | CTDB_CALL_DONE | CTDB_CALL_ERROR

record ctdb_call_state =
  s_state :: call_state
  s_reqid :: u32
  s_c :: ctdb_req_call
  s_call :: ctdb_call
  s_generation :: u32

text \<open>
  A registered function gets the header of the record, the key, the data of the call and of the
  record, and gives its return value, the new data of the record if it sets any, the data of the
  reply if it sets any, and the status.
\<close>

type_synonym call_fn =
  "ctdb_ltdb_header \<Rightarrow> u8 list \<Rightarrow> u8 list \<Rightarrow> u8 list \<Rightarrow> int \<times> u8 list option \<times> u8 list option \<times> u32"

definition ctdb_null_func :: call_fn where
  "ctdb_null_func header key call record = (0, None, None, 0)"

definition ctdb_fetch_func :: call_fn where
  "ctdb_fetch_func header key call record = (0, None, Some record, 0)"

definition ctdb_fetch_with_header_func :: call_fn where
  "ctdb_fetch_with_header_func header key call record = (0, None, Some (bytes_of_header header @ record), 0)"

text \<open>
  A sticky record may be pinned down, then requests for it wait there.  A running revocation of
  read-only copies holds the requests that wait for its end.
\<close>

record call_db = ctdb_db_context +
  calls :: "u32 \<rightharpoonup> call_fn"
  persistent_state :: bool
  sticky_records :: "u32 list \<rightharpoonup> packet list option"
  hot_keys :: "(u32 \<times> u8 list) list"
  num_hot_keys :: nat
  revokechild_active :: "(u8 list \<times> packet list) list"

text \<open>The last field records the local calls that were executed; no code reads it.\<close>

record executed_call =
  x_db :: u32
  x_key :: "u8 list"
  x_callid :: u32
  x_calldata :: "u8 list"
  x_header :: ctdb_ltdb_header
  x_reply :: "u8 list"
  x_status :: u32

record ctdb_daemon = ltdb_context +
  methods :: bool
  node_flags :: "u32 list"
  recovery_active :: bool
  hopcount_make_sticky :: u32
  dbs :: "u32 \<rightharpoonup> call_db"
  idr :: "u32 \<rightharpoonup> ctdb_call_state"
  pending_calls :: "u32 list"
  out :: "packet list"
  lockwait :: "(u32 \<times> packet) list"
  history :: "executed_call list"

record call_env =
  io :: tdb_io
  rot_io :: "u8 list \<Rightarrow> bool"
  lock :: lock_outcome
  fork_ok :: bool

definition put_db :: "ctdb_daemon \<Rightarrow> call_db \<Rightarrow> ctdb_daemon" where
  "put_db ctdb db = ctdb\<lparr>dbs := (dbs ctdb)(db_id db \<mapsto> db)\<rparr>"

definition find_ctdb_db :: "ctdb_daemon \<Rightarrow> u32 \<Rightarrow> call_db option" where
  "find_ctdb_db ctdb i = dbs ctdb i"

definition the_lmaster :: "ctdb_daemon \<Rightarrow> u8 list \<Rightarrow> u32" where
  "the_lmaster ctdb key = ctdb_lmaster (the (vnn_map ctdb)) key"

text \<open>
  A packet that waits for a chain lock, with the generation at that time, and what happens when the
  lock is there: the packet is put back into the input unless the generation has changed.
\<close>

definition wait_for_lock :: "ctdb_daemon \<Rightarrow> packet \<Rightarrow> ctdb_daemon" where
  "wait_for_lock ctdb p = ctdb\<lparr>lockwait := lockwait ctdb @ [(generation (the (vnn_map ctdb)), p)]\<rparr>"

definition lock_fetch_callback :: "ctdb_daemon \<Rightarrow> u32 \<times> packet \<Rightarrow> ctdb_daemon" where
  "lock_fetch_callback ctdb w =
     (let ctdb = ctdb\<lparr>lockwait := remove1 w (lockwait ctdb)\<rparr>
      in if fst w \<noteq> generation (the (vnn_map ctdb)) then ctdb else ctdb\<lparr>out := out ctdb @ [snd w]\<rparr>)"

section \<open>Sending\<close>

definition ctdb_transport_allocate :: "ctdb_daemon \<Rightarrow> u32 \<Rightarrow> u32 \<Rightarrow> ctdb_req_header" where
  "ctdb_transport_allocate ctdb dest req =
     \<lparr>h_generation = (case vnn_map ctdb of None \<Rightarrow> 0 | Some m \<Rightarrow> generation m),
      h_destnode = dest, h_srcnode = pnn ctdb, h_reqid = req\<rparr>"

text \<open>Packets to this node are put back into its own input; the transport takes all others.\<close>

definition ctdb_queue_packet :: "ctdb_daemon \<Rightarrow> packet \<Rightarrow> ctdb_daemon" where
  "ctdb_queue_packet ctdb p =
     (let dest = h_destnode (packet_hdr p)
      in if unat dest \<ge> length (node_flags ctdb) then ctdb
         else if has_flag (node_flags ctdb ! unat dest) NODE_FLAGS_DELETED then ctdb
         else if dest = pnn ctdb then ctdb\<lparr>out := out ctdb @ [p]\<rparr>
         else if \<not> methods ctdb then ctdb
         else ctdb\<lparr>out := out ctdb @ [p]\<rparr>)"

definition ctdb_send_error :: "ctdb_daemon \<Rightarrow> ctdb_req_header \<Rightarrow> u32 \<Rightarrow> ctdb_daemon" where
  "ctdb_send_error ctdb hdr st =
     (if \<not> methods ctdb then ctdb
      else ctdb_queue_packet ctdb (Reply_error (ctdb_transport_allocate ctdb (h_srcnode hdr) (h_reqid hdr)) st))"

definition ctdb_call_send_redirect :: "ctdb_daemon \<Rightarrow> u8 list \<Rightarrow> ctdb_req_call \<Rightarrow> ctdb_ltdb_header \<Rightarrow> ctdb_daemon" where
  "ctdb_call_send_redirect ctdb key c header =
     (let lmaster = the_lmaster ctdb key;
          dest = (if pnn ctdb = lmaster then dmaster header else lmaster)
      in ctdb_queue_packet ctdb
           (Req_call (c\<lparr>c_hdr := (c_hdr c)\<lparr>h_destnode := dest\<rparr>, c_hopcount := c_hopcount c + 1\<rparr>)))"

definition ctdb_send_dmaster_reply ::
    "call_env \<Rightarrow> ctdb_daemon \<Rightarrow> call_db \<Rightarrow> ctdb_ltdb_header \<Rightarrow> u8 list \<Rightarrow> u8 list \<Rightarrow> u32 \<Rightarrow> u32 \<Rightarrow>
     (ctdb_daemon \<times> call_db) option" where
  "ctdb_send_dmaster_reply env ctdb db header key data new_dmaster req =
     (if pnn ctdb \<noteq> the_lmaster ctdb key then Some (ctdb, db)
      else
        let (ret, header, db) = ctdb_ltdb_store (io env) ctdb db key (header\<lparr>dmaster := new_dmaster\<rparr>) data
        in if ret \<noteq> 0 then None
           else if \<not> methods ctdb then None
           else Some (ctdb_queue_packet ctdb
                  (Reply_dmaster \<lparr>yd_hdr = ctdb_transport_allocate ctdb new_dmaster req, yd_db_id = db_id db,
                     yd_rsn = rsn header, yd_key = key, yd_data = data, yd_flags = Some (hflags header)\<rparr>), db))"

definition ctdb_call_send_dmaster ::
    "call_env \<Rightarrow> ctdb_daemon \<Rightarrow> call_db \<Rightarrow> ctdb_req_call \<Rightarrow> ctdb_ltdb_header \<Rightarrow> u8 list \<Rightarrow> u8 list \<Rightarrow>
     (ctdb_daemon \<times> call_db) option" where
  "ctdb_call_send_dmaster env ctdb db c header key data =
     (if \<not> methods ctdb then None
      else
        let lmaster = the_lmaster ctdb key;
            header = (if data \<noteq> [] then header\<lparr>hflags := hflags header OR CTDB_REC_FLAG_MIGRATED_WITH_DATA\<rparr> else header);
            src = h_srcnode (c_hdr c)
        in if lmaster = pnn ctdb then ctdb_send_dmaster_reply env ctdb db header key data src (h_reqid (c_hdr c))
           else
             let r = \<lparr>rd_hdr = ctdb_transport_allocate ctdb lmaster (h_reqid (c_hdr c)), rd_db_id = c_db_id c,
                      rd_rsn = rsn header, rd_dmaster = src, rd_key = key, rd_data = data, rd_flags = Some (hflags header)\<rparr>;
                 (ret, header, db) = ctdb_ltdb_store (io env) ctdb db key (header\<lparr>dmaster := src\<rparr>) data
             in if ret \<noteq> 0 then None else Some (ctdb_queue_packet ctdb (Req_dmaster r), db))"

section \<open>Sticky records and hot keys\<close>

text \<open>The key of the tree of sticky records: the number of words, then the key in words, padded with zeroes.\<close>

definition sticky_key :: "u8 list \<Rightarrow> u32 list" where
  "sticky_key key =
     (let n = (length key + 3) div 4
      in of_nat (n + 1) # map (\<lambda>i. u32_of_bytes (take 4 (drop (4 * i) (key @ replicate 3 0)))) [0..<n])"

definition ctdb_set_sticky_pindown :: "call_db \<Rightarrow> u8 list \<Rightarrow> call_db" where
  "ctdb_set_sticky_pindown db key =
     (case sticky_records db (sticky_key key) of
        None \<Rightarrow> db
      | Some None \<Rightarrow> db\<lparr>sticky_records := (sticky_records db)(sticky_key key \<mapsto> Some [])\<rparr>
      | Some (Some deferred) \<Rightarrow> db)"

definition ctdb_make_record_sticky :: "call_db \<Rightarrow> u8 list \<Rightarrow> call_db" where
  "ctdb_make_record_sticky db key =
     (if sticky_records db (sticky_key key) \<noteq> None then db
      else db\<lparr>sticky_records := (sticky_records db)(sticky_key key \<mapsto> None)\<rparr>)"

definition ctdb_defer_pinned_down_request :: "call_db \<Rightarrow> u8 list \<Rightarrow> packet \<Rightarrow> call_db option" where
  "ctdb_defer_pinned_down_request db key p =
     (case sticky_records db (sticky_key key) of
        Some (Some deferred) \<Rightarrow> Some (db\<lparr>sticky_records := (sticky_records db)(sticky_key key \<mapsto> Some (deferred @ [p]))\<rparr>)
      | _ \<Rightarrow> None)"

text \<open>When the pin-down or the sticky record times out, the waiting requests are put back into the input.\<close>

definition ctdb_sticky_pindown_timeout :: "ctdb_daemon \<Rightarrow> call_db \<Rightarrow> u32 list \<Rightarrow> ctdb_daemon \<times> call_db" where
  "ctdb_sticky_pindown_timeout ctdb db k =
     (case sticky_records db k of
        Some (Some deferred) \<Rightarrow>
          (ctdb\<lparr>out := out ctdb @ deferred\<rparr>, db\<lparr>sticky_records := (sticky_records db)(k \<mapsto> None)\<rparr>)
      | _ \<Rightarrow> (ctdb, db))"

definition ctdb_sticky_record_timeout :: "ctdb_daemon \<Rightarrow> call_db \<Rightarrow> u32 list \<Rightarrow> ctdb_daemon \<times> call_db" where
  "ctdb_sticky_record_timeout ctdb db k =
     (let (ctdb, db) = ctdb_sticky_pindown_timeout ctdb db k
      in (ctdb, db\<lparr>sticky_records := (sticky_records db)(k := None)\<rparr>))"

definition MAX_HOT_KEYS :: nat where
  "MAX_HOT_KEYS = 10"

definition sort_hot_key :: "nat \<Rightarrow> (u32 \<times> u8 list) list \<Rightarrow> (u32 \<times> u8 list) list" where
  "sort_hot_key i hk =
     (if fst (hk ! i) = 0 then hk
      else if fst (hk ! i) < fst (hk ! 0) then hk[i := hk ! 0, 0 := hk ! i]
      else hk)"

definition ctdb_update_db_stat_hot_keys :: "call_db \<Rightarrow> u8 list \<Rightarrow> u32 \<Rightarrow> call_db" where
  "ctdb_update_db_stat_hot_keys db key hopcount =
     (let hk = hot_keys db
      in if hopcount \<le> fst (hk ! 0) then db
         else case find (\<lambda>i. snd (hk ! i) = key) [0..<MAX_HOT_KEYS] of
                Some i \<Rightarrow>
                  if hopcount \<le> fst (hk ! i) then db
                  else db\<lparr>hot_keys := fold sort_hot_key [1..<MAX_HOT_KEYS] (hk[i := (hopcount, snd (hk ! i))])\<rparr>
              | None \<Rightarrow>
                  let (i, n) = (if num_hot_keys db < MAX_HOT_KEYS then (num_hot_keys db, num_hot_keys db + 1)
                                else (0, num_hot_keys db))
                  in db\<lparr>hot_keys := fold sort_hot_key [1..<MAX_HOT_KEYS] (hk[i := (hopcount, key)]), num_hot_keys := n\<rparr>)"

section \<open>Executing a call\<close>

definition ctdb_call_local ::
    "call_env \<Rightarrow> ctdb_daemon \<Rightarrow> call_db \<Rightarrow> ctdb_call \<Rightarrow> ctdb_ltdb_header \<Rightarrow> u8 list \<Rightarrow> bool \<Rightarrow>
     int \<times> ctdb_call \<times> ctdb_daemon \<times> call_db" where
  "ctdb_call_local env ctdb db call header data updatetdb =
     (case calls db (call_id call) of
        None \<Rightarrow> (-1, call, ctdb, db)
      | Some fn \<Rightarrow>
          let (r, new_data, reply, st) = fn header (call_key call) (call_data call) data
          in if r \<noteq> 0 then (-1, call, ctdb, db)
             else
               let nd = (case new_data of None \<Rightarrow> data | Some nd \<Rightarrow> nd);
                   (ret, header', db') = (if updatetdb then ctdb_ltdb_store (io env) ctdb db (call_key call) header nd
                                          else (0, header, db))
               in if ret \<noteq> 0 then (-1, call, ctdb, db')
                  else
                    let call = call\<lparr>reply_data := (case reply of None \<Rightarrow> [] | Some r \<Rightarrow> r), status := st\<rparr>
                    in (0, call,
                        ctdb\<lparr>history := history ctdb @ [\<lparr>x_db = db_id db, x_key = call_key call, x_callid = call_id call,
                           x_calldata = call_data call, x_header = header, x_reply = reply_data call, x_status = st\<rparr>]\<rparr>, db'))"

definition ctdb_become_dmaster ::
    "call_env \<Rightarrow> ctdb_daemon \<Rightarrow> call_db \<Rightarrow> ctdb_req_header \<Rightarrow> u8 list \<Rightarrow> u8 list \<Rightarrow> u64 \<Rightarrow> u32 \<Rightarrow> ctdb_daemon option" where
  "ctdb_become_dmaster env ctdb db hdr key data r record_flags =
     (let state = idr ctdb (h_reqid hdr);
          vacuum = (case state of None \<Rightarrow> False
                    | Some s \<Rightarrow> has_flag (call_flags (s_call s)) CTDB_CALL_FLAG_VACUUM_MIGRATION);
          header = zero_header\<lparr>rsn := r, dmaster := pnn ctdb,
                     hflags := (if vacuum then record_flags OR CTDB_REC_FLAG_VACUUM_MIGRATED else record_flags)\<rparr>;
          (ret, header, db) = ctdb_ltdb_store (io env) ctdb db key header data
      in if ret \<noteq> 0 then None
         else
           let db = (if sticky db then ctdb_set_sticky_pindown db key else db);
               unlocked = put_db ctdb (snd (ctdb_ltdb_unlock db key))
           in case state of
                None \<Rightarrow> Some unlocked
              | Some s \<Rightarrow>
                  if key \<noteq> call_key (s_call s) then Some unlocked
                  else if h_reqid hdr \<noteq> s_reqid s then Some unlocked
                  else
                    let (ret, call, ctdb, db) = ctdb_call_local env ctdb db (s_call s) header data True;
                        db = snd (ctdb_ltdb_unlock db (call_key (s_call s)));
                        s = s\<lparr>s_call := call, s_state := CTDB_CALL_DONE\<rparr>
                    in Some (put_db (ctdb\<lparr>idr := (idr ctdb)(h_reqid hdr \<mapsto> s)\<rparr>) db))"

section \<open>Handlers of the migration protocol\<close>

definition ctdb_request_dmaster :: "call_env \<Rightarrow> ctdb_daemon \<Rightarrow> ctdb_req_dmaster \<Rightarrow> ctdb_daemon option" where
  "ctdb_request_dmaster env ctdb c =
     (let hdr = rd_hdr c;
          key = rd_key c;
          record_flags = (case rd_flags c of None \<Rightarrow> 0 | Some f \<Rightarrow> f)
      in case find_ctdb_db ctdb (rd_db_id c) of
           None \<Rightarrow> Some (ctdb_send_error ctdb hdr (-1))
         | Some db \<Rightarrow>
             let (ret, header, data2, db) = ctdb_ltdb_lock_fetch_requeue (io env) (lock env) ctdb db key zero_header
             in if ret = -1 then None
                else if ret = -2 then Some (wait_for_lock ctdb (Req_dmaster c))
                else if the_lmaster ctdb key \<noteq> pnn ctdb then None
                else if dmaster header \<noteq> h_srcnode hdr \<and> (rsn header \<noteq> 0 \<or> dmaster header \<noteq> pnn ctdb) then
                  Some (put_db (ctdb\<lparr>recovery_active := True\<rparr>) (snd (ctdb_ltdb_unlock db key)))
                else
                  let header = header\<lparr>rsn := rd_rsn c, hflags := record_flags\<rparr>
                  in if rd_dmaster c = pnn ctdb then
                       ctdb_become_dmaster env ctdb db hdr key (rd_data c) (rd_rsn c) record_flags
                     else
                       (case ctdb_send_dmaster_reply env ctdb db header key (rd_data c) (rd_dmaster c) (h_reqid hdr) of
                          None \<Rightarrow> None
                        | Some (ctdb, db) \<Rightarrow> Some (put_db ctdb (snd (ctdb_ltdb_unlock db key)))))"

definition ctdb_reply_dmaster :: "call_env \<Rightarrow> ctdb_daemon \<Rightarrow> ctdb_reply_dmaster_pkt \<Rightarrow> ctdb_daemon option" where
  "ctdb_reply_dmaster env ctdb c =
     (case find_ctdb_db ctdb (yd_db_id c) of
        None \<Rightarrow> Some ctdb
      | Some db \<Rightarrow>
          let record_flags = (case yd_flags c of None \<Rightarrow> 0 | Some f \<Rightarrow> f);
              (ret, db) = ctdb_ltdb_lock_requeue (lock env) db (yd_key c)
          in if ret = -2 then Some (wait_for_lock ctdb (Reply_dmaster c))
             else if ret \<noteq> 0 then Some ctdb
             else ctdb_become_dmaster env ctdb db (yd_hdr c) (yd_key c) (yd_data c) (yd_rsn c) record_flags)"

section \<open>Revoking read-only copies\<close>

text \<open>
  The child process that revokes the copies is started with the nodes of the tracking record; the
  header it works with lost the read-only flags.
\<close>

definition ctdb_start_revoke_ro_record :: "call_env \<Rightarrow> call_db \<Rightarrow> u8 list \<Rightarrow> call_db option" where
  "ctdb_start_revoke_ro_record env db key =
     (if \<not> fork_ok env then None
      else Some (db\<lparr>revokechild_active := revokechild_active db @ [(key, [])]\<rparr>))"

definition revoke_header :: "ctdb_ltdb_header \<Rightarrow> ctdb_ltdb_header" where
  "revoke_header header =
     header\<lparr>hflags := (hflags header AND NOT (CTDB_REC_RO_REVOKING_READONLY OR CTDB_REC_RO_HAVE_DELEGATIONS OR
                       CTDB_REC_RO_HAVE_READONLY)) OR CTDB_REC_FLAG_MIGRATED_WITH_DATA, rsn := rsn header - 1\<rparr>"

fun add_deferred :: "(u8 list \<times> packet list) list \<Rightarrow> u8 list \<Rightarrow> packet \<Rightarrow> (u8 list \<times> packet list) list option" where
  "add_deferred [] key p = None"
| "add_deferred ((k, ps) # rcs) key p =
     (if k \<noteq> [] \<and> k = key then Some ((k, ps @ [p]) # rcs)
      else map_option (Cons (k, ps)) (add_deferred rcs key p))"

definition ctdb_add_revoke_deferred_call :: "call_db \<Rightarrow> u8 list \<Rightarrow> packet \<Rightarrow> call_db option" where
  "ctdb_add_revoke_deferred_call db key p =
     map_option (\<lambda>rcs. db\<lparr>revokechild_active := rcs\<rparr>) (add_deferred (revokechild_active db) key p)"

text \<open>
  When the child has answered, with success or not, the handle is freed and the requests that waited
  for it are put back into the input.
\<close>

definition revokechild_handler :: "ctdb_daemon \<Rightarrow> call_db \<Rightarrow> u8 list \<times> packet list \<Rightarrow> ctdb_daemon" where
  "revokechild_handler ctdb db rc =
     put_db (ctdb\<lparr>out := out ctdb @ snd rc\<rparr>) (db\<lparr>revokechild_active := remove1 rc (revokechild_active db)\<rparr>)"

text \<open>
  The work of the child: an update of the record is sent to every node of the tracking record.  The
  answers are the return values of the controls; \<open>None\<close> is a control that could not be sent.  With no
  control on its way the loop ends only with its timeout.
\<close>

definition revoke_status :: "(nat \<Rightarrow> int option) \<Rightarrow> bool \<Rightarrow> u8 list \<Rightarrow> int" where
  "revoke_status answer timed_out tdata =
     (let pnns = ctdb_trackingdb_traverse tdata;
          sent = filter (\<lambda>p. answer p \<noteq> None) pnns
      in if timed_out \<or> sent = [] \<or> length sent < length pnns \<or> (\<exists>p \<in> set sent. answer p \<noteq> Some 0) then -1 else 0)"

definition ctdb_revoke_all_delegations ::
    "call_env \<Rightarrow> bool \<Rightarrow> 'c ltdb_context_scheme \<Rightarrow> call_db \<Rightarrow> int \<Rightarrow> u8 list \<Rightarrow> ctdb_ltdb_header \<Rightarrow> int \<times> call_db" where
  "ctdb_revoke_all_delegations env lock_ok ctdb db st key header =
     (if st \<noteq> 0 then (st, db)
      else
        let (ret, db) = ctdb_ltdb_lock lock_ok db key
        in if ret \<noteq> 0 then (-1, db)
           else
             let (ret, new_header, new_data, db) = ctdb_ltdb_fetch (io env) ctdb db key zero_header;
                 unlocked = snd (ctdb_ltdb_unlock db key);
                 ro = CTDB_REC_RO_REVOKING_READONLY OR CTDB_REC_RO_HAVE_DELEGATIONS
             in if ret \<noteq> 0 then (-1, unlocked)
                else if rsn new_header > rsn header + 1 then (-1, unlocked)
                else if hflags new_header AND ro \<noteq> ro then (-1, unlocked)
                else
                  let (ret, h, db) = ctdb_ltdb_store (io env) ctdb db key
                        (new_header\<lparr>rsn := rsn new_header + 1, hflags := hflags new_header OR CTDB_REC_RO_REVOKE_COMPLETE\<rparr>) new_data;
                      unlocked = snd (ctdb_ltdb_unlock db key)
                  in if ret \<noteq> 0 then (-1, unlocked) else (st, unlocked))"

section \<open>Call requests\<close>

text \<open>The part of \<^verbatim>\<open>ctdb_request_call\<close> that answers a request for a read-only copy.\<close>

definition delegate_readonly ::
    "call_env \<Rightarrow> ctdb_daemon \<Rightarrow> call_db \<Rightarrow> ctdb_req_call \<Rightarrow> ctdb_ltdb_header \<Rightarrow> u8 list \<Rightarrow> ctdb_daemon option" where
  "delegate_readonly env ctdb db c header data =
     (let key = c_key c;
          tdata = (case rottdb db key of None \<Rightarrow> [] | Some t \<Rightarrow> t);
          tdata = ctdb_trackingdb_add_pnn tdata (h_srcnode (c_hdr c))
      in if \<not> rot_io env key then None
         else
           let db = snd (ctdb_ltdb_unlock (db\<lparr>rottdb := (rottdb db)(key \<mapsto> tdata)\<rparr>) key);
               header = header\<lparr>rsn := rsn header - 2,
                 hflags := (hflags header OR CTDB_REC_RO_HAVE_READONLY) AND NOT CTDB_REC_RO_HAVE_DELEGATIONS\<rparr>
           in Some (put_db (ctdb_queue_packet ctdb
                (Reply_call (ctdb_transport_allocate ctdb (h_srcnode (c_hdr c)) (h_reqid (c_hdr c))) 0
                   (bytes_of_header header @ data))) db))"

text \<open>The end of \<^verbatim>\<open>ctdb_request_call\<close>: the record is migrated to the caller or the call is executed here.\<close>

definition migrate_or_call ::
    "call_env \<Rightarrow> ctdb_daemon \<Rightarrow> call_db \<Rightarrow> ctdb_req_call \<Rightarrow> ctdb_ltdb_header \<Rightarrow> u8 list \<Rightarrow> ctdb_daemon option" where
  "migrate_or_call env ctdb db c header data =
     (let key = c_key c;
          db = ctdb_update_db_stat_hot_keys db key (c_hopcount c);
          db = (if sticky db \<and> c_hopcount c \<ge> hopcount_make_sticky ctdb then ctdb_make_record_sticky db key else db)
      in if h_srcnode (c_hdr c) \<noteq> pnn ctdb then
           if persistent_state db then Some (put_db ctdb db)
           else (case ctdb_call_send_dmaster env ctdb db c header key data of
                   None \<Rightarrow> None
                 | Some (ctdb, db) \<Rightarrow> Some (put_db ctdb (snd (ctdb_ltdb_unlock db key))))
         else
           let call = \<lparr>call_id = c_callid c, call_key = key, call_data = c_calldata c, reply_data = [], status = 0, call_flags = 0\<rparr>;
               (ret, call, ctdb, db) = ctdb_call_local env ctdb db call header data True;
               call = (if ret \<noteq> 0 then call\<lparr>status := -1\<rparr> else call);
               db = snd (ctdb_ltdb_unlock db key)
           in Some (put_db (ctdb_queue_packet ctdb
                (Reply_call (ctdb_transport_allocate ctdb (h_srcnode (c_hdr c)) (h_reqid (c_hdr c))) (status call) (reply_data call))) db))"

definition ctdb_request_call :: "call_env \<Rightarrow> ctdb_daemon \<Rightarrow> ctdb_req_call \<Rightarrow> ctdb_daemon option" where
  "ctdb_request_call env ctdb c =
     (if \<not> methods ctdb then Some ctdb
      else case find_ctdb_db ctdb (c_db_id c) of
             None \<Rightarrow> Some (ctdb_send_error ctdb (c_hdr c) (-1))
           | Some db \<Rightarrow>
               let key = c_key c
               in case (if sticky db then ctdb_defer_pinned_down_request db key (Req_call c) else None) of
                    Some db \<Rightarrow> Some (put_db ctdb db)
                  | None \<Rightarrow>
                      let (ret, header, data, db) = ctdb_ltdb_lock_fetch_requeue (io env) (lock env) ctdb db key zero_header
                      in if ret = -1 then Some (ctdb_send_error ctdb (c_hdr c) (-1))
                         else if ret = -2 then Some (wait_for_lock ctdb (Req_call c))
                         else
                           let c = (if has_flag (c_flags c) CTDB_WANT_READONLY \<and> \<not> readonly db
                                    then c\<lparr>c_flags := c_flags c AND NOT CTDB_WANT_READONLY\<rparr> else c);
                               want_ro = has_flag (c_flags c) CTDB_WANT_READONLY;
                               (ret, header, db) =
                                 (if has_flag (hflags header) CTDB_REC_RO_REVOKE_COMPLETE then
                                    let (ret, header, db) = ctdb_ltdb_store (io env) ctdb db key
                                          (header\<lparr>hflags := hflags header AND NOT CTDB_REC_RO_FLAGS\<rparr>) data
                                    in (ret, header, if rot_io env key then db\<lparr>rottdb := (rottdb db)(key := None)\<rparr> else db)
                                  else (0, header, db))
                           in if ret \<noteq> 0 then None
                              else if has_flag (hflags header) CTDB_REC_RO_REVOKING_READONLY then
                                map_option (put_db ctdb)
                                  (ctdb_add_revoke_deferred_call (snd (ctdb_ltdb_unlock db key)) key (Req_call c))
                              else if dmaster header \<noteq> pnn ctdb \<and> \<not> has_flag (hflags header) CTDB_REC_RO_HAVE_DELEGATIONS then
                                Some (put_db (ctdb_call_send_redirect ctdb key c header) (snd (ctdb_ltdb_unlock db key)))
                              else if \<not> want_ro \<and> has_flag (hflags header) (CTDB_REC_RO_HAVE_DELEGATIONS OR CTDB_REC_RO_HAVE_READONLY) then
                                let (ret, header, db) = ctdb_ltdb_store (io env) ctdb db key
                                      (header\<lparr>hflags := hflags header OR CTDB_REC_RO_REVOKING_READONLY\<rparr>) data
                                in if ret \<noteq> 0 then None
                                   else (case ctdb_start_revoke_ro_record env (snd (ctdb_ltdb_unlock db key)) key of
                                           None \<Rightarrow> None
                                         | Some db \<Rightarrow> map_option (put_db ctdb) (ctdb_add_revoke_deferred_call db key (Req_call c)))
                              else
                                let with_header = (c_callid c = CTDB_FETCH_WITH_HEADER_FUNC);
                                    (ret, header, db) =
                                      (if want_ro \<and> with_header \<and> \<not> has_flag (hflags header) CTDB_REC_RO_HAVE_DELEGATIONS then
                                         ctdb_ltdb_store (io env) ctdb db key
                                           (header\<lparr>rsn := rsn header + 3, hflags := hflags header OR CTDB_REC_RO_HAVE_DELEGATIONS\<rparr>) data
                                       else (0, header, db))
                                in if ret \<noteq> 0 then None
                                   else if want_ro \<and> with_header then delegate_readonly env ctdb db c header data
                                   else migrate_or_call env ctdb db c header data)"

section \<open>Replies\<close>

text \<open>Storing a read-only copy that came with a reply; the flag says whether the packet has to wait for the lock.\<close>

definition store_readonly_copy :: "call_env \<Rightarrow> ctdb_daemon \<Rightarrow> call_db \<Rightarrow> u8 list \<Rightarrow> u8 list \<Rightarrow> bool \<times> bool \<times> call_db" where
  "store_readonly_copy env ctdb db key data =
     (let header = header_of_bytes data
      in if \<not> has_flag (hflags header) CTDB_REC_RO_HAVE_READONLY then (False, False, db)
         else
           let (ret, db) = ctdb_ltdb_lock_requeue (lock env) db key
           in if ret = -2 then (True, False, db)
              else if ret \<noteq> 0 then (False, True, db)
              else
                let (ret, oldheader, olddata, db) = ctdb_ltdb_fetch (io env) ctdb db key zero_header;
                    unlocked = snd (ctdb_ltdb_unlock db key)
                in if ret \<noteq> 0 then (False, False, unlocked)
                   else if rsn header \<le> rsn oldheader then (False, False, unlocked)
                   else if length data < sizeof_header then (False, False, unlocked)
                   else
                     let (ret, h, db) = ctdb_ltdb_store (io env) ctdb db key header (drop sizeof_header data)
                     in (False, False, snd (ctdb_ltdb_unlock db key)))"

definition ctdb_reply_call :: "call_env \<Rightarrow> ctdb_daemon \<Rightarrow> ctdb_req_header \<Rightarrow> u32 \<Rightarrow> u8 list \<Rightarrow> ctdb_daemon" where
  "ctdb_reply_call env ctdb hdr st data =
     (case idr ctdb (h_reqid hdr) of
        None \<Rightarrow> ctdb
      | Some s \<Rightarrow>
          if h_reqid hdr \<noteq> s_reqid s then ctdb
          else
            let (wait, failed, ctdb) =
                  (if c_callid (s_c s) = CTDB_FETCH_WITH_HEADER_FUNC then
                     case find_ctdb_db ctdb (c_db_id (s_c s)) of
                       None \<Rightarrow> (False, False, ctdb)
                     | Some db \<Rightarrow>
                         let (wait, failed, db) = store_readonly_copy env ctdb db (c_key (s_c s)) data
                         in (wait, failed, put_db ctdb db)
                   else (False, False, ctdb))
            in if wait then wait_for_lock ctdb (Reply_call hdr st data)
               else if failed then ctdb
               else
                 let s = s\<lparr>s_call := (s_call s)\<lparr>reply_data := data, status := st\<rparr>, s_state := CTDB_CALL_DONE\<rparr>
                 in ctdb\<lparr>idr := (idr ctdb)(h_reqid hdr \<mapsto> s)\<rparr>)"

definition ctdb_reply_error :: "ctdb_daemon \<Rightarrow> ctdb_req_header \<Rightarrow> ctdb_daemon" where
  "ctdb_reply_error ctdb hdr =
     (case idr ctdb (h_reqid hdr) of
        None \<Rightarrow> ctdb
      | Some s \<Rightarrow>
          if h_reqid hdr \<noteq> s_reqid s then ctdb
          else ctdb\<lparr>idr := (idr ctdb)(h_reqid hdr \<mapsto> s\<lparr>s_state := CTDB_CALL_ERROR\<rparr>)\<rparr>)"

section \<open>Sending calls\<close>

text \<open>The request id is the one \<^verbatim>\<open>ctdb_reqid_new\<close> returns.\<close>

definition ctdb_daemon_call_send_remote ::
    "ctdb_daemon \<Rightarrow> call_db \<Rightarrow> u32 \<Rightarrow> ctdb_call \<Rightarrow> ctdb_ltdb_header \<Rightarrow> ctdb_daemon" where
  "ctdb_daemon_call_send_remote ctdb db req call header =
     (if \<not> methods ctdb then ctdb
      else
        let c = \<lparr>c_hdr = ctdb_transport_allocate ctdb (dmaster header) req, c_flags = call_flags call, c_db_id = db_id db,
                 c_callid = call_id call, c_hopcount = 0, c_key = call_key call, c_calldata = call_data call\<rparr>;
            s = \<lparr>s_state = CTDB_CALL_WAIT, s_reqid = req, s_c = c, s_call = call, s_generation = generation (the (vnn_map ctdb))\<rparr>
        in ctdb_queue_packet (ctdb\<lparr>idr := (idr ctdb)(req \<mapsto> s), pending_calls := req # pending_calls ctdb\<rparr>) (Req_call c))"

definition ctdb_call_destructor :: "ctdb_daemon \<Rightarrow> ctdb_call_state \<Rightarrow> ctdb_daemon" where
  "ctdb_call_destructor ctdb s =
     ctdb\<lparr>pending_calls := remove1 (s_reqid s) (pending_calls ctdb), idr := (idr ctdb)(s_reqid s := None)\<rparr>"

definition ctdb_call_resend :: "u32 \<Rightarrow> u32 \<Rightarrow> ctdb_daemon \<Rightarrow> ctdb_daemon" where
  "ctdb_call_resend old new ctdb =
     (case idr ctdb old of
        None \<Rightarrow> ctdb
      | Some s \<Rightarrow>
          let g = generation (the (vnn_map ctdb));
              c = (s_c s)\<lparr>c_hdr := (c_hdr (s_c s))\<lparr>h_reqid := new, h_generation := g, h_destnode := pnn ctdb\<rparr>\<rparr>;
              s = s\<lparr>s_generation := g, s_reqid := new, s_c := c\<rparr>;
              ctdb = ctdb\<lparr>idr := ((idr ctdb)(old := None))(new \<mapsto> s),
                pending_calls := map (\<lambda>r. if r = old then new else r) (pending_calls ctdb)\<rparr>
          in ctdb_queue_packet ctdb (Req_call c))"

text \<open>\<^verbatim>\<open>new\<close> gives for each pending call the request id it gets.\<close>

definition ctdb_call_resend_all :: "(u32 \<Rightarrow> u32) \<Rightarrow> ctdb_daemon \<Rightarrow> ctdb_daemon" where
  "ctdb_call_resend_all new ctdb = fold (\<lambda>old. ctdb_call_resend old (new old)) (pending_calls ctdb) ctdb"

section \<open>Packet input\<close>

definition ctdb_input_pkt :: "call_env \<Rightarrow> ctdb_daemon \<Rightarrow> packet \<Rightarrow> ctdb_daemon option" where
  "ctdb_input_pkt env ctdb p =
     (let checked = (case p of Reply_error hdr st \<Rightarrow> False | _ \<Rightarrow> True)
      in if checked \<and> has_flag (node_flags ctdb ! unat (pnn ctdb)) NODE_FLAGS_BANNED then Some ctdb
         else if checked \<and> generation (the (vnn_map ctdb)) \<noteq> h_generation (packet_hdr p) then Some ctdb
         else case p of
                Req_call c \<Rightarrow> ctdb_request_call env ctdb c
              | Reply_call hdr st data \<Rightarrow> Some (ctdb_reply_call env ctdb hdr st data)
              | Reply_error hdr st \<Rightarrow> Some (ctdb_reply_error ctdb hdr)
              | Req_dmaster c \<Rightarrow> ctdb_request_dmaster env ctdb c
              | Reply_dmaster c \<Rightarrow> ctdb_reply_dmaster env ctdb c)"

end
