(* ===== verification/Migration.thy ===== *)
theory Migration
  imports Call
begin

text \<open>
  A cluster of daemons that exchange the packets of the migration protocol.  Packets may be delivered
  in any order and wait for chain locks; clients change records on their node when it is the data
  master.  For every key there is one current value and one place that holds it, a data master or a
  migration packet, and every executed call and every update by a client acts on that value.
\<close>

section \<open>Clients\<close>

text \<open>
  One round of \<^verbatim>\<open>ctdb_fetch_lock\<close> in a client process and \<^verbatim>\<open>ctdb_record_store\<close> on the handle.  A client has
  no node map and its own store function.  Without the data master role the client asks its daemon
  to migrate the record and tries again, here \<open>None\<close>.
\<close>

definition client_context :: "ctdb_daemon \<Rightarrow> ltdb_context" where
  "client_context ctdb = \<lparr>pnn = pnn ctdb, vnn_map = None, main_daemon = False, can_send_controls = True\<rparr>"

definition ctdb_fetch_lock_round :: "call_env \<Rightarrow> ctdb_daemon \<Rightarrow> call_db \<Rightarrow> u8 list \<Rightarrow> (ctdb_ltdb_header \<times> u8 list) option" where
  "ctdb_fetch_lock_round env ctdb db key =
     (let (ret, header, data, db') = ctdb_ltdb_fetch (io env) (client_context ctdb) (db\<lparr>ctdb_ltdb_store_fn := False\<rparr>) key zero_header
      in if ret \<noteq> 0 \<or> dmaster header \<noteq> pnn ctdb then None else Some (header, data))"

definition ctdb_record_store :: "call_env \<Rightarrow> ctdb_daemon \<Rightarrow> call_db \<Rightarrow> u8 list \<Rightarrow> ctdb_ltdb_header \<Rightarrow> u8 list \<Rightarrow> int \<times> call_db" where
  "ctdb_record_store env ctdb db key header data =
     (if persistent db then (-1, db)
      else
        let (ret, h, db') = ctdb_ltdb_store (io env) (client_context ctdb) (db\<lparr>ctdb_ltdb_store_fn := False\<rparr>) key header data
        in (ret, db'\<lparr>ctdb_ltdb_store_fn := ctdb_ltdb_store_fn db\<rparr>))"

section \<open>The cluster\<close>

type_synonym cluster = "u32 \<Rightarrow> ctdb_daemon"

datatype event = Called executed_call | Updated "u8 list" "u8 list" "u8 list"

text \<open>Writes to the databases succeed, and a lock that is not free is waited for.\<close>

definition good_env :: "call_env \<Rightarrow> bool" where
  "good_env env \<longleftrightarrow> (\<forall>k r. io env k r) \<and> (\<forall>k. rot_io env k) \<and> (lock env = Lock_ok \<or> lock env = Lock_contended True)"

inductive cluster_step :: "nat \<Rightarrow> cluster \<Rightarrow> event list \<Rightarrow> cluster \<Rightarrow> bool" for N where
  deliver:
    "\<lbrakk>unat i < N; out (cl i) = xs @ p # ys; cl1 = cl(i := (cl i)\<lparr>out := xs @ ys\<rparr>);
      j = h_destnode (packet_hdr p); good_env env; ctdb_input_pkt env (cl1 j) p = Some d\<rbrakk> \<Longrightarrow>
     cluster_step N cl (map Called (drop (length (history (cl j))) (history d))) (cl1(j := d))"
| lock_taken:
    "\<lbrakk>unat i < N; w \<in> set (lockwait (cl i))\<rbrakk> \<Longrightarrow> cluster_step N cl [] (cl(i := lock_fetch_callback (cl i) w))"
| call_sent:
    "\<lbrakk>unat i < N; find_ctdb_db (cl i) b = Some db; idr (cl i) req = None; unat (dmaster header) < N;
      call_id call \<noteq> CTDB_FETCH_WITH_HEADER_FUNC\<rbrakk> \<Longrightarrow>
     cluster_step N cl [] (cl(i := ctdb_daemon_call_send_remote (cl i) db req call header))"
| call_freed:
    "\<lbrakk>unat i < N; idr (cl i) req = Some s\<rbrakk> \<Longrightarrow> cluster_step N cl [] (cl(i := ctdb_call_destructor (cl i) s))"
| client_update:
    "\<lbrakk>unat i < N; find_ctdb_db (cl i) b = Some db; ctdb_fetch_lock_round env (cl i) db key = Some (header, old);
      good_env env; ctdb_record_store env (cl i) db key header new = (0, db')\<rbrakk> \<Longrightarrow>
     cluster_step N cl [Updated key old new] (cl(i := put_db (cl i) db'))"

inductive cluster_run :: "nat \<Rightarrow> cluster \<Rightarrow> event list \<Rightarrow> cluster \<Rightarrow> bool" for N where
  run_refl: "cluster_run N cl [] cl"
| run_step: "cluster_run N cl es cl1 \<Longrightarrow> cluster_step N cl1 fs cl2 \<Longrightarrow> cluster_run N cl (es @ fs) cl2"

section \<open>The register that the cluster implements\<close>

text \<open>
  What the events on a key mean for a single copy of the record: a call is applied to the current
  value and its reply and status are those of the registered function; a client has read the
  current value.  \<open>None\<close> is an event that does not fit.
\<close>

fun apply_event :: "(u32 \<rightharpoonup> call_fn) \<Rightarrow> event \<Rightarrow> u8 list \<Rightarrow> u8 list option" where
  "apply_event C (Called e) v =
     (case C (x_callid e) of
        None \<Rightarrow> None
      | Some fn \<Rightarrow>
          let (r, new_data, reply, st) = fn (x_header e) (x_key e) (x_calldata e) v
          in if r = 0 \<and> x_reply e = (case reply of None \<Rightarrow> [] | Some r \<Rightarrow> r) \<and> x_status e = st
             then Some (case new_data of None \<Rightarrow> v | Some nd \<Rightarrow> nd) else None)"
| "apply_event C (Updated key old new) v = (if old = v then Some new else None)"

fun apply_events :: "(u32 \<rightharpoonup> call_fn) \<Rightarrow> event list \<Rightarrow> u8 list \<Rightarrow> u8 list option" where
  "apply_events C [] v = Some v"
| "apply_events C (e # es) v = (case apply_event C e v of None \<Rightarrow> None | Some v' \<Rightarrow> apply_events C es v')"

fun event_key :: "event \<Rightarrow> u8 list" where
  "event_key (Called e) = x_key e"
| "event_key (Updated key old new) = key"

definition on_key :: "u8 list \<Rightarrow> event list \<Rightarrow> event list" where
  "on_key key es = filter (\<lambda>e. event_key e = key) es"

section \<open>Who holds a record\<close>

text \<open>The data master that a node takes the record to have, and the data of its copy.\<close>

definition rec_of :: "'a ctdb_db_context_scheme \<Rightarrow> u8 list \<Rightarrow> u8 list" where
  "rec_of db key = (case ltdb db key of None \<Rightarrow> [] | Some r \<Rightarrow> r)"

definition dm :: "ctdb_vnn_map \<Rightarrow> 'a ctdb_db_context_scheme \<Rightarrow> u8 list \<Rightarrow> u32" where
  "dm m db key =
     (if length (rec_of db key) < sizeof_header then ctdb_lmaster m key else dmaster (header_of_bytes (rec_of db key)))"

definition val :: "'a ctdb_db_context_scheme \<Rightarrow> u8 list \<Rightarrow> u8 list" where
  "val db key = (if length (rec_of db key) < sizeof_header then [] else drop sizeof_header (rec_of db key))"

text \<open>Neither read-only flags nor the flag of a vacuuming migration are in the copy of the record.\<close>

definition ro_free :: "'a ctdb_db_context_scheme \<Rightarrow> u8 list \<Rightarrow> bool" where
  "ro_free db key \<longleftrightarrow>
     length (rec_of db key) < sizeof_header \<or>
     (\<not> has_flag (hflags (header_of_bytes (rec_of db key))) CTDB_REC_RO_FLAGS \<and>
      \<not> has_flag (hflags (header_of_bytes (rec_of db key))) CTDB_REC_FLAG_VACUUM_MIGRATED)"

section \<open>Storing and fetching in these terms\<close>

lemma rec_of_Some [simp]: "ltdb db key = Some r \<Longrightarrow> rec_of db key = r"
  by (simp add: rec_of_def)

lemma rec_of_None [simp]: "ltdb db key = None \<Longrightarrow> rec_of db key = []"
  by (simp add: rec_of_def)

lemma copy_stored:
  assumes "ltdb db key = Some (bytes_of_header h @ data)"
  shows "dm m db key = dmaster h" "val db key = data" "ro_free db key \<longleftrightarrow> \<not> has_flag (hflags h) CTDB_REC_RO_FLAGS \<and> \<not> has_flag (hflags h) CTDB_REC_FLAG_VACUUM_MIGRATED"
  using assms by (simp_all add: dm_def val_def ro_free_def)

lemma copy_missing:
  assumes "ltdb db key = None"
  shows "dm m db key = ctdb_lmaster m key" "val db key = []" "ro_free db key"
  using assms by (simp_all add: dm_def val_def ro_free_def sizeof_header_def)

lemma copy_cong:
  assumes "ltdb db' key = ltdb db key"
  shows "dm m db' key = dm m db key" "val db' key = val db key" "ro_free db' key = ro_free db key"
  using assms by (simp_all add: dm_def val_def ro_free_def rec_of_def)

lemma dm_other_exists: "dm m db key \<noteq> ctdb_lmaster m key \<Longrightarrow> ltdb db key \<noteq> None"
  using copy_missing(1) [of db key m] by auto

text \<open>A store of the daemon with working writes.\<close>

lemma store_abs:
  fixes db :: "'a ctdb_db_context_scheme" and ctdb :: "'c ltdb_context_scheme"
  assumes m: "vnn_map ctdb = Some m" and fn: "ctdb_ltdb_store_fn db" and vol: "\<not> persistent db" and io: "\<forall>k r. w k r"
    and st: "ctdb_ltdb_store w ctdb db key header data = (ret, header', db')"
  shows "ltdb db key \<noteq> None \<or> (dmaster header = pnn ctdb \<and> (\<not> has_flag (hflags header) CTDB_REC_FLAG_VACUUM_MIGRATED \<or> pnn ctdb \<noteq> ctdb_lmaster m key)) \<Longrightarrow> ret = 0"
    and "dmaster header' = dmaster header" "hflags header' = stored_flags (hflags header)" "db_same db db'"
    and "k \<noteq> key \<Longrightarrow> ltdb db' k = ltdb db k"
    and "ret = 0 \<Longrightarrow> val db' key = data"
    and "ret = 0 \<Longrightarrow> dm m db' key = pnn ctdb \<longleftrightarrow> dmaster header = pnn ctdb"
    and "ret = 0 \<Longrightarrow> pnn ctdb = ctdb_lmaster m key \<Longrightarrow> dm m db' key = dmaster header"
    and "ret = 0 \<Longrightarrow> \<not> has_flag (hflags header) CTDB_REC_RO_FLAGS \<Longrightarrow> ro_free db' key"
    and "ret = 0 \<Longrightarrow> dmaster header = pnn ctdb \<and> \<not> has_flag (hflags header) CTDB_REC_FLAG_VACUUM_MIGRATED \<Longrightarrow> ltdb db' key \<noteq> None"
proof -
  obtain keep sched where k: "store_keep (pnn ctdb) (ctdb_lmaster m key) (persistent db) header data = (keep, sched)" by fastforce
  have "ctdb_ltdb_store_server w ctdb db key header data = (ret, header', db')" using st fn by (simp add: ctdb_ltdb_store_def)
  note R = store_server_result [OF m this k]
  have keepI: keep if "dmaster header = pnn ctdb" "\<not> has_flag (hflags header) CTDB_REC_FLAG_VACUUM_MIGRATED \<or> pnn ctdb \<noteq> ctdb_lmaster m key"
    using that k by (auto simp: store_keep_def split: if_splits)
  have keepL: keep if "pnn ctdb = ctdb_lmaster m key" "dmaster header \<noteq> pnn ctdb"
    using that k by (auto simp: store_keep_def split: if_splits)
  have ret: "ret = 0 \<longleftrightarrow> keep \<or> ltdb db key \<noteq> None" using R(3) io by auto
  show "ltdb db key \<noteq> None \<or> (dmaster header = pnn ctdb \<and> (\<not> has_flag (hflags header) CTDB_REC_FLAG_VACUUM_MIGRATED \<or> pnn ctdb \<noteq> ctdb_lmaster m key)) \<Longrightarrow> ret = 0"
    using ret keepI by blast
  show dm': "dmaster header' = dmaster header" and fl: "hflags header' = stored_flags (hflags header)" using R(1) by simp_all
  show "db_same db db'" by (fact R)
  show "k \<noteq> key \<Longrightarrow> ltdb db' k = ltdb db k" using R(4) by simp
  {
    assume "ret = 0" and keep
    then have "ltdb db' key = Some (bytes_of_header header' @ data)" using R(4) by simp
    note kept = copy_stored [OF this] this
  } note kept = this
  {
    assume "ret = 0" and "\<not> keep"
    then have none: "ltdb db' key = None" using R(4) by simp
    from \<open>\<not> keep\<close> k have "data = []" "pnn ctdb = dmaster header \<longleftrightarrow> pnn ctdb = ctdb_lmaster m key"
      using store_keep_False [of "pnn ctdb" "ctdb_lmaster m key" "persistent db" header data sched] by auto
    note this copy_missing [OF none]
  } note gone = this
  show "val db' key = data" if "ret = 0" using that kept(2) gone(1,4) by (cases keep) auto
  show dmp: "dm m db' key = pnn ctdb \<longleftrightarrow> dmaster header = pnn ctdb" if "ret = 0"
    using that kept(1) gone(2,3) dm' by (cases keep) metis+
  show "dm m db' key = dmaster header" if "ret = 0" "pnn ctdb = ctdb_lmaster m key"
  proof (cases keep)
    case True
    then show ?thesis using that kept(1) dm' by simp
  next
    case False
    then have "dmaster header = pnn ctdb" using keepL that(2) by blast
    then show ?thesis using dmp [OF that(1)] by simp
  qed
  show "ro_free db' key" if "ret = 0" "\<not> has_flag (hflags header) CTDB_REC_RO_FLAGS"
    using that kept(3) gone(5) fl has_flag_stored(1) by (cases keep) auto
  show "ltdb db' key \<noteq> None" if "ret = 0" "dmaster header = pnn ctdb \<and> \<not> has_flag (hflags header) CTDB_REC_FLAG_VACUUM_MIGRATED"
    using that kept(4) keepI by simp
qed

text \<open>A fetch of the daemon: what it returns, and that it changes nothing that counts.\<close>

lemma fetch_cases:
  fixes db :: "'a ctdb_db_context_scheme" and ctdb :: "'c ltdb_context_scheme"
  assumes m: "vnn_map ctdb = Some m" and vol: "\<not> persistent db"
    and ft: "ctdb_ltdb_fetch w ctdb db key h0 = (ret, header, data, db')"
  obtains (long) "\<not> length (rec_of db key) < sizeof_header" "ret = 0" "header = header_of_bytes (rec_of db key)"
      "data = drop sizeof_header (rec_of db key)" "db' = db"
    | (own) r where "length (rec_of db key) < sizeof_header" "ctdb_lmaster m key = pnn ctdb" "ret = 0" "data = []"
      "ctdb_ltdb_store w ctdb db key (ltdb_initial_header m key) [] = (r, header, db')"
    | (other) "length (rec_of db key) < sizeof_header" "ctdb_lmaster m key \<noteq> pnn ctdb" "ret = 0" "data = []"
      "header = ltdb_initial_header m key" "db' = db"
proof -
  let ?st = "ctdb_ltdb_store w ctdb db key (ltdb_initial_header m key) []"
  have dm: "dmaster (ltdb_initial_header m key) = ctdb_lmaster m key" by (simp add: ltdb_initial_header_def)
  have "ctdb_ltdb_fetch w ctdb db key h0 =
      (if length (rec_of db key) < sizeof_header then
         if ctdb_lmaster m key = pnn ctdb then (0, fst (snd ?st), [], snd (snd ?st))
         else (0, ltdb_initial_header m key, [], db)
       else (0, header_of_bytes (rec_of db key), drop sizeof_header (rec_of db key), db))"
    using m vol by (simp add: ctdb_ltdb_fetch_def Let_def rec_of_def [symmetric] split_beta dm)
  then have eq: "(ret, header, data, db') = \<dots>" using ft by simp
  show thesis
  proof (cases "length (rec_of db key) < sizeof_header")
    case True
    show thesis
    proof (cases "ctdb_lmaster m key = pnn ctdb")
      case own: True
      then have "?st = (fst ?st, header, db')" using eq True by simp
      then show thesis using that(2) [of "fst ?st"] True own eq by simp
    qed (use that(3) True eq in simp)
  qed (use that(1) eq in simp)
qed

lemma automatic_flag: "\<not> has_flag CTDB_REC_FLAG_AUTOMATIC CTDB_REC_RO_FLAGS" "\<not> has_flag CTDB_REC_FLAG_AUTOMATIC CTDB_REC_FLAG_VACUUM_MIGRATED"
  by (simp_all add: has_flag_def CTDB_REC_FLAG_AUTOMATIC_def CTDB_REC_FLAG_VACUUM_MIGRATED_def CTDB_REC_RO_FLAGS_def
    CTDB_REC_RO_HAVE_DELEGATIONS_def CTDB_REC_RO_HAVE_READONLY_def CTDB_REC_RO_REVOKING_READONLY_def CTDB_REC_RO_REVOKE_COMPLETE_def)

lemma initial_header_sel:
  "dmaster (ltdb_initial_header m key) = ctdb_lmaster m key" "hflags (ltdb_initial_header m key) = CTDB_REC_FLAG_AUTOMATIC"
  by (simp_all add: ltdb_initial_header_def)

lemma fetch_abs:
  fixes db :: "'a ctdb_db_context_scheme" and ctdb :: "'c ltdb_context_scheme"
  assumes m: "vnn_map ctdb = Some m" and fn: "ctdb_ltdb_store_fn db" and vol: "\<not> persistent db" and io: "\<forall>k r. w k r"
    and ft: "ctdb_ltdb_fetch w ctdb db key h0 = (ret, header, data, db')" and free: "ro_free db key"
  shows "ret = 0 \<and> dmaster header = dm m db key \<and> data = val db key \<and> db_same db db' \<and>
    (\<forall>k. dm m db' k = dm m db k \<and> val db' k = val db k \<and> (ro_free db k \<longrightarrow> ro_free db' k)) \<and>
    \<not> has_flag (hflags header) CTDB_REC_RO_FLAGS \<and> \<not> has_flag (hflags header) CTDB_REC_FLAG_VACUUM_MIGRATED \<and>
    (dm m db key = pnn ctdb \<longrightarrow> ltdb db' key \<noteq> None)"
  using m vol ft
proof (cases rule: fetch_cases)
  case long
  have "ltdb db key \<noteq> None" using long(1) by (cases "ltdb db key") (simp_all add: sizeof_header_def)
  then show ?thesis using long free by (simp add: dm_def val_def ro_free_def)
next
  case (own r)
  note st = own(5)
  have flag: "\<not> has_flag (hflags (ltdb_initial_header m key)) CTDB_REC_FLAG_VACUUM_MIGRATED"
    "\<not> has_flag (hflags (ltdb_initial_header m key)) CTDB_REC_RO_FLAGS" by (simp_all add: initial_header_sel automatic_flag)
  note S = store_abs [OF m fn vol io st]
  have r: "r = 0" using S(1) flag(1) own(2) by (simp add: initial_header_sel)
  have "dm m db' key = dm m db key" "val db' key = val db key"
    using S(6,7) [OF r] own by (simp_all add: initial_header_sel dm_def val_def)
  moreover have "ro_free db' key" using S(9) r flag(2) by blast
  moreover have "dm m db' k = dm m db k \<and> val db' k = val db k \<and> ro_free db' k = ro_free db k" if "k \<noteq> key" for k
    using copy_cong [OF S(5) [OF that]] by blast
  ultimately have "\<forall>k. dm m db' k = dm m db k \<and> val db' k = val db k \<and> (ro_free db k \<longrightarrow> ro_free db' k)" by metis
  moreover have "ltdb db' key \<noteq> None" using S(10) r flag(1) own(2) by (simp add: initial_header_sel)
  moreover have "dmaster header = dm m db key" "\<not> has_flag (hflags header) CTDB_REC_RO_FLAGS"
    "\<not> has_flag (hflags header) CTDB_REC_FLAG_VACUUM_MIGRATED"
    using S(2,3) own(1) has_flag_stored(1) by (simp_all add: initial_header_sel dm_def automatic_flag)
  ultimately show ?thesis using own(1,3,4) S(4) by (simp add: val_def)
next
  case other
  then show ?thesis by (simp add: dm_def val_def initial_header_sel automatic_flag)
qed


section \<open>Configurations\<close>

text \<open>
  A volatile database without read-only copies and sticky records, opened by the daemon, on which no
  transaction is active.
\<close>

definition static :: "call_db \<Rightarrow> u32 \<times> bool \<times> bool \<times> bool \<times> bool \<times> bool \<times> (u32 \<rightharpoonup> call_fn)" where
  "static db = (db_id db, persistent db, readonly db, sticky db, ctdb_ltdb_store_fn db, persistent_state db, calls db)"

definition db_ok :: "(u32 \<rightharpoonup> call_fn) \<Rightarrow> u32 \<Rightarrow> call_db \<Rightarrow> bool" where
  "db_ok C D db \<longleftrightarrow> static db = (D, False, False, False, True, False, C) \<and> (\<forall>k. ro_free db k)"

lemma db_okD:
  assumes "db_ok C D db"
  shows "db_id db = D" "\<not> persistent db" "\<not> readonly db" "\<not> sticky db" "ctdb_ltdb_store_fn db" "\<not> persistent_state db"
    "calls db = C" "ro_free db k"
  using assms by (simp_all add: db_ok_def static_def)

lemma static_same: "db_same db db' \<Longrightarrow> static db' = static db" for db db' :: call_db
  by (cases db; cases db') (simp add: db_same_def static_def)

lemma unlock_simps [simp]:
  "ltdb (snd (ctdb_ltdb_unlock db key)) = ltdb db" "static (snd (ctdb_ltdb_unlock db' key)) = static db'"
  "sticky (snd (ctdb_ltdb_unlock db key)) = sticky db" "db_id (snd (ctdb_ltdb_unlock db key)) = db_id db"
  by (auto simp: ctdb_ltdb_unlock_def static_def split: nat.splits)

lemma lock_simps [simp]:
  "ltdb (snd (ctdb_ltdb_lock ok db key)) = ltdb db" "static (snd (ctdb_ltdb_lock ok db' key)) = static db'"
  by (auto simp: ctdb_ltdb_lock_def static_def)

lemma hot_keys_simps [simp]:
  "ltdb (ctdb_update_db_stat_hot_keys db key n) = ltdb db" "static (ctdb_update_db_stat_hot_keys db key n) = static db"
  by (auto simp: ctdb_update_db_stat_hot_keys_def static_def Let_def split: option.splits)

lemma db_ok_cong: "static db' = static db \<Longrightarrow> ltdb db' = ltdb db \<Longrightarrow> db_ok C D db' = db_ok C D db"
  using copy_cong(3) [of db' _ db] by (simp add: db_ok_def)

lemma rec_cong:
  assumes "ltdb db' = ltdb db"
  shows "dm m db' k = dm m db k" "val db' k = val db k"
  using copy_cong [of db' k db] assms by simp_all

text \<open>A fetch under the chain lock.\<close>

lemma lock_fetch_abs:
  assumes m: "vnn_map ctdb = Some m" and ok: "db_ok C D db" and env: "good_env env"
    and ft: "ctdb_ltdb_lock_fetch_requeue (io env) (lock env) ctdb db key h0 = (ret, header, data, db')"
  shows "(ret = -2 \<and> lock env \<noteq> Lock_ok) \<or>
    (ret = 0 \<and> lock env = Lock_ok \<and> db_ok C D db' \<and> dmaster header = dm m db key \<and> data = val db key \<and>
     (\<forall>k. dm m db' k = dm m db k \<and> val db' k = val db k) \<and> \<not> has_flag (hflags header) CTDB_REC_RO_FLAGS \<and>
     \<not> has_flag (hflags header) CTDB_REC_FLAG_VACUUM_MIGRATED \<and>
     (dm m db key = pnn ctdb \<longrightarrow> ltdb db' key \<noteq> None))"
proof (cases "lock env = Lock_ok")
  case False
  then show ?thesis using ft env by (auto simp: ctdb_ltdb_lock_fetch_requeue_def ctdb_ltdb_lock_requeue_def good_env_def)
next
  case True
  let ?db = "snd (ctdb_ltdb_lock True db key)"
  obtain r h d db2 where f: "ctdb_ltdb_fetch (io env) ctdb ?db key h0 = (r, h, d, db2)" by (metis prod_cases4)
  have ok1: "db_ok C D ?db" using ok db_ok_cong [of ?db db] by simp
  have w: "\<forall>k r. io env k r" using env by (simp add: good_env_def)
  note F = fetch_abs [OF m db_okD(5) [OF ok1] db_okD(2) [OF ok1] w f db_okD(8) [OF ok1]]
  have "(ret, header, data, db') = (r, h, d, db2)"
    using ft True f F by (simp add: ctdb_ltdb_lock_fetch_requeue_def ctdb_ltdb_lock_requeue_def ctdb_ltdb_lock_def Let_def)
  moreover have "db_ok C D db2"
    using F ok1 static_same [of ?db db2] by (auto simp: db_ok_def)
  ultimately show ?thesis using True F rec_cong [of ?db db] by simp
qed


text \<open>A store by a node with the data master role under the lock.\<close>

lemma own_store:
  assumes m: "vnn_map ctdb = Some m" and ok: "db_ok C D db" and env: "good_env env"
    and own: "dmaster header = pnn ctdb" "\<not> has_flag (hflags header) CTDB_REC_RO_FLAGS"
    and ex: "ltdb db key \<noteq> None \<or> \<not> has_flag (hflags header) CTDB_REC_FLAG_VACUUM_MIGRATED \<or> pnn ctdb \<noteq> ctdb_lmaster m key"
    and st: "ctdb_ltdb_store (io env) ctdb db key header data = (ret, header', db')"
  shows "ret = 0 \<and> dmaster header' = pnn ctdb \<and> \<not> has_flag (hflags header') CTDB_REC_RO_FLAGS \<and>
    \<not> has_flag (hflags header') CTDB_REC_FLAG_VACUUM_MIGRATED \<and> db_ok C D db' \<and> dm m db' key = pnn ctdb \<and> val db' key = data \<and>
    (\<forall>k. k \<noteq> key \<longrightarrow> ltdb db' k = ltdb db k)"
proof -
  have w: "\<forall>k r. io env k r" using env by (simp add: good_env_def)
  note S = store_abs [OF m db_okD(5) [OF ok] db_okD(2) [OF ok] w st]
  have r: "ret = 0" using S(1) ex own(1) by blast
  have "ro_free db' k" for k
    using S(9) [OF r own(2)] S(5) [of k] copy_cong(3) [of db' k db] db_okD(8) [OF ok, of k] by (cases "k = key") auto
  then have "db_ok C D db'" using ok static_same [OF S(4)] by (simp add: db_ok_def)
  then show ?thesis using S r own has_flag_stored by simp
qed

lemma call_local_abs:
  assumes m: "vnn_map ctdb = Some m" and ok: "db_ok C D db" and env: "good_env env"
    and own: "dmaster header = pnn ctdb" "\<not> has_flag (hflags header) CTDB_REC_RO_FLAGS" "\<not> has_flag (hflags header) CTDB_REC_FLAG_VACUUM_MIGRATED"
    and here: "dm m db key = pnn ctdb" "val db key = data" "call_key call = key"
    and cl: "ctdb_call_local env ctdb db call header data True = (ret, call', ctdb', db')"
  shows "\<exists>es. ctdb' = ctdb\<lparr>history := history ctdb @ es\<rparr> \<and> db_ok C D db' \<and> dm m db' key = pnn ctdb \<and>
    apply_events C (map Called es) data = Some (val db' key) \<and> (\<forall>e \<in> set es. x_key e = key) \<and>
    (\<forall>k. k \<noteq> key \<longrightarrow> ltdb db' k = ltdb db k)"
proof (cases "C (call_id call)")
  case None
  then have "ctdb' = ctdb" "db' = db" using cl db_okD(7) [OF ok] by (auto simp: ctdb_call_local_def)
  then show ?thesis using ok here by (intro exI [of _ "[]"]) simp
next
  case (Some fn)
  obtain r nd rep st where fn: "fn header key (call_data call) data = (r, nd, rep, st)" by (metis prod_cases4)
  show ?thesis
  proof (cases "r = 0")
    case False
    then have "ctdb' = ctdb" "db' = db" using cl db_okD(7) [OF ok] Some fn here(3) by (auto simp: ctdb_call_local_def)
    then show ?thesis using ok here by (intro exI [of _ "[]"]) simp
  next
    case True
    let ?v = "case nd of None \<Rightarrow> data | Some nd \<Rightarrow> nd"
    obtain r2 h2 db2 where st2: "ctdb_ltdb_store (io env) ctdb db key header ?v = (r2, h2, db2)" by (metis prod_cases3)
    have "r2 = 0 \<and> db_ok C D db2 \<and> dm m db2 key = pnn ctdb \<and> val db2 key = ?v \<and> (\<forall>k. k \<noteq> key \<longrightarrow> ltdb db2 k = ltdb db k)"
      using own_store [OF m ok env own(1,2) _ st2] own(3) by blast
    note S = this
    let ?e = "\<lparr>x_db = db_id db, x_key = key, x_callid = call_id call, x_calldata = call_data call, x_header = header,
      x_reply = (case rep of None \<Rightarrow> [] | Some r \<Rightarrow> r), x_status = st\<rparr>"
    have "ctdb' = ctdb\<lparr>history := history ctdb @ [?e]\<rparr>" "db' = db2"
      using cl db_okD(7) [OF ok] Some fn here(3) True st2 S by (auto simp: ctdb_call_local_def Let_def)
    then show ?thesis using S Some fn True by (intro exI [of _ "[?e]"]) simp
  qed
qed


text \<open>No pending call asks for a read-only copy.\<close>

definition calls_ok :: "ctdb_daemon \<Rightarrow> bool" where
  "calls_ok d \<longleftrightarrow> (\<forall>r s. idr d r = Some s \<longrightarrow> c_callid (s_c s) \<noteq> CTDB_FETCH_WITH_HEADER_FUNC)"

definition same_node :: "ctdb_daemon \<Rightarrow> ctdb_daemon \<Rightarrow> bool" where
  "same_node d d' \<longleftrightarrow> pnn d' = pnn d \<and> vnn_map d' = vnn_map d \<and> methods d' = methods d \<and> node_flags d' = node_flags d \<and>
     recovery_active d' = recovery_active d \<and> (calls_ok d \<longrightarrow> calls_ok d')"

text \<open>What handling a packet for a key does at a node: new events on that key, and the new copy.\<close>

definition acted :: "(u32 \<rightharpoonup> call_fn) \<Rightarrow> u32 \<Rightarrow> ctdb_daemon \<Rightarrow> call_db \<Rightarrow> u8 list \<Rightarrow> ctdb_daemon \<Rightarrow> call_db \<Rightarrow> executed_call list \<Rightarrow> bool" where
  "acted C D d db key d' db' es \<longleftrightarrow>
     same_node d d' \<and> dbs d' = (dbs d)(D \<mapsto> db') \<and> db_ok C D db' \<and> lockwait d' = lockwait d \<and> history d' = history d @ es \<and>
     (\<forall>e \<in> set es. x_key e = key) \<and> (\<forall>k. k \<noteq> key \<longrightarrow> ltdb db' k = ltdb db k)"

lemma become_dmaster_abs:
  assumes m: "vnn_map ctdb = Some m" and ok: "db_ok C D db" and env: "good_env env"
    and free: "\<not> has_flag f CTDB_REC_RO_FLAGS" and ex: "ltdb db key \<noteq> None \<or> pnn ctdb \<noteq> ctdb_lmaster m key"
  shows "\<exists>ctdb' db' es. ctdb_become_dmaster env ctdb db hdr key data r f = Some ctdb' \<and> acted C D ctdb db key ctdb' db' es \<and>
    out ctdb' = out ctdb \<and> dm m db' key = pnn ctdb \<and> apply_events C (map Called es) data = Some (val db' key)"
proof -
  let ?s = "idr ctdb (h_reqid hdr)"
  let ?vac = "case ?s of None \<Rightarrow> False | Some s \<Rightarrow> has_flag (call_flags (s_call s)) CTDB_CALL_FLAG_VACUUM_MIGRATION"
  let ?h = "zero_header\<lparr>rsn := r, dmaster := pnn ctdb,
      hflags := (if ?vac then f OR CTDB_REC_FLAG_VACUUM_MIGRATED else f)\<rparr>"
  have flags: "\<not> has_flag (hflags ?h) CTDB_REC_RO_FLAGS"
    using free by (simp add: has_flag_def bit.conj_disj_distrib2 CTDB_REC_FLAG_VACUUM_MIGRATED_def CTDB_REC_RO_FLAGS_def
      CTDB_REC_RO_HAVE_DELEGATIONS_def CTDB_REC_RO_HAVE_READONLY_def CTDB_REC_RO_REVOKING_READONLY_def CTDB_REC_RO_REVOKE_COMPLETE_def)
  obtain ret h1 db1 where st: "ctdb_ltdb_store (io env) ctdb db key ?h data = (ret, h1, db1)" by (metis prod_cases3)
  have own: "dmaster ?h = pnn ctdb" by simp
  have S: "ret = 0 \<and> dmaster h1 = pnn ctdb \<and> \<not> has_flag (hflags h1) CTDB_REC_RO_FLAGS \<and>
      \<not> has_flag (hflags h1) CTDB_REC_FLAG_VACUUM_MIGRATED \<and> db_ok C D db1 \<and> dm m db1 key = pnn ctdb \<and> val db1 key = data \<and>
      (\<forall>k. k \<noteq> key \<longrightarrow> ltdb db1 k = ltdb db k)"
    using own_store [OF m ok env own flags _ st] ex by blast
  then have ok1: "db_ok C D db1" by blast
  let ?unl = "put_db ctdb (snd (ctdb_ltdb_unlock db1 key))"
  show ?thesis
  proof (cases "\<exists>s. ?s = Some s \<and> key = call_key (s_call s) \<and> h_reqid hdr = s_reqid s")
    case False
    then have "ctdb_become_dmaster env ctdb db hdr key data r f = Some ?unl"
      using st S db_okD(4) [OF ok1] by (auto simp: ctdb_become_dmaster_def Let_def split: option.splits)
    moreover have "acted C D ctdb db key ?unl (snd (ctdb_ltdb_unlock db1 key)) []"
      using S db_ok_cong [of "snd (ctdb_ltdb_unlock db1 key)" db1] db_okD(1) [OF ok1]
      by (simp add: acted_def same_node_def put_db_def calls_ok_def)
    ultimately show ?thesis
      using S rec_cong [of "snd (ctdb_ltdb_unlock db1 key)" db1] 
      by (intro exI [of _ ?unl] exI [of _ "snd (ctdb_ltdb_unlock db1 key)"] exI [of _ "[]"]) (simp add: put_db_def)
  next
    case True
    then obtain s where s: "?s = Some s" "key = call_key (s_call s)" "h_reqid hdr = s_reqid s" by blast
    obtain ret2 call2 ctdb2 db2 where cl: "ctdb_call_local env ctdb db1 (s_call s) h1 data True = (ret2, call2, ctdb2, db2)"
      by (metis prod_cases4)
    from call_local_abs [OF m ok1 env _ _ _ _ _ s(2) [symmetric] cl] S obtain es where
      es: "ctdb2 = ctdb\<lparr>history := history ctdb @ es\<rparr>" "db_ok C D db2" "dm m db2 key = pnn ctdb"
        "apply_events C (map Called es) data = Some (val db2 key)" "\<forall>e \<in> set es. x_key e = key" "\<forall>k. k \<noteq> key \<longrightarrow> ltdb db2 k = ltdb db1 k"
      by auto
    let ?db = "snd (ctdb_ltdb_unlock db2 key)"
    let ?s2 = "s\<lparr>s_call := call2, s_state := CTDB_CALL_DONE\<rparr>"
    let ?ctdb = "put_db (ctdb2\<lparr>idr := (idr ctdb2)(h_reqid hdr \<mapsto> ?s2)\<rparr>) ?db"
    have "ctdb_become_dmaster env ctdb db hdr key data r f = Some ?ctdb"
      using st S db_okD(4) [OF ok1] s cl by (simp add: ctdb_become_dmaster_def Let_def)
    moreover have "acted C D ctdb db key ?ctdb ?db es"
      using S es db_ok_cong [of ?db db2] db_okD(1) [OF es(2)] s(1) by (auto simp: acted_def same_node_def put_db_def calls_ok_def)
    ultimately show ?thesis
      using es rec_cong [of ?db db2] by (intro exI [of _ ?ctdb] exI [of _ ?db] exI [of _ es]) (simp add: put_db_def)
  qed
qed

end
