(* ===== verification/Migration_Handlers.thy ===== *)
theory Migration_Handlers
  imports Migration "HOL-Library.Multiset"
begin

text \<open>
  What each packet handler of the daemon does for one key, in the terms of the migration protocol:
  whether the data master role and the current value stay where they are, are executed on, are given
  away, passed on or taken.  One lemma per handler, then one for the input of any packet.
\<close>

section \<open>Packets and nodes of a cluster\<close>

definition pk_ok :: "nat \<Rightarrow> ctdb_vnn_map \<Rightarrow> u32 \<Rightarrow> packet \<Rightarrow> bool" where
  "pk_ok N m D p \<longleftrightarrow>
     h_generation (packet_hdr p) = generation m \<and> unat (h_destnode (packet_hdr p)) < N \<and> unat (h_srcnode (packet_hdr p)) < N \<and>
     (case p of
        Req_dmaster r \<Rightarrow> rd_db_id r = D \<and> h_destnode (rd_hdr r) = ctdb_lmaster m (rd_key r) \<and>
          h_srcnode (rd_hdr r) \<noteq> h_destnode (rd_hdr r) \<and> unat (rd_dmaster r) < N \<and>
          (\<forall>f. rd_flags r = Some f \<longrightarrow> \<not> has_flag f CTDB_REC_RO_FLAGS)
      | Reply_dmaster r \<Rightarrow> yd_db_id r = D \<and> h_destnode (yd_hdr r) \<noteq> ctdb_lmaster m (yd_key r) \<and>
          (\<forall>f. yd_flags r = Some f \<longrightarrow> \<not> has_flag f CTDB_REC_RO_FLAGS)
      | _ \<Rightarrow> True)"

definition queued :: "ctdb_daemon \<Rightarrow> packet list" where
  "queued d = out d @ map snd (lockwait d)"

definition node_ok :: "nat \<Rightarrow> ctdb_vnn_map \<Rightarrow> (u32 \<rightharpoonup> call_fn) \<Rightarrow> u32 \<Rightarrow> u32 \<Rightarrow> ctdb_daemon \<Rightarrow> bool" where
  "node_ok N m C D p d \<longleftrightarrow>
     pnn d = p \<and> vnn_map d = Some m \<and> methods d \<and> length (node_flags d) = N \<and>
     (\<forall>i < N. \<not> has_flag (node_flags d ! i) NODE_FLAGS_DELETED \<and> \<not> has_flag (node_flags d ! i) NODE_FLAGS_BANNED) \<and>
     \<not> recovery_active d \<and> calls_ok d \<and> (\<exists>db. dbs d = [D \<mapsto> db] \<and> db_ok C D db) \<and>
     (\<forall>x \<in> set (queued d). pk_ok N m D x) \<and> (\<forall>x \<in> set (lockwait d). fst x = generation m)"

definition copy :: "u32 \<Rightarrow> ctdb_daemon \<Rightarrow> call_db" where
  "copy D d = the (dbs d D)"

lemma node_okD:
  assumes "node_ok N m C D p d"
  shows "pnn d = p" "vnn_map d = Some m" "methods d" "dbs d D = Some (copy D d)" "db_ok C D (copy D d)"
    "find_ctdb_db d D = Some (copy D d)" "b \<noteq> D \<Longrightarrow> find_ctdb_db d b = None" "calls_ok d"
  using assms by (auto simp: node_ok_def copy_def find_ctdb_db_def)

text \<open>A well-addressed packet goes out.\<close>

lemma queue_packet:
  assumes "node_ok N m C D p d" "same_node d d'" "unat (h_destnode (packet_hdr x)) < N"
  shows "ctdb_queue_packet d' x = d'\<lparr>out := out d' @ [x]\<rparr>"
  using assms by (auto simp: ctdb_queue_packet_def node_ok_def same_node_def Let_def)

text \<open>After handling a packet for a key, a node is well-formed if what it sent is.\<close>

lemma node_ok_acted:
  assumes ok: "node_ok N m C D p d" and a: "acted C D d db key d' db' es" and o: "out d' = out d @ ps" and ps: "\<forall>x \<in> set ps. pk_ok N m D x"
  shows "node_ok N m C D p d' \<and> copy D d' = db'"
  using assms by (auto simp: node_ok_def acted_def same_node_def queued_def copy_def)

lemma pk_ok_allocate:
  assumes "node_ok N m C D p d" "unat p < N"
  shows "h_generation (ctdb_transport_allocate d dest req) = generation m" "h_destnode (ctdb_transport_allocate d dest req) = dest"
    "h_srcnode (ctdb_transport_allocate d dest req) = p"
  using assms by (auto simp: ctdb_transport_allocate_def node_ok_def)

section \<open>What handling a packet does for a key\<close>

fun tok :: "u8 list \<Rightarrow> packet \<Rightarrow> bool" where
  "tok K (Req_dmaster r) = (rd_key r = K)"
| "tok K (Reply_dmaster r) = (yd_key r = K)"
| "tok K _ = False"

definition toks :: "u8 list \<Rightarrow> ctdb_daemon \<Rightarrow> packet multiset" where
  "toks K d = mset (filter (tok K) (queued d))"

text \<open>The current value on its way in a packet.\<close>

fun carried :: "packet \<Rightarrow> u8 list" where
  "carried (Req_dmaster r) = rd_data r"
| "carried (Reply_dmaster r) = yd_data r"
| "carried _ = []"

text \<open>The node for which the data master role is meant.\<close>

fun target :: "packet \<Rightarrow> u32" where
  "target (Req_dmaster r) = rd_dmaster r"
| "target (Reply_dmaster r) = h_destnode (yd_hdr r)"
| "target _ = 0"

text \<open>
  The possible effects: nothing happens (a waiting packet is kept); the node executes calls as the
  data master; it gives the role away, as the location master with a reply to the new one,
  otherwise with a request to the location master; the location master passes it on; the node gets
  the role.
\<close>

inductive effect :: "ctdb_vnn_map \<Rightarrow> (u32 \<rightharpoonup> call_fn) \<Rightarrow> u8 list \<Rightarrow> u32 \<Rightarrow> call_db \<Rightarrow> packet \<Rightarrow> packet multiset \<Rightarrow> event list \<Rightarrow> call_db \<Rightarrow> bool"
  for m C K p db x where
  quiet: "new = (if tok K x then {#x#} else {#}) \<Longrightarrow> dm m db' K = dm m db K \<Longrightarrow> val db' K = val db K \<Longrightarrow>
    effect m C K p db x new [] db'"
| exec: "\<not> tok K x \<Longrightarrow> dm m db K = p \<Longrightarrow> dm m db' K = p \<Longrightarrow> apply_events C es (val db K) = Some (val db' K) \<Longrightarrow>
    effect m C K p db x {#} es db'"
| reply: "\<not> tok K x \<Longrightarrow> dm m db K = p \<Longrightarrow> p = ctdb_lmaster m K \<Longrightarrow> yd_key r = K \<Longrightarrow> yd_data r = val db K \<Longrightarrow>
    dm m db' K = h_destnode (yd_hdr r) \<Longrightarrow> h_destnode (yd_hdr r) \<noteq> p \<Longrightarrow> effect m C K p db x {#Reply_dmaster r#} [] db'"
| request: "\<not> tok K x \<Longrightarrow> dm m db K = p \<Longrightarrow> p \<noteq> ctdb_lmaster m K \<Longrightarrow> rd_key r = K \<Longrightarrow> rd_data r = val db K \<Longrightarrow>
    h_srcnode (rd_hdr r) = p \<Longrightarrow> dm m db' K \<noteq> p \<Longrightarrow> effect m C K p db x {#Req_dmaster r#} [] db'"
| pass_on: "x = Req_dmaster q \<Longrightarrow> rd_key q = K \<Longrightarrow> yd_key r = K \<Longrightarrow> yd_data r = rd_data q \<Longrightarrow>
    dm m db' K = h_destnode (yd_hdr r) \<Longrightarrow> h_destnode (yd_hdr r) \<noteq> p \<Longrightarrow> effect m C K p db x {#Reply_dmaster r#} [] db'"
| acquire: "tok K x \<Longrightarrow> dm m db' K = p \<Longrightarrow> apply_events C es (carried x) = Some (val db' K) \<Longrightarrow> effect m C K p db x {#} es db'"

definition handled :: "nat \<Rightarrow> ctdb_vnn_map \<Rightarrow> (u32 \<rightharpoonup> call_fn) \<Rightarrow> u32 \<Rightarrow> u8 list \<Rightarrow> u32 \<Rightarrow> ctdb_daemon \<Rightarrow> packet \<Rightarrow> ctdb_daemon option \<Rightarrow> bool" where
  "handled N m C D K p d x res \<longleftrightarrow>
     (\<exists>d' es new. res = Some d' \<and> node_ok N m C D p d' \<and> history d' = history d @ es \<and> toks K d' = toks K d + new \<and>
        set (queued d) \<subseteq> set (queued d') \<and> effect m C K p (copy D d) x new (on_key K (map Called es)) (copy D d'))"

lemma effect_cong:
  assumes "effect m C K p db x new es db'" "dm m db1 K = dm m db K" "val db1 K = val db K"
    "dm m db1' K = dm m db' K" "val db1' K = val db' K"
  shows "effect m C K p db1 x new es db1'"
  using assms(1) by cases (use assms(2-) in \<open>auto intro: effect.intros\<close>)

lemma on_key_all: "\<forall>e \<in> set es. x_key e = key \<Longrightarrow> on_key K (map Called es) = (if K = key then map Called es else [])"
  by (auto simp: on_key_def filter_empty_conv filter_id_conv)

lemma handled_acted:
  assumes ok: "node_ok N m C D p d" and a: "acted C D d db key d' db' es"
    and same: "\<forall>k. dm m db k = dm m (copy D d) k \<and> val db k = val (copy D d) k"
    and o: "out d' = out d @ ps" and ps: "\<forall>y \<in> set ps. pk_ok N m D y \<and> (\<forall>k. tok k y \<longrightarrow> k = key)"
    and x: "\<forall>k. tok k x \<longrightarrow> k = key"
    and eff: "effect m C key p db x (mset (filter (tok key) ps)) (map Called es) db'"
  shows "handled N m C D K p d x (Some d')"
proof -
  have n: "node_ok N m C D p d'" "copy D d' = db'" using node_ok_acted [OF ok a o] ps by blast+
  have h: "history d' = history d @ es" and keys: "\<forall>e \<in> set es. x_key e = key" and lw: "lockwait d' = lockwait d"
    and oth: "\<forall>k. k \<noteq> key \<longrightarrow> ltdb db' k = ltdb db k" using a by (simp_all add: acted_def)
  have t: "toks K d' = toks K d + mset (filter (tok K) ps)" by (simp add: toks_def queued_def o lw)
  have "effect m C K p (copy D d) x (mset (filter (tok K) ps)) (on_key K (map Called es)) db'"
  proof (cases "K = key")
    case True
    have "effect m C key p (copy D d) x (mset (filter (tok key) ps)) (map Called es) db'"
      by (rule effect_cong [OF eff]) (use same in auto)
    then show ?thesis using on_key_all [OF keys, of K] True by simp
  next
    case False
    have "filter (tok K) ps = []" "\<not> tok K x" using ps x False by (auto simp: filter_empty_conv)
    moreover have "dm m db' K = dm m (copy D d) K" "val db' K = val (copy D d) K"
      using copy_cong [of db' K db] oth False same by simp_all
    ultimately show ?thesis using on_key_all [OF keys, of K] False by (auto intro: effect.quiet)
  qed
  moreover have "set (queued d) \<subseteq> set (queued d')" by (auto simp: queued_def o lw)
  ultimately show ?thesis unfolding handled_def using n h t by blast
qed

lemma handled_wait:
  assumes ok: "node_ok N m C D p d" and x: "pk_ok N m D x"
  shows "handled N m C D K p d x (Some (wait_for_lock d x))"
proof -
  let ?d = "wait_for_lock d x"
  have "node_ok N m C D p ?d" using ok x by (auto simp: node_ok_def wait_for_lock_def queued_def calls_ok_def)
  moreover have "toks K ?d = toks K d + (if tok K x then {#x#} else {#})"
    by (simp add: toks_def queued_def wait_for_lock_def)
  moreover have "history ?d = history d @ []" "copy D ?d = copy D d" "set (queued d) \<subseteq> set (queued ?d)"
    by (auto simp: wait_for_lock_def copy_def queued_def)
  moreover have "effect m C K p (copy D d) x (if tok K x then {#x#} else {#}) (on_key K (map Called [])) (copy D d)"
    by (simp add: on_key_def effect.quiet)
  ultimately show ?thesis unfolding handled_def by metis
qed

text \<open>Packets that are no migration packets and change no copy.\<close>

lemma acted_quiet:
  assumes "node_ok N m C D p d" "db_ok C D db'" "same_node d d'" "dbs d' = (dbs d)(D \<mapsto> db')"
    "lockwait d' = lockwait d" "history d' = history d" "ltdb db' = ltdb db"
  shows "acted C D d db key d' db' []"
  using assms by (simp add: acted_def)

lemma handled_plain:
  assumes ok: "node_ok N m C D p d" and s: "same_node d d'" "dbs d' = dbs d" "lockwait d' = lockwait d" "history d' = history d"
    and o: "out d' = out d @ ps" and ps: "\<forall>y \<in> set ps. pk_ok N m D y \<and> (\<forall>k. \<not> tok k y)" and x: "\<forall>k. \<not> tok k x"
  shows "handled N m C D K p d x (Some d')"
proof -
  have D: "dbs d D = Some (copy D d)" "db_ok C D (copy D d)" using node_okD [OF ok] by simp_all
  have "acted C D d (copy D d) [] d' (copy D d) []"
    using s D by (auto simp: acted_def)
  then show ?thesis
  proof (rule handled_acted [OF ok _ _ o])
    have "filter (tok []) ps = []" using ps by (auto simp: filter_empty_conv)
    then show "effect m C [] p (copy D d) x (mset (filter (tok []) ps)) (map Called []) (copy D d)"
      using x by (auto intro: effect.quiet)
  qed (use ps x in auto)
qed

lemma handled_skip:
  assumes ok: "node_ok N m C D p d" and x: "\<forall>k. \<not> tok k x"
  shows "handled N m C D K p d x (Some d)"
  by (rule handled_plain [OF ok]) (use x in \<open>auto simp: same_node_def\<close>)


section \<open>The handlers\<close>

lemma ro_or_migrated: "has_flag (f OR CTDB_REC_FLAG_MIGRATED_WITH_DATA) CTDB_REC_RO_FLAGS = has_flag f CTDB_REC_RO_FLAGS"
  by (simp add: has_flag_def bit.conj_disj_distrib2 CTDB_REC_FLAG_MIGRATED_WITH_DATA_def CTDB_REC_RO_FLAGS_def
    CTDB_REC_RO_HAVE_DELEGATIONS_def CTDB_REC_RO_HAVE_READONLY_def CTDB_REC_RO_REVOKING_READONLY_def CTDB_REC_RO_REVOKE_COMPLETE_def)

lemma store_away:
  assumes ok: "node_ok N m C D p d" and db: "db_ok C D db" and env: "good_env env" and ex: "ltdb db key \<noteq> None"
    and free: "\<not> has_flag (hflags header) CTDB_REC_RO_FLAGS" and away: "dmaster header \<noteq> p"
    and st: "ctdb_ltdb_store (io env) d db key header data = (ret, header', db')"
  shows "ret = 0 \<and> db_ok C D db' \<and> dm m db' key \<noteq> p \<and> (p = ctdb_lmaster m key \<longrightarrow> dm m db' key = dmaster header) \<and>
    \<not> has_flag (hflags header') CTDB_REC_RO_FLAGS \<and> (\<forall>k. k \<noteq> key \<longrightarrow> ltdb db' k = ltdb db k)"
proof -
  have w: "\<forall>k r. io env k r" using env by (simp add: good_env_def)
  have pnn: "pnn d = p" using node_okD(1) [OF ok] .
  note S = store_abs [OF node_okD(2) [OF ok] db_okD(5) [OF db] db_okD(2) [OF db] w st]
  have r: "ret = 0" using S(1) ex by blast
  have "ro_free db' k" for k
    using S(9) [OF r free] S(5) [of k] copy_cong(3) [of db' k db] db_okD(8) [OF db, of k] by (cases "k = key") auto
  then have "db_ok C D db'" using db static_same [OF S(4)] by (simp add: db_ok_def)
  then show ?thesis using S(3,5) S(7,8) [OF r] r away free pnn by auto
qed

lemma send_dmaster_reply_abs:
  assumes ok: "node_ok N m C D p d" and p: "unat p < N" and db: "db_ok C D db" and env: "good_env env" and ex: "ltdb db key \<noteq> None"
    and free: "\<not> has_flag (hflags header) CTDB_REC_RO_FLAGS"
    and l: "p = ctdb_lmaster m key" and new: "new \<noteq> p" "unat new < N"
  shows "\<exists>db' r. ctdb_send_dmaster_reply env d db header key data new req = Some (d\<lparr>out := out d @ [Reply_dmaster r]\<rparr>, db') \<and>
    db_ok C D db' \<and> pk_ok N m D (Reply_dmaster r) \<and> yd_key r = key \<and> yd_data r = data \<and> h_destnode (yd_hdr r) = new \<and>
    dm m db' key = new \<and> (\<forall>k. k \<noteq> key \<longrightarrow> ltdb db' k = ltdb db k)"
proof -
  note P = pk_ok_allocate [OF ok p]
  obtain ret h' db' where st: "ctdb_ltdb_store (io env) d db key (header\<lparr>dmaster := new\<rparr>) data = (ret, h', db')" by (metis prod_cases3)
  have "\<not> has_flag (hflags (header\<lparr>dmaster := new\<rparr>)) CTDB_REC_RO_FLAGS" "dmaster (header\<lparr>dmaster := new\<rparr>) \<noteq> p"
    using free new(1) by simp_all
  note S = store_away [OF ok db env ex this st]
  let ?r = "\<lparr>yd_hdr = ctdb_transport_allocate d new req, yd_db_id = db_id db', yd_rsn = rsn h', yd_key = key, yd_data = data, yd_flags = Some (hflags h')\<rparr>"
  have q: "ctdb_queue_packet d (Reply_dmaster ?r) = d\<lparr>out := out d @ [Reply_dmaster ?r]\<rparr>"
    by (rule queue_packet [OF ok]) (simp_all add: same_node_def new(2) P)
  have D: "db_id db' = D" using S db_okD(1) by blast
  have lm: "the_lmaster d key = p" using node_okD(2) [OF ok] l by (simp add: the_lmaster_def)
  have "ctdb_send_dmaster_reply env d db header key data new req = Some (d\<lparr>out := out d @ [Reply_dmaster ?r]\<rparr>, db')"
    using st S lm node_okD(1,3) [OF ok] q by (simp add: ctdb_send_dmaster_reply_def)
  moreover have "pk_ok N m D (Reply_dmaster ?r)" using S D P new p l by (simp add: pk_ok_def)
  ultimately show ?thesis using S l new by (intro exI [of _ db'] exI [of _ ?r]) (simp add: P)
qed

lemma call_send_dmaster_abs:
  assumes ok: "node_ok N m C D p d" and p: "unat p < N" and db: "db_ok C D db" and env: "good_env env" and ex: "ltdb db key \<noteq> None"
    and free: "\<not> has_flag (hflags header) CTDB_REC_RO_FLAGS" and lm: "unat (ctdb_lmaster m key) < N"
    and c: "c_db_id c = D" "h_srcnode (c_hdr c) \<noteq> p" "unat (h_srcnode (c_hdr c)) < N"
    and here: "dm m db key = p" "data = val db key" and x: "\<forall>k. \<not> tok k x"
  shows "\<exists>db' y. ctdb_call_send_dmaster env d db c header key data = Some (d\<lparr>out := out d @ [y]\<rparr>, db') \<and>
    db_ok C D db' \<and> pk_ok N m D y \<and> tok key y \<and> effect m C key p db x {#y#} [] db' \<and> (\<forall>k. k \<noteq> key \<longrightarrow> ltdb db' k = ltdb db k) \<and>
    target y = h_srcnode (c_hdr c)"
proof -
  note P = pk_ok_allocate [OF ok p]
  let ?h = "if data \<noteq> [] then header\<lparr>hflags := hflags header OR CTDB_REC_FLAG_MIGRATED_WITH_DATA\<rparr> else header"
  have hfree: "\<not> has_flag (hflags ?h) CTDB_REC_RO_FLAGS" using free by (simp add: ro_or_migrated)
  have L: "the_lmaster d key = ctdb_lmaster m key" using node_okD(2) [OF ok] by (simp add: the_lmaster_def)
  show ?thesis
  proof (cases "ctdb_lmaster m key = p")
    case True
    from send_dmaster_reply_abs [OF ok p db env ex hfree True [symmetric] c(2,3), of data "h_reqid (c_hdr c)"] obtain db' r where
      R: "ctdb_send_dmaster_reply env d db ?h key data (h_srcnode (c_hdr c)) (h_reqid (c_hdr c)) = Some (d\<lparr>out := out d @ [Reply_dmaster r]\<rparr>, db')"
        "db_ok C D db'" "pk_ok N m D (Reply_dmaster r)" "yd_key r = key" "yd_data r = data" "h_destnode (yd_hdr r) = h_srcnode (c_hdr c)"
        "dm m db' key = h_srcnode (c_hdr c)" "\<forall>k. k \<noteq> key \<longrightarrow> ltdb db' k = ltdb db k" by blast
    have "ctdb_call_send_dmaster env d db c header key data = Some (d\<lparr>out := out d @ [Reply_dmaster r]\<rparr>, db')"
      using R(1) True L node_okD(1,3) [OF ok] by (simp add: ctdb_call_send_dmaster_def Let_def)
    moreover have "effect m C key p db x {#Reply_dmaster r#} [] db'"
      by (rule effect.reply) (use R here True c x in auto)
    ultimately show ?thesis using R by (intro exI [of _ db'] exI [of _ "Reply_dmaster r"]) simp
  next
    case False
    let ?r = "\<lparr>rd_hdr = ctdb_transport_allocate d (ctdb_lmaster m key) (h_reqid (c_hdr c)), rd_db_id = c_db_id c, rd_rsn = rsn ?h,
      rd_dmaster = h_srcnode (c_hdr c), rd_key = key, rd_data = data, rd_flags = Some (hflags ?h)\<rparr>"
    obtain ret h' db' where st: "ctdb_ltdb_store (io env) d db key (?h\<lparr>dmaster := h_srcnode (c_hdr c)\<rparr>) data = (ret, h', db')" by (metis prod_cases3)
    have "\<not> has_flag (hflags (?h\<lparr>dmaster := h_srcnode (c_hdr c)\<rparr>)) CTDB_REC_RO_FLAGS" "dmaster (?h\<lparr>dmaster := h_srcnode (c_hdr c)\<rparr>) \<noteq> p"
      using hfree c(2) by simp_all
    note S = store_away [OF ok db env ex this st]
    have q: "ctdb_queue_packet d (Req_dmaster ?r) = d\<lparr>out := out d @ [Req_dmaster ?r]\<rparr>"
      by (rule queue_packet [OF ok]) (simp_all add: same_node_def lm P)
    have "ctdb_call_send_dmaster env d db c header key data = Some (d\<lparr>out := out d @ [Req_dmaster ?r]\<rparr>, db')"
      using st S False L node_okD(1,3) [OF ok] q unfolding ctdb_call_send_dmaster_def Let_def by simp
    moreover have "pk_ok N m D (Req_dmaster ?r)" using P p lm c False hfree by (simp add: pk_ok_def)
    moreover have "effect m C key p db x {#Req_dmaster ?r#} [] db'"
      by (rule effect.request) (use S here False x P in auto)
    ultimately show ?thesis using S by (intro exI [of _ db'] exI [of _ "Req_dmaster ?r"]) simp
  qed
qed


text \<open>The data master that gets a request of another node gives the record away, otherwise it executes the call.\<close>

lemma migrate_moves:
  assumes ok: "node_ok N m C D p d" and p: "unat p < N" and db: "db_ok C D db" and env: "good_env env" and ex: "ltdb db (c_key c) \<noteq> None"
    and free: "\<not> has_flag (hflags header) CTDB_REC_RO_FLAGS" and lm: "unat (ctdb_lmaster m (c_key c)) < N"
    and c: "c_db_id c = D" "unat (h_srcnode (c_hdr c)) < N" "h_srcnode (c_hdr c) \<noteq> p"
    and here: "dm m db (c_key c) = p" "data = val db (c_key c)"
    and same: "\<forall>k. dm m db k = dm m (copy D d) k \<and> val db k = val (copy D d) k" and x: "\<forall>k. \<not> tok k x"
  shows "\<exists>d' y. migrate_or_call env d db c header data = Some d' \<and> out d' = out d @ [y] \<and> tok (c_key c) y \<and>
    target y = h_srcnode (c_hdr c) \<and> handled N m C D K p d x (Some d')"
proof -
  let ?key = "c_key c"
  define db1 where "db1 = ctdb_update_db_stat_hot_keys db ?key (c_hopcount c)"
  have db1: "db_ok C D db1" "ltdb db1 = ltdb db" using db db_ok_cong [of db1 db] by (simp_all add: db1_def)
  have eq1: "dm m db1 k = dm m db k" "val db1 k = val db k" for k using rec_cong [OF db1(2)] by blast+
  have ex1: "ltdb db1 ?key \<noteq> None" using ex db1(2) by simp
  have same1: "\<forall>k. dm m db1 k = dm m (copy D d) k \<and> val db1 k = val (copy D d) k" using same eq1 by simp
  have "dm m db1 ?key = p" "data = val db1 ?key" using here eq1 by simp_all
  from call_send_dmaster_abs [OF ok p db1(1) env ex1 free lm c(1,3,2) this x] obtain db' y where
    R: "ctdb_call_send_dmaster env d db1 c header ?key data = Some (d\<lparr>out := out d @ [y]\<rparr>, db')" "db_ok C D db'" "pk_ok N m D y"
      "tok ?key y" "effect m C ?key p db1 x {#y#} [] db'" "\<forall>k. k \<noteq> ?key \<longrightarrow> ltdb db' k = ltdb db1 k" "target y = h_srcnode (c_hdr c)"
    by blast
  let ?db = "snd (ctdb_ltdb_unlock db' ?key)"
  let ?d = "put_db (d\<lparr>out := out d @ [y]\<rparr>) ?db"
  have "migrate_or_call env d db c header data = Some ?d"
    using R(1) c(3) db_okD(4,6) [OF db1(1)] node_okD(1) [OF ok] by (simp add: migrate_or_call_def Let_def db1_def [symmetric])
  moreover have "handled N m C D K p d x (Some ?d)"
  proof (rule handled_acted [OF ok, where db = db1 and key = ?key and db' = ?db and ps = "[y]" and es = "[]"])
    show "acted C D d db1 ?key ?d ?db []"
      using R(2,6) db_ok_cong [of ?db db'] db_okD(1) [OF R(2)] by (simp add: acted_def same_node_def put_db_def calls_ok_def)
    show "effect m C ?key p db1 x (mset (filter (tok ?key) [y])) (map Called []) ?db"
      using effect_cong [OF R(5), of db1 ?db] R(4) rec_cong [of ?db db'] by simp
    show "\<forall>z \<in> set [y]. pk_ok N m D z \<and> (\<forall>k. tok k z \<longrightarrow> k = ?key)" using R(3,4) by (cases y) auto
  qed (use same1 x in \<open>simp_all add: put_db_def\<close>)
  ultimately show ?thesis using R(4,7) by (intro exI [of _ ?d] exI [of _ y]) (simp add: put_db_def)
qed

lemma own_call_handled:
  assumes ok: "node_ok N m C D p d" and p: "unat p < N" and db: "db_ok C D db" and env: "good_env env"
    and free: "\<not> has_flag (hflags header) CTDB_REC_RO_FLAGS" "\<not> has_flag (hflags header) CTDB_REC_FLAG_VACUUM_MIGRATED"
    and own: "h_srcnode (c_hdr c) = p"
    and here: "dm m db (c_key c) = p" "data = val db (c_key c)" "dmaster header = p"
    and same: "\<forall>k. dm m db k = dm m (copy D d) k \<and> val db k = val (copy D d) k" and x: "\<forall>k. \<not> tok k x"
  shows "handled N m C D K p d x (migrate_or_call env d db c header data)"
proof -
  let ?key = "c_key c"
  define db1 where "db1 = ctdb_update_db_stat_hot_keys db ?key (c_hopcount c)"
  have db1: "db_ok C D db1" "ltdb db1 = ltdb db" using db db_ok_cong [of db1 db] by (simp_all add: db1_def)
  have eq1: "dm m db1 k = dm m db k" "val db1 k = val db k" for k using rec_cong [OF db1(2)] by blast+
  have same1: "\<forall>k. dm m db1 k = dm m (copy D d) k \<and> val db1 k = val (copy D d) k" using same eq1 by simp
  let ?call = "\<lparr>call_id = c_callid c, call_key = ?key, call_data = c_calldata c, reply_data = [], status = 0, call_flags = 0\<rparr>"
  obtain ret call d1 db2 where cl: "ctdb_call_local env d db1 ?call header data True = (ret, call, d1, db2)" by (metis prod_cases4)
  have "dmaster header = pnn d" "dm m db1 ?key = pnn d" "val db1 ?key = data" "call_key ?call = ?key"
    using here eq1 node_okD(1) [OF ok] by simp_all
  from call_local_abs [OF node_okD(2) [OF ok] db1(1) env this(1) free this(2-4) cl] obtain es where
    es: "d1 = d\<lparr>history := history d @ es\<rparr>" "db_ok C D db2" "dm m db2 ?key = pnn d"
      "apply_events C (map Called es) data = Some (val db2 ?key)" "\<forall>e \<in> set es. x_key e = ?key" "\<forall>k. k \<noteq> ?key \<longrightarrow> ltdb db2 k = ltdb db1 k"
    by blast
  let ?db = "snd (ctdb_ltdb_unlock db2 ?key)"
  let ?call2 = "if ret \<noteq> 0 then call\<lparr>status := -1\<rparr> else call"
  let ?y = "Reply_call (ctdb_transport_allocate d1 p (h_reqid (c_hdr c))) (status ?call2) (reply_data ?call2)"
  let ?d = "put_db (d1\<lparr>out := out d1 @ [?y]\<rparr>) ?db"
  have s1: "same_node d d1" by (simp add: es(1) same_node_def calls_ok_def)
  have hd: "ctdb_transport_allocate d1 p r = ctdb_transport_allocate d p r" for r by (simp add: es(1) ctdb_transport_allocate_def)
  note P = pk_ok_allocate [OF ok p]
  have "ctdb_queue_packet d1 ?y = d1\<lparr>out := out d1 @ [?y]\<rparr>"
    by (rule queue_packet [OF ok s1]) (simp add: hd P p)
  then have "migrate_or_call env d db c header data = Some ?d"
    using cl own db_okD(4) [OF db1(1)] node_okD(1) [OF ok] unfolding migrate_or_call_def Let_def db1_def [symmetric] by simp
  moreover have "handled N m C D K p d x (Some ?d)"
  proof (rule handled_acted [OF ok, where db = db1 and key = ?key and db' = ?db and ps = "[?y]" and es = es])
    show "acted C D d db1 ?key ?d ?db es"
      using es db_ok_cong [of ?db db2] db_okD(1) [OF es(2)] by (simp add: acted_def same_node_def put_db_def calls_ok_def)
    show "effect m C ?key p db1 x (mset (filter (tok ?key) [?y])) (map Called es) ?db"
      using x es(3,4) here eq1 node_okD(1) [OF ok] rec_cong [of ?db db2] by (auto intro!: effect.exec)
    show "\<forall>z \<in> set [?y]. pk_ok N m D z \<and> (\<forall>k. tok k z \<longrightarrow> k = ?key)" using p P by (simp add: pk_ok_def hd)
  qed (use same1 x es(1) in \<open>simp_all add: put_db_def\<close>)
  ultimately show ?thesis by simp
qed

lemma ro_parts:
  assumes "\<not> has_flag f CTDB_REC_RO_FLAGS"
  shows "\<not> has_flag f CTDB_REC_RO_HAVE_DELEGATIONS" "\<not> has_flag f CTDB_REC_RO_HAVE_READONLY"
    "\<not> has_flag f CTDB_REC_RO_REVOKING_READONLY" "\<not> has_flag f CTDB_REC_RO_REVOKE_COMPLETE"
    "\<not> has_flag f (CTDB_REC_RO_HAVE_DELEGATIONS OR CTDB_REC_RO_HAVE_READONLY)"
proof -
  have "f AND CTDB_REC_RO_HAVE_DELEGATIONS = (f AND CTDB_REC_RO_FLAGS) AND CTDB_REC_RO_HAVE_DELEGATIONS"
    "f AND CTDB_REC_RO_HAVE_READONLY = (f AND CTDB_REC_RO_FLAGS) AND CTDB_REC_RO_HAVE_READONLY"
    "f AND CTDB_REC_RO_REVOKING_READONLY = (f AND CTDB_REC_RO_FLAGS) AND CTDB_REC_RO_REVOKING_READONLY"
    "f AND CTDB_REC_RO_REVOKE_COMPLETE = (f AND CTDB_REC_RO_FLAGS) AND CTDB_REC_RO_REVOKE_COMPLETE"
    "f AND (CTDB_REC_RO_HAVE_DELEGATIONS OR CTDB_REC_RO_HAVE_READONLY) =
       (f AND CTDB_REC_RO_FLAGS) AND (CTDB_REC_RO_HAVE_DELEGATIONS OR CTDB_REC_RO_HAVE_READONLY)"
    by (simp_all add: CTDB_REC_RO_FLAGS_def and.assoc CTDB_REC_RO_HAVE_DELEGATIONS_def CTDB_REC_RO_HAVE_READONLY_def
      CTDB_REC_RO_REVOKING_READONLY_def CTDB_REC_RO_REVOKE_COMPLETE_def)
  with assms show "\<not> has_flag f CTDB_REC_RO_HAVE_DELEGATIONS" "\<not> has_flag f CTDB_REC_RO_HAVE_READONLY"
    "\<not> has_flag f CTDB_REC_RO_REVOKING_READONLY" "\<not> has_flag f CTDB_REC_RO_REVOKE_COMPLETE"
    "\<not> has_flag f (CTDB_REC_RO_HAVE_DELEGATIONS OR CTDB_REC_RO_HAVE_READONLY)"
    by (simp_all add: has_flag_def)
qed

lemma send_error_handled:
  assumes ok: "node_ok N m C D p d" and p: "unat p < N" and x: "\<forall>k. \<not> tok k x" and s: "unat (h_srcnode hdr) < N"
  shows "handled N m C D K p d x (Some (ctdb_send_error d hdr e))"
proof -
  let ?y = "Reply_error (ctdb_transport_allocate d (h_srcnode hdr) (h_reqid hdr)) e"
  have "ctdb_send_error d hdr e = d\<lparr>out := out d @ [?y]\<rparr>"
    using queue_packet [OF ok, of d ?y] node_okD(3) [OF ok] s pk_ok_allocate [OF ok p] by (simp add: ctdb_send_error_def same_node_def)
  moreover have "handled N m C D K p d x (Some (d\<lparr>out := out d @ [?y]\<rparr>))"
    by (rule handled_plain [OF ok, where ps = "[?y]"])
      (use x s p pk_ok_allocate [OF ok p] in \<open>auto simp: same_node_def calls_ok_def pk_ok_def\<close>)
  ultimately show ?thesis by simp
qed

text \<open>A redirected request keeps its sender; it is dropped if it is addressed to a node that does not exist.\<close>

lemma redirect_handled:
  assumes ok: "node_ok N m C D p d" and db: "db_ok C D db"
    and same: "\<forall>k. dm m db k = dm m (copy D d) k \<and> val db k = val (copy D d) k"
    and c: "pk_ok N m D (Req_call c)" and x: "\<forall>k. \<not> tok k x"
  shows "handled N m C D K p d x (Some (put_db (ctdb_call_send_redirect d key c header) (snd (ctdb_ltdb_unlock db key))))"
proof -
  let ?db = "snd (ctdb_ltdb_unlock db key)"
  define dest where "dest = (if pnn d = the_lmaster d key then dmaster header else the_lmaster d key)"
  define y where "y = Req_call (c\<lparr>c_hdr := (c_hdr c)\<lparr>h_destnode := dest\<rparr>, c_hopcount := c_hopcount c + 1\<rparr>)"
  let ?d = "put_db (ctdb_queue_packet d y) ?db"
  define ps where "ps = (if unat (h_destnode (packet_hdr y)) < N then [y] else [])"
  have q: "ctdb_queue_packet d y = d\<lparr>out := out d @ ps\<rparr>"
  proof (cases "unat (h_destnode (packet_hdr y)) < N")
    case True
    have "same_node d d" by (simp add: same_node_def)
    then show ?thesis using queue_packet [OF ok _ True] True by (simp add: ps_def)
  next
    case False
    have "length (node_flags d) = N" using ok by (simp add: node_ok_def)
    then show ?thesis using False by (simp add: ps_def ctdb_queue_packet_def)
  qed
  have pk: "\<forall>z \<in> set ps. pk_ok N m D z \<and> (\<forall>k. tok k z \<longrightarrow> k = key)"
    using c by (auto simp: ps_def y_def pk_ok_def)
  have "filter (tok key) ps = []" by (simp add: ps_def y_def)
  then have eff: "effect m C key p db x (mset (filter (tok key) ps)) (map Called []) ?db"
    using x rec_cong [of ?db db] by (auto intro: effect.quiet)
  have "acted C D d db key ?d ?db []"
    using db db_ok_cong [of ?db db] db_okD(1) [OF db] by (simp add: acted_def same_node_def put_db_def calls_ok_def q)
  then have "handled N m C D K p d x (Some ?d)"
    by (rule handled_acted [OF ok _ same _ pk _ eff]) (use x in \<open>simp_all add: q put_db_def\<close>)
  then show ?thesis by (simp add: ctdb_call_send_redirect_def Let_def y_def dest_def)
qed


text \<open>What a request for a call does when the chain lock is free.\<close>

lemma request_call_unlocked:
  assumes ok: "node_ok N m C D p d" and env: "good_env env" and lk: "lock env = Lock_ok" and D: "c_db_id c = D" and x: "pk_ok N m D (Req_call c)"
  obtains header data db c' where "db_ok C D db" "\<forall>k. dm m db k = dm m (copy D d) k \<and> val db k = val (copy D d) k"
    "dmaster header = dm m db (c_key c)" "data = val db (c_key c)" "\<not> has_flag (hflags header) CTDB_REC_RO_FLAGS"
    "\<not> has_flag (hflags header) CTDB_REC_FLAG_VACUUM_MIGRATED" "dm m db (c_key c) = p \<longrightarrow> ltdb db (c_key c) \<noteq> None"
    "pk_ok N m D (Req_call c')" "c_key c' = c_key c" "c_db_id c' = D" "h_srcnode (c_hdr c') = h_srcnode (c_hdr c)"
    "ctdb_request_call env d c =
       (if dm m db (c_key c) \<noteq> p then Some (put_db (ctdb_call_send_redirect d (c_key c) c' header) (snd (ctdb_ltdb_unlock db (c_key c))))
        else migrate_or_call env d db c' header data)"
proof -
  note n = node_okD [OF ok]
  let ?db = "copy D d"
  let ?key = "c_key c"
  obtain ret header data db where f: "ctdb_ltdb_lock_fetch_requeue (io env) (lock env) d ?db ?key zero_header = (ret, header, data, db)"
    by (metis prod_cases4)
  let ?c = "if has_flag (c_flags c) CTDB_WANT_READONLY then c\<lparr>c_flags := c_flags c AND NOT CTDB_WANT_READONLY\<rparr> else c"
  have c: "pk_ok N m D (Req_call ?c)" "c_key ?c = ?key" "c_db_id ?c = D" "h_srcnode (c_hdr ?c) = h_srcnode (c_hdr c)"
    "\<not> has_flag (c_flags ?c) CTDB_WANT_READONLY"
    using x D by (simp_all add: pk_ok_def has_flag_def and.assoc)
  from lock_fetch_abs [OF n(2) n(5) env f] lk
  have R: "ret = 0" "db_ok C D db" "dmaster header = dm m ?db ?key" "data = val ?db ?key" "\<forall>k. dm m db k = dm m ?db k \<and> val db k = val ?db k"
    "\<not> has_flag (hflags header) CTDB_REC_RO_FLAGS" "\<not> has_flag (hflags header) CTDB_REC_FLAG_VACUUM_MIGRATED"
    "dm m ?db ?key = pnn d \<longrightarrow> ltdb db ?key \<noteq> None" by blast+
  note ro = ro_parts [OF R(6)]
  have "ctdb_request_call env d c =
      (if dmaster header \<noteq> p then Some (put_db (ctdb_call_send_redirect d ?key ?c header) (snd (ctdb_ltdb_unlock db ?key)))
       else migrate_or_call env d db ?c header data)"
    using f R(1) n(1,3,6) D db_okD(4) [OF n(5)] db_okD(3) [OF R(2)] ro c(5) by (simp add: ctdb_request_call_def Let_def)
  then show thesis by (intro that [OF R(2,5) _ _ R(6,7) _ c(1-4)]) (use R n(1) in simp_all)
qed

lemma request_call_handled:
  assumes ok: "node_ok N m C D p d" and p: "unat p < N" and env: "good_env env" and lm: "\<forall>k. unat (ctdb_lmaster m k) < N"
    and x: "pk_ok N m D (Req_call c)"
  shows "handled N m C D K p d (Req_call c) (ctdb_request_call env d c)"
proof -
  have t: "\<forall>k. \<not> tok k (Req_call c)" by simp
  have src: "unat (h_srcnode (c_hdr c)) < N" using x by (simp add: pk_ok_def)
  note n = node_okD [OF ok]
  consider (unknown) "c_db_id c \<noteq> D" | (waits) "c_db_id c = D" "lock env \<noteq> Lock_ok" | (free) "c_db_id c = D" "lock env = Lock_ok" by blast
  then show ?thesis
  proof cases
    case unknown
    then have "ctdb_request_call env d c = Some (ctdb_send_error d (c_hdr c) (-1))" using n(3) n(7) by (simp add: ctdb_request_call_def)
    then show ?thesis using send_error_handled [OF ok p t src] by simp
  next
    case waits
    then have "ctdb_request_call env d c = Some (wait_for_lock d (Req_call c))"
      using env n(3,6) db_okD(4) [OF n(5)]
      by (auto simp: ctdb_request_call_def ctdb_ltdb_lock_fetch_requeue_def ctdb_ltdb_lock_requeue_def good_env_def)
    then show ?thesis using handled_wait [OF ok x] by simp
  next
    case free
    obtain header data db c' where
      R: "db_ok C D db" "\<forall>k. dm m db k = dm m (copy D d) k \<and> val db k = val (copy D d) k"
      "dmaster header = dm m db (c_key c)" "data = val db (c_key c)" "\<not> has_flag (hflags header) CTDB_REC_RO_FLAGS"
      "\<not> has_flag (hflags header) CTDB_REC_FLAG_VACUUM_MIGRATED" "dm m db (c_key c) = p \<longrightarrow> ltdb db (c_key c) \<noteq> None"
      "pk_ok N m D (Req_call c')" "c_key c' = c_key c" "c_db_id c' = D" "h_srcnode (c_hdr c') = h_srcnode (c_hdr c)"
      "ctdb_request_call env d c =
         (if dm m db (c_key c) \<noteq> p then Some (put_db (ctdb_call_send_redirect d (c_key c) c' header) (snd (ctdb_ltdb_unlock db (c_key c))))
          else migrate_or_call env d db c' header data)"
      by (rule request_call_unlocked [OF ok env free(2,1) x])
    show ?thesis
    proof (cases "dm m db (c_key c) = p")
      case False
      then show ?thesis using R(12) redirect_handled [OF ok R(1,2,8) t] by simp
    next
      case here: True
      show ?thesis
      proof (cases "h_srcnode (c_hdr c) = p")
        case True
        have "handled N m C D K p d (Req_call c) (migrate_or_call env d db c' header data)"
          by (rule own_call_handled [OF ok p R(1) env R(5,6)]) (use R here True t in auto)
        then show ?thesis using R(12) here by simp
      next
        case False
        have "\<exists>d' y. migrate_or_call env d db c' header data = Some d' \<and> out d' = out d @ [y] \<and> tok (c_key c') y \<and>
            target y = h_srcnode (c_hdr c') \<and> handled N m C D K p d (Req_call c) (Some d')"
          by (rule migrate_moves [OF ok p R(1) env _ R(5) _ R(10) _ _ _ _ R(2) t]) (use R(4,7,9,11) here False src lm in auto)
        then show ?thesis using R(12) here by auto
      qed
    qed
  qed
qed

text \<open>A node that takes the data master role from a migration packet.\<close>

lemma become_dmaster_handled:
  assumes ok: "node_ok N m C D p d" and db: "db_ok C D db" and env: "good_env env"
    and same: "\<forall>k. dm m db k = dm m (copy D d) k \<and> val db k = val (copy D d) k"
    and free: "\<not> has_flag f CTDB_REC_RO_FLAGS" and ex: "ltdb db key \<noteq> None \<or> p \<noteq> ctdb_lmaster m key"
    and x: "tok key x" "\<forall>k. tok k x \<longrightarrow> k = key" "carried x = data"
  shows "handled N m C D K p d x (ctdb_become_dmaster env d db hdr key data r f)"
proof -
  note n = node_okD [OF ok]
  obtain d' db' es where B: "ctdb_become_dmaster env d db hdr key data r f = Some d'" "acted C D d db key d' db' es"
    "out d' = out d @ []" "dm m db' key = p" "apply_events C (map Called es) (carried x) = Some (val db' key)"
    using become_dmaster_abs [OF n(2) db env free, of key hdr data r] ex x(3) n(1) by auto
  have "effect m C key p db x (mset (filter (tok key) [])) (map Called es) db'" using x(1) B(4,5) by (auto intro: effect.acquire)
  with handled_acted [OF ok B(2) same B(3) _ x(2)] B(1) show ?thesis by simp
qed

lemma request_dmaster_unlocked:
  assumes ok: "node_ok N m C D p d" and env: "good_env env" and lk: "lock env = Lock_ok"
    and x: "pk_ok N m D (Req_dmaster c)" and dest: "h_destnode (rd_hdr c) = p"
    and src: "dm m (copy D d) (rd_key c) = h_srcnode (rd_hdr c)"
  obtains db f header where "db_ok C D db" "\<forall>k. dm m db k = dm m (copy D d) k \<and> val db k = val (copy D d) k" "ltdb db (rd_key c) \<noteq> None"
    "\<not> has_flag f CTDB_REC_RO_FLAGS" "p = ctdb_lmaster m (rd_key c)" "unat (rd_dmaster c) < N"
    "ctdb_request_dmaster env d c =
        (if rd_dmaster c = p then ctdb_become_dmaster env d db (rd_hdr c) (rd_key c) (rd_data c) (rd_rsn c) f
         else (case ctdb_send_dmaster_reply env d db (header\<lparr>rsn := rd_rsn c, hflags := f\<rparr>) (rd_key c) (rd_data c) (rd_dmaster c) (h_reqid (rd_hdr c)) of
                 None \<Rightarrow> None | Some (ctdb, db) \<Rightarrow> Some (put_db ctdb (snd (ctdb_ltdb_unlock db (rd_key c))))))"
proof -
  note n = node_okD [OF ok]
  let ?db = "copy D d"
  let ?key = "rd_key c"
  define f where "f = (case rd_flags c of None \<Rightarrow> 0 | Some f \<Rightarrow> f)"
  have free: "\<not> has_flag f CTDB_REC_RO_FLAGS" using x by (simp add: pk_ok_def f_def has_flag_def split: option.splits)
  have l: "p = ctdb_lmaster m ?key" and D: "rd_db_id c = D" and away: "h_srcnode (rd_hdr c) \<noteq> p" and new: "unat (rd_dmaster c) < N"
    using x dest by (auto simp: pk_ok_def)
  have lmd: "the_lmaster d ?key = p" using n(2) l by (simp add: the_lmaster_def)
  obtain ret header data2 db where ft: "ctdb_ltdb_lock_fetch_requeue (io env) (lock env) d ?db ?key zero_header = (ret, header, data2, db)"
    by (metis prod_cases4)
  from lock_fetch_abs [OF n(2) n(5) env ft] lk
  have R: "ret = 0" "db_ok C D db" "dmaster header = dm m ?db ?key" and same: "\<forall>k. dm m db k = dm m ?db k \<and> val db k = val ?db k" by blast+
  have ex: "ltdb db ?key \<noteq> None" using dm_other_exists [of m db ?key] same src away l by simp
  have "ctdb_request_dmaster env d c =
      (if rd_dmaster c = p then ctdb_become_dmaster env d db (rd_hdr c) ?key (rd_data c) (rd_rsn c) f
       else (case ctdb_send_dmaster_reply env d db (header\<lparr>rsn := rd_rsn c, hflags := f\<rparr>) ?key (rd_data c) (rd_dmaster c) (h_reqid (rd_hdr c)) of
               None \<Rightarrow> None | Some (ctdb, db) \<Rightarrow> Some (put_db ctdb (snd (ctdb_ltdb_unlock db ?key)))))"
    using ft R n(1,6) D lmd src unfolding ctdb_request_dmaster_def Let_def f_def by simp
  then show thesis by (rule that [OF R(2) same ex free l new])
qed

lemma request_dmaster_handled:
  assumes ok: "node_ok N m C D p d" and p: "unat p < N" and env: "good_env env"
    and x: "pk_ok N m D (Req_dmaster c)" and dest: "h_destnode (rd_hdr c) = p"
    and src: "dm m (copy D d) (rd_key c) = h_srcnode (rd_hdr c)"
  shows "handled N m C D K p d (Req_dmaster c) (ctdb_request_dmaster env d c)"
proof (cases "lock env = Lock_ok")
  case False
  have "rd_db_id c = D" using x by (simp add: pk_ok_def)
  then have "ctdb_request_dmaster env d c = Some (wait_for_lock d (Req_dmaster c))"
    using env node_okD(6) [OF ok] False
    by (auto simp: ctdb_request_dmaster_def ctdb_ltdb_lock_fetch_requeue_def ctdb_ltdb_lock_requeue_def good_env_def)
  then show ?thesis using handled_wait [OF ok x] by simp
next
  case True
  let ?key = "rd_key c"
  obtain db f header where db: "db_ok C D db" and same: "\<forall>k. dm m db k = dm m (copy D d) k \<and> val db k = val (copy D d) k"
    and ex: "ltdb db ?key \<noteq> None" and free: "\<not> has_flag f CTDB_REC_RO_FLAGS" and l: "p = ctdb_lmaster m ?key" and new: "unat (rd_dmaster c) < N"
    and eq: "ctdb_request_dmaster env d c =
        (if rd_dmaster c = p then ctdb_become_dmaster env d db (rd_hdr c) ?key (rd_data c) (rd_rsn c) f
         else (case ctdb_send_dmaster_reply env d db (header\<lparr>rsn := rd_rsn c, hflags := f\<rparr>) ?key (rd_data c) (rd_dmaster c) (h_reqid (rd_hdr c)) of
                 None \<Rightarrow> None | Some (ctdb, db) \<Rightarrow> Some (put_db ctdb (snd (ctdb_ltdb_unlock db ?key)))))"
    by (rule request_dmaster_unlocked [OF ok env True x dest src])
  show ?thesis
  proof (cases "rd_dmaster c = p")
    case True
    have "handled N m C D K p d (Req_dmaster c) (ctdb_become_dmaster env d db (rd_hdr c) ?key (rd_data c) (rd_rsn c) f)"
      by (rule become_dmaster_handled [OF ok db env same free]) (use ex in auto)
    then show ?thesis using eq True by simp
  next
    case False
    let ?h = "header\<lparr>rsn := rd_rsn c, hflags := f\<rparr>"
    have "\<not> has_flag (hflags ?h) CTDB_REC_RO_FLAGS" using free by simp
    from send_dmaster_reply_abs [OF ok p db env ex this l False new] obtain db' r where
      S: "ctdb_send_dmaster_reply env d db ?h ?key (rd_data c) (rd_dmaster c) (h_reqid (rd_hdr c)) =
          Some (d\<lparr>out := out d @ [Reply_dmaster r]\<rparr>, db')" "db_ok C D db'" "pk_ok N m D (Reply_dmaster r)" "yd_key r = ?key"
        "yd_data r = rd_data c" "h_destnode (yd_hdr r) = rd_dmaster c" "dm m db' ?key = rd_dmaster c"
        "\<forall>k. k \<noteq> ?key \<longrightarrow> ltdb db' k = ltdb db k" by blast
    let ?db' = "snd (ctdb_ltdb_unlock db' ?key)"
    let ?d = "put_db (d\<lparr>out := out d @ [Reply_dmaster r]\<rparr>) ?db'"
    have A: "acted C D d db ?key ?d ?db' []"
      using S(2,8) db_ok_cong [of ?db' db'] db_okD(1) [OF S(2)] by (simp add: acted_def same_node_def put_db_def calls_ok_def)
    have E: "effect m C ?key p db (Req_dmaster c) (mset (filter (tok ?key) [Reply_dmaster r])) (map Called []) ?db'"
      using S(4-7) False rec_cong [of ?db' db'] by (auto intro!: effect.pass_on)
    have "handled N m C D K p d (Req_dmaster c) (Some ?d)"
      by (rule handled_acted [OF ok A same _ _ _ E]) (use S(3,4) in \<open>simp_all add: put_db_def\<close>)
    then show ?thesis using eq False S(1) by simp
  qed
qed

lemma reply_dmaster_handled:
  assumes ok: "node_ok N m C D p d" and env: "good_env env"
    and x: "pk_ok N m D (Reply_dmaster c)" and dest: "h_destnode (yd_hdr c) = p"
  shows "handled N m C D K p d (Reply_dmaster c) (ctdb_reply_dmaster env d c)"
proof -
  note n = node_okD [OF ok]
  let ?db = "copy D d"
  let ?key = "yd_key c"
  define f where "f = (case yd_flags c of None \<Rightarrow> 0 | Some f \<Rightarrow> f)"
  have free: "\<not> has_flag f CTDB_REC_RO_FLAGS" using x by (simp add: pk_ok_def f_def has_flag_def split: option.splits)
  have D: "yd_db_id c = D" and away: "p \<noteq> ctdb_lmaster m ?key" using x dest by (simp_all add: pk_ok_def)
  show ?thesis
  proof (cases "lock env = Lock_ok")
    case False
    then have "ctdb_reply_dmaster env d c = Some (wait_for_lock d (Reply_dmaster c))"
      using env n(6) D by (auto simp: ctdb_reply_dmaster_def ctdb_ltdb_lock_requeue_def good_env_def)
    then show ?thesis using handled_wait [OF ok x] by simp
  next
    case True
    let ?db1 = "snd (ctdb_ltdb_lock True ?db ?key)"
    have db: "db_ok C D ?db1" using n(5) db_ok_cong [of ?db1 ?db] by simp
    have same: "\<forall>k. dm m ?db1 k = dm m ?db k \<and> val ?db1 k = val ?db k" using rec_cong [of ?db1 ?db] by simp
    have "ctdb_reply_dmaster env d c = ctdb_become_dmaster env d ?db1 (yd_hdr c) ?key (yd_data c) (yd_rsn c) f"
      using True n(6) D by (simp add: ctdb_reply_dmaster_def ctdb_ltdb_lock_requeue_def ctdb_ltdb_lock_def Let_def f_def)
    moreover have "handled N m C D K p d (Reply_dmaster c) (ctdb_become_dmaster env d ?db1 (yd_hdr c) ?key (yd_data c) (yd_rsn c) f)"
      by (rule become_dmaster_handled [OF ok db env same free]) (use away in auto)
    ultimately show ?thesis by simp
  qed
qed

lemma reply_handled:
  assumes ok: "node_ok N m C D p d"
  shows "handled N m C D K p d (Reply_call hdr st data) (Some (ctdb_reply_call env d hdr st data))"
    "handled N m C D K p d (Reply_error hdr st) (Some (ctdb_reply_error d hdr))"
proof -
  have c: "calls_ok d" by (rule node_okD(8) [OF ok])
  have "handled N m C D K p d x (Some (d\<lparr>idr := (idr d)(h_reqid hdr \<mapsto> s')\<rparr>))"
    if "idr d (h_reqid hdr) = Some s" "s_c s' = s_c s" "\<forall>k. \<not> tok k x" for s s' x
    by (rule handled_plain [OF ok, where ps = "[]"]) (use that c in \<open>auto simp: same_node_def calls_ok_def\<close>)
  note upd = this
  show "handled N m C D K p d (Reply_call hdr st data) (Some (ctdb_reply_call env d hdr st data))"
  proof (cases "idr d (h_reqid hdr)")
    case (Some s)
    then have "c_callid (s_c s) \<noteq> CTDB_FETCH_WITH_HEADER_FUNC" using c by (auto simp: calls_ok_def)
    then have "ctdb_reply_call env d hdr st data = (if h_reqid hdr \<noteq> s_reqid s then d else d\<lparr>idr := (idr d)(h_reqid hdr \<mapsto>
        s\<lparr>s_call := (s_call s)\<lparr>reply_data := data, status := st\<rparr>, s_state := CTDB_CALL_DONE\<rparr>)\<rparr>)"
      using Some by (simp add: ctdb_reply_call_def Let_def)
    moreover have "handled N m C D K p d (Reply_call hdr st data) (Some (d\<lparr>idr := (idr d)(h_reqid hdr \<mapsto>
        s\<lparr>s_call := (s_call s)\<lparr>reply_data := data, status := st\<rparr>, s_state := CTDB_CALL_DONE\<rparr>)\<rparr>))"
      by (rule upd [OF Some]) simp_all
    ultimately show ?thesis using handled_skip [OF ok, of "Reply_call hdr st data"] by (cases "h_reqid hdr = s_reqid s") simp_all
  qed (use handled_skip [OF ok] in \<open>simp add: ctdb_reply_call_def\<close>)
  show "handled N m C D K p d (Reply_error hdr st) (Some (ctdb_reply_error d hdr))"
  proof (cases "idr d (h_reqid hdr)")
    case (Some s)
    have "handled N m C D K p d (Reply_error hdr st) (Some (d\<lparr>idr := (idr d)(h_reqid hdr \<mapsto> s\<lparr>s_state := CTDB_CALL_ERROR\<rparr>)\<rparr>))"
      by (rule upd [OF Some]) simp_all
    then show ?thesis using Some handled_skip [OF ok, of "Reply_error hdr st"]
      by (cases "h_reqid hdr = s_reqid s") (simp_all add: ctdb_reply_error_def)
  qed (use handled_skip [OF ok] in \<open>simp add: ctdb_reply_error_def\<close>)
qed

lemma input_pkt_handled:
  assumes ok: "node_ok N m C D p d" and p: "unat p < N" and env: "good_env env" and lm: "\<forall>k. unat (ctdb_lmaster m k) < N"
    and x: "pk_ok N m D x" and dest: "h_destnode (packet_hdr x) = p"
    and src: "\<And>c. x = Req_dmaster c \<Longrightarrow> dm m (copy D d) (rd_key c) = h_srcnode (rd_hdr c)"
  shows "handled N m C D K p d x (ctdb_input_pkt env d x)"
proof -
  have b: "\<not> has_flag (node_flags d ! unat (pnn d)) NODE_FLAGS_BANNED" "generation (the (vnn_map d)) = h_generation (packet_hdr x)"
    using ok p x by (simp_all add: node_ok_def pk_ok_def)
  show ?thesis
  proof (cases x)
    case (Req_call c)
    then show ?thesis using b request_call_handled [OF ok p env lm] x by (simp add: ctdb_input_pkt_def)
  next
    case (Reply_call hdr st data)
    then show ?thesis using b reply_handled(1) [OF ok] by (simp add: ctdb_input_pkt_def)
  next
    case (Reply_error hdr st)
    then show ?thesis using reply_handled(2) [OF ok] by (simp add: ctdb_input_pkt_def)
  next
    case (Req_dmaster c)
    then show ?thesis using b request_dmaster_handled [OF ok p env] x dest src by (simp add: ctdb_input_pkt_def)
  next
    case (Reply_dmaster c)
    then show ?thesis using b reply_dmaster_handled [OF ok env] x dest by (simp add: ctdb_input_pkt_def)
  qed
qed

section \<open>Progress with a free lock\<close>

text \<open>A request that reaches a node which is not the data master goes on to the location master or the data master.\<close>

lemma request_call_redirects:
  assumes ok: "node_ok N m C D p d" and env: "good_env env" and lk: "lock env = Lock_ok" and D: "c_db_id c = D" and x: "pk_ok N m D (Req_call c)"
    and away: "dm m (copy D d) (c_key c) \<noteq> p"
    and dest: "dest = (if p = ctdb_lmaster m (c_key c) then dm m (copy D d) (c_key c) else ctdb_lmaster m (c_key c))" "unat dest < N"
  shows "\<exists>d' c'. ctdb_request_call env d c = Some d' \<and> out d' = out d @ [Req_call c'] \<and> lockwait d' = lockwait d \<and>
    c_key c' = c_key c \<and> c_db_id c' = D \<and> h_srcnode (c_hdr c') = h_srcnode (c_hdr c) \<and> h_destnode (c_hdr c') = dest"
proof -
  note n = node_okD [OF ok]
  obtain header data db c' where
    R: "db_ok C D db" "\<forall>k. dm m db k = dm m (copy D d) k \<and> val db k = val (copy D d) k"
    "dmaster header = dm m db (c_key c)" "data = val db (c_key c)" "\<not> has_flag (hflags header) CTDB_REC_RO_FLAGS"
    "\<not> has_flag (hflags header) CTDB_REC_FLAG_VACUUM_MIGRATED" "dm m db (c_key c) = p \<longrightarrow> ltdb db (c_key c) \<noteq> None"
    "pk_ok N m D (Req_call c')" "c_key c' = c_key c" "c_db_id c' = D" "h_srcnode (c_hdr c') = h_srcnode (c_hdr c)"
    "ctdb_request_call env d c =
       (if dm m db (c_key c) \<noteq> p then Some (put_db (ctdb_call_send_redirect d (c_key c) c' header) (snd (ctdb_ltdb_unlock db (c_key c))))
        else migrate_or_call env d db c' header data)"
    by (rule request_call_unlocked [OF ok env lk D x])
  let ?c = "c'\<lparr>c_hdr := (c_hdr c')\<lparr>h_destnode := dest\<rparr>, c_hopcount := c_hopcount c' + 1\<rparr>"
  have "the_lmaster d (c_key c) = ctdb_lmaster m (c_key c)" using n(2) by (simp add: the_lmaster_def)
  then have "ctdb_call_send_redirect d (c_key c) c' header = ctdb_queue_packet d (Req_call ?c)"
    using n(1) dest(1) R(2,3) by (simp add: ctdb_call_send_redirect_def Let_def)
  also have "\<dots> = d\<lparr>out := out d @ [Req_call ?c]\<rparr>"
    by (rule queue_packet [OF ok]) (use dest(2) in \<open>simp_all add: same_node_def\<close>)
  finally have "ctdb_request_call env d c = Some (put_db (d\<lparr>out := out d @ [Req_call ?c]\<rparr>) (snd (ctdb_ltdb_unlock db (c_key c))))"
    (is "_ = Some ?d") using R(2,12) away by simp
  then show ?thesis using R(9-11) by (intro exI [of _ ?d] exI [of _ ?c]) (simp add: put_db_def)
qed

text \<open>At the data master it starts the migration to its sender.\<close>

lemma request_call_moves:
  assumes ok: "node_ok N m C D p d" and p: "unat p < N" and env: "good_env env" and lk: "lock env = Lock_ok"
    and lm: "\<forall>k. unat (ctdb_lmaster m k) < N" and D: "c_db_id c = D" and x: "pk_ok N m D (Req_call c)"
    and here: "dm m (copy D d) (c_key c) = p" and src: "h_srcnode (c_hdr c) \<noteq> p"
  shows "\<exists>d' y. ctdb_request_call env d c = Some d' \<and> out d' = out d @ [y] \<and> tok (c_key c) y \<and> target y = h_srcnode (c_hdr c)"
proof -
  obtain header data db c' where
    R: "db_ok C D db" "\<forall>k. dm m db k = dm m (copy D d) k \<and> val db k = val (copy D d) k"
    "dmaster header = dm m db (c_key c)" "data = val db (c_key c)" "\<not> has_flag (hflags header) CTDB_REC_RO_FLAGS"
    "\<not> has_flag (hflags header) CTDB_REC_FLAG_VACUUM_MIGRATED" "dm m db (c_key c) = p \<longrightarrow> ltdb db (c_key c) \<noteq> None"
    "pk_ok N m D (Req_call c')" "c_key c' = c_key c" "c_db_id c' = D" "h_srcnode (c_hdr c') = h_srcnode (c_hdr c)"
    "ctdb_request_call env d c =
       (if dm m db (c_key c) \<noteq> p then Some (put_db (ctdb_call_send_redirect d (c_key c) c' header) (snd (ctdb_ltdb_unlock db (c_key c))))
        else migrate_or_call env d db c' header data)"
    by (rule request_call_unlocked [OF ok env lk D x])
  have h: "dm m db (c_key c) = p" using here R(2) by simp
  have sN: "unat (h_srcnode (c_hdr c)) < N" using x by (simp add: pk_ok_def)
  have "\<exists>d' y. migrate_or_call env d db c' header data = Some d' \<and> out d' = out d @ [y] \<and> tok (c_key c') y \<and>
      target y = h_srcnode (c_hdr c') \<and> handled N m C D [] p d (Req_call c) (Some d')"
    by (rule migrate_moves [OF ok p R(1) env _ R(5) _ R(10) _ _ _ _ R(2)]) (use R(4,7,9,11) h src sN lm in auto)
  then show ?thesis using R(9,11,12) h by auto
qed

text \<open>The location master passes a migration on or takes the record; the new data master takes it.\<close>

lemma reply_dmaster_takes:
  assumes ok: "node_ok N m C D p d" and env: "good_env env" and lk: "lock env = Lock_ok"
    and x: "pk_ok N m D (Reply_dmaster c)" and dest: "h_destnode (yd_hdr c) = p"
  shows "\<exists>d'. ctdb_reply_dmaster env d c = Some d' \<and> dm m (copy D d') (yd_key c) = p"
proof -
  note n = node_okD [OF ok]
  let ?db = "snd (ctdb_ltdb_lock True (copy D d) (yd_key c))"
  define f where "f = (case yd_flags c of None \<Rightarrow> 0 | Some f \<Rightarrow> f)"
  have free: "\<not> has_flag f CTDB_REC_RO_FLAGS" using x by (simp add: pk_ok_def f_def has_flag_def split: option.splits)
  have D: "yd_db_id c = D" and away: "p \<noteq> ctdb_lmaster m (yd_key c)" using x dest by (simp_all add: pk_ok_def)
  have db: "db_ok C D ?db" using n(5) db_ok_cong [of ?db "copy D d"] by simp
  have "ctdb_reply_dmaster env d c = ctdb_become_dmaster env d ?db (yd_hdr c) (yd_key c) (yd_data c) (yd_rsn c) f"
    using lk n(6) D by (simp add: ctdb_reply_dmaster_def ctdb_ltdb_lock_requeue_def ctdb_ltdb_lock_def Let_def f_def)
  moreover obtain d' db' es where "ctdb_become_dmaster env d ?db (yd_hdr c) (yd_key c) (yd_data c) (yd_rsn c) f = Some d'"
      "acted C D d ?db (yd_key c) d' db' es" "out d' = out d @ []" "dm m db' (yd_key c) = p"
    using become_dmaster_abs [OF n(2) db env free, of "yd_key c" "yd_hdr c" "yd_data c" "yd_rsn c"] away n(1) by auto
  ultimately show ?thesis using node_ok_acted [OF ok, of ?db "yd_key c" d' db' es "[]"] by auto
qed


lemma request_dmaster_passes:
  assumes ok: "node_ok N m C D p d" and p: "unat p < N" and env: "good_env env" and lk: "lock env = Lock_ok"
    and x: "pk_ok N m D (Req_dmaster c)" and dest: "h_destnode (rd_hdr c) = p"
    and src: "dm m (copy D d) (rd_key c) = h_srcnode (rd_hdr c)"
  shows "\<exists>d'. ctdb_request_dmaster env d c = Some d' \<and>
    (if rd_dmaster c = p then dm m (copy D d') (rd_key c) = p
     else \<exists>r. out d' = out d @ [Reply_dmaster r] \<and> yd_key r = rd_key c \<and> h_destnode (yd_hdr r) = rd_dmaster c)"
proof -
  obtain db f header where R: "db_ok C D db" "\<forall>k. dm m db k = dm m (copy D d) k \<and> val db k = val (copy D d) k" "ltdb db (rd_key c) \<noteq> None"
    "\<not> has_flag f CTDB_REC_RO_FLAGS" "p = ctdb_lmaster m (rd_key c)" "unat (rd_dmaster c) < N"
    "ctdb_request_dmaster env d c =
        (if rd_dmaster c = p then ctdb_become_dmaster env d db (rd_hdr c) (rd_key c) (rd_data c) (rd_rsn c) f
         else (case ctdb_send_dmaster_reply env d db (header\<lparr>rsn := rd_rsn c, hflags := f\<rparr>) (rd_key c) (rd_data c) (rd_dmaster c) (h_reqid (rd_hdr c)) of
                 None \<Rightarrow> None | Some (ctdb, db) \<Rightarrow> Some (put_db ctdb (snd (ctdb_ltdb_unlock db (rd_key c))))))"
    by (rule request_dmaster_unlocked [OF ok env lk x dest src])
  note n = node_okD [OF ok]
  show ?thesis
  proof (cases "rd_dmaster c = p")
    case True
    obtain d' db' es where "ctdb_become_dmaster env d db (rd_hdr c) (rd_key c) (rd_data c) (rd_rsn c) f = Some d'"
        "acted C D d db (rd_key c) d' db' es" "out d' = out d @ []" "dm m db' (rd_key c) = p"
      using become_dmaster_abs [OF n(2) R(1) env R(4), of "rd_key c" "rd_hdr c" "rd_data c" "rd_rsn c"] R(3) n(1) by auto
    then show ?thesis using node_ok_acted [OF ok, of db "rd_key c" d' db' es "[]"] R(7) True by auto
  next
    case False
    have "\<not> has_flag (hflags (header\<lparr>rsn := rd_rsn c, hflags := f\<rparr>)) CTDB_REC_RO_FLAGS" using R(4) by simp
    from send_dmaster_reply_abs [OF ok p R(1) env R(3) this R(5) False R(6), of "rd_data c" "h_reqid (rd_hdr c)"]
    show ?thesis using R(7) False by (auto simp: put_db_def)
  qed
qed

end
