(* ===== verification/Migration_Correct.thy ===== *)
theory Migration_Correct
  imports Migration_Handlers
begin

text \<open>
  The invariant of a cluster in which packets are delivered in any order: for every key the current
  value is in one place, at the data master or in a packet.  From it the properties of the migration
  protocol: the cluster implements one copy of every record, no daemon aborts, and a request for a
  record can always be completed.
\<close>

section \<open>The invariant of the cluster\<close>

definition nodes_ok :: "nat \<Rightarrow> ctdb_vnn_map \<Rightarrow> (u32 \<rightharpoonup> call_fn) \<Rightarrow> u32 \<Rightarrow> cluster \<Rightarrow> bool" where
  "nodes_ok N m C D cl \<longleftrightarrow> (\<forall>p. unat p < N \<longrightarrow> node_ok N m C D p (cl p))"

text \<open>All migration packets for a key, wherever they wait.\<close>

definition in_flight :: "nat \<Rightarrow> u8 list \<Rightarrow> cluster \<Rightarrow> packet multiset" where
  "in_flight N K cl = (\<Sum>p | unat p < N. toks K (cl p))"

text \<open>The node that the location master takes for the data master while a packet is on its way.\<close>

fun registered :: "packet \<Rightarrow> u32" where
  "registered (Req_dmaster r) = h_srcnode (rd_hdr r)"
| "registered (Reply_dmaster r) = h_destnode (yd_hdr r)"
| "registered _ = 0"

text \<open>The copy of a key at a node.\<close>

definition dm_at :: "ctdb_vnn_map \<Rightarrow> u32 \<Rightarrow> u8 list \<Rightarrow> cluster \<Rightarrow> u32 \<Rightarrow> u32" where
  "dm_at m D K cl p = dm m (copy D (cl p)) K"

definition val_at :: "u32 \<Rightarrow> u8 list \<Rightarrow> cluster \<Rightarrow> u32 \<Rightarrow> u8 list" where
  "val_at D K cl p = val (copy D (cl p)) K"

text \<open>
  The current value of a key is in exactly one place: at a data master, which the location master
  knows, or in a migration packet.
\<close>

inductive current :: "nat \<Rightarrow> ctdb_vnn_map \<Rightarrow> u32 \<Rightarrow> u8 list \<Rightarrow> cluster \<Rightarrow> u8 list \<Rightarrow> bool" for N m D K cl where
  at_node: "\<lbrakk>unat h < N; in_flight N K cl = {#}; \<forall>p. unat p < N \<longrightarrow> (dm_at m D K cl p = p \<longleftrightarrow> p = h);
    dm_at m D K cl (ctdb_lmaster m K) = h\<rbrakk> \<Longrightarrow> current N m D K cl (val_at D K cl h)"
| in_packet: "\<lbrakk>in_flight N K cl = {#x#}; \<forall>p. unat p < N \<longrightarrow> dm_at m D K cl p \<noteq> p;
    dm_at m D K cl (ctdb_lmaster m K) = registered x\<rbrakk> \<Longrightarrow> current N m D K cl (carried x)"

lemma in_flight_upd: "unat p < N \<Longrightarrow> toks K d = toks K (cl p) + new \<Longrightarrow> in_flight N K (cl(p := d)) = in_flight N K cl + new"
  by (simp add: in_flight_def sum.remove [of _ p])

lemma in_flight_split: "unat p < N \<Longrightarrow> in_flight N K cl = toks K (cl p) + (\<Sum>q | unat q < N \<and> q \<noteq> p. toks K (cl q))"
  by (subst in_flight_def, subst sum.remove [of _ p]) (auto intro!: sum.cong arg_cong2 [where f = "(+)"])

lemma at_upd [simp]:
  "dm_at m D K (cl(p := d)) q = (if q = p then dm m (copy D d) K else dm_at m D K cl q)"
  "val_at D K (cl(p := d)) q = (if q = p then val (copy D d) K else val_at D K cl q)"
  by (simp_all add: dm_at_def val_at_def)

text \<open>The value is unique where it is.\<close>

lemma current_cong:
  assumes "current N m D K cl v" "in_flight N K cl' = in_flight N K cl"
    "\<forall>p. unat p < N \<longrightarrow> dm_at m D K cl' p = dm_at m D K cl p \<and> val_at D K cl' p = val_at D K cl p"
    "unat (ctdb_lmaster m K) < N"
  shows "current N m D K cl' v"
  using assms(1)
proof cases
  case (at_node h)
  have "current N m D K cl' (val_at D K cl' h)" by (rule current.at_node) (use at_node assms(2-) in auto)
  then show ?thesis using at_node assms(3) by simp
next
  case (in_packet x)
  have "current N m D K cl' (carried x)" by (rule current.in_packet) (use in_packet assms(2-) in auto)
  then show ?thesis using in_packet by simp
qed

lemma current_owner:
  assumes "current N m D K cl v" "unat p < N" "dm_at m D K cl p = p"
  shows "in_flight N K cl = {#}" "v = val_at D K cl p" "\<forall>q. unat q < N \<longrightarrow> (dm_at m D K cl q = q \<longleftrightarrow> q = p)"
    "dm_at m D K cl (ctdb_lmaster m K) = p"
  using assms by (auto elim!: current.cases)

lemma current_token:
  assumes "current N m D K cl v" "x \<in># in_flight N K cl"
  shows "in_flight N K cl = {#x#}" "v = carried x" "\<forall>q. unat q < N \<longrightarrow> dm_at m D K cl q \<noteq> q"
    "dm_at m D K cl (ctdb_lmaster m K) = registered x"
  using assms by (auto elim!: current.cases)

text \<open>A packet is taken out of a queue and handled at a node.\<close>

lemma current_effect:
  assumes cur: "current N m D K cl v" and p: "unat p < N" and lm: "unat (ctdb_lmaster m K) < N"
    and x: "in_flight N K cl = in_flight N K cl1 + (if tok K x then {#x#} else {#})"
      "\<forall>q. copy D (cl1 q) = copy D (cl q)" "tok K x \<Longrightarrow> pk_ok N m D x" "h_destnode (packet_hdr x) = p"
    and eff: "effect m C K p (copy D (cl1 p)) x new es (copy D d)" and t: "toks K d = toks K (cl1 p) + new"
  shows "\<exists>v'. apply_events C es v = Some v' \<and> current N m D K (cl1(p := d)) v'"
proof -
  let ?cl = "cl1(p := d)"
  have same: "dm_at m D K cl1 q = dm_at m D K cl q" "val_at D K cl1 q = val_at D K cl q" for q
    using x(2) by (simp_all add: dm_at_def val_at_def)
  have fl: "in_flight N K ?cl = in_flight N K cl1 + new" using in_flight_upd [of p N K d cl1, OF p t] .
  have db: "dm m (copy D (cl1 p)) K = dm_at m D K cl p" "val (copy D (cl1 p)) K = val_at D K cl p"
    using x(2) by (simp_all add: dm_at_def val_at_def)
  let ?L = "ctdb_lmaster m K"
  from eff show ?thesis
  proof cases
    case quiet
    have "current N m D K ?cl v"
      by (rule current_cong [OF cur _ _ lm]) (use quiet fl x(1) same db in auto)
    then show ?thesis using quiet by simp
  next
    case exec
    have "dm_at m D K cl p = p" using exec db by simp
    note O = current_owner [OF cur p this]
    have "current N m D K ?cl (val_at D K ?cl p)"
      by (rule current.at_node) (use exec fl x(1) O same p in auto)
    then show ?thesis using exec O(2) db by simp
  next
    case (reply r)
    have "dm_at m D K cl p = p" using reply db by simp
    note O = current_owner [OF cur p this]
    have "current N m D K ?cl (carried (Reply_dmaster r))"
      by (rule current.in_packet) (use reply fl x(1) O same p in auto)
    then show ?thesis using reply O(2) db by simp
  next
    case (request r)
    have "dm_at m D K cl p = p" using request db by simp
    note O = current_owner [OF cur p this]
    have "current N m D K ?cl (carried (Req_dmaster r))"
      by (rule current.in_packet) (use request fl x(1) O same p in auto)
    then show ?thesis using request O(2) db by simp
  next
    case (pass_on q r)
    then have "x \<in># in_flight N K cl" using x(1) by simp
    note T = current_token [OF cur this]
    have "p = ?L" using x(3,4) pass_on by (simp add: pk_ok_def)
    moreover have "in_flight N K cl1 = {#}" using T(1) x(1) pass_on by simp
    ultimately have "current N m D K ?cl (carried (Reply_dmaster r))"
      by (intro current.in_packet) (use pass_on fl T same p in auto)
    then show ?thesis using pass_on T(2) by simp
  next
    case acquire
    then have "x \<in># in_flight N K cl" using x(1) by simp
    note T = current_token [OF cur this]
    have "p = ?L \<or> registered x = p" using x(3,4) acquire(2) by (cases x) (auto simp: pk_ok_def)
    moreover have "in_flight N K cl1 = {#}" using T(1) x(1) acquire by simp
    ultimately have "current N m D K ?cl (val_at D K ?cl p)"
      by (intro current.at_node) (use acquire fl T same p in auto)
    then show ?thesis using acquire T(2) by simp
  qed
qed


lemma nodes_okD: "nodes_ok N m C D cl \<Longrightarrow> unat p < N \<Longrightarrow> node_ok N m C D p (cl p)"
  by (simp add: nodes_ok_def)

lemma nodes_ok_upd: "nodes_ok N m C D cl \<Longrightarrow> node_ok N m C D p d \<Longrightarrow> nodes_ok N m C D (cl(p := d))"
  by (simp add: nodes_ok_def)

text \<open>Taking a packet out of the queue of its sender.\<close>

lemma taken:
  assumes ok: "nodes_ok N m C D cl" and i: "unat i < N" and o: "out (cl i) = xs @ x # ys" and cl1: "cl1 = cl(i := (cl i)\<lparr>out := xs @ ys\<rparr>)"
  shows "nodes_ok N m C D cl1" "pk_ok N m D x" "copy D (cl1 q) = copy D (cl q)" "history (cl1 q) = history (cl q)"
    "in_flight N K cl = in_flight N K cl1 + (if tok K x then {#x#} else {#})"
proof -
  note n = nodes_okD [OF ok i]
  have "node_ok N m C D i ((cl i)\<lparr>out := xs @ ys\<rparr>)" using n by (auto simp: node_ok_def queued_def o calls_ok_def)
  then show "nodes_ok N m C D cl1" using nodes_ok_upd [OF ok] cl1 by simp
  show "pk_ok N m D x" using n by (auto simp: node_ok_def queued_def o)
  show "copy D (cl1 q) = copy D (cl q)" "history (cl1 q) = history (cl q)" by (simp_all add: cl1 copy_def)
  have "toks K (cl i) = toks K (cl1 i) + (if tok K x then {#x#} else {#})" by (simp add: toks_def queued_def o cl1)
  then have "in_flight N K (cl1(i := cl i)) = in_flight N K cl1 + (if tok K x then {#x#} else {#})" by (rule in_flight_upd [OF i])
  moreover have "cl1(i := cl i) = cl" by (simp add: cl1)
  ultimately show "in_flight N K cl = in_flight N K cl1 + (if tok K x then {#x#} else {#})" by simp
qed

text \<open>A well-formed cluster in which every key has a current value.\<close>

definition cluster_inv :: "nat \<Rightarrow> ctdb_vnn_map \<Rightarrow> (u32 \<rightharpoonup> call_fn) \<Rightarrow> u32 \<Rightarrow> cluster \<Rightarrow> bool" where
  "cluster_inv N m C D cl \<longleftrightarrow> nodes_ok N m C D cl \<and> (\<forall>K. \<exists>v. current N m D K cl v)"

lemma in_flightI: "unat i < N \<Longrightarrow> x \<in> set (queued (cl i)) \<Longrightarrow> tok K x \<Longrightarrow> x \<in># in_flight N K cl"
  by (simp add: in_flight_split toks_def)

lemma deliver_handled:
  assumes inv: "cluster_inv N m C D cl" and lm: "\<forall>k. unat (ctdb_lmaster m k) < N" and i: "unat i < N" and o: "out (cl i) = xs @ x # ys"
    and cl1: "cl1 = cl(i := (cl i)\<lparr>out := xs @ ys\<rparr>)" and j: "j = h_destnode (packet_hdr x)" and env: "good_env env"
  shows "handled N m C D K j (cl1 j) x (ctdb_input_pkt env (cl1 j) x)"
proof -
  have ok: "nodes_ok N m C D cl" using inv by (simp add: cluster_inv_def)
  note T = taken [OF ok i o cl1]
  have jN: "unat j < N" using T(2) j by (simp add: pk_ok_def)
  have "dm m (copy D (cl1 j)) (rd_key c) = h_srcnode (rd_hdr c)" if c: "x = Req_dmaster c" for c
  proof -
    obtain v where "current N m D (rd_key c) cl v" using inv by (auto simp: cluster_inv_def)
    moreover have "x \<in># in_flight N (rd_key c) cl" by (rule in_flightI [OF i]) (simp_all add: queued_def o c)
    ultimately have "dm_at m D (rd_key c) cl (ctdb_lmaster m (rd_key c)) = registered x" by (rule current_token)
    then show ?thesis using T(2,3) j c by (simp add: pk_ok_def dm_at_def)
  qed
  then show ?thesis using input_pkt_handled [OF nodes_okD [OF T(1) jN] jN env lm T(2)] j by simp
qed

lemma deliver_step:
  assumes inv: "cluster_inv N m C D cl" and lm: "\<forall>k. unat (ctdb_lmaster m k) < N" and i: "unat i < N" and o: "out (cl i) = xs @ x # ys"
    and cl1: "cl1 = cl(i := (cl i)\<lparr>out := xs @ ys\<rparr>)" and j: "j = h_destnode (packet_hdr x)" and env: "good_env env"
    and d: "ctdb_input_pkt env (cl1 j) x = Some d" and cur: "current N m D K cl v"
  shows "nodes_ok N m C D (cl1(j := d)) \<and>
    (\<exists>v'. apply_events C (on_key K (map Called (drop (length (history (cl j))) (history d)))) v = Some v' \<and> current N m D K (cl1(j := d)) v')"
proof -
  have ok: "nodes_ok N m C D cl" using inv by (simp add: cluster_inv_def)
  note T = taken [OF ok i o cl1]
  have jN: "unat j < N" using T(2) j by (simp add: pk_ok_def)
  from deliver_handled [OF inv lm i o cl1 j env, of K] d obtain es new where
    H: "node_ok N m C D j d" "history d = history (cl1 j) @ es" "toks K d = toks K (cl1 j) + new"
      "effect m C K j (copy D (cl1 j)) x new (on_key K (map Called es)) (copy D d)" by (auto simp: handled_def)
  have "\<forall>q. copy D (cl1 q) = copy D (cl q)" using T(3) by blast
  from current_effect [OF cur jN _ T(5) this T(2) j [symmetric] H(4,3)] lm
  show ?thesis using nodes_ok_upd [OF T(1) H(1)] H(2) T(4) [of j] by simp
qed

lemma quiet_step:
  assumes ok: "nodes_ok N m C D cl" and i: "unat i < N" and d: "node_ok N m C D i d" "copy D d = copy D (cl i)" "toks K d = toks K (cl i)"
    and lm: "\<forall>k. unat (ctdb_lmaster m k) < N" and cur: "current N m D K cl v"
  shows "nodes_ok N m C D (cl(i := d)) \<and> current N m D K (cl(i := d)) v"
proof
  show "nodes_ok N m C D (cl(i := d))" by (rule nodes_ok_upd [OF ok d(1)])
  have "in_flight N K (cl(i := d)) = in_flight N K cl + {#}" by (rule in_flight_upd [OF i]) (simp add: d(3))
  then show "current N m D K (cl(i := d)) v"
    using current_cong [OF cur, of "cl(i := d)"] lm d(2) by (simp add: dm_at_def val_at_def)
qed


lemma lock_taken_quiet:
  assumes ok: "node_ok N m C D p d" and w: "w \<in> set (lockwait d)"
  shows "node_ok N m C D p (lock_fetch_callback d w)" "copy D (lock_fetch_callback d w) = copy D d"
    "toks K (lock_fetch_callback d w) = toks K d" "set (queued (lock_fetch_callback d w)) = set (queued d)"
    "snd w \<in> set (out (lock_fetch_callback d w))"
proof -
  have g: "fst w = generation (the (vnn_map d))" using ok w by (simp add: node_ok_def)
  then have eq: "lock_fetch_callback d w = d\<lparr>lockwait := remove1 w (lockwait d), out := out d @ [snd w]\<rparr>"
    by (simp add: lock_fetch_callback_def)
  have sub: "set (remove1 w (lockwait d)) \<subseteq> set (lockwait d)" by (rule set_remove1_subset)
  have "set (queued (lock_fetch_callback d w)) \<subseteq> set (queued d)" using w sub by (auto simp: eq queued_def)
  then show "node_ok N m C D p (lock_fetch_callback d w)"
    using ok sub by (auto simp: node_ok_def calls_ok_def eq)
  show "copy D (lock_fetch_callback d w) = copy D d" by (simp add: eq copy_def)
  have "mset (map snd ws) = add_mset (snd w) (mset (map snd (remove1 w ws)))" if "w \<in> set ws" for ws :: "(u32 \<times> packet) list"
    using that by (induction ws) auto
  then have "mset (map snd (lockwait d)) = add_mset (snd w) (mset (map snd (remove1 w (lockwait d))))"
    using w .
  then have "mset (queued (lock_fetch_callback d w)) = mset (queued d)" by (simp add: queued_def eq)
  then show "toks K (lock_fetch_callback d w) = toks K d" "set (queued (lock_fetch_callback d w)) = set (queued d)"
    by (simp add: toks_def, rule mset_eq_setD)
  show "snd w \<in> set (out (lock_fetch_callback d w))" by (simp add: eq)
qed

lemma call_sent_quiet:
  assumes ok: "node_ok N m C D p d" and p: "unat p < N" and db: "find_ctdb_db d b = Some db" and h: "unat (dmaster header) < N"
    and call: "call_id call \<noteq> CTDB_FETCH_WITH_HEADER_FUNC"
  shows "node_ok N m C D p (ctdb_daemon_call_send_remote d db req call header)"
    "copy D (ctdb_daemon_call_send_remote d db req call header) = copy D d"
    "toks K (ctdb_daemon_call_send_remote d db req call header) = toks K d"
proof -
  note P = pk_ok_allocate [OF ok p]
  let ?c = "\<lparr>c_hdr = ctdb_transport_allocate d (dmaster header) req, c_flags = call_flags call, c_db_id = db_id db,
    c_callid = call_id call, c_hopcount = 0, c_key = call_key call, c_calldata = call_data call\<rparr>"
  define s where "s = \<lparr>s_state = CTDB_CALL_WAIT, s_reqid = req, s_c = ?c, s_call = call, s_generation = generation (the (vnn_map d))\<rparr>"
  let ?d = "d\<lparr>idr := (idr d)(req \<mapsto> s), pending_calls := req # pending_calls d\<rparr>"
  have "same_node d ?d" using call by (auto simp: same_node_def calls_ok_def s_def)
  then have "ctdb_queue_packet ?d (Req_call ?c) = ?d\<lparr>out := out d @ [Req_call ?c]\<rparr>"
    using queue_packet [OF ok, of ?d "Req_call ?c"] P h by simp
  then have eq: "ctdb_daemon_call_send_remote d db req call header = ?d\<lparr>out := out d @ [Req_call ?c]\<rparr>"
    using node_okD(3) [OF ok] by (simp add: ctdb_daemon_call_send_remote_def s_def Let_def)
  have "pk_ok N m D (Req_call ?c)" using P h p by (simp add: pk_ok_def)
  then show "node_ok N m C D p (ctdb_daemon_call_send_remote d db req call header)"
    unfolding eq using ok call by (auto simp: node_ok_def queued_def calls_ok_def s_def)
  show "copy D (ctdb_daemon_call_send_remote d db req call header) = copy D d"
    "toks K (ctdb_daemon_call_send_remote d db req call header) = toks K d"
    unfolding eq by (simp_all add: copy_def toks_def queued_def)
qed

lemma call_freed_quiet:
  assumes ok: "node_ok N m C D p d"
  shows "node_ok N m C D p (ctdb_call_destructor d s)" "copy D (ctdb_call_destructor d s) = copy D d"
    "toks K (ctdb_call_destructor d s) = toks K d"
  using ok by (auto simp: ctdb_call_destructor_def node_ok_def queued_def calls_ok_def copy_def toks_def)

text \<open>The update of a client on the node that is the data master.\<close>

lemma client_update_abs:
  assumes ok: "node_ok N m C D p d" and db: "find_ctdb_db d b = Some db" and env: "good_env env"
    and f: "ctdb_fetch_lock_round env d db key = Some (header, old)" and st: "ctdb_record_store env d db key header new = (r, db')"
  shows "node_ok N m C D p (put_db d db')" "toks K (put_db d db') = toks K d"
    "dm m (copy D d) key = p" "val (copy D d) key = old" "dm m (copy D (put_db d db')) key = p" "val (copy D (put_db d db')) key = new"
    "k \<noteq> key \<Longrightarrow> dm m (copy D (put_db d db')) k = dm m (copy D d) k" "k \<noteq> key \<Longrightarrow> val (copy D (put_db d db')) k = val (copy D d) k"
proof -
  note n = node_okD [OF ok]
  have b: "b = D" "db = copy D d" using db n(6,7) by (cases "b = D"; simp)+
  note S = db_okD [OF n(5)]
  have long: "\<not> length (rec_of db key) < sizeof_header" and hd: "header = header_of_bytes (rec_of db key)"
    "old = drop sizeof_header (rec_of db key)" and own: "dmaster header = p"
    using f n(1) by (auto simp: ctdb_fetch_lock_round_def ctdb_ltdb_fetch_def client_context_def rec_of_def [symmetric] Let_def
      split: if_splits)
  have free: "\<not> has_flag (hflags header) CTDB_REC_RO_FLAGS" "\<not> has_flag (hflags header) CTDB_REC_FLAG_VACUUM_MIGRATED"
    using S(8) [of key] long hd(1) b(2) by (simp_all add: ro_free_def)
  show "dm m (copy D d) key = p" "val (copy D d) key = old" using long hd own b(2) by (simp_all add: dm_def val_def)
  have w: "io env k r" for k r using env by (simp add: good_env_def)
  have L: "ltdb db' = (ltdb db)(key \<mapsto> bytes_of_header header @ new)" and eqs: "static db' = static db"
    using st S(2) b(2) w by (auto simp: ctdb_record_store_def ctdb_ltdb_store_def tdb_store_def Let_def static_def split: if_splits)
  have key: "dm m db' key = p" "val db' key = new" "ro_free db' key"
    using copy_stored [of db' key header new] L own free by simp_all
  have oth: "dm m db' k = dm m db k" "val db' k = val db k" "ro_free db' k = ro_free db k" if "k \<noteq> key" for k
    using copy_cong [of db' k db] L that by simp_all
  have "ro_free db' k" for k using key(3) oth(3) [of k] S(8) [of k] b(2) by (cases "k = key") auto
  then have ok': "db_ok C D db'" using n(5) eqs b(2) by (simp add: db_ok_def)
  have c: "copy D (put_db d db') = db'" using db_okD(1) [OF ok'] by (simp add: copy_def put_db_def)
  show "node_ok N m C D p (put_db d db')" using ok ok' db_okD(1) [OF ok'] by (auto simp: node_ok_def put_db_def queued_def calls_ok_def)
  show "toks K (put_db d db') = toks K d" by (simp add: toks_def queued_def put_db_def)
  show "dm m (copy D (put_db d db')) key = p" "val (copy D (put_db d db')) key = new" using c key by simp_all
  show "k \<noteq> key \<Longrightarrow> dm m (copy D (put_db d db')) k = dm m (copy D d) k" "k \<noteq> key \<Longrightarrow> val (copy D (put_db d db')) k = val (copy D d) k"
    using c oth b(2) by simp_all
qed

lemma client_update_step:
  assumes ok: "nodes_ok N m C D cl" and lm: "\<forall>k. unat (ctdb_lmaster m k) < N" and i: "unat i < N"
    and db: "find_ctdb_db (cl i) b = Some db" and env: "good_env env"
    and f: "ctdb_fetch_lock_round env (cl i) db key = Some (header, old)" and st: "ctdb_record_store env (cl i) db key header new = (r, db')"
    and cur: "current N m D K cl v"
  shows "nodes_ok N m C D (cl(i := put_db (cl i) db')) \<and>
    (\<exists>v'. apply_events C (on_key K [Updated key old new]) v = Some v' \<and> current N m D K (cl(i := put_db (cl i) db')) v')"
proof -
  let ?cl = "cl(i := put_db (cl i) db')"
  note U = client_update_abs [OF nodes_okD [OF ok i] db env f st]
  have ok': "nodes_ok N m C D ?cl" by (rule nodes_ok_upd [OF ok U(1)])
  have "in_flight N K ?cl = in_flight N K cl + {#}" by (rule in_flight_upd [OF i]) (simp add: U(2))
  then have fl: "in_flight N K ?cl = in_flight N K cl" by simp
  show ?thesis
  proof (cases "K = key")
    case True
    have "dm_at m D K cl i = i" using U(3) True by (simp add: dm_at_def)
    note O = current_owner [OF cur i this]
    have "current N m D K ?cl (val_at D K ?cl i)"
      by (rule current.at_node) (use O fl i U(5) True in auto)
    then show ?thesis using ok' O(2) U(4,6) True by (simp add: on_key_def val_at_def)
  next
    case False
    have "current N m D K ?cl v"
      using current_cong [OF cur, of ?cl] lm fl U(7,8) [OF False] by (simp add: dm_at_def val_at_def)
    then show ?thesis using ok' False by (simp add: on_key_def)
  qed
qed

lemma step_current:
  assumes inv: "cluster_inv N m C D cl" and lm: "\<forall>k. unat (ctdb_lmaster m k) < N" and step: "cluster_step N cl fs cl'" and cur: "current N m D K cl v"
  shows "nodes_ok N m C D cl' \<and> (\<exists>v'. apply_events C (on_key K fs) v = Some v' \<and> current N m D K cl' v')"
proof -
  have ok: "nodes_ok N m C D cl" using inv by (simp add: cluster_inv_def)
  from step show ?thesis
  proof cases
    case (deliver i xs p ys cl1 j env d)
    then show ?thesis using deliver_step [OF inv lm _ _ _ _ _ _ cur] by blast
  next
    case (lock_taken i w)
    then show ?thesis using quiet_step [OF ok lock_taken(3) lock_taken_quiet(1-3) [OF nodes_okD [OF ok lock_taken(3)] lock_taken(4)] lm cur]
      by (simp add: on_key_def)
  next
    case (call_sent i b db req header call)
    note sent = call_sent_quiet [OF nodes_okD [OF ok call_sent(3)] call_sent(3,4,6,7)]
    from call_sent show ?thesis using quiet_step [OF ok call_sent(3) sent lm cur] by (simp add: on_key_def)
  next
    case (call_freed i req s)
    then show ?thesis using quiet_step [OF ok call_freed(3) call_freed_quiet [OF nodes_okD [OF ok call_freed(3)]] lm cur]
      by (simp add: on_key_def)
  next
    case (client_update i b db env key header old new db')
    then show ?thesis using client_update_step [OF ok lm _ _ _ _ _ cur] by blast
  qed
qed

lemma step_inv:
  assumes inv: "cluster_inv N m C D cl" and lm: "\<forall>k. unat (ctdb_lmaster m k) < N" and step: "cluster_step N cl fs cl'"
  shows "cluster_inv N m C D cl'"
proof -
  have "\<exists>v. current N m D K cl v" for K using inv by (simp add: cluster_inv_def)
  then show ?thesis using step_current [OF inv lm step] unfolding cluster_inv_def by metis
qed

lemma apply_events_append: "apply_events C (es @ fs) v = Option.bind (apply_events C es v) (apply_events C fs)"
  by (induction es arbitrary: v) (auto split: option.splits)

lemma run_current:
  assumes "cluster_run N cl es cl'" "cluster_inv N m C D cl" "\<forall>k. unat (ctdb_lmaster m k) < N" "current N m D K cl v"
  shows "cluster_inv N m C D cl' \<and> (\<exists>v'. apply_events C (on_key K es) v = Some v' \<and> current N m D K cl' v')"
  using assms
proof (induction rule: cluster_run.induct)
  case (run_refl cl)
  then show ?case by (simp add: on_key_def)
next
  case (run_step cl es cl1 fs cl2)
  then obtain v1 where I: "cluster_inv N m C D cl1" and v1: "apply_events C (on_key K es) v = Some v1" "current N m D K cl1 v1" by blast
  then obtain v2 where "apply_events C (on_key K fs) v1 = Some v2" "current N m D K cl2 v2"
    using step_current [OF I run_step.prems(2) run_step.hyps(2) v1(2)] by blast
  then show ?case using v1 step_inv [OF I run_step.prems(2) run_step.hyps(2)] by (simp add: on_key_def apply_events_append)
qed

section \<open>Completing a migration\<close>

lemma run_one: "cluster_step N cl es cl' \<Longrightarrow> cluster_run N cl es cl'"
  using run_step [OF run_refl] by fastforce

lemma run_trans: "cluster_run N cl1 fs cl2 \<Longrightarrow> cluster_run N cl es cl1 \<Longrightarrow> \<exists>gs. cluster_run N cl gs cl2"
  by (induction rule: cluster_run.induct) (blast intro: run_step)+

definition idle_env :: call_env where
  "idle_env = \<lparr>io = (\<lambda>_ _. True), rot_io = (\<lambda>_. True), lock = Lock_ok, fork_ok = True\<rparr>"

lemma idle_env: "good_env idle_env" "lock idle_env = Lock_ok"
  by (simp_all add: idle_env_def good_env_def)

text \<open>Requests that wait, in packets with any destination.\<close>

definition asks :: "u32 \<Rightarrow> u8 list \<Rightarrow> u32 \<Rightarrow> u32 \<Rightarrow> packet \<Rightarrow> bool" where
  "asks D K s dest x \<longleftrightarrow> (\<exists>c. x = Req_call c \<and> c_key c = K \<and> c_db_id c = D \<and> h_srcnode (c_hdr c) = s \<and> h_destnode (c_hdr c) = dest)"

text \<open>
  The next delivery of a packet: it is taken from the queue of the sender, after its lock has been
  granted if it waits for one, and handled with a free lock.
\<close>

lemma next_delivery:
  assumes inv: "cluster_inv N m C D cl" and lm: "\<forall>k. unat (ctdb_lmaster m k) < N" and i: "unat i < N" and x: "x \<in> set (queued (cl i))"
  obtains es cl1 d where "cluster_run N cl es (cl1(h_destnode (packet_hdr x) := d))" "cluster_inv N m C D (cl1(h_destnode (packet_hdr x) := d))"
    "unat (h_destnode (packet_hdr x)) < N" "node_ok N m C D (h_destnode (packet_hdr x)) (cl1 (h_destnode (packet_hdr x)))" "pk_ok N m D x"
    "\<forall>q. copy D (cl1 q) = copy D (cl q)"
    "ctdb_input_pkt idle_env (cl1 (h_destnode (packet_hdr x))) x = Some d"
    "\<forall>q y. y \<in> set (queued (cl q)) \<longrightarrow> y \<noteq> x \<longrightarrow> y \<in> set (queued ((cl1(h_destnode (packet_hdr x) := d)) q))"
proof -
  let ?j = "h_destnode (packet_hdr x)"
  obtain clo where clo: "\<exists>es. cluster_run N cl es clo" "x \<in> set (out (clo i))" "\<forall>q. copy D (clo q) = copy D (cl q)"
    "\<forall>q. set (queued (cl q)) \<subseteq> set (queued (clo q))"
  proof (cases "x \<in> set (out (cl i))")
    case True
    then show thesis using that [of cl] run_refl by blast
  next
    case False
    then obtain w where w: "w \<in> set (lockwait (cl i))" "x = snd w" using x by (auto simp: queued_def)
    let ?cl = "cl(i := lock_fetch_callback (cl i) w)"
    have "node_ok N m C D i (cl i)" using inv i by (simp add: cluster_inv_def nodes_ok_def)
    note G = lock_taken_quiet [OF this w(1)]
    have "cluster_run N cl [] ?cl" by (rule run_one, rule cluster_step.lock_taken) (use i w(1) in auto)
    moreover have "x \<in> set (out (?cl i))" using G(5) w(2) by simp
    moreover have "copy D (?cl q) = copy D (cl q)" for q using G(2) by simp
    moreover have "set (queued (cl q)) \<subseteq> set (queued (?cl q))" for q using G(4) by simp
    ultimately show thesis using that [of ?cl] by blast
  qed
  obtain es where es: "cluster_run N cl es clo" using clo(1) by blast
  obtain v where "current N m D [] cl v" using inv by (auto simp: cluster_inv_def)
  then have inv': "cluster_inv N m C D clo" using run_current [OF es inv lm] by blast
  from clo(2) obtain xs ys where o: "out (clo i) = xs @ x # ys" by (meson split_list)
  define cl1 where "cl1 = clo(i := (clo i)\<lparr>out := xs @ ys\<rparr>)"
  have "nodes_ok N m C D clo" using inv' by (simp add: cluster_inv_def)
  note T = taken [OF this i o cl1_def]
  have j: "unat ?j < N" using T(2) by (simp add: pk_ok_def)
  from deliver_handled [OF inv' lm i o cl1_def refl idle_env(1)] obtain d where
    d: "ctdb_input_pkt idle_env (cl1 ?j) x = Some d" "set (queued (cl1 ?j)) \<subseteq> set (queued d)" by (auto simp: handled_def)
  have step: "cluster_step N clo (map Called (drop (length (history (clo ?j))) (history d))) (cl1(?j := d))"
    by (rule cluster_step.deliver [where cl = clo and ?cl1.0 = cl1 and j = ?j, OF i o cl1_def refl idle_env(1) d(1)])
  have "\<forall>q y. y \<in> set (queued (cl q)) \<longrightarrow> y \<noteq> x \<longrightarrow> y \<in> set (queued (cl1 q))"
    using clo(4) by (auto simp: cl1_def queued_def o dest!: subsetD)
  then have "\<forall>q y. y \<in> set (queued (cl q)) \<longrightarrow> y \<noteq> x \<longrightarrow> y \<in> set (queued ((cl1(?j := d)) q))" using d(2) by auto
  moreover have "\<forall>q. copy D (cl1 q) = copy D (cl q)" using T(3) clo(3) by simp
  ultimately show thesis
    using that [OF run_step [OF es step] step_inv [OF inv' lm step] j nodes_okD [OF T(1) j] T(2) _ d(1)] by blast
qed


text \<open>A migration packet reaches the node it is meant for; requests for calls stay where they are.\<close>

definition lands :: "nat \<Rightarrow> ctdb_vnn_map \<Rightarrow> (u32 \<rightharpoonup> call_fn) \<Rightarrow> u32 \<Rightarrow> u8 list \<Rightarrow> cluster \<Rightarrow> u32 \<Rightarrow> bool" where
  "lands N m C D K cl s \<longleftrightarrow>
     (\<exists>es cl'. cluster_run N cl es cl' \<and> cluster_inv N m C D cl' \<and> unat s < N \<and> dm_at m D K cl' s = s \<and>
        (\<forall>q c. Req_call c \<in> set (queued (cl q)) \<longrightarrow> Req_call c \<in> set (queued (cl' q))))"

lemma lands_run:
  assumes "cluster_run N cl es cl'" "\<forall>q c. Req_call c \<in> set (queued (cl q)) \<longrightarrow> Req_call c \<in> set (queued (cl' q))" "lands N m C D K cl' s"
  shows "lands N m C D K cl s"
  using assms run_trans [OF _ assms(1)] unfolding lands_def by metis

lemma reply_lands:
  assumes inv: "cluster_inv N m C D cl" and lm: "\<forall>k. unat (ctdb_lmaster m k) < N" and i: "unat i < N"
    and x: "Reply_dmaster r \<in> set (queued (cl i))"
  shows "lands N m C D (yd_key r) cl (h_destnode (yd_hdr r))"
proof -
  let ?j = "h_destnode (yd_hdr r)"
  have "packet_hdr (Reply_dmaster r) = yd_hdr r" by simp
  from next_delivery [OF inv lm i x, unfolded this] obtain es cl1 d where
    R: "cluster_run N cl es (cl1(?j := d))" "cluster_inv N m C D (cl1(?j := d))" "unat ?j < N" "node_ok N m C D ?j (cl1 ?j)"
      "pk_ok N m D (Reply_dmaster r)" "ctdb_input_pkt idle_env (cl1 ?j) (Reply_dmaster r) = Some d"
      "\<forall>q y. y \<in> set (queued (cl q)) \<longrightarrow> y \<noteq> Reply_dmaster r \<longrightarrow> y \<in> set (queued ((cl1(?j := d)) q))" .
  have "ctdb_input_pkt idle_env (cl1 ?j) (Reply_dmaster r) = ctdb_reply_dmaster idle_env (cl1 ?j) r"
    using R(3,4,5) by (simp add: ctdb_input_pkt_def node_ok_def pk_ok_def)
  then have "dm m (copy D d) (yd_key r) = ?j" using reply_dmaster_takes [OF R(4) idle_env R(5) refl] R(6) by auto
  then have at: "dm_at m D (yd_key r) (cl1(?j := d)) ?j = ?j" by simp
  show ?thesis unfolding lands_def
    by (rule exI [of _ es], rule exI [of _ "cl1(?j := d)"]) (use R(1,2,3,7) at in blast)
qed

lemma token_lands:
  assumes inv: "cluster_inv N m C D cl" and lm: "\<forall>k. unat (ctdb_lmaster m k) < N" and i: "unat i < N"
    and x: "x \<in> set (queued (cl i))" and t: "tok K x"
  shows "lands N m C D K cl (target x)"
proof (cases x)
  case (Reply_dmaster r)
  then show ?thesis using reply_lands [OF inv lm i, of r] x t by simp
next
  case (Req_dmaster r)
  let ?j = "h_destnode (rd_hdr r)"
  have "packet_hdr (Req_dmaster r) = rd_hdr r" by simp
  from next_delivery [OF inv lm i x [unfolded Req_dmaster], unfolded this] obtain es cl1 d where
    R: "cluster_run N cl es (cl1(?j := d))" "cluster_inv N m C D (cl1(?j := d))" "unat ?j < N" "node_ok N m C D ?j (cl1 ?j)"
      "pk_ok N m D (Req_dmaster r)" "\<forall>q. copy D (cl1 q) = copy D (cl q)" "ctdb_input_pkt idle_env (cl1 ?j) (Req_dmaster r) = Some d"
      "\<forall>q y. y \<in> set (queued (cl q)) \<longrightarrow> y \<noteq> Req_dmaster r \<longrightarrow> y \<in> set (queued ((cl1(?j := d)) q))" .
  obtain v where "current N m D K cl v" using inv by (auto simp: cluster_inv_def)
  moreover have "x \<in># in_flight N K cl" using in_flightI [of i N x cl K] i x t by simp
  ultimately have "dm_at m D K cl (ctdb_lmaster m K) = registered x" by (rule current_token)
  then have src: "dm m (copy D (cl1 ?j)) (rd_key r) = h_srcnode (rd_hdr r)"
    using R(5,6) t Req_dmaster by (simp add: pk_ok_def dm_at_def)
  have "ctdb_input_pkt idle_env (cl1 ?j) (Req_dmaster r) = ctdb_request_dmaster idle_env (cl1 ?j) r"
    using R(3,4,5) by (simp add: ctdb_input_pkt_def node_ok_def pk_ok_def)
  with request_dmaster_passes [OF R(4,3) idle_env R(5) refl src] R(7)
  have P: "if rd_dmaster r = ?j then dm m (copy D d) (rd_key r) = ?j
     else \<exists>r'. out d = out (cl1 ?j) @ [Reply_dmaster r'] \<and> yd_key r' = rd_key r \<and> h_destnode (yd_hdr r') = rd_dmaster r" by (auto split: if_splits)
  have "lands N m C D K (cl1(?j := d)) (rd_dmaster r)"
  proof (cases "rd_dmaster r = ?j")
    case True
    then have "dm_at m D K (cl1(?j := d)) ?j = ?j" using P t Req_dmaster by simp
    then show ?thesis unfolding lands_def using True R(2,3) run_refl [of N "cl1(?j := d)"] by metis
  next
    case False
    with P obtain r' where r': "out d = out (cl1 ?j) @ [Reply_dmaster r']" "yd_key r' = rd_key r" "h_destnode (yd_hdr r') = rd_dmaster r" by auto
    then have "Reply_dmaster r' \<in> set (queued ((cl1(?j := d)) ?j))" by (simp add: queued_def)
    then have "lands N m C D (yd_key r') (cl1(?j := d)) (h_destnode (yd_hdr r'))" by (rule reply_lands [OF R(2) lm R(3)])
    then show ?thesis using r'(2,3) t Req_dmaster by simp
  qed
  then show ?thesis using lands_run [OF R(1)] R(8) Req_dmaster by simp
qed (use t in auto)


text \<open>One delivery of a request while the key has a data master.\<close>

lemma request_hop:
  assumes inv: "cluster_inv N m C D cl" and lm: "\<forall>k. unat (ctdb_lmaster m k) < N" and i: "unat i < N"
    and x: "x \<in> set (queued (cl i))" "asks D K s j x" and h: "unat h < N" "dm_at m D K cl h = h" "s \<noteq> h"
  shows "\<exists>es cl'. cluster_run N cl es cl' \<and> cluster_inv N m C D cl' \<and> unat j < N \<and>
    (if j = h then \<exists>y. y \<in> set (queued (cl' j)) \<and> tok K y \<and> target y = s
     else dm_at m D K cl' h = h \<and> (\<exists>y. y \<in> set (queued (cl' j)) \<and> asks D K s (if j = ctdb_lmaster m K then h else ctdb_lmaster m K) y))"
proof -
  obtain c where c: "x = Req_call c" "c_key c = K" "c_db_id c = D" "h_srcnode (c_hdr c) = s" "h_destnode (c_hdr c) = j" using x(2) by (auto simp: asks_def)
  have "h_destnode (packet_hdr (Req_call c)) = j" using c(5) by simp
  from next_delivery [OF inv lm i x(1) [unfolded c(1)], unfolded this] obtain es cl1 d where
    R: "cluster_run N cl es (cl1(j := d))" "cluster_inv N m C D (cl1(j := d))" "unat j < N" "node_ok N m C D j (cl1 j)"
      "pk_ok N m D (Req_call c)" "\<forall>q. copy D (cl1 q) = copy D (cl q)" "ctdb_input_pkt idle_env (cl1 j) (Req_call c) = Some d" .
  obtain v where cur: "current N m D K cl v" using inv by (auto simp: cluster_inv_def)
  note O = current_owner [OF cur h(1,2)]
  have at: "dm m (copy D (cl1 q)) K = dm_at m D K cl q" for q using R(6) by (simp add: dm_at_def)
  have eq: "ctdb_request_call idle_env (cl1 j) c = Some d" using R(3,4,5,7) by (simp add: ctdb_input_pkt_def node_ok_def pk_ok_def)
  show ?thesis
  proof (cases "j = h")
    case True
    from request_call_moves [OF R(4,3) idle_env lm c(3) R(5)] obtain y where "out d = out (cl1 j) @ [y]" "tok K y" "target y = s"
      using at [of j] True h(2,3) eq c by auto
    then show ?thesis using R(1-3) True by (intro exI [of _ es] exI [of _ "cl1(j := d)"]) (auto simp: queued_def)
  next
    case False
    let ?dest = "if j = ctdb_lmaster m K then dm m (copy D (cl1 j)) K else ctdb_lmaster m K"
    have dest: "?dest = (if j = ctdb_lmaster m K then h else ctdb_lmaster m K)" using at [of "ctdb_lmaster m K"] O(4) by simp
    have "unat ?dest < N" using dest h(1) lm by simp
    moreover have "dm m (copy D (cl1 j)) (c_key c) \<noteq> j" using at [of j] O(3) R(3) False c(2) by simp
    ultimately obtain c' where c': "out d = out (cl1 j) @ [Req_call c']" "c_key c' = K" "c_db_id c' = D" "h_srcnode (c_hdr c') = s"
        "h_destnode (c_hdr c') = ?dest"
      using request_call_redirects [OF R(4) idle_env c(3) R(5) _ refl] c(2,4) eq by auto
    have "dm_at m D K (cl1(j := d)) h = h" using False at [of h] h(2) by (simp add: dm_at_def)
    moreover have "Req_call c' \<in> set (queued ((cl1(j := d)) j))" using c'(1) by (simp add: queued_def)
    moreover have "asks D K s (if j = ctdb_lmaster m K then h else ctdb_lmaster m K) (Req_call c')" using c' dest by (simp add: asks_def)
    ultimately show ?thesis using R(1-3) False by (intro exI [of _ es] exI [of _ "cl1(j := d)"]) auto
  qed
qed

text \<open>At the data master, at the location master, or anywhere else.\<close>

definition can_get :: "nat \<Rightarrow> ctdb_vnn_map \<Rightarrow> u32 \<Rightarrow> u8 list \<Rightarrow> cluster \<Rightarrow> u32 \<Rightarrow> bool" where
  "can_get N m D K cl s \<longleftrightarrow> (\<exists>es cl'. cluster_run N cl es cl' \<and> dm_at m D K cl' s = s)"

lemma can_get_run: "cluster_run N cl es cl' \<Longrightarrow> can_get N m D K cl' s \<Longrightarrow> can_get N m D K cl s"
  using run_trans unfolding can_get_def by metis

lemma lands_can_get: "lands N m C D K cl s \<Longrightarrow> can_get N m D K cl s"
  unfolding lands_def can_get_def by blast

lemma request_at_master:
  assumes inv: "cluster_inv N m C D cl" and lm: "\<forall>k. unat (ctdb_lmaster m k) < N" and i: "unat i < N"
    and x: "x \<in> set (queued (cl i))" "asks D K s h x" and h: "unat h < N" "dm_at m D K cl h = h"
  shows "can_get N m D K cl s"
proof (cases "s = h")
  case True
  then show ?thesis using h(2) run_refl unfolding can_get_def by metis
next
  case False
  from request_hop [OF inv lm i x h False] obtain es cl' y where
    R: "cluster_run N cl es cl'" "cluster_inv N m C D cl'" "y \<in> set (queued (cl' h))" "tok K y" "target y = s" by auto
  have "can_get N m D K cl' s" using lands_can_get [OF token_lands [OF R(2) lm h(1) R(3,4)]] R(5) by simp
  then show ?thesis by (rule can_get_run [OF R(1)])
qed

lemma request_at_location_master:
  assumes inv: "cluster_inv N m C D cl" and lm: "\<forall>k. unat (ctdb_lmaster m k) < N" and i: "unat i < N"
    and x: "x \<in> set (queued (cl i))" "asks D K s (ctdb_lmaster m K) x" and h: "unat h < N" "dm_at m D K cl h = h"
  shows "can_get N m D K cl s"
proof (cases "s = h \<or> ctdb_lmaster m K = h")
  case True
  then show ?thesis using request_at_master [OF inv lm i x(1) _ h] x(2) h(2) run_refl [of N cl] unfolding can_get_def by blast
next
  case False
  then have away: "s \<noteq> h" "ctdb_lmaster m K \<noteq> h" by simp_all
  obtain es cl' y where R: "cluster_run N cl es cl'" "cluster_inv N m C D cl'" "dm_at m D K cl' h = h"
    "y \<in> set (queued (cl' (ctdb_lmaster m K)))" "asks D K s h y"
    using request_hop [OF inv lm i x h away(1)] away(2) by auto
  have "unat (ctdb_lmaster m K) < N" using lm by blast
  from request_at_master [OF R(2) lm this R(4,5) h(1) R(3)] show ?thesis by (rule can_get_run [OF R(1)])
qed

lemma request_completes:
  assumes inv: "cluster_inv N m C D cl" and lm: "\<forall>k. unat (ctdb_lmaster m k) < N" and i: "unat i < N"
    and x: "x \<in> set (queued (cl i))" "asks D K s j x" and h: "unat h < N" "dm_at m D K cl h = h"
  shows "can_get N m D K cl s"
proof (cases "s = h \<or> j = h \<or> j = ctdb_lmaster m K")
  case True
  then show ?thesis
    using request_at_master [OF inv lm i x(1) _ h] request_at_location_master [OF inv lm i x(1) _ h] x(2) h(2) run_refl [of N cl]
    unfolding can_get_def by blast
next
  case False
  then have away: "s \<noteq> h" "j \<noteq> h" "j \<noteq> ctdb_lmaster m K" by simp_all
  obtain es cl' y where R: "cluster_run N cl es cl'" "cluster_inv N m C D cl'" "unat j < N" "dm_at m D K cl' h = h"
    "y \<in> set (queued (cl' j))" "asks D K s (ctdb_lmaster m K) y"
    using request_hop [OF inv lm i x h away(1)] away(2,3) by auto
  from request_at_location_master [OF R(2) lm R(3,5,6) h(1) R(4)] show ?thesis by (rule can_get_run [OF R(1)])
qed

text \<open>A key without a data master gets one first.\<close>

lemma request_can_get:
  assumes inv: "cluster_inv N m C D cl" and lm: "\<forall>k. unat (ctdb_lmaster m k) < N" and i: "unat i < N"
    and c: "Req_call c \<in> set (queued (cl i))" "c_db_id c = D"
  shows "can_get N m D (c_key c) cl (h_srcnode (c_hdr c))"
proof -
  let ?K = "c_key c"
  have a: "asks D ?K (h_srcnode (c_hdr c)) (h_destnode (c_hdr c)) (Req_call c)" using c(2) by (simp add: asks_def)
  obtain v where "current N m D ?K cl v" using inv by (auto simp: cluster_inv_def)
  then show ?thesis
  proof cases
    case (at_node h)
    then have "dm_at m D ?K cl h = h" by simp
    from request_completes [OF inv lm i c(1) a at_node(2) this] show ?thesis .
  next
    case (in_packet x)
    then have "x \<in># in_flight N ?K cl" by simp
    then obtain q where q: "unat q < N" "x \<in># toks ?K (cl q)" by (auto simp: in_flight_def set_mset_sum)
    then have x: "x \<in> set (queued (cl q))" "tok ?K x" by (simp_all add: toks_def)
    obtain es cl' where R: "cluster_run N cl es cl'" "cluster_inv N m C D cl'" "unat (target x) < N" "dm_at m D ?K cl' (target x) = target x"
      "Req_call c \<in> set (queued (cl' i))"
      using token_lands [OF inv lm q(1) x] c(1) unfolding lands_def by blast
    from request_completes [OF R(2) lm i R(5) a R(3,4)] show ?thesis by (rule can_get_run [OF R(1)])
  qed
qed

section \<open>Properties\<close>

text \<open>A cluster after start: no packets and no records.\<close>

definition started :: "nat \<Rightarrow> ctdb_vnn_map \<Rightarrow> (u32 \<rightharpoonup> call_fn) \<Rightarrow> u32 \<Rightarrow> cluster \<Rightarrow> bool" where
  "started N m C D cl \<longleftrightarrow>
     vmap m \<noteq> [] \<and> (\<forall>p \<in> set (vmap m). unat p < N) \<and>
     (\<forall>p. unat p < N \<longrightarrow> node_ok N m C D p (cl p) \<and> queued (cl p) = [] \<and> ltdb (copy D (cl p)) = Map.empty)"

lemma lmaster_in_map: "vmap m \<noteq> [] \<Longrightarrow> ctdb_lmaster m k \<in> set (vmap m)"
  by (simp add: ctdb_lmaster_def)

lemma started_current:
  assumes "started N m C D cl"
  shows "\<forall>k. unat (ctdb_lmaster m k) < N" "cluster_inv N m C D cl" "current N m D K cl []"
proof -
  show lm: "\<forall>k. unat (ctdb_lmaster m k) < N" using assms lmaster_in_map by (auto simp: started_def)
  have at: "dm_at m D K cl p = ctdb_lmaster m K" "val_at D K cl p = []" "toks K (cl p) = {#}" if "unat p < N" for K p
    using assms that copy_missing [of "copy D (cl p)" K] by (auto simp: started_def dm_at_def val_at_def toks_def)
  have "current N m D K cl (val_at D K cl (ctdb_lmaster m K))" for K
    by (rule current.at_node) (use at lm in \<open>auto simp: in_flight_def\<close>)
  then have cur: "current N m D K cl []" for K using at(2) [of "ctdb_lmaster m K" K] lm by metis
  then show "current N m D K cl []" by this
  show "cluster_inv N m C D cl" using cur assms by (auto simp: cluster_inv_def nodes_ok_def started_def)
qed

text \<open>
  C1: the cluster implements one copy of every record.  Whatever packets are delivered in whatever
  order, wherever calls are executed and clients update records: the events on a key, in the order in
  which they happened, are those of a single register that starts empty, so that every call saw the
  value left by the event before it.  At every moment at most one node is the data master of the key
  and then its copy is the value of the register; if no node is, exactly one migration packet is on
  its way and carries this value.
\<close>

theorem single_copy:
  assumes "started N m C D cl" "cluster_run N cl es cl'"
  shows "\<exists>v. apply_events C (on_key K es) [] = Some v \<and>
    (\<forall>p. unat p < N \<longrightarrow> dm_at m D K cl' p = p \<longrightarrow>
       val_at D K cl' p = v \<and> in_flight N K cl' = {#} \<and> (\<forall>q. unat q < N \<longrightarrow> dm_at m D K cl' q = q \<longrightarrow> q = p)) \<and>
    ((\<exists>p. unat p < N \<and> dm_at m D K cl' p = p) \<or> (\<exists>x. in_flight N K cl' = {#x#} \<and> carried x = v))"
proof -
  note S = started_current [OF assms(1)]
  obtain v where v: "apply_events C (on_key K es) [] = Some v" "current N m D K cl' v"
    using run_current [OF assms(2) S(2) S(1) S(3)] by blast
  have "(\<exists>p. unat p < N \<and> dm_at m D K cl' p = p) \<or> (\<exists>x. in_flight N K cl' = {#x#} \<and> carried x = v)"
    using v(2) by cases auto
  then show ?thesis using v(1) current_owner(1,2,3) [OF v(2)] by (intro exI [of _ v]) simp
qed

text \<open>
  C3: in a cluster that works as above no packet makes a daemon abort or ask for a recovery: every
  packet that is on its way is handled, whether the lock it needs is free or not.
\<close>

theorem migration_never_fatal:
  assumes "started N m C D cl" "cluster_run N cl es cl'" "unat i < N" "out (cl' i) = xs @ x # ys"
    and "good_env env" "j = h_destnode (packet_hdr x)"
  shows "unat j < N \<and> (\<exists>d. ctdb_input_pkt env ((cl'(i := (cl' i)\<lparr>out := xs @ ys\<rparr>)) j) x = Some d \<and> \<not> recovery_active d)"
proof -
  note S = started_current [OF assms(1)]
  have inv: "cluster_inv N m C D cl'" using run_current [OF assms(2) S(2) S(1) S(3)] by blast
  then have ok: "nodes_ok N m C D cl'" by (simp add: cluster_inv_def)
  have "unat j < N" using taken(2) [OF ok assms(3,4) refl] assms(6) by (simp add: pk_ok_def)
  moreover have "handled N m C D [] j ((cl'(i := (cl' i)\<lparr>out := xs @ ys\<rparr>)) j) x (ctdb_input_pkt env ((cl'(i := (cl' i)\<lparr>out := xs @ ys\<rparr>)) j) x)"
    by (rule deliver_handled [OF inv S(1) assms(3,4) refl assms(6,5)])
  ultimately show ?thesis unfolding handled_def node_ok_def by blast
qed

text \<open>An example: two nodes, the first is the location master of all keys; a call appends its argument.\<close>

definition ex_map :: ctdb_vnn_map where
  "ex_map = \<lparr>generation = 1, vmap = [0]\<rparr>"

definition ex_append :: call_fn where
  "ex_append header key call record = (0, Some (record @ call), Some record, 0)"

definition ex_call_db :: call_db where
  "ex_call_db = \<lparr>db_id = 7, persistent = False, readonly = False, sticky = False, ctdb_ltdb_store_fn = True,
     seqnum_update = False, ltdb = Map.empty, tdb_seqnum = 0, chainlocks = (\<lambda>_. 0), rottdb = Map.empty,
     delete_queue = Map.empty, deletion_controls = [], calls = [1 \<mapsto> ex_append], persistent_state = False,
     sticky_records = Map.empty, hot_keys = replicate 10 (0, []), num_hot_keys = 0, revokechild_active = []\<rparr>"

definition ex_daemon :: "u32 \<Rightarrow> ctdb_daemon" where
  "ex_daemon p = \<lparr>pnn = p, vnn_map = Some ex_map, main_daemon = True, can_send_controls = True, methods = True,
     node_flags = [0, 0], recovery_active = False, hopcount_make_sticky = 50, dbs = [7 \<mapsto> ex_call_db], idr = Map.empty,
     pending_calls = [], out = [], lockwait = [], history = []\<rparr>"

lemma ex_started: "started 2 ex_map [1 \<mapsto> ex_append] 7 ex_daemon"
proof -
  have "node_ok 2 ex_map [1 \<mapsto> ex_append] 7 p (ex_daemon p)" for p
    by (auto simp: node_ok_def ex_daemon_def ex_call_db_def ex_map_def calls_ok_def queued_def db_ok_def static_def ro_free_def rec_of_def
      sizeof_header_def has_flag_def less_Suc_eq numeral_2_eq_2)
  then show ?thesis by (simp add: started_def ex_map_def queued_def copy_def ex_daemon_def ex_call_db_def)
qed

definition ex_call :: ctdb_call where
  "ex_call = \<lparr>call_id = 1, call_key = [9], call_data = [5], reply_data = [], status = 0, call_flags = 0\<rparr>"


text \<open>
  C2: a request for a record can always be completed.  In whatever state the cluster is, with the
  record at a data master or on its way, from a request that waits anywhere there is a sequence of
  deliveries, through redirects to the location master and the data master, after which the node that
  sent the request is the data master.
\<close>

theorem migration_completes:
  assumes "started N m C D cl" "cluster_run N cl es cl'" "unat i < N" "Req_call c \<in> set (queued (cl' i))" "c_db_id c = D"
  shows "\<exists>fs cl''. cluster_run N cl' fs cl'' \<and> dm_at m D (c_key c) cl'' (h_srcnode (c_hdr c)) = h_srcnode (c_hdr c)"
proof -
  note S = started_current [OF assms(1)]
  have "cluster_inv N m C D cl'" using run_current [OF assms(2) S(2) S(1) S(3)] by blast
  from request_can_get [OF this S(1) assms(3-5)] show ?thesis unfolding can_get_def .
qed

section \<open>Examples\<close>

text \<open>Node 1 calls the function; the request is addressed to node 0.\<close>

definition ex_asked :: cluster where
  "ex_asked = ex_daemon(1 := ctdb_daemon_call_send_remote (ex_daemon 1) ex_call_db 3 ex_call zero_header)"

definition ex_request :: ctdb_req_call where
  "ex_request = \<lparr>c_hdr = \<lparr>h_generation = 1, h_destnode = 0, h_srcnode = 1, h_reqid = 3\<rparr>, c_flags = 0, c_db_id = 7, c_callid = 1,
     c_hopcount = 0, c_key = [9], c_calldata = [5]\<rparr>"

lemma ex_asked_run: "cluster_run 2 ex_daemon [] ex_asked"
  unfolding ex_asked_def
  by (rule run_one, rule cluster_step.call_sent [where b = 7])
    (simp_all add: ex_daemon_def find_ctdb_db_def zero_header_def ex_call_def CTDB_FETCH_WITH_HEADER_FUNC_def)

lemma ex_asked_out: "out (ex_asked 1) = [Req_call ex_request]"
  by (simp add: ex_asked_def ctdb_daemon_call_send_remote_def ex_daemon_def ctdb_queue_packet_def ctdb_transport_allocate_def Let_def
    zero_header_def ex_map_def has_flag_def ex_request_def ex_call_def ex_call_db_def)

lemma ex_request_sel: "c_db_id ex_request = 7" "c_key ex_request = [9]" "h_srcnode (c_hdr ex_request) = 1" "h_destnode (c_hdr ex_request) = 0"
  by (simp_all add: ex_request_def)

theorem migration_completes_witness:
  "\<exists>fs cl. cluster_run 2 ex_asked fs cl \<and> dm_at ex_map 7 [9] cl 1 = 1"
  using migration_completes [OF ex_started ex_asked_run, of 1 ex_request] ex_asked_out by (simp add: queued_def ex_request_sel)

theorem migration_never_fatal_witness:
  "\<exists>d. ctdb_input_pkt idle_env (ex_daemon 0) (Req_call ex_request) = Some d \<and> \<not> recovery_active d"
  using migration_never_fatal [OF ex_started ex_asked_run, of 1 "[]" "Req_call ex_request" "[]" idle_env 0] ex_asked_out idle_env(1)
  by (simp add: ex_request_sel ex_asked_def)

theorem single_copy_witness:
  "\<exists>es cl v. cluster_run 2 ex_daemon es cl \<and> dm_at ex_map 7 [9] cl 1 = 1 \<and> dm_at ex_map 7 [9] cl 0 \<noteq> 0 \<and>
     apply_events [1 \<mapsto> ex_append] (on_key [9] es) [] = Some v \<and> val_at 7 [9] cl 1 = v"
proof -
  note S = started_current [OF ex_started]
  have "cluster_inv 2 ex_map [1 \<mapsto> ex_append] 7 ex_asked" using run_current [OF ex_asked_run S(2) S(1) S(3)] by blast
  then have "can_get 2 ex_map 7 [9] ex_asked 1"
    using request_can_get [OF _ S(1), of "[1 \<mapsto> ex_append]" 7 ex_asked 1 ex_request] ex_asked_out by (simp add: queued_def ex_request_sel)
  then obtain es cl where r: "cluster_run 2 ex_daemon es cl" and d: "dm_at ex_map 7 [9] cl 1 = 1"
    using run_trans [OF _ ex_asked_run] unfolding can_get_def by blast
  obtain v where v: "apply_events [1 \<mapsto> ex_append] (on_key [9] es) [] = Some v"
    "\<forall>p. unat p < 2 \<longrightarrow> dm_at ex_map 7 [9] cl p = p \<longrightarrow>
       val_at 7 [9] cl p = v \<and> in_flight 2 [9] cl = {#} \<and> (\<forall>q. unat q < 2 \<longrightarrow> dm_at ex_map 7 [9] cl q = q \<longrightarrow> q = p)"
    using single_copy [OF ex_started r, of "[9]"] by blast
  have "val_at 7 [9] cl 1 = v" using v(2) [THEN spec, of 1] d by simp
  moreover have "dm_at ex_map 7 [9] cl 0 \<noteq> 0" using v(2) [THEN spec, of 1] d zero_neq_one [where 'a = u32] by (metis unat_0 zero_less_numeral unat_1 one_less_numeral_iff semiring_norm(76))
  ultimately show ?thesis using r d v(1) by blast
qed

end
