(* ===== verification/Freeze.thy ===== *)
theory Freeze
  imports Call
begin

text \<open>
  Freezing the databases of a node and the transactions that protect them during a recovery
  (\<^verbatim>\<open>server/ctdb_freeze.c\<close>).  A freeze takes the locks of all databases of a priority in a child process;
  the handle of the freeze holds the requests that wait for it.  A transaction of \<^verbatim>\<open>tdb\<close> is the content that
  a cancel brings back; the databases are opened so that transactions do not nest.
\<close>

section \<open>State\<close>

datatype freeze_mode = CTDB_FREEZE_NONE | CTDB_FREEZE_PENDING | CTDB_FREEZE_FROZEN

definition NUM_DB_PRIORITIES :: nat where
  "NUM_DB_PRIORITIES = 3"

text \<open>
  The daemon with what freezing adds: for each priority the mode and, if there is a handle, the
  waiting requests, newest first; the recovery transaction; the databases in their order with
  priorities; and the open transactions.  The last field are the replies to the waiting requests.
\<close>

record recov_daemon =
  dmn :: ctdb_daemon
  freeze_mode :: "nat \<Rightarrow> freeze_mode"
  freeze_handles :: "nat \<Rightarrow> u32 list option"
  freeze_transaction_started :: bool
  freeze_transaction_id :: u32
  db_list :: "u32 list"
  db_priority :: "u32 \<Rightarrow> nat"
  tdb_saved :: "u32 \<rightharpoonup> u8 list \<rightharpoonup> u8 list"
  control_replies :: "(u32 \<times> int) list"

definition db_of :: "recov_daemon \<Rightarrow> u32 \<Rightarrow> call_db" where
  "db_of n i = the (dbs (dmn n) i)"

definition set_db :: "recov_daemon \<Rightarrow> u32 \<Rightarrow> call_db \<Rightarrow> recov_daemon" where
  "set_db n i db = n\<lparr>dmn := (dmn n)\<lparr>dbs := (dbs (dmn n))(i \<mapsto> db)\<rparr>\<rparr>"

section \<open>Transactions of a database\<close>

definition tdb_transaction_cancel :: "u32 \<Rightarrow> recov_daemon \<Rightarrow> recov_daemon" where
  "tdb_transaction_cancel i n =
     (case tdb_saved n i of
        None \<Rightarrow> n
      | Some content \<Rightarrow> (set_db n i ((db_of n i)\<lparr>ltdb := content\<rparr>))\<lparr>tdb_saved := (tdb_saved n)(i := None)\<rparr>)"

definition tdb_transaction_start :: "bool \<Rightarrow> u32 \<Rightarrow> recov_daemon \<Rightarrow> int \<times> recov_daemon" where
  "tdb_transaction_start ok i n =
     (if tdb_saved n i \<noteq> None \<or> \<not> ok then (-1, n) else (0, n\<lparr>tdb_saved := (tdb_saved n)(i \<mapsto> ltdb (db_of n i))\<rparr>))"

text \<open>A commit that fails cancels the transaction.\<close>

definition tdb_transaction_commit :: "bool \<Rightarrow> u32 \<Rightarrow> recov_daemon \<Rightarrow> int \<times> recov_daemon" where
  "tdb_transaction_commit ok i n =
     (if tdb_saved n i = None then (-1, n)
      else if \<not> ok then (-1, tdb_transaction_cancel i n)
      else (0, n\<lparr>tdb_saved := (tdb_saved n)(i := None)\<rparr>))"

definition cancel_all :: "u32 list \<Rightarrow> recov_daemon \<Rightarrow> recov_daemon" where
  "cancel_all is n = fold tdb_transaction_cancel is n"

section \<open>Freezing\<close>

definition ctdb_freeze_handle_destructor :: "nat \<Rightarrow> recov_daemon \<Rightarrow> recov_daemon" where
  "ctdb_freeze_handle_destructor p n =
     (let n = (if freeze_transaction_started n
               then (cancel_all (filter (\<lambda>i. db_priority n i = p) (db_list n)) n)\<lparr>freeze_transaction_started := False\<rparr>
               else n)
      in n\<lparr>freeze_mode := (freeze_mode n)(p := CTDB_FREEZE_NONE), freeze_handles := (freeze_handles n)(p := None)\<rparr>)"

text \<open>Freeing a handle: its destructor runs, then those of the waiting requests, which are its children.\<close>

definition free_handle :: "nat \<Rightarrow> recov_daemon \<Rightarrow> recov_daemon" where
  "free_handle p n =
     (case freeze_handles n p of
        None \<Rightarrow> n
      | Some waiters \<Rightarrow>
          let n = ctdb_freeze_handle_destructor p n
          in n\<lparr>control_replies := control_replies n @ map (\<lambda>c. (c, -1)) waiters\<rparr>)"

definition ctdb_freeze_lock_handler :: "nat \<Rightarrow> bool \<Rightarrow> recov_daemon \<Rightarrow> recov_daemon" where
  "ctdb_freeze_lock_handler p locked n =
     (if freeze_mode n p = CTDB_FREEZE_FROZEN then free_handle p n
      else if \<not> locked then free_handle p n
      else
        let waiters = (case freeze_handles n p of None \<Rightarrow> [] | Some ws \<Rightarrow> ws)
        in n\<lparr>freeze_mode := (freeze_mode n)(p := CTDB_FREEZE_FROZEN), freeze_handles := (freeze_handles n)(p \<mapsto> []),
             control_replies := control_replies n @ map (\<lambda>c. (c, 0)) waiters\<rparr>)"

text \<open>Starting the child that takes the locks may fail; then the daemon aborts.\<close>

definition ctdb_start_freeze :: "bool \<Rightarrow> nat \<Rightarrow> recov_daemon \<Rightarrow> recov_daemon option" where
  "ctdb_start_freeze lock_ok p n =
     (if p < 1 \<or> p > NUM_DB_PRIORITIES then None
      else if freeze_mode n p = CTDB_FREEZE_FROZEN then Some n
      else if freeze_handles n p = None then
        if \<not> lock_ok then None
        else Some (n\<lparr>freeze_handles := (freeze_handles n)(p \<mapsto> []), freeze_mode := (freeze_mode n)(p := CTDB_FREEZE_PENDING)\<rparr>)
      else Some n)"

text \<open>The result is the return value and whether the reply comes later.\<close>

definition ctdb_control_freeze :: "bool \<Rightarrow> u32 \<Rightarrow> u64 \<Rightarrow> recov_daemon \<Rightarrow> (int \<times> bool \<times> recov_daemon) option" where
  "ctdb_control_freeze lock_ok c srvid n =
     (let priority = unat (ucast srvid :: u32);
          priority = (if priority = 0 then 1 else priority)
      in if priority < 1 \<or> priority > NUM_DB_PRIORITIES then Some (-1, False, n)
         else if freeze_mode n priority = CTDB_FREEZE_FROZEN then Some (0, False, n)
         else
           case ctdb_start_freeze lock_ok priority n of
             None \<Rightarrow> None
           | Some n \<Rightarrow>
               (case freeze_handles n priority of
                  None \<Rightarrow> Some (-1, False, n)
                | Some ws \<Rightarrow> Some (0, True, n\<lparr>freeze_handles := (freeze_handles n)(priority \<mapsto> c # ws)\<rparr>)))"

text \<open>At startup the daemon waits for each priority until the child has answered.\<close>

fun blocking_freeze :: "bool \<Rightarrow> (nat \<Rightarrow> bool) \<Rightarrow> nat list \<Rightarrow> recov_daemon \<Rightarrow> recov_daemon option" where
  "blocking_freeze lock_ok locked [] n = Some n"
| "blocking_freeze lock_ok locked (p # ps) n =
     (case ctdb_start_freeze lock_ok p n of
        None \<Rightarrow> None
      | Some n \<Rightarrow>
          blocking_freeze lock_ok locked ps
            (if freeze_mode n p = CTDB_FREEZE_PENDING then ctdb_freeze_lock_handler p (locked p) n else n))"

definition ctdb_blocking_freeze :: "bool \<Rightarrow> (nat \<Rightarrow> bool) \<Rightarrow> recov_daemon \<Rightarrow> recov_daemon option" where
  "ctdb_blocking_freeze lock_ok locked n = blocking_freeze lock_ok locked [1..<NUM_DB_PRIORITIES + 1] n"

definition thaw_priority :: "nat \<Rightarrow> recov_daemon \<Rightarrow> recov_daemon" where
  "thaw_priority p n =
     (let n = (if freeze_transaction_started n then cancel_all (db_list n) n else n)
      in free_handle p (n\<lparr>freeze_transaction_started := False\<rparr>))"

text \<open>\<^verbatim>\<open>new\<close> gives the new request ids of the pending calls, which are sent again.\<close>

definition ctdb_control_thaw :: "(u32 \<Rightarrow> u32) \<Rightarrow> nat \<Rightarrow> recov_daemon \<Rightarrow> int \<times> recov_daemon" where
  "ctdb_control_thaw new p n =
     (if p > NUM_DB_PRIORITIES then (-1, n)
      else
        let n = (if p = 0 then fold thaw_priority [1..<NUM_DB_PRIORITIES + 1] n else thaw_priority p n)
        in (0, n\<lparr>dmn := ctdb_call_resend_all new (dmn n)\<rparr>))"

section \<open>The recovery transaction\<close>

definition all_frozen :: "recov_daemon \<Rightarrow> bool" where
  "all_frozen n \<longleftrightarrow> (\<forall>p \<in> set [1..<NUM_DB_PRIORITIES + 1]. freeze_mode n p = CTDB_FREEZE_FROZEN)"

fun start_transactions :: "(u32 \<Rightarrow> bool) \<Rightarrow> u32 list \<Rightarrow> recov_daemon \<Rightarrow> int \<times> recov_daemon" where
  "start_transactions ok [] n = (0, n)"
| "start_transactions ok (i # is) n =
     (let n = (if freeze_transaction_started n then tdb_transaction_cancel i n else n);
          (ret, n) = tdb_transaction_start (ok i) i n
      in if ret \<noteq> 0 then (-1, n) else start_transactions ok is n)"

definition ctdb_control_transaction_start :: "(u32 \<Rightarrow> bool) \<Rightarrow> u32 \<Rightarrow> recov_daemon \<Rightarrow> int \<times> recov_daemon" where
  "ctdb_control_transaction_start ok i n =
     (if \<not> all_frozen n then (-1, n)
      else
        let (ret, n) = start_transactions ok (db_list n) n
        in if ret \<noteq> 0 then (-1, n) else (0, n\<lparr>freeze_transaction_started := True, freeze_transaction_id := i\<rparr>))"

definition ctdb_control_transaction_cancel :: "recov_daemon \<Rightarrow> int \<times> recov_daemon" where
  "ctdb_control_transaction_cancel n = (0, (cancel_all (db_list n) n)\<lparr>freeze_transaction_started := False\<rparr>)"

text \<open>\<^verbatim>\<open>health\<close> tells for which databases \<^verbatim>\<open>ctdb_update_persistent_health\<close> succeeds.\<close>

fun commit_transactions :: "(u32 \<Rightarrow> bool) \<Rightarrow> (u32 \<Rightarrow> bool) \<Rightarrow> u32 list \<Rightarrow> recov_daemon \<Rightarrow> int \<times> recov_daemon" where
  "commit_transactions ok health [] n = (0, n)"
| "commit_transactions ok health (i # is) n =
     (let (ret, n) = tdb_transaction_commit (ok i) i n
      in if ret \<noteq> 0 then (-1, n)
         else if \<not> health i then (-1, n)
         else commit_transactions ok health is n)"

definition ctdb_control_transaction_commit :: "(u32 \<Rightarrow> bool) \<Rightarrow> (u32 \<Rightarrow> bool) \<Rightarrow> u32 \<Rightarrow> recov_daemon \<Rightarrow> int \<times> recov_daemon" where
  "ctdb_control_transaction_commit ok health i n =
     (if \<not> all_frozen n then (-1, n)
      else if \<not> freeze_transaction_started n then (-1, n)
      else if i \<noteq> freeze_transaction_id n then (-1, n)
      else
        let (ret, n) = commit_transactions ok health (db_list n) n
        in if ret \<noteq> 0 then (-1, (cancel_all (db_list n) n)\<lparr>freeze_transaction_started := False\<rparr>)
           else (0, n\<lparr>freeze_transaction_started := False, freeze_transaction_id := 0\<rparr>))"

definition ctdb_control_wipe_database :: "(u32 \<Rightarrow> bool) \<Rightarrow> u32 \<Rightarrow> u32 \<Rightarrow> recov_daemon \<Rightarrow> int \<times> recov_daemon" where
  "ctdb_control_wipe_database ok w_db_id w_transaction_id n =
     (case find_ctdb_db (dmn n) w_db_id of
        None \<Rightarrow> (-1, n)
      | Some db \<Rightarrow>
          if freeze_mode n (db_priority n w_db_id) \<noteq> CTDB_FREEZE_FROZEN then (-1, n)
          else if \<not> freeze_transaction_started n then (-1, n)
          else if w_transaction_id \<noteq> freeze_transaction_id n then (-1, n)
          else if \<not> ok w_db_id then (-1, n)
          else
            let db = db\<lparr>ltdb := Map.empty\<rparr>;
                db = (if persistent db then db else db\<lparr>delete_queue := Map.empty\<rparr>)
            in (0, set_db n w_db_id db))"

end
