(* ===== verification/Recovery.thy ===== *)
theory Recovery
  imports Freeze
begin

text \<open>
  Recovering the databases of the cluster: the controls of a node in \<^verbatim>\<open>server/ctdb_recover.c\<close>,
  \<^verbatim>\<open>server/ctdb_freeze.c\<close> and \<^verbatim>\<open>server/ctdb_persistent.c\<close>, and the recovery master of \<^verbatim>\<open>server/ctdb_recoverd.c\<close>,
  which pulls all copies of a database, merges them into a temporary database and pushes the result to
  all active nodes inside a transaction.  A result \<open>None\<close> stands for an access outside of a buffer.
\<close>

section \<open>Loops over the records of a buffer\<close>

text \<open>
  The loop stops with \<open>False\<close> at the first record on which its body fails.  It runs as often as the count of
  the buffer says and moves on by the length field of each record.
\<close>

fun for_records ::
    "(u8 list \<Rightarrow> u8 list \<Rightarrow> 's \<Rightarrow> bool \<times> 's) \<Rightarrow> u8 list \<Rightarrow> nat \<Rightarrow> nat \<Rightarrow> 's \<Rightarrow> (bool \<times> 's) option" where
  "for_records body bs p 0 s = Some (True, s)"
| "for_records body bs p (Suc k) s =
     (case read_rec bs p False of
        Next _ _ _ key data \<Rightarrow>
          (case body key data s of
             (True, s) \<Rightarrow> for_records body bs (p + unat (word_at bs p)) k s
           | (False, s) \<Rightarrow> Some (False, s))
      | _ \<Rightarrow> None)"

text \<open>The traversal of a tdb file in some order of its keys; the callback is \<open>None\<close> when it leaves its buffer.\<close>

type_synonym content = "u8 list \<rightharpoonup> u8 list"

fun tdb_traverse_read :: "(u8 list \<Rightarrow> u8 list \<Rightarrow> 's \<Rightarrow> 's option) \<Rightarrow> u8 list list \<Rightarrow> content \<Rightarrow> 's \<Rightarrow> 's option" where
  "tdb_traverse_read f [] m s = Some s"
| "tdb_traverse_read f (k # ks) m s = (case f k (the (m k)) s of None \<Rightarrow> None | Some s \<Rightarrow> tdb_traverse_read f ks m s)"

section \<open>Pulling and pushing a database on a node\<close>

text \<open>
  What the environment of a node decides: which writes and transactions succeed, the order of a traversal, and
  the tunable with the size by which buffers grow.
\<close>

record recov_env =
  node_io :: tdb_io
  order :: "content \<Rightarrow> u8 list list"
  lockall_ok :: bool
  traverse_ok :: bool
  rot_wipe_ok :: bool
  start_ok :: "u32 \<Rightarrow> bool"
  commit_ok :: "u32 \<Rightarrow> bool"
  health_ok :: "u32 \<Rightarrow> bool"
  wipe_ok :: "u32 \<Rightarrow> bool"
  pulldb_preallocation_size :: u32

record pulldb_data =
  pulldata :: ctdb_marshall_buffer
  p_len :: u32
  allocated_len :: u32

definition pulldb_start :: "u32 \<Rightarrow> pulldb_data" where
  "pulldb_start i =
     \<lparr>pulldata = \<lparr>m_db_id = i, m_count = 0, m_data = []\<rparr>, p_len = of_nat sizeof_marshall_buffer,
      allocated_len = of_nat sizeof_marshall_buffer\<rparr>"

text \<open>The lengths are 32 bits wide: where they wrap around the record does not fit into the memory.\<close>

definition append_record :: "u32 \<Rightarrow> u8 list \<Rightarrow> u8 list \<Rightarrow> pulldb_data \<Rightarrow> pulldb_data option" where
  "append_record prealloc key data params =
     (let r = ctdb_marshall_record 0 key None data;
          allocated = (if p_len params + rec_length r \<ge> allocated_len params then rec_length r + p_len params + prealloc
                       else allocated_len params)
      in if unat (p_len params) + unat (rec_length r) > unat allocated then None
         else Some \<lparr>pulldata = (pulldata params)\<lparr>m_count := m_count (pulldata params) + 1,
                                  m_data := m_data (pulldata params) @ bytes_of_rec r\<rparr>,
                    p_len = p_len params + rec_length r, allocated_len = allocated\<rparr>)"

definition traverse_pulldb :: "u32 \<Rightarrow> u8 list \<Rightarrow> u8 list \<Rightarrow> pulldb_data \<Rightarrow> pulldb_data option" where
  "traverse_pulldb prealloc key data params = append_record prealloc key data params"

definition ctdb_control_pull_db :: "recov_env \<Rightarrow> u32 \<Rightarrow> recov_daemon \<Rightarrow> (int \<times> u8 list) option" where
  "ctdb_control_pull_db env pull_db_id n =
     (case find_ctdb_db (dmn n) pull_db_id of
        None \<Rightarrow> Some (-1, [])
      | Some db \<Rightarrow>
          if freeze_mode n (db_priority n pull_db_id) \<noteq> CTDB_FREEZE_FROZEN then Some (-1, [])
          else if \<not> lockall_ok env then Some (-1, [])
          else case tdb_traverse_read (traverse_pulldb (pulldb_preallocation_size env)) (order env (ltdb db)) (ltdb db)
                      (pulldb_start pull_db_id) of
                 None \<Rightarrow> None
               | Some params \<Rightarrow>
                   if \<not> traverse_ok env then Some (-1, []) else Some (0, ctdb_marshall_finish (pulldata params)))"

definition push_record :: "tdb_io \<Rightarrow> ctdb_daemon \<Rightarrow> u8 list \<Rightarrow> u8 list \<Rightarrow> call_db \<Rightarrow> bool \<times> call_db" where
  "push_record w ctdb key data db =
     (if length data < sizeof_header then (False, db)
      else
        let hdr = header_of_bytes data;
            hdr = hdr\<lparr>hflags := hflags hdr AND NOT CTDB_REC_RO_FLAGS\<rparr>;
            (ret, hdr, db) = ctdb_ltdb_store w ctdb db key hdr (drop sizeof_header data)
        in (ret = 0, db))"

text \<open>
  After the last record the read-only delegations are forgotten.  Freeing a running revocation puts the requests
  that wait for it back into the input.
\<close>

definition forget_delegations :: "bool \<Rightarrow> ctdb_daemon \<Rightarrow> call_db \<Rightarrow> ctdb_daemon \<times> call_db" where
  "forget_delegations wiped ctdb db =
     (if \<not> readonly db then (ctdb, db)
      else
        (ctdb\<lparr>out := out ctdb @ concat (map snd (revokechild_active db))\<rparr>,
         db\<lparr>rottdb := Map.empty, readonly := wiped, revokechild_active := []\<rparr>))"

definition ctdb_control_push_db :: "recov_env \<Rightarrow> u8 list \<Rightarrow> recov_daemon \<Rightarrow> (int \<times> recov_daemon) option" where
  "ctdb_control_push_db env indata n =
     (if length indata < sizeof_marshall_buffer then Some (-1, n)
      else
        let reply = buffer_of_bytes indata;
            i = m_db_id reply
        in case find_ctdb_db (dmn n) i of
             None \<Rightarrow> Some (-1, n)
           | Some db \<Rightarrow>
               if freeze_mode n (db_priority n i) \<noteq> CTDB_FREEZE_FROZEN then Some (-1, n)
               else if \<not> lockall_ok env then Some (-1, n)
               else
                 case for_records (push_record (node_io env) (dmn n)) (m_data reply) 0 (unat (m_count reply)) db of
                   None \<Rightarrow> None
                 | Some (False, db) \<Rightarrow> Some (-1, set_db n i db)
                 | Some (True, db) \<Rightarrow>
                     let (ctdb, db) = forget_delegations (rot_wipe_ok env) (dmn n) db
                     in Some (0, set_db (n\<lparr>dmn := ctdb\<rparr>) i db))"

section \<open>The other controls of a recovery\<close>

definition CTDB_DB_SEQNUM_KEY :: "u8 list" where
  "CTDB_DB_SEQNUM_KEY = map of_char ''__db_sequence_number__''"

definition ctdb_get_db_seqnum :: "tdb_io \<Rightarrow> ctdb_daemon \<Rightarrow> u32 \<Rightarrow> int \<times> u64 option \<times> ctdb_daemon" where
  "ctdb_get_db_seqnum w ctdb i =
     (case find_ctdb_db ctdb i of
        None \<Rightarrow> (-1, None, ctdb)
      | Some db \<Rightarrow>
          let (ret, header, data, db) = ctdb_ltdb_fetch w ctdb db (CTDB_DB_SEQNUM_KEY @ [0]) zero_header;
              ctdb = ctdb\<lparr>dbs := (dbs ctdb)(i \<mapsto> db)\<rparr>
          in if ret \<noteq> 0 then (ret, None, ctdb)
             else if length data \<noteq> 8 then (ret, Some 0, ctdb)
             else (ret, Some (u64_of_bytes data), ctdb))"

text \<open>The answer is a zeroed number of which the code assigns the first byte.\<close>

definition ctdb_control_get_db_seqnum :: "tdb_io \<Rightarrow> u32 \<Rightarrow> ctdb_daemon \<Rightarrow> int \<times> u8 list \<times> ctdb_daemon" where
  "ctdb_control_get_db_seqnum w i ctdb =
     (case ctdb_get_db_seqnum w ctdb i of
        (ret, seqnum, ctdb) \<Rightarrow>
          if ret \<noteq> 0 then (ret, [], ctdb)
          else (ret, (bytes_of_u64 0)[0 := ucast (case seqnum of None \<Rightarrow> 0 | Some s \<Rightarrow> s)], ctdb))"

definition ctdb_control_setvnnmap :: "ctdb_vnn_map \<Rightarrow> recov_daemon \<Rightarrow> int \<times> recov_daemon" where
  "ctdb_control_setvnnmap m n =
     (if \<not> all_frozen n then (-1, n) else (0, n\<lparr>dmn := (dmn n)\<lparr>vnn_map := Some m\<rparr>\<rparr>))"

datatype recov_control =
    Pull_db u32
  | Push_db "u8 list"
  | Wipe_database u32 u32
  | Transaction_start u32
  | Transaction_cancel
  | Transaction_commit u32
  | Get_db_seqnum u32
  | Setvnnmap ctdb_vnn_map

fun control_dispatch :: "recov_env \<Rightarrow> recov_control \<Rightarrow> recov_daemon \<Rightarrow> (int \<times> u8 list \<times> recov_daemon) option" where
  "control_dispatch env (Pull_db i) n = map_option (\<lambda>(ret, outdata). (ret, outdata, n)) (ctdb_control_pull_db env i n)"
| "control_dispatch env (Push_db indata) n = map_option (\<lambda>(ret, n). (ret, [], n)) (ctdb_control_push_db env indata n)"
| "control_dispatch env (Wipe_database i t) n =
     (case ctdb_control_wipe_database (wipe_ok env) i t n of (ret, n) \<Rightarrow> Some (ret, [], n))"
| "control_dispatch env (Transaction_start t) n =
     (case ctdb_control_transaction_start (start_ok env) t n of (ret, n) \<Rightarrow> Some (ret, [], n))"
| "control_dispatch env Transaction_cancel n =
     (case ctdb_control_transaction_cancel n of (ret, n) \<Rightarrow> Some (ret, [], n))"
| "control_dispatch env (Transaction_commit t) n =
     (case ctdb_control_transaction_commit (commit_ok env) (health_ok env) t n of (ret, n) \<Rightarrow> Some (ret, [], n))"
| "control_dispatch env (Get_db_seqnum i) n =
     (case ctdb_control_get_db_seqnum (node_io env) i (dmn n) of (ret, outdata, d) \<Rightarrow> Some (ret, outdata, n\<lparr>dmn := d\<rparr>))"
| "control_dispatch env (Setvnnmap m) n =
     (case ctdb_control_setvnnmap m n of (ret, n) \<Rightarrow> Some (ret, [], n))"

section \<open>Sending controls\<close>

text \<open>
  The cluster as the recovery master sees it, with the number of controls sent so far.  A control to a node may
  be lost, or be done but not answered, or be done and answered.  A control that cannot be sent stops the
  sending: for the nodes after it this is as if the control was lost.
\<close>

record recov_cluster =
  nodes :: "u32 \<Rightarrow> recov_daemon"
  controls_sent :: nat

datatype fate = Lost | Unanswered | Answered

text \<open>
  Everything outside: the fate of each control, the environment of the nodes, the order in which answers
  arrive, and the temporary database of the recovery master.
\<close>

record recov_world =
  fate_of :: "nat \<Rightarrow> u32 \<Rightarrow> fate"
  node_env :: "nat \<Rightarrow> u32 \<Rightarrow> recov_env"
  arrival :: "nat \<Rightarrow> control_reply list \<Rightarrow> control_reply list"
  create_ok :: "nat \<Rightarrow> bool"
  recdb_io :: tdb_io
  recdb_order :: "content \<Rightarrow> u8 list list"
  recdb_traverse_ok :: "nat \<Rightarrow> bool"
  rec_preallocation_size :: u32

definition no_answer :: "u32 \<Rightarrow> control_reply" where
  "no_answer p = \<lparr>destnode = p, cstate = CTDB_CONTROL_TIMEOUT, recv_ret = -1, recv_res = -1, recv_outdata = []\<rparr>"

definition control_node :: "recov_world \<Rightarrow> recov_control \<Rightarrow> u32 \<Rightarrow> recov_cluster \<Rightarrow> (control_reply \<times> recov_cluster) option" where
  "control_node w c p cl =
     (case fate_of w (controls_sent cl) p of
        Lost \<Rightarrow> Some (no_answer p, cl)
      | f \<Rightarrow>
          (case control_dispatch (node_env w (controls_sent cl) p) c (nodes cl p) of
             None \<Rightarrow> None
           | Some (st, outdata, n) \<Rightarrow>
               Some (if f = Unanswered then no_answer p
                     else \<lparr>destnode = p, cstate = CTDB_CONTROL_DONE, recv_ret = 0, recv_res = st, recv_outdata = outdata\<rparr>,
                     cl\<lparr>nodes := (nodes cl)(p := n)\<rparr>)))"

fun control_nodes ::
    "recov_world \<Rightarrow> recov_control \<Rightarrow> u32 list \<Rightarrow> recov_cluster \<Rightarrow> (control_reply list \<times> recov_cluster) option" where
  "control_nodes w c [] cl = Some ([], cl)"
| "control_nodes w c (p # ps) cl =
     (case control_node w c p cl of
        None \<Rightarrow> None
      | Some (r, cl) \<Rightarrow> map_option (\<lambda>(rs, cl). (r # rs, cl)) (control_nodes w c ps cl))"

definition async_control ::
    "recov_world \<Rightarrow> recov_control \<Rightarrow> u32 list \<Rightarrow> 's client_async_callback option \<Rightarrow> 's client_async_callback option \<Rightarrow>
     's \<Rightarrow> recov_cluster \<Rightarrow> (int \<times> 's \<times> recov_cluster) option" where
  "async_control w c ps callback fail_callback s cl =
     (case control_nodes w c ps cl of
        None \<Rightarrow> None
      | Some (rs, cl) \<Rightarrow>
          (case ctdb_client_async_wait callback fail_callback (arrival w (controls_sent cl) rs) s of
             (ret, s) \<Rightarrow> Some (ret, s, cl\<lparr>controls_sent := Suc (controls_sent cl)\<rparr>)))"

definition sync_control :: "recov_world \<Rightarrow> recov_control \<Rightarrow> u32 \<Rightarrow> recov_cluster \<Rightarrow> (int \<times> u8 list \<times> recov_cluster) option" where
  "sync_control w c p cl =
     (case control_node w c p cl of
        None \<Rightarrow> None
      | Some (r, cl) \<Rightarrow>
          Some (if cstate r = CTDB_CONTROL_DONE \<and> recv_ret r = 0 \<and> recv_res r = 0 then 0 else -1, recv_outdata r,
                cl\<lparr>controls_sent := Suc (controls_sent cl)\<rparr>))"

section \<open>Merging the copies of a database\<close>

definition merge_record :: "tdb_io \<Rightarrow> u32 \<Rightarrow> u8 list \<Rightarrow> u8 list \<Rightarrow> content \<Rightarrow> bool \<times> content" where
  "merge_record store_ok recovery_master key data recdb =
     (if length data < sizeof_header then (False, recdb)
      else
        let hdr = header_of_bytes data;
            stored = (if store_ok key (Some data) then (True, recdb(key \<mapsto> data)) else (False, recdb))
        in case recdb key of
             None \<Rightarrow> stored
           | Some existing \<Rightarrow>
               if length existing < sizeof_header then (False, recdb)
               else
                 let header = header_of_bytes existing
                 in if \<not> (rsn header < rsn hdr \<or> (dmaster header \<noteq> recovery_master \<and> rsn header = rsn hdr)) then (True, recdb)
                    else stored)"

definition pull_one_remote_database ::
    "recov_world \<Rightarrow> u32 \<Rightarrow> u32 \<Rightarrow> u32 \<Rightarrow> content \<times> recov_cluster \<Rightarrow> (int \<times> content \<times> recov_cluster) option" where
  "pull_one_remote_database w recovery_master srcnode dbid st =
     (case st of (recdb, cl) \<Rightarrow>
        case sync_control w (Pull_db dbid) srcnode cl of
          None \<Rightarrow> None
        | Some (ret, outdata, cl) \<Rightarrow>
            if ret \<noteq> 0 then Some (-1, recdb, cl)
            else if length outdata < sizeof_marshall_buffer then Some (-1, recdb, cl)
            else
              let reply = buffer_of_bytes outdata
              in case for_records (merge_record (recdb_io w) recovery_master) (m_data reply) 0 (unat (m_count reply)) recdb of
                   None \<Rightarrow> None
                 | Some (ok, recdb) \<Rightarrow> Some (if ok then 0 else -1, recdb, cl))"

record pull_seqnum_cbdata =
  sq_failed :: int
  sq_pnn :: u32
  sq_seqnum :: u64

definition pull_seqnum_cb :: "pull_seqnum_cbdata client_async_callback" where
  "pull_seqnum_cb node_pnn res outdata cb_data =
     (if sq_failed cb_data \<noteq> 0 then cb_data
      else if res \<noteq> 0 then cb_data\<lparr>sq_failed := 1\<rparr>
      else if length outdata \<noteq> 8 then cb_data\<lparr>sq_failed := -1\<rparr>
      else
        let seqnum = u64_of_bytes outdata
        in if seqnum > sq_seqnum cb_data then cb_data\<lparr>sq_seqnum := seqnum, sq_pnn := node_pnn\<rparr> else cb_data)"

definition pull_seqnum_fail_cb :: "pull_seqnum_cbdata client_async_callback" where
  "pull_seqnum_fail_cb node_pnn res outdata cb_data = cb_data\<lparr>sq_failed := 1\<rparr>"

definition pull_highest_seqnum_pdb ::
    "recov_world \<Rightarrow> u32 \<Rightarrow> u32 \<Rightarrow> ctdb_node_map \<Rightarrow> u32 \<Rightarrow> content \<times> recov_cluster \<Rightarrow> (int \<times> content \<times> recov_cluster) option" where
  "pull_highest_seqnum_pdb w recovery_master this_pnn nodemap dbid st =
     (case st of (recdb, cl) \<Rightarrow>
        case async_control w (Get_db_seqnum dbid) (list_of_active_nodes this_pnn nodemap True)
               (Some pull_seqnum_cb) (Some pull_seqnum_fail_cb) \<lparr>sq_failed = 0, sq_pnn = -1, sq_seqnum = 0\<rparr> cl of
          None \<Rightarrow> None
        | Some (ret, cb_data, cl) \<Rightarrow>
            if ret \<noteq> 0 then Some (-1, recdb, cl)
            else if sq_failed cb_data \<noteq> 0 then Some (-1, recdb, cl)
            else if sq_seqnum cb_data = 0 \<or> sq_pnn cb_data = -1 then Some (-1, recdb, cl)
            else
              map_option (\<lambda>(ret, st). (if ret \<noteq> 0 then -1 else 0, st))
                (pull_one_remote_database w recovery_master (sq_pnn cb_data) dbid (recdb, cl)))"

text \<open>Together with the return value comes the node that is to blame for a failure.\<close>

fun pull_from_nodes ::
    "recov_world \<Rightarrow> u32 \<Rightarrow> ctdb_node_map \<Rightarrow> u32 \<Rightarrow> content \<times> recov_cluster \<Rightarrow>
     (int \<times> u32 option \<times> content \<times> recov_cluster) option" where
  "pull_from_nodes w recovery_master [] dbid st = Some (0, None, st)"
| "pull_from_nodes w recovery_master (n # ns) dbid st =
     (if has_flag (nf_flags n) NODE_FLAGS_INACTIVE then pull_from_nodes w recovery_master ns dbid st
      else case pull_one_remote_database w recovery_master (nf_pnn n) dbid st of
             None \<Rightarrow> None
           | Some (ret, st) \<Rightarrow>
               if ret \<noteq> 0 then Some (-1, Some (nf_pnn n), st) else pull_from_nodes w recovery_master ns dbid st)"

definition pull_remote_database ::
    "recov_world \<Rightarrow> bool \<Rightarrow> u32 \<Rightarrow> u32 \<Rightarrow> ctdb_node_map \<Rightarrow> u32 \<Rightarrow> bool \<Rightarrow> content \<times> recov_cluster \<Rightarrow>
     (int \<times> u32 option \<times> content \<times> recov_cluster) option" where
  "pull_remote_database w recover_pdb_by_seqnum recovery_master this_pnn nodemap dbid is_persistent st =
     (if is_persistent \<and> recover_pdb_by_seqnum then
        case pull_highest_seqnum_pdb w recovery_master this_pnn nodemap dbid st of
          None \<Rightarrow> None
        | Some (ret, st) \<Rightarrow>
            if ret = 0 then Some (0, None, st) else pull_from_nodes w recovery_master nodemap dbid st
      else pull_from_nodes w recovery_master nodemap dbid st)"

section \<open>Pushing the result\<close>

definition traverse_recdb :: "u32 \<Rightarrow> u32 \<Rightarrow> bool \<Rightarrow> u8 list \<Rightarrow> u8 list \<Rightarrow> pulldb_data \<Rightarrow> pulldb_data option" where
  "traverse_recdb prealloc this_pnn is_persistent key data params =
     (if \<not> is_persistent \<and> length data \<le> sizeof_header then Some params
      else
        let hdr = header_of_bytes data;
            hdr = hdr\<lparr>dmaster := this_pnn, hflags := hflags hdr OR CTDB_REC_FLAG_MIGRATED_WITH_DATA\<rparr>;
            data = (if is_persistent then data else bytes_of_header hdr @ drop sizeof_header data)
        in append_record prealloc key data params)"

definition push_recdb_database ::
    "recov_world \<Rightarrow> u32 \<Rightarrow> u32 \<Rightarrow> bool \<Rightarrow> content \<Rightarrow> ctdb_node_map \<Rightarrow> recov_cluster \<Rightarrow> (int \<times> recov_cluster) option" where
  "push_recdb_database w this_pnn dbid is_persistent recdb nodemap cl =
     (case tdb_traverse_read (traverse_recdb (rec_preallocation_size w) this_pnn is_persistent) (recdb_order w recdb) recdb
             (pulldb_start dbid) of
        None \<Rightarrow> None
      | Some params \<Rightarrow>
          if \<not> recdb_traverse_ok w (controls_sent cl) then Some (-1, cl)
          else
            map_option (\<lambda>(ret, s, cl). (if ret \<noteq> 0 then -1 else 0, cl))
              (async_control w (Push_db (ctdb_marshall_finish (pulldata params)))
                 (list_of_active_nodes this_pnn nodemap True) None None () cl))"

text \<open>The recovery of one database, with the node to blame if pulling failed.\<close>

definition recover_database ::
    "recov_world \<Rightarrow> bool \<Rightarrow> u32 \<Rightarrow> u32 \<Rightarrow> ctdb_node_map \<Rightarrow> u32 \<Rightarrow> u32 \<times> bool \<Rightarrow> recov_cluster \<Rightarrow>
     (int \<times> u32 option \<times> recov_cluster) option" where
  "recover_database w recover_pdb_by_seqnum recovery_master this_pnn nodemap transaction_id db cl =
     (case db of (dbid, is_persistent) \<Rightarrow>
        if \<not> create_ok w (controls_sent cl) then Some (-1, None, cl)
        else
          case pull_remote_database w recover_pdb_by_seqnum recovery_master this_pnn nodemap dbid is_persistent (Map.empty, cl) of
            None \<Rightarrow> None
          | Some (ret, culprit, recdb, cl) \<Rightarrow>
              if ret \<noteq> 0 then Some (-1, culprit, cl)
              else
                case async_control w (Wipe_database dbid transaction_id) (list_of_active_nodes this_pnn nodemap True)
                       None None () cl of
                  None \<Rightarrow> None
                | Some (ret, _, cl) \<Rightarrow>
                    if ret \<noteq> 0 then Some (-1, None, cl)
                    else map_option (\<lambda>(ret, cl). (if ret \<noteq> 0 then -1 else 0, None, cl))
                           (push_recdb_database w this_pnn dbid is_persistent recdb nodemap cl))"

fun recover_databases ::
    "recov_world \<Rightarrow> bool \<Rightarrow> u32 \<Rightarrow> u32 \<Rightarrow> ctdb_node_map \<Rightarrow> u32 \<Rightarrow> (u32 \<times> bool) list \<Rightarrow> recov_cluster \<Rightarrow>
     (int \<times> u32 option \<times> recov_cluster) option" where
  "recover_databases w by_seqnum recovery_master this_pnn nodemap t [] cl = Some (0, None, cl)"
| "recover_databases w by_seqnum recovery_master this_pnn nodemap t (db # dbmap) cl =
     (case recover_database w by_seqnum recovery_master this_pnn nodemap t db cl of
        None \<Rightarrow> None
      | Some (ret, culprit, cl) \<Rightarrow>
          if ret \<noteq> 0 then Some (-1, culprit, cl)
          else recover_databases w by_seqnum recovery_master this_pnn nodemap t dbmap cl)"

section \<open>The database part of a recovery\<close>

text \<open>From the start of the transactions on all nodes to their commit.\<close>

definition recovery_transaction ::
    "recov_world \<Rightarrow> bool \<Rightarrow> u32 \<Rightarrow> u32 \<Rightarrow> ctdb_node_map \<Rightarrow> (u32 \<times> bool) list \<Rightarrow> u32 \<Rightarrow> recov_cluster \<Rightarrow>
     (int \<times> u32 option \<times> recov_cluster) option" where
  "recovery_transaction w by_seqnum recovery_master this_pnn nodemap dbmap gen cl =
     (let ps = list_of_active_nodes this_pnn nodemap True
      in case async_control w (Transaction_start gen) ps None None () cl of
           None \<Rightarrow> None
         | Some (ret, _, cl) \<Rightarrow>
             if ret \<noteq> 0 then
               map_option (\<lambda>(ret, _, cl). (-1, None, cl)) (async_control w Transaction_cancel ps None None () cl)
             else
               case recover_databases w by_seqnum recovery_master this_pnn nodemap gen dbmap cl of
                 None \<Rightarrow> None
               | Some (ret, culprit, cl) \<Rightarrow>
                   if ret \<noteq> 0 then Some (-1, culprit, cl)
                   else map_option (\<lambda>(ret, _, cl). (if ret \<noteq> 0 then -1 else 0, None, cl))
                          (async_control w (Transaction_commit gen) ps None None () cl))"

text \<open>
  The generation of a vnn map is a random number; a candidate equal to \<^verbatim>\<open>INVALID_GENERATION\<close> is dropped.  \<open>None\<close>
  is a sequence of random numbers that holds no other number.
\<close>

definition INVALID_GENERATION :: u32 where
  "INVALID_GENERATION = 1"

fun new_generation :: "u32 list \<Rightarrow> u32 option" where
  "new_generation [] = None"
| "new_generation (r # rs) = (if r \<noteq> INVALID_GENERATION then Some r else new_generation rs)"

definition CTDB_CAP_LMASTER :: u32 where
  "CTDB_CAP_LMASTER = 2"

text \<open>The new vnn map: the active nodes that may be lmaster, or the recovery master if there is none.\<close>

definition lmaster_nodes :: "u32 list \<Rightarrow> ctdb_node_map \<Rightarrow> u32 list" where
  "lmaster_nodes capabilities nodemap =
     map (\<lambda>i. nf_pnn (nodemap ! i))
       (filter (\<lambda>i. \<not> has_flag (nf_flags (nodemap ! i)) NODE_FLAGS_INACTIVE \<and> has_flag (capabilities ! i) CTDB_CAP_LMASTER)
          [0..<length nodemap])"

definition build_vnnmap :: "u32 list \<Rightarrow> ctdb_node_map \<Rightarrow> u32 \<Rightarrow> u32 \<Rightarrow> ctdb_vnn_map" where
  "build_vnnmap capabilities nodemap this_pnn gen =
     (let m = lmaster_nodes capabilities nodemap
      in \<lparr>generation = gen, vmap = (if m = [] then [this_pnn] else m)\<rparr>)"

fun update_vnnmap_on_all_nodes ::
    "recov_world \<Rightarrow> ctdb_node_map \<Rightarrow> ctdb_vnn_map \<Rightarrow> recov_cluster \<Rightarrow> (int \<times> recov_cluster) option" where
  "update_vnnmap_on_all_nodes w [] vnnmap cl = Some (0, cl)"
| "update_vnnmap_on_all_nodes w (n # ns) vnnmap cl =
     (if has_flag (nf_flags n) NODE_FLAGS_INACTIVE then update_vnnmap_on_all_nodes w ns vnnmap cl
      else case sync_control w (Setvnnmap vnnmap) (nf_pnn n) cl of
             None \<Rightarrow> None
           | Some (ret, _, cl) \<Rightarrow> if ret \<noteq> 0 then Some (-1, cl) else update_vnnmap_on_all_nodes w ns vnnmap cl)"

text \<open>
  The part of \<^verbatim>\<open>do_recovery\<close> that works on databases and vnn map: the new generation goes to the recovery
  master first, so that a recovery that stops in between leaves different generations behind.
\<close>

definition do_recovery_databases ::
    "recov_world \<Rightarrow> bool \<Rightarrow> u32 \<Rightarrow> u32 \<Rightarrow> ctdb_node_map \<Rightarrow> u32 list \<Rightarrow> (u32 \<times> bool) list \<Rightarrow> ctdb_vnn_map \<Rightarrow> u32 \<Rightarrow> u32 \<Rightarrow>
     recov_cluster \<Rightarrow> (int \<times> u32 option \<times> recov_cluster) option" where
  "do_recovery_databases w by_seqnum recovery_master this_pnn nodemap capabilities dbmap vnnmap gen1 gen2 cl =
     (case sync_control w (Setvnnmap (vnnmap\<lparr>generation := gen1\<rparr>)) this_pnn cl of
        None \<Rightarrow> None
      | Some (ret, _, cl) \<Rightarrow>
          if ret \<noteq> 0 then Some (-1, None, cl)
          else
            case recovery_transaction w by_seqnum recovery_master this_pnn nodemap dbmap gen1 cl of
              None \<Rightarrow> None
            | Some (ret, culprit, cl) \<Rightarrow>
                if ret \<noteq> 0 then Some (-1, culprit, cl)
                else map_option (\<lambda>(ret, cl). (if ret \<noteq> 0 then -1 else 0, None, cl))
                       (update_vnnmap_on_all_nodes w nodemap (build_vnnmap capabilities nodemap this_pnn gen2) cl))"

end
