(* ===== verification/Recovery_Correct.thy ===== *)
theory Recovery_Correct
  imports Recovery
begin

text \<open>
  Correctness of the recovery of databases: merging keeps the newest copy of each record, pushing brings it to all
  active nodes, and the transaction around it leaves every node with the old or the new content of a database.
\<close>

section \<open>Buffers of records\<close>

type_synonym entry = "u8 list \<times> u8 list"

definition entry_bytes :: "entry \<Rightarrow> u8 list" where
  "entry_bytes e = bytes_of_rec (ctdb_marshall_record 0 (fst e) None (snd e))"

definition entry_fits :: "entry \<Rightarrow> bool" where
  "entry_fits e \<longleftrightarrow> sizeof_rec_data + length (fst e) + length (snd e) < 2 ^ 32"

fun fold_ok :: "(u8 list \<Rightarrow> u8 list \<Rightarrow> 's \<Rightarrow> bool \<times> 's) \<Rightarrow> entry list \<Rightarrow> 's \<Rightarrow> bool \<times> 's" where
  "fold_ok body [] s = (True, s)"
| "fold_ok body (e # es) s =
     (case body (fst e) (snd e) s of (True, s) \<Rightarrow> fold_ok body es s | (False, s) \<Rightarrow> (False, s))"

lemma u32_less: "unat (a :: u32) < 2 ^ 32"
  using unsigned_less [where 'a = nat, of a] by simp

lemma entry_size: "rec_size (0, None, e) = sizeof_rec_data + length (fst e) + length (snd e)"
  by (cases e) simp

lemma entry_bytes_rec: "entry_bytes e = rec_bytes (0, None, e)"
  by (cases e) (simp add: entry_bytes_def)


lemma for_records_entries:
  assumes "\<forall>e \<in> set es. entry_fits e" "bs = pre @ concat (map entry_bytes es)"
  shows "for_records body bs (length pre) (length es) s = Some (fold_ok body es s)"
  using assms
proof (induction es arbitrary: pre s)
  case (Cons e es)
  have sz: "rec_size (0, None, fst e, snd e) < 2 ^ 32" using Cons.prems(1) by (simp add: entry_fits_def entry_size)
  have bs: "bs = pre @ rec_bytes (0, None, fst e, snd e) @ concat (map entry_bytes es)"
    using Cons.prems(2) entry_bytes_rec [of e] by simp
  have rd: "read_rec bs (length pre) False = Next (length pre) 0 None (fst e) (snd e)"
    using read_rec_marshalled [OF sz, of pre "concat (map entry_bytes es)"] bs by simp
  have "unat (word_at bs (length pre)) = rec_size (0, None, fst e, snd e)"
    unfolding bs word_at_length by (rule unat_fits [OF sz])
  then have nx: "length pre + unat (word_at bs (length pre)) = length (pre @ entry_bytes e)"
    using length_rec_bytes [of "(0, None, fst e, snd e)"] by (simp add: entry_bytes_rec)
  have IH: "for_records body bs (length (pre @ entry_bytes e)) (length es) s = Some (fold_ok body es s)" for s
    by (rule Cons.IH) (use Cons.prems in auto)
  show ?case using IH by (simp add: rd nx split: prod.split bool.split)
qed simp

fun append_all :: "u32 \<Rightarrow> entry list \<Rightarrow> pulldb_data \<Rightarrow> pulldb_data option" where
  "append_all prealloc [] p = Some p"
| "append_all prealloc (e # es) p =
     (case append_record prealloc (fst e) (snd e) p of None \<Rightarrow> None | Some p \<Rightarrow> append_all prealloc es p)"

lemma append_record_Some:
  assumes "append_record prealloc (fst e) (snd e) p = Some p'" "entry_fits e"
    and "unat (p_len p) = sizeof_marshall_buffer + length (m_data (pulldata p))"
  shows "pulldata p' = (pulldata p)\<lparr>m_count := m_count (pulldata p) + 1, m_data := m_data (pulldata p) @ entry_bytes e\<rparr>"
    "unat (p_len p') = sizeof_marshall_buffer + length (m_data (pulldata p'))"
proof -
  let ?r = "ctdb_marshall_record 0 (fst e) None (snd e)"
  have l: "unat (rec_length ?r) = length (entry_bytes e)"
    using assms(2) unat_fits [of "rec_size (0, None, fst e, snd e)"] length_rec_bytes [of "(0, None, fst e, snd e)"]
    by (simp add: entry_bytes_rec ctdb_marshall_record_def Let_def entry_fits_def entry_size)
  from assms(1) obtain a where a: "unat (p_len p) + unat (rec_length ?r) \<le> unat (a :: u32)"
    and p': "p' = \<lparr>pulldata = (pulldata p)\<lparr>m_count := m_count (pulldata p) + 1, m_data := m_data (pulldata p) @ entry_bytes e\<rparr>,
                    p_len = p_len p + rec_length ?r, allocated_len = a\<rparr>"
    by (auto simp: append_record_def Let_def entry_bytes_def not_less split: if_splits)
  show "pulldata p' = (pulldata p)\<lparr>m_count := m_count (pulldata p) + 1, m_data := m_data (pulldata p) @ entry_bytes e\<rparr>"
    by (simp add: p')
  have "unat (p_len p + rec_length ?r) = unat (p_len p) + unat (rec_length ?r)"
    using a u32_less [of a] by (intro unat_add_lem [THEN iffD1]) simp
  then show "unat (p_len p') = sizeof_marshall_buffer + length (m_data (pulldata p'))"
    using assms(3) l by (simp add: p')
qed

lemma append_all_Some:
  assumes "append_all prealloc es p = Some p'" "\<forall>e \<in> set es. entry_fits e"
    and "unat (p_len p) = sizeof_marshall_buffer + length (m_data (pulldata p))"
  shows "pulldata p' = (pulldata p)\<lparr>m_count := m_count (pulldata p) + of_nat (length es),
      m_data := m_data (pulldata p) @ concat (map entry_bytes es)\<rparr> \<and>
    unat (p_len p') = sizeof_marshall_buffer + length (m_data (pulldata p'))"
  using assms
proof (induction es arbitrary: p)
  case (Cons e es)
  from Cons.prems(1) obtain q where q: "append_record prealloc (fst e) (snd e) p = Some q" "append_all prealloc es q = Some p'"
    by (auto split: option.splits)
  have e: "entry_fits e" using Cons.prems(2) by simp
  note Q = append_record_Some [OF q(1) e Cons.prems(3)]
  have "\<forall>e \<in> set es. entry_fits e" using Cons.prems(2) by simp
  from Cons.IH [OF q(2) this Q(2)] show ?case by (simp add: Q(1) algebra_simps)
qed simp

lemma length_entries: "16 * length es \<le> length (concat (map entry_bytes es))"
proof (induction es)
  case (Cons e es)
  have "16 \<le> length (entry_bytes e)"
    using length_rec_bytes [of "(0, None, fst e, snd e)"] by (simp add: entry_bytes_rec entry_size sizeof_rec_data_def)
  with Cons show ?case by simp
qed simp

text \<open>A buffer that was built within its memory holds the records and their number.\<close>

lemma append_all_buffer:
  assumes "append_all prealloc es (pulldb_start i) = Some p" "\<forall>e \<in> set es. entry_fits e"
  shows "pulldata p = \<lparr>m_db_id = i, m_count = of_nat (length es), m_data = concat (map entry_bytes es)\<rparr>"
    "unat (m_count (pulldata p)) = length es"
proof -
  have A: "pulldata p = \<lparr>m_db_id = i, m_count = of_nat (length es), m_data = concat (map entry_bytes es)\<rparr>"
    "unat (p_len p) = sizeof_marshall_buffer + length (m_data (pulldata p))"
    using append_all_Some [OF assms] by (simp_all add: pulldb_start_def sizeof_marshall_buffer_def)
  show "pulldata p = \<lparr>m_db_id = i, m_count = of_nat (length es), m_data = concat (map entry_bytes es)\<rparr>" by (fact A)
  have "length es < 2 ^ 32"
    using A u32_less [of "p_len p"] length_entries [of es] by simp
  then show "unat (m_count (pulldata p)) = length es" using A(1) unat_fits [of "length es"] by simp
qed

lemma for_records_buffer:
  assumes "append_all prealloc es (pulldb_start i) = Some p" "\<forall>e \<in> set es. entry_fits e"
    and "m = buffer_of_bytes (ctdb_marshall_finish (pulldata p))"
  shows "m_db_id m = i" "for_records body (m_data m) 0 (unat (m_count m)) s = Some (fold_ok body es s)"
proof -
  note A = append_all_buffer [OF assms(1,2)]
  show "m_db_id m = i" using A(1) by (simp add: assms(3))
  have "m_data m = [] @ concat (map entry_bytes es)" using A(1) by (simp add: assms(3))
  from for_records_entries [OF assms(2) this, of body s] A(2)
  show "for_records body (m_data m) 0 (unat (m_count m)) s = Some (fold_ok body es s)" by (simp add: assms(3))
qed

section \<open>The records of a database\<close>

definition entries :: "(content \<Rightarrow> u8 list list) \<Rightarrow> content \<Rightarrow> entry list" where
  "entries ord m = map (\<lambda>k. (k, the (m k))) (ord m)"

text \<open>A traversal visits each key once; \<open>Ks\<close> are the keys in use.\<close>

definition orders :: "u8 list set \<Rightarrow> (content \<Rightarrow> u8 list list) \<Rightarrow> bool" where
  "orders Ks ord \<longleftrightarrow> (\<forall>m. dom m \<subseteq> Ks \<longrightarrow> distinct (ord m) \<and> set (ord m) = dom m)"

lemma traverse_pulldb_entries:
  "tdb_traverse_read (traverse_pulldb prealloc) ks m p = append_all prealloc (map (\<lambda>k. (k, the (m k))) ks) p"
  by (induction ks arbitrary: p) (auto simp: traverse_pulldb_def split: option.splits)

lemma set_entries: "orders Ks ord \<Longrightarrow> dom m \<subseteq> Ks \<Longrightarrow> (k, d) \<in> set (entries ord m) \<longleftrightarrow> m k = Some d"
  by (auto simp: entries_def orders_def domI)

lemma entries_distinct: "orders Ks ord \<Longrightarrow> dom m \<subseteq> Ks \<Longrightarrow> distinct (map fst (entries ord m))"
  by (auto simp: entries_def orders_def comp_def)

lemma pull_db_entries:
  assumes "ctdb_control_pull_db env i n = Some (0, outdata)" "orders Ks (order env)"
    and "\<And>db. dbs (dmn n) i = Some db \<Longrightarrow> dom (ltdb db) \<subseteq> Ks \<and> (\<forall>k d. ltdb db k = Some d \<longrightarrow> entry_fits (k, d))"
  shows "\<exists>db prealloc p. dbs (dmn n) i = Some db \<and> append_all prealloc (entries (order env) (ltdb db)) (pulldb_start i) = Some p \<and>
    outdata = ctdb_marshall_finish (pulldata p) \<and> (\<forall>e \<in> set (entries (order env) (ltdb db)). entry_fits e)"
proof -
  from assms(1) obtain db p where db: "dbs (dmn n) i = Some db"
    and p: "tdb_traverse_read (traverse_pulldb (pulldb_preallocation_size env)) (order env (ltdb db)) (ltdb db) (pulldb_start i) = Some p"
    "outdata = ctdb_marshall_finish (pulldata p)"
    by (auto simp: ctdb_control_pull_db_def find_ctdb_db_def split: option.splits if_splits)
  have "entry_fits e" if "e \<in> set (entries (order env) (ltdb db))" for e
    using assms(3) [OF db] set_entries [OF assms(2), of "ltdb db" "fst e" "snd e"] that by (cases e) auto
  with db p show ?thesis by (auto simp: traverse_pulldb_entries entries_def)
qed

section \<open>Controls\<close>

definition world_ok :: "u8 list set \<Rightarrow> recov_world \<Rightarrow> bool" where
  "world_ok Ks w \<longleftrightarrow> orders Ks (recdb_order w) \<and> (\<forall>t p. orders Ks (order (node_env w t p))) \<and> (\<forall>t rs. set (arrival w t rs) = set rs)"

lemma control_node_ok:
  assumes "control_node w c p cl = Some (r, cl')" "reply_ok r"
  shows "\<exists>t. control_dispatch (node_env w t p) c (nodes cl p) = Some (0, recv_outdata r, nodes cl' p)"
    "\<And>q. q \<noteq> p \<Longrightarrow> nodes cl' q = nodes cl q"
  using assms by (auto simp: control_node_def no_answer_def reply_ok_def split: fate.splits option.splits prod.splits)

lemma control_node_others: "control_node w c p cl = Some (r, cl') \<Longrightarrow> q \<noteq> p \<Longrightarrow> nodes cl' q = nodes cl q"
  by (auto simp: control_node_def split: fate.splits option.splits prod.splits)

lemma control_nodes_ok:
  assumes "control_nodes w c ps cl = Some (rs, cl')" "\<forall>r \<in> set rs. reply_ok r" "distinct ps"
  shows "(\<forall>p \<in> set ps. \<exists>t outdata. control_dispatch (node_env w t p) c (nodes cl p) = Some (0, outdata, nodes cl' p)) \<and>
    (\<forall>q. q \<notin> set ps \<longrightarrow> nodes cl' q = nodes cl q)"
  using assms
proof (induction ps arbitrary: cl rs)
  case (Cons p ps)
  from Cons.prems(1) obtain r cl1 rs' where r: "control_node w c p cl = Some (r, cl1)"
    "control_nodes w c ps cl1 = Some (rs', cl')" "rs = r # rs'"
    by (auto split: option.splits)
  have ok: "reply_ok r" "\<forall>r \<in> set rs'. reply_ok r" "distinct ps" "p \<notin> set ps" using Cons.prems(2,3) r(3) by auto
  note N = control_node_ok [OF r(1) ok(1)] and I = Cons.IH [OF r(2) ok(2,3)]
  have "nodes cl' p = nodes cl1 p" using I ok(4) by blast
  moreover have "nodes cl1 q = nodes cl q" if "q \<in> set ps" for q
    by (rule N(2)) (use that ok(4) in auto)
  moreover have "nodes cl' q = nodes cl q" if "q \<notin> set (p # ps)" for q
    using I that N(2) [of q] by simp
  ultimately show ?case using N(1) I by auto
qed auto

lemma recov_async_ok:
  assumes "async_control w c ps cb fcb s cl = Some (0, s', cl')" "world_ok Ks w" "distinct ps"
  shows "\<And>p. p \<in> set ps \<Longrightarrow> \<exists>t outdata. control_dispatch (node_env w t p) c (nodes cl p) = Some (0, outdata, nodes cl' p)"
    "\<And>q. q \<notin> set ps \<Longrightarrow> nodes cl' q = nodes cl q"
proof -
  from assms(1) obtain rs cl1 where cn: "control_nodes w c ps cl = Some (rs, cl1)"
    and wt: "ctdb_client_async_wait cb fcb (arrival w (controls_sent cl1) rs) s = (0, s')"
    and cl': "cl' = cl1\<lparr>controls_sent := Suc (controls_sent cl1)\<rparr>"
    by (auto simp: async_control_def split: option.splits prod.splits)
  have "\<forall>r \<in> set rs. reply_ok r"
    using async_wait_0_iff [of cb fcb "arrival w (controls_sent cl1) rs" s] wt assms(2) by (simp add: world_ok_def)
  from control_nodes_ok [OF cn this assms(3)]
  show "\<And>p. p \<in> set ps \<Longrightarrow> \<exists>t outdata. control_dispatch (node_env w t p) c (nodes cl p) = Some (0, outdata, nodes cl' p)"
    "\<And>q. q \<notin> set ps \<Longrightarrow> nodes cl' q = nodes cl q"
    by (auto simp: cl')
qed

lemma sync_control_ok:
  assumes "sync_control w c p cl = Some (0, outdata, cl')"
  shows "\<exists>t. control_dispatch (node_env w t p) c (nodes cl p) = Some (0, outdata, nodes cl' p)"
    "\<And>q. q \<noteq> p \<Longrightarrow> nodes cl' q = nodes cl q"
proof -
  from assms obtain r cl1 where r: "control_node w c p cl = Some (r, cl1)" "reply_ok r" "outdata = recv_outdata r"
    and cl': "cl' = cl1\<lparr>controls_sent := Suc (controls_sent cl1)\<rparr>"
    by (auto simp: sync_control_def reply_ok_def split: option.splits if_splits)
  from control_node_ok [OF r(1,2)]
  show "\<exists>t. control_dispatch (node_env w t p) c (nodes cl p) = Some (0, outdata, nodes cl' p)"
    "\<And>q. q \<noteq> p \<Longrightarrow> nodes cl' q = nodes cl q"
    by (auto simp: cl' r(3))
qed

section \<open>Merging keeps the newest copy\<close>

abbreviation rsn_of :: "u8 list \<Rightarrow> u64" where
  "rsn_of d \<equiv> rsn (header_of_bytes d)"

text \<open>Of the copies of a record the one with the highest rsn, preferring one with the recovery master as dmaster.\<close>

definition newest :: "u32 \<Rightarrow> u8 list set \<Rightarrow> u8 list option \<Rightarrow> bool" where
  "newest rm S x \<longleftrightarrow>
     (case x of
        None \<Rightarrow> S = {}
      | Some r \<Rightarrow> r \<in> S \<and> (\<forall>r' \<in> S. rsn_of r' \<le> rsn_of r) \<and>
          ((\<exists>r' \<in> S. rsn_of r' = rsn_of r \<and> dmaster (header_of_bytes r') = rm) \<longrightarrow> dmaster (header_of_bytes r) = rm))"

definition recdb_inv :: "u32 \<Rightarrow> (u8 list \<Rightarrow> u8 list set) \<Rightarrow> content \<Rightarrow> bool" where
  "recdb_inv rm S recdb \<longleftrightarrow>
     (\<forall>K. newest rm (S K) (recdb K)) \<and> (\<forall>K d. recdb K = Some d \<longrightarrow> sizeof_header \<le> length d)"

lemma newest_keep:
  assumes "newest rm S (Some e)" "\<not> (rsn_of e < rsn_of d \<or> (dmaster (header_of_bytes e) \<noteq> rm \<and> rsn_of e = rsn_of d))"
  shows "newest rm (insert d S) (Some e)"
  using assms by (auto simp: newest_def not_less)

lemma newest_replace:
  assumes "newest rm S (Some e)" "rsn_of e < rsn_of d \<or> (dmaster (header_of_bytes e) \<noteq> rm \<and> rsn_of e = rsn_of d)"
  shows "newest rm (insert d S) (Some d)"
  using assms by (fastforce simp: newest_def)

lemma merge_record_newest:
  assumes "merge_record ok rm k d recdb = (True, recdb')" "newest rm S (recdb k)"
  shows "newest rm (insert d S) (recdb' k)" "\<And>K. K \<noteq> k \<Longrightarrow> recdb' K = recdb K"
    "recdb' = recdb \<or> recdb' = recdb(k \<mapsto> d)" "sizeof_header \<le> length d"
proof -
  show "newest rm (insert d S) (recdb' k)"
  proof (cases "recdb k")
    case None
    then show ?thesis using assms by (auto simp: merge_record_def Let_def newest_def split: if_splits)
  next
    case (Some e)
    then show ?thesis using assms newest_keep [of rm S e d] newest_replace [of rm S e d]
      by (auto simp: merge_record_def Let_def split: if_splits)
  qed
qed (use assms in \<open>auto simp: merge_record_def Let_def split: if_splits option.splits\<close>)

lemma merge_record_inv:
  assumes "merge_record ok rm k d recdb = (True, recdb')" "recdb_inv rm S recdb"
  shows "recdb_inv rm (\<lambda>K. if K = k then insert d (S K) else S K) recdb'"
proof -
  have "newest rm (S k) (recdb k)" using assms(2) by (simp add: recdb_inv_def)
  note M = merge_record_newest [OF assms(1) this]
  show ?thesis unfolding recdb_inv_def
  proof (intro conjI allI impI)
    show "newest rm (if K = k then insert d (S K) else S K) (recdb' K)" for K
      using M(1,2) assms(2) by (auto simp: recdb_inv_def)
    show "sizeof_header \<le> length d'" if "recdb' K = Some d'" for K d'
      using M(3,4) assms(2) that by (auto simp: recdb_inv_def split: if_splits)
  qed
qed

lemma merge_all_inv:
  assumes "fold_ok (merge_record ok rm) es recdb = (True, recdb')" "recdb_inv rm S recdb"
  shows "recdb_inv rm (\<lambda>K. S K \<union> {d. (K, d) \<in> set es}) recdb'"
  using assms
proof (induction es arbitrary: recdb S)
  case (Cons e es)
  from Cons.prems(1) obtain r1 where r1: "merge_record ok rm (fst e) (snd e) recdb = (True, r1)"
    "fold_ok (merge_record ok rm) es r1 = (True, recdb')"
    by (auto split: prod.splits bool.splits)
  have "(\<lambda>K. (if K = fst e then insert (snd e) (S K) else S K) \<union> {d. (K, d) \<in> set es}) =
      (\<lambda>K. S K \<union> {d. (K, d) \<in> set (e # es)})"
    by (cases e) (auto simp: fun_eq_iff)
  with Cons.IH [OF r1(2) merge_record_inv [OF r1(1) Cons.prems(2)]] show ?case by simp
qed simp

definition copies :: "recov_daemon \<Rightarrow> u32 \<Rightarrow> u8 list \<Rightarrow> u8 list set" where
  "copies n i K = {d. ltdb (db_of n i) K = Some d}"

definition db_fits :: "u8 list set \<Rightarrow> recov_daemon \<Rightarrow> u32 \<Rightarrow> bool" where
  "db_fits Ks n i \<longleftrightarrow> dom (ltdb (db_of n i)) \<subseteq> Ks \<and> (\<forall>k d. ltdb (db_of n i) k = Some d \<longrightarrow> entry_fits (k, d))"

lemma pull_one_inv:
  assumes "pull_one_remote_database w rm p i (recdb, cl) = Some (0, recdb', cl')" "world_ok Ks w" "db_fits Ks (nodes cl p) i"
    and "recdb_inv rm S recdb"
  shows "nodes cl' = nodes cl \<and> recdb_inv rm (\<lambda>K. S K \<union> copies (nodes cl p) i K) recdb'"
proof -
  from assms(1) obtain outdata where sc: "sync_control w (Pull_db i) p cl = Some (0, outdata, cl')"
    and fr: "for_records (merge_record (recdb_io w) rm) (m_data (buffer_of_bytes outdata)) 0
       (unat (m_count (buffer_of_bytes outdata))) recdb = Some (True, recdb')"
    by (auto simp: pull_one_remote_database_def Let_def split: option.splits prod.splits if_splits)
  from sync_control_ok [OF sc] obtain t where t: "control_dispatch (node_env w t p) (Pull_db i) (nodes cl p) = Some (0, outdata, nodes cl' p)"
    and oth: "\<And>q. q \<noteq> p \<Longrightarrow> nodes cl' q = nodes cl q" by auto
  from t have pd: "ctdb_control_pull_db (node_env w t p) i (nodes cl p) = Some (0, outdata)" and same: "nodes cl' p = nodes cl p"
    by (auto split: prod.splits)
  have ord: "orders Ks (order (node_env w t p))" using assms(2) by (simp add: world_ok_def)
  have "dom (ltdb db) \<subseteq> Ks \<and> (\<forall>k d. ltdb db k = Some d \<longrightarrow> entry_fits (k, d))" if "dbs (dmn (nodes cl p)) i = Some db" for db
    using assms(3) that by (simp add: db_fits_def db_of_def)
  from pull_db_entries [OF pd ord this] obtain db prealloc params where
    db: "dbs (dmn (nodes cl p)) i = Some db"
    and ap: "append_all prealloc (entries (order (node_env w t p)) (ltdb db)) (pulldb_start i) = Some params"
    and od: "outdata = ctdb_marshall_finish (pulldata params)"
    and fit: "\<forall>e \<in> set (entries (order (node_env w t p)) (ltdb db)). entry_fits e" by blast
  have "fold_ok (merge_record (recdb_io w) rm) (entries (order (node_env w t p)) (ltdb db)) recdb = (True, recdb')"
    using for_records_buffer(2) [OF ap fit refl, of "merge_record (recdb_io w) rm" recdb] fr by (simp add: od)
  from merge_all_inv [OF this assms(4)]
  have "recdb_inv rm (\<lambda>K. S K \<union> {d. (K, d) \<in> set (entries (order (node_env w t p)) (ltdb db))}) recdb'" .
  moreover have "{d. (K, d) \<in> set (entries (order (node_env w t p)) (ltdb db))} = copies (nodes cl p) i K" for K
    using assms(3) set_entries [OF ord, of "ltdb db" K] by (auto simp: copies_def db_of_def db db_fits_def)
  moreover have "nodes cl' = nodes cl" using same oth by (intro ext) (metis)
  ultimately show ?thesis by simp
qed

definition active :: "ctdb_node_map \<Rightarrow> u32 set" where
  "active nodemap = nf_pnn ` {n \<in> set nodemap. \<not> has_flag (nf_flags n) NODE_FLAGS_INACTIVE}"

lemma pull_from_nodes_inv:
  assumes "pull_from_nodes w rm nodemap i (recdb, cl) = Some (0, c, recdb', cl')" "world_ok Ks w"
    and "\<forall>p \<in> active nodemap. db_fits Ks (nodes cl p) i" "recdb_inv rm S recdb"
  shows "nodes cl' = nodes cl \<and> recdb_inv rm (\<lambda>K. S K \<union> (\<Union>p \<in> active nodemap. copies (nodes cl p) i K)) recdb'"
  using assms
proof (induction nodemap arbitrary: recdb cl S)
  case Nil
  then show ?case by (simp add: active_def)
next
  case (Cons n ns)
  show ?case
  proof (cases "has_flag (nf_flags n) NODE_FLAGS_INACTIVE")
    case True
    then have "active (n # ns) = active ns" by (auto simp: active_def)
    with Cons True show ?thesis by simp
  next
    case False
    then have act: "active (n # ns) = insert (nf_pnn n) (active ns)" by (auto simp: active_def)
    from Cons.prems(1) False obtain r1 cl1 where
      p1: "pull_one_remote_database w rm (nf_pnn n) i (recdb, cl) = Some (0, r1, cl1)"
      "pull_from_nodes w rm ns i (r1, cl1) = Some (0, c, recdb', cl')"
      by (auto split: option.splits if_splits)
    have fits: "db_fits Ks (nodes cl (nf_pnn n)) i" using Cons.prems(3) act by simp
    from pull_one_inv [OF p1(1) assms(2) fits Cons.prems(4)] have I: "nodes cl1 = nodes cl"
      "recdb_inv rm (\<lambda>K. S K \<union> copies (nodes cl (nf_pnn n)) i K) r1" by auto
    have "\<forall>p \<in> active ns. db_fits Ks (nodes cl1 p) i" using Cons.prems(3) act I(1) by simp
    from Cons.IH [OF p1(2) assms(2) this I(2)] I(1) act show ?thesis by (simp add: Un_assoc)
  qed
qed

section \<open>Wiping and pushing\<close>

text \<open>What a control on one database leaves alone.\<close>

definition node_kept :: "u32 \<Rightarrow> recov_daemon \<Rightarrow> recov_daemon \<Rightarrow> bool" where
  "node_kept i n n' \<longleftrightarrow>
     pnn (dmn n') = pnn (dmn n) \<and> vnn_map (dmn n') = vnn_map (dmn n) \<and> (\<forall>j. j \<noteq> i \<longrightarrow> dbs (dmn n') j = dbs (dmn n) j) \<and>
     map_option persistent (dbs (dmn n') i) = map_option persistent (dbs (dmn n) i) \<and>
     map_option ctdb_ltdb_store_fn (dbs (dmn n') i) = map_option ctdb_ltdb_store_fn (dbs (dmn n) i) \<and>
     freeze_mode n' = freeze_mode n \<and> db_list n' = db_list n \<and> db_priority n' = db_priority n \<and> tdb_saved n' = tdb_saved n \<and>
     freeze_transaction_started n' = freeze_transaction_started n \<and> freeze_transaction_id n' = freeze_transaction_id n"

lemma node_kept_refl [simp]: "node_kept i n n"
  by (simp add: node_kept_def)

lemma node_kept_trans [trans]: "node_kept i n n' \<Longrightarrow> node_kept i n' n'' \<Longrightarrow> node_kept i n n''"
  by (simp add: node_kept_def)

lemma wipe_result:
  assumes "ctdb_control_wipe_database ok i t n = (0, n')"
  shows "node_kept i n n'" "ltdb (db_of n' i) = Map.empty"
  using assms
  by (auto simp: ctdb_control_wipe_database_def find_ctdb_db_def node_kept_def set_db_def db_of_def Let_def split: option.splits if_splits)

text \<open>The database as a node can work with it during a recovery.\<close>

definition db_ready :: "recov_daemon \<Rightarrow> u32 \<Rightarrow> bool \<Rightarrow> bool" where
  "db_ready n i pers \<longleftrightarrow>
     vnn_map (dmn n) \<noteq> None \<and> (\<exists>db. dbs (dmn n) i = Some db \<and> ctdb_ltdb_store_fn db \<and> persistent db = pers)"

lemma node_kept_ready: "node_kept i n n' \<Longrightarrow> db_ready n j pers \<Longrightarrow> db_ready n' j pers"
  by (cases "j = i") (auto simp: node_kept_def db_ready_def)

definition stripped :: "ctdb_ltdb_header \<Rightarrow> ctdb_ltdb_header" where
  "stripped h = h\<lparr>hflags := stored_flags (hflags h AND NOT CTDB_REC_RO_FLAGS)\<rparr>"

definition pushed :: "bool \<Rightarrow> u32 \<Rightarrow> u8 list \<Rightarrow> u8 list" where
  "pushed pers self d =
     (let h = stripped (header_of_bytes d)
      in bytes_of_header (if \<not> pers \<and> self = dmaster h then h\<lparr>rsn := rsn h + 1\<rparr> else h) @ drop sizeof_header d)"

lemma no_ro_flags [simp]: "\<not> has_flag (f AND NOT CTDB_REC_RO_FLAGS) CTDB_REC_RO_FLAGS"
  by (auto simp: has_flag_bit bit_and_iff bit_not_iff)

lemma store_fn_server: "ctdb_ltdb_store_fn db \<Longrightarrow> ctdb_ltdb_store w ctdb db k h d = ctdb_ltdb_store_server w ctdb db k h d"
  by (simp add: ctdb_ltdb_store_def)

lemma push_record_result:
  assumes "push_record w ctdb k d db = (True, db')" "vnn_map ctdb \<noteq> None" "ctdb_ltdb_store_fn db"
    and "persistent db \<or> sizeof_header < length d"
  shows "ltdb db' = (ltdb db)(k \<mapsto> pushed (persistent db) (pnn ctdb) d)" "db_same db db'"
proof -
  let ?h = "(header_of_bytes d)\<lparr>hflags := hflags (header_of_bytes d) AND NOT CTDB_REC_RO_FLAGS\<rparr>"
  let ?d = "drop sizeof_header d"
  from assms(2) obtain m where m: "vnn_map ctdb = Some m" by auto
  from assms(1,3) obtain h' where st: "ctdb_ltdb_store_server w ctdb db k ?h ?d = (0, h', db')"
    by (auto simp: push_record_def Let_def store_fn_server split: if_splits prod.splits)
  have keep: "fst (store_keep (pnn ctdb) (ctdb_lmaster m k) (persistent db) ?h ?d)"
    using assms(4) by (auto simp: store_keep_def)
  obtain sched where sk: "store_keep (pnn ctdb) (ctdb_lmaster m k) (persistent db) ?h ?d = (True, sched)"
    using keep by (metis fst_conv surj_pair)
  note R = store_server_result [OF m st sk]
  have "h' = (if \<not> persistent db \<and> pnn ctdb = dmaster (header_of_bytes d)
      then (stripped (header_of_bytes d))\<lparr>rsn := rsn (header_of_bytes d) + 1\<rparr> else stripped (header_of_bytes d))"
    by (simp add: R(1) owned_def stripped_def)
  with R(4) show "ltdb db' = (ltdb db)(k \<mapsto> pushed (persistent db) (pnn ctdb) d)"
    by (auto simp: pushed_def Let_def stripped_def)
  show "db_same db db'" by (fact R(2))
qed

lemma push_all_result:
  assumes "fold_ok (push_record w ctdb) es db = (True, db')" "vnn_map ctdb \<noteq> None" "ctdb_ltdb_store_fn db"
    and "\<forall>e \<in> set es. persistent db \<or> sizeof_header < length (snd e)" "distinct (map fst es)"
  shows "(\<forall>k d. (k, d) \<in> set es \<longrightarrow> ltdb db' k = Some (pushed (persistent db) (pnn ctdb) d)) \<and>
    (\<forall>k. k \<notin> fst ` set es \<longrightarrow> ltdb db' k = ltdb db k) \<and> db_same db db'"
  using assms
proof (induction es arbitrary: db)
  case (Cons e es)
  from Cons.prems(1) obtain db1 where d1: "push_record w ctdb (fst e) (snd e) db = (True, db1)"
    "fold_ok (push_record w ctdb) es db1 = (True, db')" by (auto split: prod.splits bool.splits)
  have "persistent db \<or> sizeof_header < length (snd e)" using Cons.prems(4) by auto
  note P = push_record_result [OF d1(1) assms(2) Cons.prems(3) this]
  have s: "ctdb_ltdb_store_fn db1" "persistent db1 = persistent db" using P(2) Cons.prems(3) by (auto simp: db_same_def)
  have "\<forall>e \<in> set es. persistent db1 \<or> sizeof_header < length (snd e)" "distinct (map fst es)" using Cons.prems(4,5) s by auto
  note I = Cons.IH [OF d1(2) assms(2) s(1) this]
  have "db_same db db'" using P(2) I by (auto simp: db_same_def)
  moreover have "ltdb db' (fst e) = Some (pushed (persistent db) (pnn ctdb) (snd e))"
    using I P(1) Cons.prems(5) by auto
  ultimately show ?case using I P(1) s(2) by auto
qed (simp add: db_same_def)

lemma forget_delegations_same:
  "forget_delegations b ctdb db = (ctdb', db') \<Longrightarrow>
     ltdb db' = ltdb db \<and> persistent db' = persistent db \<and> ctdb_ltdb_store_fn db' = ctdb_ltdb_store_fn db \<and>
     pnn ctdb' = pnn ctdb \<and> vnn_map ctdb' = vnn_map ctdb \<and> dbs ctdb' = dbs ctdb"
  by (auto simp: forget_delegations_def split: if_splits)

lemma push_db_result:
  assumes "ctdb_control_push_db env (ctdb_marshall_finish (pulldata p)) n = Some (0, n')"
    and "append_all prealloc es (pulldb_start i) = Some p" "\<forall>e \<in> set es. entry_fits e"
    and "db_ready n i pers" "\<forall>e \<in> set es. pers \<or> sizeof_header < length (snd e)" "distinct (map fst es)"
  shows "node_kept i n n'"
    "\<And>k d. (k, d) \<in> set es \<Longrightarrow> ltdb (db_of n' i) k = Some (pushed pers (pnn (dmn n)) d)"
    "\<And>k. k \<notin> fst ` set es \<Longrightarrow> ltdb (db_of n' i) k = ltdb (db_of n i) k"
proof -
  note F = for_records_buffer [OF assms(2,3) refl]
  let ?m = "buffer_of_bytes (ctdb_marshall_finish (pulldata p))"
  from assms(1) F(1) obtain db db1 ctdb db2 where db: "dbs (dmn n) i = Some db"
    and fr: "for_records (push_record (node_io env) (dmn n)) (m_data ?m) 0 (unat (m_count ?m)) db = Some (True, db1)"
    and fd: "forget_delegations (rot_wipe_ok env) (dmn n) db1 = (ctdb, db2)"
    and n': "n' = set_db (n\<lparr>dmn := ctdb\<rparr>) i db2"
    by (auto simp: ctdb_control_push_db_def find_ctdb_db_def Let_def split: option.splits if_splits bool.splits prod.splits)
  have fo: "fold_ok (push_record (node_io env) (dmn n)) es db = (True, db1)"
    using fr F(2) [of "push_record (node_io env) (dmn n)" db] by simp
  have r: "vnn_map (dmn n) \<noteq> None" "ctdb_ltdb_store_fn db" "persistent db = pers"
    using assms(4) db by (auto simp: db_ready_def db_of_def)
  have "\<forall>e \<in> set es. persistent db \<or> sizeof_header < length (snd e)" using assms(5) r(3) by simp
  note P = push_all_result [OF fo r(1,2) this assms(6)] and G = forget_delegations_same [OF fd]
  have n'db: "db_of n' i = db2" "db_of n i = db" by (simp_all add: n' db_of_def set_db_def db)
  show "node_kept i n n'" using P G db by (auto simp: node_kept_def n' set_db_def db_same_def)
  show "\<And>k d. (k, d) \<in> set es \<Longrightarrow> ltdb (db_of n' i) k = Some (pushed pers (pnn (dmn n)) d)"
    "\<And>k. k \<notin> fst ` set es \<Longrightarrow> ltdb (db_of n' i) k = ltdb (db_of n i) k"
    using P G r(3) by (auto simp: n'db)
qed

section \<open>Recovering one database\<close>

definition prepared :: "bool \<Rightarrow> u32 \<Rightarrow> u8 list \<Rightarrow> u8 list" where
  "prepared pers me d =
     (if pers then d
      else bytes_of_header ((header_of_bytes d)\<lparr>dmaster := me, hflags := hflags (header_of_bytes d) OR CTDB_REC_FLAG_MIGRATED_WITH_DATA\<rparr>)
           @ drop sizeof_header d)"

definition outgoing :: "bool \<Rightarrow> u32 \<Rightarrow> entry list \<Rightarrow> entry list" where
  "outgoing pers me es =
     map (\<lambda>e. (fst e, prepared pers me (snd e))) (filter (\<lambda>e. pers \<or> sizeof_header < length (snd e)) es)"

lemma traverse_recdb_entries:
  "tdb_traverse_read (traverse_recdb prealloc me pers) ks m p =
     append_all prealloc (outgoing pers me (map (\<lambda>k. (k, the (m k))) ks)) p"
  by (induction ks arbitrary: p) (auto simp: traverse_recdb_def outgoing_def prepared_def Let_def not_le split: option.splits)

text \<open>What a node has of the newest copy of a record after the recovery.\<close>

definition recovered :: "bool \<Rightarrow> u32 \<Rightarrow> u32 \<Rightarrow> u8 list \<Rightarrow> u8 list option" where
  "recovered pers me self d =
     (if \<not> pers \<and> length d \<le> sizeof_header then None else Some (pushed pers self (prepared pers me d)))"

lemma length_prepared: "sizeof_header \<le> length d \<Longrightarrow> length (prepared pers me d) = length d"
  by (simp add: prepared_def)

lemma outgoing_fits:
  assumes "\<forall>e \<in> set es. entry_fits e \<and> sizeof_header \<le> length (snd e)"
  shows "\<forall>e \<in> set (outgoing pers me es). entry_fits e"
    "\<forall>e \<in> set (outgoing pers me es). pers \<or> sizeof_header < length (snd e)"
  using assms by (auto simp: outgoing_def entry_fits_def length_prepared)

lemma distinct_outgoing: "distinct (map fst es) \<Longrightarrow> distinct (map fst (outgoing pers me es))"
  by (induction es) (auto simp: outgoing_def)

definition nodemap_ok :: "ctdb_node_map \<Rightarrow> bool" where
  "nodemap_ok nodemap \<longleftrightarrow> distinct (map nf_pnn nodemap) \<and> -1 \<notin> nf_pnn ` set nodemap"

lemma active_nodes:
  assumes "nodemap_ok nodemap"
  shows "distinct (list_of_active_nodes me nodemap True)" "set (list_of_active_nodes me nodemap True) = active nodemap"
proof -
  have "distinct (map nf_pnn (filter P nodemap))" for P
    using assms by (simp add: nodemap_ok_def distinct_map inj_on_def)
  then show "distinct (list_of_active_nodes me nodemap True)" by (simp add: list_of_active_nodes_def list_of_nodes_def)
  show "set (list_of_active_nodes me nodemap True) = active nodemap"
    using assms by (force simp: list_of_active_nodes_def list_of_nodes_def active_def nodemap_ok_def)
qed

lemma push_recdb_result:
  assumes "push_recdb_database w me i pers recdb nodemap cl = Some (0, cl')" "world_ok Ks w" "nodemap_ok nodemap"
    and "dom recdb \<subseteq> Ks" "\<forall>k d. recdb k = Some d \<longrightarrow> entry_fits (k, d) \<and> sizeof_header \<le> length d"
    and "\<forall>p \<in> active nodemap. db_ready (nodes cl p) i pers \<and> ltdb (db_of (nodes cl p) i) = Map.empty"
  shows "\<And>p. p \<in> active nodemap \<Longrightarrow> node_kept i (nodes cl p) (nodes cl' p) \<and>
      (\<forall>K. ltdb (db_of (nodes cl' p) i) K = Option.bind (recdb K) (recovered pers me (pnn (dmn (nodes cl p)))))"
    "\<And>q. q \<notin> active nodemap \<Longrightarrow> nodes cl' q = nodes cl q"
proof -
  let ?es = "entries (recdb_order w) recdb" let ?os = "outgoing pers me ?es"
  have ord: "orders Ks (recdb_order w)" using assms(2) by (simp add: world_ok_def)
  note SE = set_entries [OF ord assms(4)] and DE = entries_distinct [OF ord assms(4)]
  have es: "\<forall>e \<in> set ?es. entry_fits e \<and> sizeof_header \<le> length (snd e)"
  proof
    fix e assume "e \<in> set ?es"
    then have "recdb (fst e) = Some (snd e)" using SE [of "fst e" "snd e"] by simp
    with assms(5) [rule_format, OF this] show "entry_fits e \<and> sizeof_header \<le> length (snd e)" by simp
  qed
  from assms(1) obtain params s where
    tr: "tdb_traverse_read (traverse_recdb (rec_preallocation_size w) me pers) (recdb_order w recdb) recdb (pulldb_start i) = Some params"
    and ac: "async_control w (Push_db (ctdb_marshall_finish (pulldata params))) (list_of_active_nodes me nodemap True) None None () cl =
      Some (0, s, cl')"
    by (auto simp: push_recdb_database_def split: option.splits if_splits)
  have ap: "append_all (rec_preallocation_size w) ?os (pulldb_start i) = Some params"
    using tr by (simp add: traverse_recdb_entries entries_def)
  note AN = active_nodes [OF assms(3), of me]
  note A = recov_async_ok [OF ac assms(2) AN(1)]
  show "\<And>q. q \<notin> active nodemap \<Longrightarrow> nodes cl' q = nodes cl q" using A(2) AN(2) by auto
  fix p assume p: "p \<in> active nodemap"
  then obtain t where "control_dispatch (node_env w t p) (Push_db (ctdb_marshall_finish (pulldata params))) (nodes cl p) =
      Some (0, [], nodes cl' p)" using A(1) [of p] AN(2) by auto
  then have pd: "ctdb_control_push_db (node_env w t p) (ctdb_marshall_finish (pulldata params)) (nodes cl p) = Some (0, nodes cl' p)"
    by auto
  from assms(6) p have rd: "db_ready (nodes cl p) i pers" and em: "ltdb (db_of (nodes cl p) i) = Map.empty" by auto
  note P = push_db_result [OF pd ap outgoing_fits(1) [OF es] rd outgoing_fits(2) [OF es] distinct_outgoing [OF DE]]
  have "ltdb (db_of (nodes cl' p) i) K = Option.bind (recdb K) (recovered pers me (pnn (dmn (nodes cl p))))" for K
  proof (cases "\<exists>d. recdb K = Some d \<and> (pers \<or> sizeof_header < length d)")
    case True
    then obtain d where d: "recdb K = Some d" "pers \<or> sizeof_header < length d" by auto
    then have "(K, prepared pers me d) \<in> set ?os" using SE [of K d] by (force simp: outgoing_def)
    from P(2) [OF this] d show ?thesis by (auto simp: recovered_def)
  next
    case False
    have "K \<notin> fst ` set ?os"
    proof
      assume "K \<in> fst ` set ?os"
      then obtain d where "(K, d) \<in> set ?es" "pers \<or> sizeof_header < length d" by (force simp: outgoing_def)
      then show False using False SE by auto
    qed
    from P(3) [OF this] False em show ?thesis by (cases "recdb K") (auto simp: recovered_def)
  qed
  with P(1) show "node_kept i (nodes cl p) (nodes cl' p) \<and>
      (\<forall>K. ltdb (db_of (nodes cl' p) i) K = Option.bind (recdb K) (recovered pers me (pnn (dmn (nodes cl p)))))" by simp
qed

text \<open>The content a database has after a roll back.\<close>

definition committed :: "recov_daemon \<Rightarrow> u32 \<Rightarrow> content" where
  "committed n i = (case tdb_saved n i of None \<Rightarrow> ltdb (db_of n i) | Some c \<Rightarrow> c)"

definition recovered_from :: "u32 \<Rightarrow> u32 \<Rightarrow> bool \<Rightarrow> u32 set \<Rightarrow> (u32 \<Rightarrow> content) \<Rightarrow> (u32 \<Rightarrow> content) \<Rightarrow> bool" where
  "recovered_from rm me pers A old new \<longleftrightarrow>
     (\<forall>K. \<exists>x. newest rm {d. \<exists>p \<in> A. old p K = Some d} x \<and> (\<forall>p \<in> A. new p K = Option.bind x (recovered pers me p)))"

lemma recover_database_result:
  assumes "recover_database w by_seqnum rm me nodemap t (i, pers) cl = Some (0, c, cl')" "\<not> (pers \<and> by_seqnum)"
    and "world_ok Ks w" "nodemap_ok nodemap"
    and "\<And>p. p \<in> active nodemap \<Longrightarrow> db_ready (nodes cl p) i pers \<and> db_fits Ks (nodes cl p) i \<and> pnn (dmn (nodes cl p)) = p"
  shows "\<And>p. p \<in> active nodemap \<Longrightarrow> node_kept i (nodes cl p) (nodes cl' p)" "\<And>q. q \<notin> active nodemap \<Longrightarrow> nodes cl' q = nodes cl q"
    "recovered_from rm me pers (active nodemap) (\<lambda>p. ltdb (db_of (nodes cl p) i)) (\<lambda>p. ltdb (db_of (nodes cl' p) i))"
proof -
  from assms(1,2) obtain recdb cl1 cl2 c1 s where
    pf: "pull_from_nodes w rm nodemap i (Map.empty, cl) = Some (0, c1, recdb, cl1)"
    and wp: "async_control w (Wipe_database i t) (list_of_active_nodes me nodemap True) None None () cl1 = Some (0, s, cl2)"
    and ps: "push_recdb_database w me i pers recdb nodemap cl2 = Some (0, cl')"
    by (auto simp: recover_database_def pull_remote_database_def split: option.splits if_splits)
  have fits: "\<forall>p \<in> active nodemap. db_fits Ks (nodes cl p) i" using assms(5) by blast
  have "recdb_inv rm (\<lambda>K. {}) Map.empty" by (simp add: recdb_inv_def newest_def)
  from pull_from_nodes_inv [OF pf assms(3) fits this] have nc: "nodes cl1 = nodes cl"
    and RI: "recdb_inv rm (\<lambda>K. \<Union>p \<in> active nodemap. copies (nodes cl p) i K) recdb" by auto
  have rec: "\<forall>k d. recdb k = Some d \<longrightarrow> entry_fits (k, d) \<and> sizeof_header \<le> length d"
  proof (intro allI impI)
    fix k d assume d: "recdb k = Some d"
    have "newest rm (\<Union>p \<in> active nodemap. copies (nodes cl p) i k) (recdb k)" using RI by (simp add: recdb_inv_def)
    then have "newest rm (\<Union>p \<in> active nodemap. copies (nodes cl p) i k) (Some d)" by (simp add: d)
    then obtain p where "p \<in> active nodemap" "ltdb (db_of (nodes cl p) i) k = Some d" by (auto simp: newest_def copies_def)
    then show "entry_fits (k, d) \<and> sizeof_header \<le> length d" using fits RI d by (auto simp: db_fits_def recdb_inv_def)
  qed
  note AN = active_nodes [OF assms(4), of me]
  note W = recov_async_ok [OF wp assms(3) AN(1)]
  have w1: "node_kept i (nodes cl p) (nodes cl2 p) \<and> ltdb (db_of (nodes cl2 p) i) = Map.empty" if p: "p \<in> active nodemap" for p
  proof -
    obtain e od where "control_dispatch (node_env w e p) (Wipe_database i t) (nodes cl1 p) = Some (0, od, nodes cl2 p)"
      using W(1) [of p] p AN(2) by auto
    then have "ctdb_control_wipe_database (wipe_ok (node_env w e p)) i t (nodes cl p) = (0, nodes cl2 p)"
      by (auto simp: nc split: prod.splits)
    from wipe_result [OF this] show ?thesis by simp
  qed
  have rdy: "db_ready (nodes cl2 p) i pers \<and> pnn (dmn (nodes cl2 p)) = p" if p: "p \<in> active nodemap" for p
    using w1 [OF p] assms(5) [OF p] node_kept_ready [of i "nodes cl p" "nodes cl2 p" i pers] by (simp add: node_kept_def)
  have rdy2: "\<forall>p \<in> active nodemap. db_ready (nodes cl2 p) i pers \<and> ltdb (db_of (nodes cl2 p) i) = Map.empty"
    using rdy w1 by simp
  have fin: "dom recdb \<subseteq> Ks"
  proof
    fix k assume "k \<in> dom recdb"
    then obtain d where d: "recdb k = Some d" by auto
    have "newest rm (\<Union>p \<in> active nodemap. copies (nodes cl p) i k) (recdb k)" using RI by (simp add: recdb_inv_def)
    then obtain p where "p \<in> active nodemap" "ltdb (db_of (nodes cl p) i) k = Some d" by (auto simp: newest_def copies_def d)
    then show "k \<in> Ks" using fits by (auto simp: db_fits_def)
  qed
  note P = push_recdb_result [OF ps assms(3,4) fin rec rdy2]
  show "node_kept i (nodes cl p) (nodes cl' p)" if p: "p \<in> active nodemap" for p
    using w1 [OF p] P(1) [OF p] node_kept_trans [of i "nodes cl p" "nodes cl2 p" "nodes cl' p"] by simp
  show "\<And>q. q \<notin> active nodemap \<Longrightarrow> nodes cl' q = nodes cl q" using P(2) W(2) AN(2) nc by simp
  show "recovered_from rm me pers (active nodemap) (\<lambda>p. ltdb (db_of (nodes cl p) i)) (\<lambda>p. ltdb (db_of (nodes cl' p) i))"
    unfolding recovered_from_def
  proof (intro allI exI [of _ "recdb _"] conjI ballI)
    fix K
    have "newest rm (\<Union>p \<in> active nodemap. copies (nodes cl p) i K) (recdb K)" using RI by (simp add: recdb_inv_def)
    moreover have "(\<Union>p \<in> active nodemap. copies (nodes cl p) i K) = {d. \<exists>p \<in> active nodemap. ltdb (db_of (nodes cl p) i) K = Some d}"
      by (auto simp: copies_def)
    ultimately show "newest rm {d. \<exists>p \<in> active nodemap. ltdb (db_of (nodes cl p) i) K = Some d} (recdb K)" by simp
    show "ltdb (db_of (nodes cl' p) i) K = Option.bind (recdb K) (recovered pers me p)" if p: "p \<in> active nodemap" for p
      using P(1) [OF p] rdy [OF p] by simp
  qed
qed

section \<open>Transactions\<close>

lemma committed_cong: "tdb_saved n' = tdb_saved n \<Longrightarrow> dbs (dmn n') = dbs (dmn n) \<Longrightarrow> committed n' = committed n"
  by (simp add: fun_eq_iff committed_def db_of_def split: option.split)

lemma cancel_saved:
  "tdb_saved (tdb_transaction_cancel i n) = (tdb_saved n)(i := None)"
  "db_list (tdb_transaction_cancel i n) = db_list n" "freeze_transaction_started (tdb_transaction_cancel i n) = freeze_transaction_started n"
  by (auto simp: tdb_transaction_cancel_def set_db_def split: option.splits)

lemma cancel_dbs:
  "j \<noteq> i \<Longrightarrow> dbs (dmn (tdb_transaction_cancel i n)) j = dbs (dmn n) j"
  "ltdb (db_of (tdb_transaction_cancel i n) i) = committed n i"
  by (auto simp: tdb_transaction_cancel_def set_db_def db_of_def committed_def split: option.splits)

lemma cancel_committed: "committed (tdb_transaction_cancel i n) j = committed n j"
  using cancel_dbs(1) [of j i n] cancel_dbs(2) [of i n] by (cases "j = i") (auto simp: committed_def cancel_saved db_of_def split: option.split)

lemma cancel_same:
  "pnn (dmn (tdb_transaction_cancel i n)) = pnn (dmn n)" "vnn_map (dmn (tdb_transaction_cancel i n)) = vnn_map (dmn n)"
  "freeze_mode (tdb_transaction_cancel i n) = freeze_mode n"
  "db_ready n j pers \<Longrightarrow> db_ready (tdb_transaction_cancel i n) j pers"
  by (auto simp: tdb_transaction_cancel_def set_db_def db_of_def db_ready_def split: option.splits)

text \<open>A step of a transaction: no committed content changes, and the databases stay usable.\<close>

definition rolls_back :: "recov_daemon \<Rightarrow> recov_daemon \<Rightarrow> bool" where
  "rolls_back n n' \<longleftrightarrow>
     pnn (dmn n') = pnn (dmn n) \<and> vnn_map (dmn n') = vnn_map (dmn n) \<and> db_list n' = db_list n \<and> committed n' = committed n \<and>
     (\<forall>i pers. db_ready n i pers \<longrightarrow> db_ready n' i pers)"

lemma rolls_back_refl [simp]: "rolls_back n n"
  by (simp add: rolls_back_def)

lemma rolls_back_trans: "rolls_back n n' \<Longrightarrow> rolls_back n' n'' \<Longrightarrow> rolls_back n n''"
  by (simp add: rolls_back_def)

lemma cancel_rolls_back: "rolls_back n (tdb_transaction_cancel i n)"
  by (auto simp: rolls_back_def cancel_same cancel_saved cancel_committed)

lemma cancel_all_rolls_back: "rolls_back n (cancel_all is n)"
proof (induction "is" arbitrary: n)
  case (Cons i js)
  then show ?case using rolls_back_trans [OF cancel_rolls_back Cons.IH] by (simp add: cancel_all_def)
qed (simp add: cancel_all_def)

lemma started_flag_rolls_back [simp]:
  "rolls_back n (n'\<lparr>freeze_transaction_started := b\<rparr>) = rolls_back n n'"
  "rolls_back n (n'\<lparr>freeze_transaction_started := b, freeze_transaction_id := t\<rparr>) = rolls_back n n'"
  using committed_cong [of "n'\<lparr>freeze_transaction_started := b\<rparr>" n']
    committed_cong [of "n'\<lparr>freeze_transaction_started := b, freeze_transaction_id := t\<rparr>" n']
  by (simp_all add: rolls_back_def db_ready_def)

lemma start_rolls_back: "rolls_back n (snd (tdb_transaction_start ok i n))"
  by (auto simp: tdb_transaction_start_def rolls_back_def committed_def [abs_def] db_of_def db_ready_def fun_eq_iff split: option.splits)

lemma start_transactions_rolls_back: "rolls_back n (snd (start_transactions ok is n))"
proof (induction "is" arbitrary: n)
  case (Cons i js)
  let ?n1 = "if freeze_transaction_started n then tdb_transaction_cancel i n else n"
  have "rolls_back n ?n1" by (simp add: cancel_rolls_back)
  then have "rolls_back n (snd (tdb_transaction_start (ok i) i ?n1))" by (rule rolls_back_trans) (rule start_rolls_back)
  then show ?case using rolls_back_trans [OF _ Cons.IH] by (auto simp: Let_def split: prod.splits)
qed simp

lemma transaction_start_rolls_back: "rolls_back n (snd (ctdb_control_transaction_start ok t n))"
  using start_transactions_rolls_back [of n ok "db_list n"]
  by (auto simp: ctdb_control_transaction_start_def split: prod.splits)

lemma transaction_cancel_rolls_back: "rolls_back n (snd (ctdb_control_transaction_cancel n))"
  by (simp add: ctdb_control_transaction_cancel_def cancel_all_rolls_back)

lemma start_transactions_opens:
  assumes "start_transactions ok is n = (0, n')"
  shows "(\<forall>i \<in> set is. tdb_saved n' i = Some (committed n i) \<and> ltdb (db_of n' i) = committed n i) \<and>
    (\<forall>i. i \<notin> set is \<longrightarrow> tdb_saved n' i = tdb_saved n i \<and> dbs (dmn n') i = dbs (dmn n) i)"
  using assms
proof (induction "is" arbitrary: n)
  case (Cons i js)
  define n1 where "n1 = (if freeze_transaction_started n then tdb_transaction_cancel i n else n)"
  obtain n2 where n2: "tdb_transaction_start (ok i) i n1 = (0, n2)" "start_transactions ok js n2 = (0, n')"
    using Cons.prems by (auto simp: Let_def n1_def split: prod.splits if_splits)
  have c1: "committed n1 = committed n" by (auto simp: fun_eq_iff cancel_committed n1_def)
  have s1: "tdb_saved n1 i = None" "n2 = n1\<lparr>tdb_saved := (tdb_saved n1)(i \<mapsto> ltdb (db_of n1 i))\<rparr>"
    using n2(1) by (auto simp: tdb_transaction_start_def split: if_splits)
  have l1: "ltdb (db_of n1 i) = committed n i" using c1 [symmetric] s1(1) by (simp add: committed_def)
  have o1: "tdb_saved n1 j = tdb_saved n j" "dbs (dmn n1) j = dbs (dmn n) j" if "j \<noteq> i" for j
    using that by (auto simp: cancel_saved cancel_dbs n1_def)
  have c2: "committed n2 = committed n"
    using start_rolls_back [of n1 "ok i" i] c1 n2(1) by (simp add: rolls_back_def)
  note I = Cons.IH [OF n2(2)]
  have "tdb_saved n' i = Some (committed n i) \<and> ltdb (db_of n' i) = committed n i"
  proof (cases "i \<in> set js")
    case True
    then show ?thesis using I c2 by simp
  next
    case False
    then have "tdb_saved n' i = tdb_saved n2 i" "dbs (dmn n') i = dbs (dmn n2) i" using I by auto
    then show ?thesis using l1 s1(2) by (simp add: db_of_def)
  qed
  then show ?case using I c2 s1(2) o1 by auto
qed simp

lemma transaction_start_opens:
  assumes "ctdb_control_transaction_start ok t n = (0, n')" "i \<in> set (db_list n)"
  shows "tdb_saved n' i = Some (committed n i)" "ltdb (db_of n' i) = committed n i"
proof -
  obtain n1 where n1: "start_transactions ok (db_list n) n = (0, n1)"
    "n' = n1\<lparr>freeze_transaction_started := True, freeze_transaction_id := t\<rparr>"
    using assms(1) by (auto simp: ctdb_control_transaction_start_def split: if_splits prod.splits)
  show "tdb_saved n' i = Some (committed n i)" "ltdb (db_of n' i) = committed n i"
    using start_transactions_opens [OF n1(1)] assms(2) by (auto simp: n1(2) db_of_def)
qed

lemma commit_step:
  assumes "tdb_transaction_commit ok i n = (ret, n')"
  shows "committed n' i \<in> {committed n i, ltdb (db_of n i)}" "\<And>j. j \<noteq> i \<Longrightarrow> committed n' j = committed n j \<and> dbs (dmn n') j = dbs (dmn n) j"
    "ret = 0 \<Longrightarrow> committed n' i = ltdb (db_of n i) \<and> ltdb (db_of n' i) = ltdb (db_of n i)" "db_list n' = db_list n"
  using assms cancel_committed [of i n] cancel_dbs(1) [of _ i n] cancel_dbs(2) [of i n]
  by (auto simp: tdb_transaction_commit_def cancel_saved committed_def db_of_def split: if_splits option.splits)

lemma commit_transactions_result:
  assumes "commit_transactions ok health is n = (ret, n')"
  shows "(\<forall>i. committed n' i \<in> {committed n i, ltdb (db_of n i)} \<and> (i \<notin> set is \<longrightarrow> committed n' i = committed n i)) \<and>
    (ret = 0 \<longrightarrow> (\<forall>i \<in> set is. committed n' i = ltdb (db_of n i))) \<and> db_list n' = db_list n"
  using assms
proof (induction "is" arbitrary: n)
  case (Cons i js)
  obtain r n1 where c: "tdb_transaction_commit (ok i) i n = (r, n1)" by fastforce
  note C = commit_step [OF c]
  show ?case
  proof (cases "r = 0 \<and> health i")
    case True
    with Cons.prems c have "commit_transactions ok health js n1 = (ret, n')" by simp
    note I = Cons.IH [OF this]
    have old: "ltdb (db_of n1 j) = ltdb (db_of n j)" for j using C(2) [of j] C(3) True by (cases "j = i") (auto simp: db_of_def)
    have "committed n' j \<in> {committed n j, ltdb (db_of n j)}" for j
      using I [THEN conjunct1, THEN spec, of j] C(1) C(2) [of j] old [of j] by (cases "j = i") auto
    moreover have "committed n' j = committed n j" if "j \<notin> set (i # js)" for j
      using I [THEN conjunct1, THEN spec, of j] C(2) [of j] that by simp
    moreover have "committed n' j = ltdb (db_of n j)" if "ret = 0" "j \<in> set (i # js)" for j
      using I [THEN conjunct1, THEN spec, of j] I [THEN conjunct2] C(3) True old [of j] that by (cases "j = i") auto
    ultimately show ?thesis using I C(4) by simp
  next
    case False
    with Cons.prems c have "n' = n1" "ret = -1" by (auto split: if_splits)
    moreover have "committed n1 j \<in> {committed n j, ltdb (db_of n j)}" for j
      using C(1) C(2) [of j] by (cases "j = i") auto
    ultimately show ?thesis using C(2,4) by auto
  qed
qed simp

text \<open>A commit leaves each database with its old or its new content; if it succeeds, all with the new one.\<close>

lemma transaction_commit_result:
  assumes "ctdb_control_transaction_commit ok health t n = (ret, n')"
  shows "committed n' i \<in> {committed n i, ltdb (db_of n i)}"
    "ret = 0 \<Longrightarrow> i \<in> set (db_list n) \<Longrightarrow> committed n' i = ltdb (db_of n i)"
proof -
  obtain r n1 where c: "commit_transactions ok health (db_list n) n = (r, n1)" by fastforce
  note C = commit_transactions_result [OF c]
  have "n' = n \<and> ret \<noteq> 0 \<or> ret \<noteq> 0 \<and> n' = (cancel_all (db_list n1) n1)\<lparr>freeze_transaction_started := False\<rparr> \<or>
      ret = 0 \<and> r = 0 \<and> n' = n1\<lparr>freeze_transaction_started := False, freeze_transaction_id := 0\<rparr>"
    using assms c by (auto simp: ctdb_control_transaction_commit_def split: if_splits)
  moreover have "committed ((cancel_all (db_list n1) n1)\<lparr>freeze_transaction_started := False\<rparr>) = committed n1"
    using cancel_all_rolls_back [of n1 "db_list n1"] started_flag_rolls_back(1) [of n1 False "cancel_all (db_list n1) n1"]
    by (simp add: rolls_back_def)
  moreover have "committed (n1\<lparr>freeze_transaction_started := False, freeze_transaction_id := 0\<rparr>) = committed n1"
    by (rule committed_cong) simp_all
  ultimately show "committed n' i \<in> {committed n i, ltdb (db_of n i)}"
    "ret = 0 \<Longrightarrow> i \<in> set (db_list n) \<Longrightarrow> committed n' i = ltdb (db_of n i)"
    using C by auto
qed

section \<open>What a run of controls keeps\<close>

text \<open>
  A relation between the states of a node that every control of a kind respects is respected by each run of controls of
  this kind, whether they are answered, fail or are lost.
\<close>

locale control_frame =
  fixes P :: "recov_control \<Rightarrow> bool" and R :: "recov_daemon \<Rightarrow> recov_daemon \<Rightarrow> bool"
  assumes frame_refl: "R n n" and frame_trans: "R n1 n2 \<Longrightarrow> R n2 n3 \<Longrightarrow> R n1 n3"
    and frame_dispatch: "P c \<Longrightarrow> control_dispatch env c n = Some (st, od, n') \<Longrightarrow> R n n'"
begin

lemma frame_node: "control_node w c q cl = Some (r, cl') \<Longrightarrow> P c \<Longrightarrow> R (nodes cl p) (nodes cl' p)"
  using frame_refl frame_dispatch by (cases "p = q") (auto simp: control_node_def split: fate.splits option.splits)

lemma frame_nodes: "control_nodes w c ps cl = Some (rs, cl') \<Longrightarrow> P c \<Longrightarrow> R (nodes cl p) (nodes cl' p)"
proof (induction ps arbitrary: cl rs)
  case (Cons q ps)
  from Cons.prems(1) obtain r cl1 rs' where r: "control_node w c q cl = Some (r, cl1)" "control_nodes w c ps cl1 = Some (rs', cl')"
    by (auto split: option.splits)
  show ?case by (rule frame_trans [OF frame_node [OF r(1) Cons.prems(2)] Cons.IH [OF r(2) Cons.prems(2)]])
qed (simp add: frame_refl)

lemma frame_async:
  assumes "async_control w c ps cb fcb s cl = Some (ret, s', cl')" "P c"
  shows "R (nodes cl p) (nodes cl' p)"
proof -
  from assms(1) obtain rs cl1 where c: "control_nodes w c ps cl = Some (rs, cl1)" "nodes cl' = nodes cl1"
    by (auto simp: async_control_def split: option.splits prod.splits)
  from frame_nodes [OF c(1) assms(2), of p] show ?thesis by (simp add: c(2))
qed

lemma frame_sync:
  assumes "sync_control w c q cl = Some (ret, outdata, cl')" "P c"
  shows "R (nodes cl p) (nodes cl' p)"
proof -
  from assms(1) obtain r cl1 where c: "control_node w c q cl = Some (r, cl1)" "nodes cl' = nodes cl1"
    by (auto simp: sync_control_def split: option.splits prod.splits)
  from frame_node [OF c(1) assms(2), of p] show ?thesis by (simp add: c(2))
qed

lemma frame_pull_one:
  assumes "pull_one_remote_database w rm q i (recdb, cl) = Some (ret, recdb', cl')" "P (Pull_db i)"
  shows "R (nodes cl p) (nodes cl' p)"
proof -
  from assms(1) obtain r od where "sync_control w (Pull_db i) q cl = Some (r, od, cl')"
    by (auto simp: pull_one_remote_database_def Let_def split: option.splits prod.splits if_splits)
  from frame_sync [OF this assms(2)] show ?thesis .
qed

lemma frame_pull_from_nodes:
  "pull_from_nodes w rm nodemap i (recdb, cl) = Some (ret, c, recdb', cl') \<Longrightarrow> P (Pull_db i) \<Longrightarrow> R (nodes cl p) (nodes cl' p)"
proof (induction nodemap arbitrary: recdb cl)
  case (Cons n ns)
  show ?case
  proof (cases "has_flag (nf_flags n) NODE_FLAGS_INACTIVE")
    case False
    with Cons.prems(1) obtain r r1 cl1 where a: "pull_one_remote_database w rm (nf_pnn n) i (recdb, cl) = Some (r, r1, cl1)"
      and b: "cl' = cl1 \<or> pull_from_nodes w rm ns i (r1, cl1) = Some (ret, c, recdb', cl')"
      by (auto split: option.splits if_splits)
    show ?thesis using b frame_pull_one [OF a Cons.prems(2), of p] frame_trans Cons.IH Cons.prems(2) by blast
  qed (use Cons in simp)
qed (simp add: frame_refl)

lemma frame_pull_highest:
  assumes "pull_highest_seqnum_pdb w rm me nodemap i (recdb, cl) = Some (ret, recdb', cl')" "P (Pull_db i)" "P (Get_db_seqnum i)"
  shows "R (nodes cl p) (nodes cl' p)"
proof -
  from assms(1) obtain r s cl1 where a: "async_control w (Get_db_seqnum i) (list_of_active_nodes me nodemap True)
      (Some pull_seqnum_cb) (Some pull_seqnum_fail_cb) \<lparr>sq_failed = 0, sq_pnn = -1, sq_seqnum = 0\<rparr> cl = Some (r, s, cl1)"
    and b: "cl' = cl1 \<or> (\<exists>q r2. pull_one_remote_database w rm q i (recdb, cl1) = Some (r2, recdb', cl'))"
    by (auto simp: pull_highest_seqnum_pdb_def split: option.splits if_splits) blast+
  from b frame_async [OF a assms(3), of p] show ?thesis using frame_pull_one [OF _ assms(2)] frame_trans by blast
qed

lemma frame_pull_remote:
  assumes "pull_remote_database w by_seqnum rm me nodemap i pers (recdb, cl) = Some (ret, c, recdb', cl')" "P (Pull_db i)" "P (Get_db_seqnum i)"
  shows "R (nodes cl p) (nodes cl' p)"
proof (cases "pers \<and> by_seqnum")
  case True
  with assms(1) obtain r r1 cl1 where a: "pull_highest_seqnum_pdb w rm me nodemap i (recdb, cl) = Some (r, r1, cl1)"
    and b: "cl' = cl1 \<or> pull_from_nodes w rm nodemap i (r1, cl1) = Some (ret, c, recdb', cl')"
    by (auto simp: pull_remote_database_def split: option.splits if_splits)
  from b frame_pull_highest [OF a assms(2,3), of p] show ?thesis using frame_pull_from_nodes [OF _ assms(2)] frame_trans by blast
next
  case False
  with assms(1) have a: "pull_from_nodes w rm nodemap i (recdb, cl) = Some (ret, c, recdb', cl')"
    by (auto simp: pull_remote_database_def)
  from frame_pull_from_nodes [OF a assms(2)] show ?thesis .
qed

lemma frame_push_recdb:
  assumes "push_recdb_database w me i pers recdb nodemap cl = Some (ret, cl')" "\<And>bs. P (Push_db bs)"
  shows "R (nodes cl p) (nodes cl' p)"
proof -
  from assms(1) consider "cl' = cl" | bs r s where
      "async_control w (Push_db bs) (list_of_active_nodes me nodemap True) None None () cl = Some (r, s, cl')"
    by (auto simp: push_recdb_database_def split: option.splits if_splits)
  then show ?thesis by cases (simp_all add: frame_refl frame_async assms(2))
qed

lemma frame_recover_database:
  assumes "recover_database w by_seqnum rm me nodemap t db cl = Some (ret, c, cl')" "P (Pull_db (fst db))" "P (Get_db_seqnum (fst db))"
    "P (Wipe_database (fst db) t)" "\<And>bs. P (Push_db bs)"
  shows "R (nodes cl p) (nodes cl' p)"
proof (cases "create_ok w (controls_sent cl)")
  case True
  obtain i pers where db: "db = (i, pers)" by (cases db)
  from assms(1) True obtain r1 c1 recdb cl1 where
    a: "pull_remote_database w by_seqnum rm me nodemap i pers (Map.empty, cl) = Some (r1, c1, recdb, cl1)"
    by (auto simp: recover_database_def db split: option.splits)
  note A = frame_pull_remote [OF a, of p]
  show ?thesis
  proof (cases "r1 = 0")
    case r1: True
    with assms(1) True a obtain r2 s2 cl2 where
      b: "async_control w (Wipe_database i t) (list_of_active_nodes me nodemap True) None None () cl1 = Some (r2, s2, cl2)"
      by (auto simp: recover_database_def db split: option.splits)
    note B = frame_async [OF b, of p]
    from assms(1) True a b r1 have "cl' = cl2 \<or> (\<exists>r3. push_recdb_database w me i pers recdb nodemap cl2 = Some (r3, cl'))"
      by (auto simp: recover_database_def db split: if_splits)
    then have "R (nodes cl2 p) (nodes cl' p)" using frame_push_recdb [OF _ assms(5)] frame_refl by blast
    then show ?thesis using frame_trans [OF frame_trans [OF A B]] assms(2-4) by (simp add: db)
  qed (use assms(1-3) True a A in \<open>auto simp: recover_database_def db\<close>)
qed (use assms(1) in \<open>auto simp: recover_database_def frame_refl split: prod.splits\<close>)

lemma frame_recover_databases:
  assumes "recover_databases w by_seqnum rm me nodemap t dbmap cl = Some (ret, c, cl')" "\<And>i. P (Pull_db i)" "\<And>i. P (Get_db_seqnum i)"
    "\<And>i. P (Wipe_database i t)" "\<And>bs. P (Push_db bs)"
  shows "R (nodes cl p) (nodes cl' p)"
  using assms(1)
proof (induction dbmap arbitrary: cl)
  case (Cons db dbmap)
  from Cons.prems obtain r c1 cl1 where r: "recover_database w by_seqnum rm me nodemap t db cl = Some (r, c1, cl1)"
    and b: "cl' = cl1 \<or> recover_databases w by_seqnum rm me nodemap t dbmap cl1 = Some (ret, c, cl')"
    by (auto split: option.splits if_splits)
  have "R (nodes cl p) (nodes cl1 p)" by (rule frame_recover_database [OF r]) (rule assms(2-5))+
  then show ?case using b frame_trans Cons.IH by blast
qed (simp add: frame_refl)

lemma frame_update_vnnmap:
  assumes "update_vnnmap_on_all_nodes w nodemap m cl = Some (ret, cl')" "P (Setvnnmap m)"
  shows "R (nodes cl p) (nodes cl' p)"
  using assms(1)
proof (induction nodemap arbitrary: cl)
  case (Cons n ns)
  show ?case
  proof (cases "has_flag (nf_flags n) NODE_FLAGS_INACTIVE")
    case False
    with Cons.prems obtain r od cl1 where sc: "sync_control w (Setvnnmap m) (nf_pnn n) cl = Some (r, od, cl1)"
      and b: "cl' = cl1 \<or> update_vnnmap_on_all_nodes w ns m cl1 = Some (ret, cl')"
      by (auto split: option.splits if_splits)
    show ?thesis using b frame_sync [OF sc assms(2), of p] frame_trans Cons.IH by blast
  qed (use Cons in simp)
qed (simp add: frame_refl)

end

text \<open>The controls that work on data keep what a roll back needs.\<close>

definition saved_kept :: "recov_daemon \<Rightarrow> recov_daemon \<Rightarrow> bool" where
  "saved_kept n n' \<longleftrightarrow> tdb_saved n' = tdb_saved n \<and> db_list n' = db_list n"

fun data_control :: "recov_control \<Rightarrow> bool" where
  "data_control (Pull_db i) = True"
| "data_control (Push_db bs) = True"
| "data_control (Wipe_database i t) = True"
| "data_control (Get_db_seqnum i) = True"
| "data_control _ = False"

lemma push_db_saved: "ctdb_control_push_db env indata n = Some (ret, n') \<Longrightarrow> saved_kept n n'"
  by (auto simp: ctdb_control_push_db_def saved_kept_def set_db_def Let_def split: if_splits option.splits prod.splits bool.splits)

lemma data_control_saved:
  assumes "control_dispatch env c n = Some (st, outdata, n')" "data_control c"
  shows "saved_kept n n'"
proof (cases c)
  case (Push_db bs)
  then show ?thesis using assms push_db_saved by auto
qed (use assms in \<open>auto simp: saved_kept_def ctdb_control_wipe_database_def set_db_def Let_def split: if_splits option.splits prod.splits\<close>)

interpretation saved: control_frame data_control saved_kept
  by unfold_locales (auto simp: saved_kept_def dest: data_control_saved [unfolded saved_kept_def])

text \<open>Starting and cancelling transactions keeps the committed content.\<close>

fun transaction_control :: "recov_control \<Rightarrow> bool" where
  "transaction_control (Transaction_start t) = True"
| "transaction_control Transaction_cancel = True"
| "transaction_control _ = False"

lemma transaction_dispatch:
  assumes "transaction_control c" "control_dispatch env c n = Some (st, od, n')"
  shows "rolls_back n n'"
proof (cases c)
  case (Transaction_start t)
  then show ?thesis using assms transaction_start_rolls_back [of n "start_ok env" t] by (auto split: prod.splits)
next
  case Transaction_cancel
  then show ?thesis using assms transaction_cancel_rolls_back [of n] by (auto split: prod.splits)
qed (use assms in simp_all)

interpretation rollback: control_frame transaction_control rolls_back
  by unfold_locales (auto intro: rolls_back_trans transaction_dispatch)

text \<open>A new vnn map leaves all databases alone.\<close>

fun vnnmap_control :: "recov_control \<Rightarrow> bool" where
  "vnnmap_control (Setvnnmap m) = True"
| "vnnmap_control _ = False"

definition dbs_kept :: "recov_daemon \<Rightarrow> recov_daemon \<Rightarrow> bool" where
  "dbs_kept n n' \<longleftrightarrow>
     dbs (dmn n') = dbs (dmn n) \<and> pnn (dmn n') = pnn (dmn n) \<and> (vnn_map (dmn n) \<noteq> None \<longrightarrow> vnn_map (dmn n') \<noteq> None) \<and>
     tdb_saved n' = tdb_saved n \<and> db_list n' = db_list n \<and> db_priority n' = db_priority n \<and> freeze_mode n' = freeze_mode n \<and>
     freeze_transaction_started n' = freeze_transaction_started n"

interpretation vnnmap: control_frame vnnmap_control dbs_kept
proof unfold_locales
  show "dbs_kept n n'" if "vnnmap_control c" "control_dispatch env c n = Some (st, od, n')" for c env n st od n'
    using that by (cases c) (auto simp: dbs_kept_def ctdb_control_setvnnmap_def split: if_splits)
qed (auto simp: dbs_kept_def)

lemma dbs_kept_committed: "dbs_kept n n' \<Longrightarrow> committed n' = committed n"
  by (rule committed_cong) (simp_all add: dbs_kept_def)

section \<open>Recovering all databases\<close>

definition dbs_usable :: "u8 list set \<Rightarrow> (u32 \<times> bool) list \<Rightarrow> u32 \<Rightarrow> recov_daemon \<Rightarrow> bool" where
  "dbs_usable Ks dbmap p n \<longleftrightarrow> pnn (dmn n) = p \<and> (\<forall>(i, pers) \<in> set dbmap. db_ready n i pers \<and> db_fits Ks n i)"

lemma dbs_usable_kept:
  assumes "dbs_usable Ks ((i, pers) # dbmap) p n" "node_kept i n n'" "i \<notin> fst ` set dbmap"
  shows "dbs_usable Ks dbmap p n'"
proof -
  have "db_ready n' j b \<and> db_fits Ks n' j" if j: "(j, b) \<in> set dbmap" for j b
  proof -
    have "j \<noteq> i" using j assms(3) by force
    moreover have "db_ready n j b \<and> db_fits Ks n j" using assms(1) j by (auto simp: dbs_usable_def)
    ultimately show ?thesis using assms(2) node_kept_ready [OF assms(2)]
      by (auto simp: node_kept_def db_fits_def db_of_def)
  qed
  then show ?thesis using assms(1,2) by (auto simp: dbs_usable_def node_kept_def)
qed

lemma recover_databases_result:
  assumes "recover_databases w by_seqnum rm me nodemap t dbmap cl = Some (0, c, cl')" "by_seqnum \<longrightarrow> True \<notin> snd ` set dbmap"
    and "world_ok Ks w" "nodemap_ok nodemap" "distinct (map fst dbmap)" "\<forall>p \<in> active nodemap. dbs_usable Ks dbmap p (nodes cl p)"
  shows "(\<forall>(i, pers) \<in> set dbmap. recovered_from rm me pers (active nodemap)
      (\<lambda>p. ltdb (db_of (nodes cl p) i)) (\<lambda>p. ltdb (db_of (nodes cl' p) i))) \<and>
    (\<forall>p j. j \<notin> fst ` set dbmap \<longrightarrow> dbs (dmn (nodes cl' p)) j = dbs (dmn (nodes cl p)) j)"
  using assms
proof (induction dbmap arbitrary: cl)
  case (Cons db dbmap)
  obtain i pers where db: "db = (i, pers)" by (cases db)
  from Cons.prems(1) obtain cl1 c1 where r: "recover_database w by_seqnum rm me nodemap t (i, pers) cl = Some (0, c1, cl1)"
    "recover_databases w by_seqnum rm me nodemap t dbmap cl1 = Some (0, c, cl')"
    by (auto simp: db split: option.splits if_splits)
  have seq: "\<not> (pers \<and> by_seqnum)" "by_seqnum \<longrightarrow> True \<notin> snd ` set dbmap" using Cons.prems(2) by (auto simp: db)
  have i: "i \<notin> fst ` set dbmap" "distinct (map fst dbmap)" using Cons.prems(5) by (auto simp: db)
  have us: "db_ready (nodes cl p) i pers \<and> db_fits Ks (nodes cl p) i \<and> pnn (dmn (nodes cl p)) = p" if "p \<in> active nodemap" for p
    using Cons.prems(6) that by (auto simp: db dbs_usable_def)
  note D = recover_database_result [OF r(1) seq(1) assms(3,4) us]
  have k: "\<forall>j. j \<noteq> i \<longrightarrow> dbs (dmn (nodes cl1 p)) j = dbs (dmn (nodes cl p)) j" for p
    using D(1,2) [of p] by (cases "p \<in> active nodemap") (auto simp: node_kept_def)
  have "\<forall>p \<in> active nodemap. dbs_usable Ks dbmap p (nodes cl1 p)"
    using Cons.prems(6) D(1) dbs_usable_kept [OF _ _ i(1)] by (auto simp: db)
  note I = Cons.IH [OF r(2) seq(2) assms(3,4) i(2) this]
  have "ltdb (db_of (nodes cl' p) i) = ltdb (db_of (nodes cl1 p) i)" for p using I i(1) by (simp add: db_of_def)
  moreover have "ltdb (db_of (nodes cl1 p) j) = ltdb (db_of (nodes cl p) j)" if "(j, b) \<in> set dbmap" for p j b
  proof -
    have "j \<noteq> i" using that i(1) by force
    then show ?thesis using k [of p] by (simp add: db_of_def)
  qed
  ultimately have "recovered_from rm me b (active nodemap) (\<lambda>p. ltdb (db_of (nodes cl p) j)) (\<lambda>p. ltdb (db_of (nodes cl' p) j))"
    if "(j, b) \<in> set (db # dbmap)" for j b
    using D(3) I that by (auto simp: db)
  then show ?case using I k by (auto simp: db)
qed simp

text \<open>
  What the recovery needs of an active node: it has the databases of the list, can store into them and their records
  fit into the buffers.  The content is the one that survives a roll back.
\<close>

definition recov_ready :: "u8 list set \<Rightarrow> (u32 \<times> bool) list \<Rightarrow> u32 \<Rightarrow> recov_daemon \<Rightarrow> bool" where
  "recov_ready Ks dbmap p n \<longleftrightarrow>
     pnn (dmn n) = p \<and>
     (\<forall>(i, pers) \<in> set dbmap. i \<in> set (db_list n) \<and> db_ready n i pers \<and> dom (committed n i) \<subseteq> Ks \<and>
        (\<forall>k d. committed n i k = Some d \<longrightarrow> entry_fits (k, d)))"

lemma transaction_start_usable:
  assumes "ctdb_control_transaction_start ok t n = (0, n')" "recov_ready Ks dbmap p n"
  shows "dbs_usable Ks dbmap p n'"
  using assms(2) transaction_start_opens(2) [OF assms(1)] transaction_start_rolls_back [of n ok t] assms(1)
  by (auto simp: recov_ready_def dbs_usable_def db_fits_def rolls_back_def split: prod.splits)

lemma commit_dispatch:
  assumes "control_dispatch env (Transaction_commit t) n = Some (st, od, n')"
  shows "committed n' i \<in> {committed n i, ltdb (db_of n i)}" "st = 0 \<Longrightarrow> i \<in> set (db_list n) \<Longrightarrow> committed n' i = ltdb (db_of n i)"
  using assms transaction_commit_result [of "commit_ok env" "health_ok env" t n st n' i] by (auto split: prod.splits)

lemma commit_nodes:
  assumes "control_nodes w (Transaction_commit t) ps cl = Some (rs, cl')" "distinct ps"
  shows "committed (nodes cl' p) i \<in> {committed (nodes cl p) i, ltdb (db_of (nodes cl p) i)}"
  using assms
proof (induction ps arbitrary: cl rs)
  case (Cons q ps)
  from Cons.prems obtain r cl1 rs' where r: "control_node w (Transaction_commit t) q cl = Some (r, cl1)"
    "control_nodes w (Transaction_commit t) ps cl1 = Some (rs', cl')" by (auto split: option.splits)
  show ?case
  proof (cases "p = q")
    case True
    have "nodes cl' p = nodes cl1 p" if "p \<notin> set ps" "control_nodes w (Transaction_commit t) ps cl1 = Some (rs', cl')" for cl1 rs'
      using that
    proof (induction ps arbitrary: cl1 rs')
      case (Cons x xs)
      then show ?case using control_node_others by (fastforce split: option.splits)
    qed simp
    then have "nodes cl' p = nodes cl1 p" using r(2) Cons.prems(2) True by auto
    moreover have "committed (nodes cl1 p) i \<in> {committed (nodes cl p) i, ltdb (db_of (nodes cl p) i)}"
      using r(1) commit_dispatch(1) [where i = i] True by (fastforce simp: control_node_def split: fate.splits option.splits)
    ultimately show ?thesis by simp
  next
    case False
    then have "nodes cl1 p = nodes cl p" using control_node_others [OF r(1)] by simp
    with Cons.IH [OF r(2)] Cons.prems(2) show ?thesis by simp
  qed
qed simp

lemma committed_saved:
  "saved_kept n n' \<Longrightarrow> tdb_saved n i = Some c \<Longrightarrow> committed n' i = c"
  by (simp add: saved_kept_def committed_def)

lemma recov_ready_listed: "recov_ready Ks dbmap p n \<Longrightarrow> i \<in> fst ` set dbmap \<Longrightarrow> i \<in> set (db_list n)"
  by (auto simp: recov_ready_def)

lemma commit_async:
  assumes "async_control w (Transaction_commit t) ps cb fcb s cl = Some (ret, s', cl')" "distinct ps"
  shows "committed (nodes cl' p) i \<in> {committed (nodes cl p) i, ltdb (db_of (nodes cl p) i)}"
proof -
  from assms(1) obtain rs cl1 where c: "control_nodes w (Transaction_commit t) ps cl = Some (rs, cl1)" "nodes cl' = nodes cl1"
    by (auto simp: async_control_def split: option.splits prod.splits)
  show ?thesis using commit_nodes [OF c(1) assms(2), of p i] by (simp add: c(2))
qed

lemma recover_databases_saved:
  "recover_databases w by_seqnum rm me nodemap t dbmap cl = Some (ret, c, cl') \<Longrightarrow> saved_kept (nodes cl p) (nodes cl' p)"
  by (rule saved.frame_recover_databases) simp_all

lemma start_dispatch:
  "control_dispatch env (Transaction_start t) n = Some (st, od, n') \<Longrightarrow> ctdb_control_transaction_start (start_ok env) t n = (st, n')"
  by (simp split: prod.splits)

lemma start_async:
  assumes "async_control w (Transaction_start t) ps None None () cl = Some (0, s, cl')" "world_ok Ks w" "distinct ps" "p \<in> set ps"
    and "recov_ready Ks dbmap p (nodes cl p)"
  shows "dbs_usable Ks dbmap p (nodes cl' p)" "db_list (nodes cl' p) = db_list (nodes cl p)"
    "\<And>i. i \<in> set (db_list (nodes cl p)) \<Longrightarrow> tdb_saved (nodes cl' p) i = Some (committed (nodes cl p) i) \<and>
       ltdb (db_of (nodes cl' p) i) = committed (nodes cl p) i"
proof -
  from recov_async_ok(1) [OF assms(1-4)] obtain e od where
    "control_dispatch (node_env w e p) (Transaction_start t) (nodes cl p) = Some (0, od, nodes cl' p)" by blast
  then have "ctdb_control_transaction_start (start_ok (node_env w e p)) t (nodes cl p) = (0, nodes cl' p)"
    by (rule start_dispatch)
  note S = transaction_start_usable [OF this assms(5)] transaction_start_opens [OF this]
    transaction_start_rolls_back [of "nodes cl p" "start_ok (node_env w e p)" t, unfolded this]
  from S show "dbs_usable Ks dbmap p (nodes cl' p)" "db_list (nodes cl' p) = db_list (nodes cl p)"
    "\<And>i. i \<in> set (db_list (nodes cl p)) \<Longrightarrow> tdb_saved (nodes cl' p) i = Some (committed (nodes cl p) i) \<and>
       ltdb (db_of (nodes cl' p) i) = committed (nodes cl p) i"
    by (auto simp: rolls_back_def)
qed

lemma commit_closes:
  assumes "commit_transactions ok health is n = (0, n')"
  shows "(\<forall>i. tdb_saved n i = None \<longrightarrow> tdb_saved n' i = None) \<and> (\<forall>i \<in> set is. tdb_saved n' i = None)"
  using assms
proof (induction "is" arbitrary: n)
  case (Cons i js)
  then obtain n1 where c: "tdb_transaction_commit (ok i) i n = (0, n1)" "commit_transactions ok health js n1 = (0, n')"
    by (auto split: prod.splits if_splits)
  have "tdb_saved n1 = (tdb_saved n)(i := None)" using c(1) by (auto simp: tdb_transaction_commit_def split: if_splits)
  with Cons.IH [OF c(2)] show ?case by auto
qed simp

lemma commit_dispatch_closes:
  assumes "control_dispatch env (Transaction_commit t) n = Some (0, od, n')" "i \<in> set (db_list n)"
  shows "tdb_saved n' i = None"
  using assms commit_closes [of "commit_ok env" "health_ok env" "db_list n" n]
  by (auto simp: ctdb_control_transaction_commit_def split: prod.splits if_splits)

text \<open>
  A run of the transaction as a whole: either the recovery stopped before the commit, then each node would roll back to
  its old content, or all databases were recovered and each node has committed some of them or all.
\<close>

lemma recovery_transaction_cases:
  assumes "recovery_transaction w by_seqnum rm me nodemap dbmap gen cl = Some (ret, culprit, cl')"
    and "by_seqnum \<longrightarrow> True \<notin> snd ` set dbmap" "world_ok Ks w" "nodemap_ok nodemap" "distinct (map fst dbmap)"
    and "\<forall>p \<in> active nodemap. recov_ready Ks dbmap p (nodes cl p)"
  shows "ret \<noteq> 0 \<and> (\<forall>p \<in> active nodemap. \<forall>i \<in> set (db_list (nodes cl p)). committed (nodes cl' p) i = committed (nodes cl p) i) \<or>
    (\<exists>new. (\<forall>(i, pers) \<in> set dbmap. recovered_from rm me pers (active nodemap) (\<lambda>p. committed (nodes cl p) i) (new i)) \<and>
       (\<forall>p \<in> active nodemap. \<forall>i \<in> fst ` set dbmap. committed (nodes cl' p) i \<in> {committed (nodes cl p) i, new i p} \<and>
          (ret = 0 \<longrightarrow> committed (nodes cl' p) i = new i p \<and> tdb_saved (nodes cl' p) i = None)))"
proof -
  let ?ps = "list_of_active_nodes me nodemap True"
  note AN = active_nodes [OF assms(4), of me]
  from assms(1) obtain r1 s1 cl1 where st: "async_control w (Transaction_start gen) ?ps None None () cl = Some (r1, s1, cl1)"
    by (auto simp: recovery_transaction_def Let_def split: option.splits)
  have old1: "committed (nodes cl1 p) = committed (nodes cl p)" for p
    using rollback.frame_async [OF st, of p] by (simp add: rolls_back_def)
  show ?thesis
  proof (cases "r1 = 0")
    case False
    with assms(1) st obtain r2 s2 where cn: "async_control w Transaction_cancel ?ps None None () cl1 = Some (r2, s2, cl')" "ret = -1"
      by (auto simp: recovery_transaction_def Let_def)
    then show ?thesis using rollback.frame_async [OF cn(1)] old1 by (simp add: rolls_back_def)
  next
    case True
    note S = start_async [OF st [unfolded True] assms(3) AN(1)]
    from assms(1) st True obtain r2 c2 cl2 where rd: "recover_databases w by_seqnum rm me nodemap gen dbmap cl1 = Some (r2, c2, cl2)"
      by (auto simp: recovery_transaction_def Let_def split: option.splits)
    have old2: "committed (nodes cl2 p) i = committed (nodes cl p) i" if p: "p \<in> active nodemap" "i \<in> set (db_list (nodes cl p))" for p i
      using S(3) [of p dbmap i] p assms(6) AN(2) committed_saved [OF recover_databases_saved [OF rd]] by simp
    show ?thesis
    proof (cases "r2 = 0")
      case False
      with assms(1) st True rd have "cl' = cl2" "ret = -1" by (auto simp: recovery_transaction_def Let_def)
      then show ?thesis using old2 by simp
    next
      case r2: True
      from assms(1) st True rd r2 obtain r3 s3 where cm: "async_control w (Transaction_commit gen) ?ps None None () cl2 = Some (r3, s3, cl')"
        and ret: "ret = (if r3 \<noteq> 0 then -1 else 0)"
        by (auto simp: recovery_transaction_def Let_def)
      let ?new = "\<lambda>i p. ltdb (db_of (nodes cl2 p) i)"
      have us: "\<forall>p \<in> active nodemap. dbs_usable Ks dbmap p (nodes cl1 p)" using S(1) assms(6) AN(2) by simp
      note D = recover_databases_result [OF rd [unfolded r2] assms(2-5) us]
      have dl: "i \<in> set (db_list (nodes cl p))" if "p \<in> active nodemap" "i \<in> fst ` set dbmap" for p i
        using assms(6) that recov_ready_listed by blast
      have l1: "ltdb (db_of (nodes cl1 p) i) = committed (nodes cl p) i" if "p \<in> active nodemap" "i \<in> fst ` set dbmap" for p i
        using S(3) [of p dbmap i] dl [OF that] that assms(6) AN(2) by simp
      have "recovered_from rm me pers (active nodemap) (\<lambda>p. committed (nodes cl p) i) (?new i)" if ip: "(i, pers) \<in> set dbmap" for i pers
      proof -
        have "i \<in> fst ` set dbmap" using ip by force
        then have "\<forall>p \<in> active nodemap. ltdb (db_of (nodes cl1 p) i) = committed (nodes cl p) i" using l1 by blast
        moreover have "recovered_from rm me pers (active nodemap) (\<lambda>p. ltdb (db_of (nodes cl1 p) i)) (?new i)" using D ip by auto
        ultimately show ?thesis by (simp add: recovered_from_def cong: bex_cong)
      qed
      moreover have "committed (nodes cl' p) i \<in> {committed (nodes cl p) i, ?new i p}" if "p \<in> active nodemap" "i \<in> fst ` set dbmap" for p i
        using commit_async [OF cm AN(1), of p i] old2 [OF that(1) dl [OF that]] by simp
      moreover have "committed (nodes cl' p) i = ?new i p \<and> tdb_saved (nodes cl' p) i = None" if z: "ret = 0" and p: "p \<in> active nodemap" "i \<in> fst ` set dbmap" for p i
      proof -
        have r3: "r3 = 0" using z ret by (simp split: if_splits)
        obtain e od where "control_dispatch (node_env w e p) (Transaction_commit gen) (nodes cl2 p) = Some (0, od, nodes cl' p)"
          using recov_async_ok(1) [OF cm [unfolded r3] assms(3) AN(1)] p AN(2) by blast
        moreover have "i \<in> set (db_list (nodes cl2 p))"
          using dl [OF p] S(2) [of p dbmap] p(1) assms(6) AN(2) recover_databases_saved [OF rd, of p] by (simp add: saved_kept_def)
        ultimately show ?thesis using commit_dispatch(2) commit_dispatch_closes by blast
      qed
      ultimately show ?thesis by (intro disjI2 exI [of _ ?new]) auto
    qed
  qed
qed

section \<open>The vnn map\<close>

lemma has_flag_zero [simp]: "\<not> has_flag 0 m"
  by (simp add: has_flag_def)

lemma build_vnnmap_members:
  assumes "length nodemap \<le> length capabilities" "this_pnn \<in> active nodemap"
  shows "vmap (build_vnnmap capabilities nodemap this_pnn gen) \<noteq> []" "set (vmap (build_vnnmap capabilities nodemap this_pnn gen)) \<subseteq> active nodemap"
  using assms by (auto simp: build_vnnmap_def lmaster_nodes_def Let_def active_def)

lemma setvnnmap_result:
  "ctdb_control_setvnnmap m n = (0, n') \<Longrightarrow> vnn_map (dmn n') = Some m \<and> committed n' = committed n"
  by (auto simp: ctdb_control_setvnnmap_def intro!: committed_cong split: if_splits)

lemma update_vnnmap_result:
  assumes "update_vnnmap_on_all_nodes w nodemap m cl = Some (0, cl')" "nodemap_ok nodemap"
  shows "(\<forall>p \<in> active nodemap. vnn_map (dmn (nodes cl' p)) = Some m) \<and> (\<forall>p. committed (nodes cl' p) = committed (nodes cl p)) \<and>
    (\<forall>p. p \<notin> active nodemap \<longrightarrow> nodes cl' p = nodes cl p)"
  using assms
proof (induction nodemap arbitrary: cl)
  case (Cons n ns)
  have ok: "nodemap_ok ns" using Cons.prems(2) by (simp add: nodemap_ok_def)
  show ?case
  proof (cases "has_flag (nf_flags n) NODE_FLAGS_INACTIVE")
    case True
    then have "active (n # ns) = active ns" by (auto simp: active_def)
    with Cons True ok show ?thesis by simp
  next
    case False
    then have act: "active (n # ns) = insert (nf_pnn n) (active ns)" by (auto simp: active_def)
    from Cons.prems(1) False obtain od cl1 where sc: "sync_control w (Setvnnmap m) (nf_pnn n) cl = Some (0, od, cl1)"
      "update_vnnmap_on_all_nodes w ns m cl1 = Some (0, cl')"
      by (auto split: option.splits if_splits)
    note C = sync_control_ok [OF sc(1)] and I = Cons.IH [OF sc(2) ok]
    have new: "vnn_map (dmn (nodes cl1 (nf_pnn n))) = Some m \<and> committed (nodes cl1 (nf_pnn n)) = committed (nodes cl (nf_pnn n))"
      using C(1) setvnnmap_result by (auto split: prod.splits)
    have notin: "nf_pnn n \<notin> active ns" using Cons.prems(2) by (auto simp: nodemap_ok_def active_def)
    have "committed (nodes cl1 p) = committed (nodes cl p)" for p using new C(2) [of p] by (cases "p = nf_pnn n") auto
    moreover have "nodes cl' (nf_pnn n) = nodes cl1 (nf_pnn n)" using I notin by blast
    ultimately show ?thesis using I new C(2) act by auto
  qed
qed (simp add: active_def)

lemma dbs_kept_ready: "dbs_kept n n' \<Longrightarrow> recov_ready Ks dbmap p n \<Longrightarrow> recov_ready Ks dbmap p n' \<and> db_list n' = db_list n"
proof -
  assume k: "dbs_kept n n'" and r: "recov_ready Ks dbmap p n"
  have "db_ready n i pers \<Longrightarrow> db_ready n' i pers" for i pers using k by (simp add: dbs_kept_def db_ready_def)
  then show ?thesis using k r dbs_kept_committed [OF k] unfolding recov_ready_def dbs_kept_def by force
qed

section \<open>The recovery of all databases and the vnn map\<close>

definition recovery_result ::
    "u32 \<Rightarrow> u32 \<Rightarrow> u32 set \<Rightarrow> (u32 \<times> bool) list \<Rightarrow> recov_cluster \<Rightarrow> int \<Rightarrow> recov_cluster \<Rightarrow> bool" where
  "recovery_result rm me A dbmap cl ret cl' \<longleftrightarrow>
     ret \<noteq> 0 \<and> (\<forall>p \<in> A. \<forall>i \<in> set (db_list (nodes cl p)). committed (nodes cl' p) i = committed (nodes cl p) i) \<or>
     (\<exists>new. (\<forall>(i, pers) \<in> set dbmap. recovered_from rm me pers A (\<lambda>p. committed (nodes cl p) i) (new i)) \<and>
        (\<forall>p \<in> A. \<forall>i \<in> fst ` set dbmap. committed (nodes cl' p) i \<in> {committed (nodes cl p) i, new i p} \<and>
           (ret = 0 \<longrightarrow> committed (nodes cl' p) i = new i p \<and> tdb_saved (nodes cl' p) i = None)))"

lemma recovery_result_later:
  assumes "recovery_result rm me A dbmap cl 0 cl2"
    and "\<And>p. committed (nodes cl' p) = committed (nodes cl2 p) \<and> tdb_saved (nodes cl' p) = tdb_saved (nodes cl2 p)"
  shows "recovery_result rm me A dbmap cl ret cl'"
proof -
  from assms(1) obtain new where
    "\<forall>(i, pers) \<in> set dbmap. recovered_from rm me pers A (\<lambda>p. committed (nodes cl p) i) (new i)"
    "\<forall>p \<in> A. \<forall>i \<in> fst ` set dbmap. committed (nodes cl2 p) i = new i p \<and> tdb_saved (nodes cl2 p) i = None"
    unfolding recovery_result_def by auto
  then show ?thesis unfolding recovery_result_def by (intro disjI2 exI [of _ new]) (simp add: assms(2))
qed

lemma do_recovery_result:
  assumes "do_recovery_databases w by_seqnum rm me nodemap caps dbmap vnnmap gen1 gen2 cl = Some (ret, culprit, cl')"
    and "by_seqnum \<longrightarrow> True \<notin> snd ` set dbmap" "world_ok Ks w" "nodemap_ok nodemap" "distinct (map fst dbmap)"
    and "\<forall>p \<in> active nodemap. recov_ready Ks dbmap p (nodes cl p)"
  shows "recovery_result rm me (active nodemap) dbmap cl ret cl'"
    "ret = 0 \<Longrightarrow> p \<in> active nodemap \<Longrightarrow> vnn_map (dmn (nodes cl' p)) = Some (build_vnnmap caps nodemap me gen2)"
proof -
  from assms(1) obtain r1 od cl1 where s1: "sync_control w (Setvnnmap (vnnmap\<lparr>generation := gen1\<rparr>)) me cl = Some (r1, od, cl1)"
    by (auto simp: do_recovery_databases_def split: option.splits)
  note F = vnnmap.frame_sync [OF s1, simplified]
  have same: "committed (nodes cl1 p) = committed (nodes cl p)" for p by (rule dbs_kept_committed [OF F])
  have rd1: "\<forall>p \<in> active nodemap. recov_ready Ks dbmap p (nodes cl1 p)" "\<And>p. p \<in> active nodemap \<Longrightarrow> db_list (nodes cl1 p) = db_list (nodes cl p)"
    using assms(6) dbs_kept_ready [OF F] by auto
  have "recovery_result rm me (active nodemap) dbmap cl ret cl' \<and>
      (ret = 0 \<longrightarrow> (\<forall>p \<in> active nodemap. vnn_map (dmn (nodes cl' p)) = Some (build_vnnmap caps nodemap me gen2)))"
  proof (cases "r1 = 0")
    case False
    with assms(1) s1 have "cl' = cl1" "ret = -1" by (auto simp: do_recovery_databases_def)
    then show ?thesis using same by (simp add: recovery_result_def)
  next
    case True
    from assms(1) s1 True obtain r2 c2 cl2 where
      rt: "recovery_transaction w by_seqnum rm me nodemap dbmap gen1 cl1 = Some (r2, c2, cl2)"
      by (auto simp: do_recovery_databases_def split: option.splits)
    from recovery_transaction_cases [OF rt assms(2-5) rd1(1)]
    have R: "recovery_result rm me (active nodemap) dbmap cl r2 cl2"
      unfolding recovery_result_def by (simp add: same rd1(2) cong: ball_cong)
    show ?thesis
    proof (cases "r2 = 0")
      case False
      with assms(1) s1 True rt have "cl' = cl2" "ret = -1" by (auto simp: do_recovery_databases_def)
      with R False show ?thesis by (auto simp: recovery_result_def)
    next
      case r2: True
      from assms(1) s1 True rt r2 obtain r3 where
        up: "update_vnnmap_on_all_nodes w nodemap (build_vnnmap caps nodemap me gen2) cl2 = Some (r3, cl')"
        and ret: "ret = (if r3 \<noteq> 0 then -1 else 0)"
        by (auto simp: do_recovery_databases_def)
      have "recovery_result rm me (active nodemap) dbmap cl ret cl'"
      proof (rule recovery_result_later [OF R [unfolded r2]])
        have "dbs_kept (nodes cl2 p) (nodes cl' p)" for p by (rule vnnmap.frame_update_vnnmap [OF up]) simp
        then show "committed (nodes cl' p) = committed (nodes cl2 p) \<and> tdb_saved (nodes cl' p) = tdb_saved (nodes cl2 p)" for p
          using dbs_kept_committed by (auto simp: dbs_kept_def)
      qed
      moreover have "ret = 0 \<longrightarrow> (\<forall>p \<in> active nodemap. vnn_map (dmn (nodes cl' p)) = Some (build_vnnmap caps nodemap me gen2))"
        using update_vnnmap_result [OF _ assms(4), of w _ cl2 cl'] up ret by (auto split: if_splits)
      ultimately show ?thesis by simp
    qed
  qed
  then show "recovery_result rm me (active nodemap) dbmap cl ret cl'"
    "ret = 0 \<Longrightarrow> p \<in> active nodemap \<Longrightarrow> vnn_map (dmn (nodes cl' p)) = Some (build_vnnmap caps nodemap me gen2)" by auto
qed

end
