(* ===== verification/Recovery_Live.thy ===== *)
theory Recovery_Live
  imports Recovery_Correct Migration_Correct
begin

text \<open>
  A recovery in which nothing fails succeeds, and what a successful recovery means for the rest of the cluster: it
  sends no packets, and it gives every record of a volatile database one data master again.
\<close>

section \<open>A recovery without faults succeeds\<close>

text \<open>Nothing is lost and no operation fails; a buffer holds all keys in use with records of at most \<open>L\<close> bytes.\<close>

definition env_good :: "u8 list set \<Rightarrow> nat \<Rightarrow> recov_env \<Rightarrow> bool" where
  "env_good Ks L env \<longleftrightarrow>
     orders Ks (order env) \<and> (\<forall>k r. node_io env k r) \<and> lockall_ok env \<and> traverse_ok env \<and> (\<forall>i. start_ok env i) \<and>
     (\<forall>i. commit_ok env i) \<and> (\<forall>i. health_ok env i) \<and> (\<forall>i. wipe_ok env i) \<and>
     sizeof_marshall_buffer + card Ks * L + unat (pulldb_preallocation_size env) < 2 ^ 32"

definition world_good :: "u8 list set \<Rightarrow> nat \<Rightarrow> recov_world \<Rightarrow> bool" where
  "world_good Ks L w \<longleftrightarrow>
     finite Ks \<and> world_ok Ks w \<and> (\<forall>t p. fate_of w t p = Answered) \<and> (\<forall>t p. env_good Ks L (node_env w t p)) \<and> (\<forall>t. create_ok w t) \<and>
     (\<forall>k r. recdb_io w k r) \<and> (\<forall>t. recdb_traverse_ok w t) \<and>
     sizeof_marshall_buffer + card Ks * L + unat (rec_preallocation_size w) < 2 ^ 32"

definition records_good :: "u8 list set \<Rightarrow> nat \<Rightarrow> content \<Rightarrow> bool" where
  "records_good Ks L m \<longleftrightarrow>
     dom m \<subseteq> Ks \<and> (\<forall>k d. m k = Some d \<longrightarrow> sizeof_header \<le> length d \<and> sizeof_rec_data + length k + length d \<le> L)"

lemma append_record_fits:
  assumes "unat (p_len p) + length (entry_bytes e) + unat prealloc < 2 ^ 32"
  shows "\<exists>p'. append_record prealloc (fst e) (snd e) p = Some p' \<and> unat (p_len p') = unat (p_len p) + length (entry_bytes e)"
proof -
  let ?r = "ctdb_marshall_record 0 (fst e) None (snd e)"
  have sz: "length (entry_bytes e) = sizeof_rec_data + length (fst e) + length (snd e)"
    using length_rec_bytes [of "(0, None, e)"] by (simp add: entry_bytes_rec entry_size)
  have l: "unat (rec_length ?r) = length (entry_bytes e)"
    using assms unat_fits [of "length (entry_bytes e)"] sz by (simp add: ctdb_marshall_record_def Let_def)
  have s: "unat (p_len p + rec_length ?r) = unat (p_len p) + length (entry_bytes e)"
    using assms l by (subst unat_add_lem [THEN iffD1]) simp_all
  have t: "unat (rec_length ?r + p_len p + prealloc) = unat (p_len p) + length (entry_bytes e) + unat prealloc"
    using unat_add_lem [THEN iffD1, of "p_len p + rec_length ?r" prealloc] assms s
    by (simp add: add.commute [of "p_len p"])
  let ?a = "if p_len p + rec_length ?r \<ge> allocated_len p then rec_length ?r + p_len p + prealloc else allocated_len p"
  have "unat (p_len p) + unat (rec_length ?r) \<le> unat ?a" using l s t by (simp add: word_le_nat_alt)
  then show ?thesis using s by (simp add: append_record_def Let_def)
qed

lemma append_all_fits:
  assumes "\<forall>e \<in> set es. length (entry_bytes e) \<le> L" "unat (p_len p) + length es * L + unat prealloc < 2 ^ 32"
  shows "\<exists>p'. append_all prealloc es p = Some p'"
  using assms
proof (induction es arbitrary: p)
  case (Cons e es)
  have e: "length (entry_bytes e) \<le> L" using Cons.prems(1) by simp
  have sum: "unat (p_len p) + (L + length es * L) + unat prealloc < 2 ^ 32" using Cons.prems(2) by simp
  obtain p1 where p1: "append_record prealloc (fst e) (snd e) p = Some p1" "unat (p_len p1) = unat (p_len p) + length (entry_bytes e)"
    using append_record_fits [of p e prealloc] sum e by fastforce
  have "unat (p_len p1) + length es * L + unat prealloc < 2 ^ 32" using p1(2) sum e by linarith
  with Cons.IH [of p1] Cons.prems(1) p1(1) show ?case by simp
qed simp

lemma entries_fit:
  assumes "orders Ks ord" "finite Ks" "records_good Ks L m" "sizeof_marshall_buffer + card Ks * L + unat prealloc < 2 ^ 32"
    and "es = entries ord m \<or> es = outgoing pers me (entries ord m)"
  shows "\<exists>p. append_all prealloc es (pulldb_start i) = Some p"
proof (rule append_all_fits)
  have dm: "dom m \<subseteq> Ks" using assms(3) by (simp add: records_good_def)
  have len: "length (entries ord m) \<le> card Ks"
    using assms(1) dm card_mono [OF assms(2) dm] distinct_card [of "ord m"] by (simp add: entries_def orders_def)
  then have "length es \<le> card Ks" using assms(5) le_trans [OF length_filter_le len] by (auto simp: outgoing_def)
  then have "length es * L \<le> card Ks * L" by (rule mult_le_mono1)
  moreover have "unat (p_len (pulldb_start i)) = sizeof_marshall_buffer" by (simp add: pulldb_start_def sizeof_marshall_buffer_def)
  ultimately show "unat (p_len (pulldb_start i)) + length es * L + unat prealloc < 2 ^ 32" using assms(4) by linarith
  have rd: "sizeof_header \<le> length (snd e) \<and> sizeof_rec_data + length (fst e) + length (snd e) \<le> L" if "e \<in> set (entries ord m)" for e
    using assms(3) set_entries [OF assms(1) dm, of "fst e" "snd e"] that by (simp add: records_good_def)
  have sz: "length (entry_bytes e) = sizeof_rec_data + length (fst e) + length (snd e)" for e
    using length_rec_bytes [of "(0, None, e)"] by (simp add: entry_bytes_rec entry_size)
  show "\<forall>e \<in> set es. length (entry_bytes e) \<le> L"
    using assms(5) rd by (auto simp: sz outgoing_def length_prepared)
qed

lemma control_node_good:
  assumes "world_good Ks L w" "\<And>env. env_good Ks L env \<Longrightarrow> \<exists>od n'. control_dispatch env c (nodes cl p) = Some (0, od, n')"
  shows "\<exists>r cl'. control_node w c p cl = Some (r, cl') \<and> reply_ok r \<and> controls_sent cl' = controls_sent cl"
proof -
  obtain od n' where "control_dispatch (node_env w (controls_sent cl) p) c (nodes cl p) = Some (0, od, n')"
    using assms(2) [of "node_env w (controls_sent cl) p"] assms(1) unfolding world_good_def by blast
  then show ?thesis using assms(1) by (simp add: control_node_def world_good_def reply_ok_def)
qed

lemma control_nodes_good:
  assumes "world_good Ks L w" "distinct ps"
    and "\<And>p env. p \<in> set ps \<Longrightarrow> env_good Ks L env \<Longrightarrow> \<exists>od n'. control_dispatch env c (nodes cl p) = Some (0, od, n')"
  shows "\<exists>rs cl'. control_nodes w c ps cl = Some (rs, cl') \<and> (\<forall>r \<in> set rs. reply_ok r)"
  using assms(2,3)
proof (induction ps arbitrary: cl)
  case (Cons p ps)
  obtain r cl1 where r: "control_node w c p cl = Some (r, cl1)" "reply_ok r"
    using control_node_good [OF assms(1), of c cl p] Cons.prems(2) by auto
  have "nodes cl1 q = nodes cl q" if "q \<in> set ps" for q
    by (rule control_node_others [OF r(1)]) (use that Cons.prems(1) in auto)
  then have "\<exists>od n'. control_dispatch env c (nodes cl1 q) = Some (0, od, n')" if "q \<in> set ps" "env_good Ks L env" for q env
    using Cons.prems(2) [of q env] that by simp
  with Cons.IH [of cl1] Cons.prems(1) obtain rs cl2 where "control_nodes w c ps cl1 = Some (rs, cl2)" "\<forall>r \<in> set rs. reply_ok r" by auto
  then show ?case using r by (intro exI [of _ "r # rs"] exI [of _ cl2]) simp
qed simp

lemma async_control_good:
  assumes "world_good Ks L w" "distinct ps"
    and "\<And>p env. p \<in> set ps \<Longrightarrow> env_good Ks L env \<Longrightarrow> \<exists>od n'. control_dispatch env c (nodes cl p) = Some (0, od, n')"
  shows "\<exists>s' cl'. async_control w c ps cb fcb s cl = Some (0, s', cl')"
proof -
  obtain rs cl1 where c: "control_nodes w c ps cl = Some (rs, cl1)" "\<forall>r \<in> set rs. reply_ok r"
    using control_nodes_good [OF assms] by auto
  have "fst (ctdb_client_async_wait cb fcb (arrival w (controls_sent cl1) rs) s) = 0"
    using c(2) assms(1) by (simp add: async_wait_0_iff world_good_def world_ok_def)
  then show ?thesis using c(1) by (cases "ctdb_client_async_wait cb fcb (arrival w (controls_sent cl1) rs) s") (simp add: async_control_def)
qed

lemma sync_control_good:
  assumes "world_good Ks L w" "\<And>env. env_good Ks L env \<Longrightarrow> \<exists>od n'. control_dispatch env c (nodes cl p) = Some (0, od, n')"
  shows "\<exists>od cl'. sync_control w c p cl = Some (0, od, cl')"
  using control_node_good [OF assms] by (auto simp: sync_control_def reply_ok_def)

text \<open>A node in the middle of a recovery transaction.\<close>

definition db_works :: "u8 list set \<Rightarrow> nat \<Rightarrow> recov_daemon \<Rightarrow> content \<Rightarrow> u32 \<times> bool \<Rightarrow> bool" where
  "db_works Ks L n m db \<longleftrightarrow>
     fst db \<in> set (db_list n) \<and> db_ready n (fst db) (snd db) \<and> freeze_mode n (db_priority n (fst db)) = CTDB_FREEZE_FROZEN \<and> records_good Ks L m"

definition node_starts :: "u8 list set \<Rightarrow> nat \<Rightarrow> (u32 \<times> bool) list \<Rightarrow> u32 \<Rightarrow> recov_daemon \<Rightarrow> bool" where
  "node_starts Ks L dbmap p n \<longleftrightarrow>
     all_frozen n \<and> pnn (dmn n) = p \<and> distinct (db_list n) \<and>
     (freeze_transaction_started n \<or> (\<forall>i \<in> set (db_list n). tdb_saved n i = None)) \<and>
     (\<forall>db \<in> set dbmap. db_works Ks L n (committed n (fst db)) db)"

definition node_works :: "u8 list set \<Rightarrow> nat \<Rightarrow> u32 \<Rightarrow> (u32 \<times> bool) list \<Rightarrow> u32 \<Rightarrow> recov_daemon \<Rightarrow> bool" where
  "node_works Ks L t dbmap p n \<longleftrightarrow>
     all_frozen n \<and> pnn (dmn n) = p \<and> distinct (db_list n) \<and> freeze_transaction_started n \<and> freeze_transaction_id n = t \<and>
     (\<forall>i \<in> set (db_list n). tdb_saved n i \<noteq> None) \<and> (\<forall>db \<in> set dbmap. db_works Ks L n (ltdb (db_of n (fst db))) db)"

lemma start_transactions_good:
  assumes "\<forall>i. ok i" "freeze_transaction_started n \<or> (distinct is \<and> (\<forall>i \<in> set is. tdb_saved n i = None))"
  shows "\<exists>n'. start_transactions ok is n = (0, n') \<and> freeze_mode n' = freeze_mode n \<and> db_priority n' = db_priority n"
  using assms(2)
proof (induction "is" arbitrary: n)
  case (Cons i js)
  define n1 where "n1 = (if freeze_transaction_started n then tdb_transaction_cancel i n else n)"
  define n2 where "n2 = n1\<lparr>tdb_saved := (tdb_saved n1)(i \<mapsto> ltdb (db_of n1 i))\<rparr>"
  have f: "freeze_mode n1 = freeze_mode n" "db_priority n1 = db_priority n" "freeze_transaction_started n1 = freeze_transaction_started n"
    by (auto simp: n1_def tdb_transaction_cancel_def set_db_def split: option.splits)
  have s: "tdb_saved n1 i = None" "\<And>j. j \<noteq> i \<Longrightarrow> tdb_saved n1 j = tdb_saved n j"
    using Cons.prems by (auto simp: n1_def cancel_saved)
  have st: "tdb_transaction_start (ok i) i n1 = (0, n2)" using s(1) assms(1) by (simp add: tdb_transaction_start_def n2_def)
  have "freeze_transaction_started n2 \<or> (distinct js \<and> (\<forall>i \<in> set js. tdb_saved n2 i = None))"
    using Cons.prems f(3) s(2) by (auto simp: n2_def)
  from Cons.IH [OF this] obtain n' where "start_transactions ok js n2 = (0, n')" "freeze_mode n' = freeze_mode n2" "db_priority n' = db_priority n2"
    by blast
  then show ?case using st f by (simp add: n1_def [symmetric] n2_def)
qed simp

lemma transaction_start_good:
  assumes "\<forall>i. ok i" "node_starts Ks L dbmap p n"
  shows "\<exists>n'. ctdb_control_transaction_start ok t n = (0, n') \<and> node_works Ks L t dbmap p n'"
proof -
  obtain n1 where n1: "start_transactions ok (db_list n) n = (0, n1)" "freeze_mode n1 = freeze_mode n" "db_priority n1 = db_priority n"
    using start_transactions_good [OF assms(1), of n "db_list n"] assms(2) by (auto simp: node_starts_def)
  define n' where "n' = n1\<lparr>freeze_transaction_started := True, freeze_transaction_id := t\<rparr>"
  have st: "ctdb_control_transaction_start ok t n = (0, n')"
    using assms(2) n1(1) by (simp add: ctdb_control_transaction_start_def node_starts_def n'_def)
  note O = transaction_start_opens [OF st] and B = transaction_start_rolls_back [of n ok t, unfolded st]
  have "node_works Ks L t dbmap p n'"
    using assms(2) O B n1 unfolding node_works_def
    by (auto simp: node_starts_def rolls_back_def n'_def all_frozen_def db_works_def db_ready_def)
  with st show ?thesis by blast
qed

lemma commit_transactions_good:
  assumes "\<forall>i. ok i" "\<forall>i. health i" "distinct is" "\<forall>i \<in> set is. tdb_saved n i \<noteq> None"
  shows "\<exists>n'. commit_transactions ok health is n = (0, n') \<and> freeze_mode n' = freeze_mode n"
  using assms(3,4)
proof (induction "is" arbitrary: n)
  case (Cons i js)
  define n1 where "n1 = n\<lparr>tdb_saved := (tdb_saved n)(i := None)\<rparr>"
  have "tdb_transaction_commit (ok i) i n = (0, n1)" using Cons.prems(2) assms(1) by (auto simp: tdb_transaction_commit_def n1_def)
  moreover have "\<exists>n'. commit_transactions ok health js n1 = (0, n') \<and> freeze_mode n' = freeze_mode n1"
    by (rule Cons.IH) (use Cons.prems in \<open>auto simp: n1_def\<close>)
  ultimately show ?case using spec [OF assms(2), of i] by (simp add: n1_def)
qed simp

lemma transaction_commit_good:
  assumes "\<forall>i. ok i" "\<forall>i. health i" "node_works Ks L t dbmap p n"
  shows "\<exists>n'. ctdb_control_transaction_commit ok health t n = (0, n') \<and> all_frozen n'"
proof -
  obtain n1 where "commit_transactions ok health (db_list n) n = (0, n1)" "freeze_mode n1 = freeze_mode n"
    using commit_transactions_good [OF assms(1,2), of "db_list n" n] assms(3) by (auto simp: node_works_def)
  then show ?thesis using assms(3) by (simp add: ctdb_control_transaction_commit_def node_works_def all_frozen_def)
qed

lemma records_fit:
  assumes "world_good Ks L w" "records_good Ks L m" "m k = Some d"
  shows "entry_fits (k, d)" "k \<in> Ks" "sizeof_header \<le> length d"
proof -
  show k: "k \<in> Ks" and "sizeof_header \<le> length d" using assms(2,3) by (auto simp: records_good_def)
  then have "0 < card Ks" using assms(1) by (auto simp: world_good_def card_gt_0_iff)
  then have "L \<le> card Ks * L" by (cases "card Ks") simp_all
  moreover have "sizeof_marshall_buffer + card Ks * L + unat (rec_preallocation_size w) < 2 ^ 32" using assms(1) by (simp add: world_good_def)
  ultimately have "L < 2 ^ 32" by linarith
  moreover have "sizeof_rec_data + length k + length d \<le> L" using assms(2,3) by (simp add: records_good_def)
  ultimately show "entry_fits (k, d)" by (simp add: entry_fits_def)
qed

lemma pull_db_good:
  assumes "env_good Ks L env" "finite Ks" "db_works Ks L n (ltdb (db_of n i)) (i, pers)"
  shows "\<exists>od. ctdb_control_pull_db env i n = Some (0, od)"
proof -
  obtain db where db: "dbs (dmn n) i = Some db" using assms(3) by (auto simp: db_works_def db_ready_def)
  have "\<exists>p. append_all (pulldb_preallocation_size env) (entries (order env) (ltdb db)) (pulldb_start i) = Some p"
    by (rule entries_fit) (use assms db in \<open>auto simp: env_good_def db_works_def db_of_def\<close>)
  then show ?thesis using assms db
    by (auto simp: ctdb_control_pull_db_def find_ctdb_db_def env_good_def db_works_def traverse_pulldb_entries entries_def)
qed

lemma merge_all_good:
  assumes "\<forall>k r. ok k r" "\<forall>e \<in> set es. sizeof_header \<le> length (snd e)" "\<forall>k d. recdb k = Some d \<longrightarrow> sizeof_header \<le> length d"
  shows "\<exists>recdb'. fold_ok (merge_record ok rm) es recdb = (True, recdb')"
  using assms(2,3)
proof (induction es arbitrary: recdb)
  case (Cons e es)
  have e: "\<not> length (snd e) < sizeof_header" using Cons.prems(1) by auto
  obtain r1 where r1: "merge_record ok rm (fst e) (snd e) recdb = (True, r1)" "r1 = recdb \<or> r1 = recdb(fst e \<mapsto> snd e)"
  proof -
    have "merge_record ok rm (fst e) (snd e) recdb \<in> {(True, recdb), (True, recdb(fst e \<mapsto> snd e))}"
      using assms(1) e Cons.prems(2) [THEN spec, of "fst e"] by (auto simp: merge_record_def Let_def not_less split: option.splits)
    then show ?thesis using that by auto
  qed
  have "\<forall>k d. r1 k = Some d \<longrightarrow> sizeof_header \<le> length d" using r1(2) Cons.prems e by (auto split: if_splits)
  with Cons.IH [of r1] Cons.prems(1) r1(1) show ?case by simp
qed simp

lemma world_good_ok: "world_good Ks L w \<Longrightarrow> world_ok Ks w" "world_good Ks L w \<Longrightarrow> finite Ks"
  by (simp_all add: world_good_def)

lemma db_works_fits:
  assumes "world_good Ks L w" "db_works Ks L n (ltdb (db_of n (fst db))) db"
  shows "db_fits Ks n (fst db)"
  using assms(2) records_fit [OF assms(1), of "ltdb (db_of n (fst db))"] by (auto simp: db_fits_def db_works_def)

lemma pull_one_good:
  assumes "world_good Ks L w" "db_works Ks L (nodes cl p) (ltdb (db_of (nodes cl p) i)) (i, pers)"
    and "\<forall>k d. recdb k = Some d \<longrightarrow> sizeof_header \<le> length d"
  shows "\<exists>recdb' cl'. pull_one_remote_database w rm p i (recdb, cl) = Some (0, recdb', cl')"
proof -
  let ?db = "ltdb (db_of (nodes cl p) i)"
  note W = world_good_ok [OF assms(1)]
  have "\<exists>od n'. control_dispatch env (Pull_db i) (nodes cl p) = Some (0, od, n')" if "env_good Ks L env" for env
    using pull_db_good [OF that W(2) assms(2)] by auto
  then obtain od cl1 where sc: "sync_control w (Pull_db i) p cl = Some (0, od, cl1)"
    using sync_control_good [OF assms(1), of "Pull_db i" cl p] by auto
  from sync_control_ok(1) [OF sc] obtain t where pd: "ctdb_control_pull_db (node_env w t p) i (nodes cl p) = Some (0, od)" by auto
  have ord: "orders Ks (order (node_env w t p))" using W(1) by (simp add: world_ok_def)
  have fits: "dom (ltdb db) \<subseteq> Ks \<and> (\<forall>k d. ltdb db k = Some d \<longrightarrow> entry_fits (k, d))" if "dbs (dmn (nodes cl p)) i = Some db" for db
    using db_works_fits [OF assms(1), of "nodes cl p" "(i, pers)"] assms(2) that by (simp add: db_fits_def db_of_def)
  from pull_db_entries [OF pd ord fits] obtain db prealloc params where
    db: "dbs (dmn (nodes cl p)) i = Some db"
    and ap: "append_all prealloc (entries (order (node_env w t p)) (ltdb db)) (pulldb_start i) = Some params"
    and od: "od = ctdb_marshall_finish (pulldata params)"
    and fit: "\<forall>e \<in> set (entries (order (node_env w t p)) (ltdb db)). entry_fits e" by blast
  have "records_good Ks L (ltdb db)" using assms(2) db by (simp add: db_works_def db_of_def)
  then have "\<forall>e \<in> set (entries (order (node_env w t p)) (ltdb db)). sizeof_header \<le> length (snd e)"
    using set_entries [OF ord, of "ltdb db"] by (auto simp: records_good_def)
  from merge_all_good [OF _ this assms(3), of "recdb_io w" rm] obtain r1 where
    "fold_ok (merge_record (recdb_io w) rm) (entries (order (node_env w t p)) (ltdb db)) recdb = (True, r1)"
    using assms(1) by (auto simp: world_good_def)
  with for_records_buffer(2) [OF ap fit refl, of "merge_record (recdb_io w) rm" recdb]
  have "for_records (merge_record (recdb_io w) rm) (m_data (buffer_of_bytes od)) 0 (unat (m_count (buffer_of_bytes od))) recdb = Some (True, r1)"
    by (simp add: od)
  moreover have "\<not> length od < sizeof_marshall_buffer" by (simp add: od ctdb_marshall_finish_def sizeof_marshall_buffer_def)
  ultimately show ?thesis using sc by (simp add: pull_one_remote_database_def)
qed

lemma pull_from_nodes_good:
  assumes "world_good Ks L w" "\<forall>p \<in> active nodemap. db_works Ks L (nodes cl p) (ltdb (db_of (nodes cl p) i)) (i, pers)" "recdb_inv rm S recdb"
  shows "\<exists>recdb' cl'. pull_from_nodes w rm nodemap i (recdb, cl) = Some (0, None, recdb', cl')"
  using assms(2,3)
proof (induction nodemap arbitrary: recdb cl S)
  case (Cons n ns)
  show ?case
  proof (cases "has_flag (nf_flags n) NODE_FLAGS_INACTIVE")
    case True
    then have "active (n # ns) = active ns" by (auto simp: active_def)
    with Cons True show ?thesis by simp
  next
    case False
    then have act: "active (n # ns) = insert (nf_pnn n) (active ns)" by (auto simp: active_def)
    have wk: "db_works Ks L (nodes cl (nf_pnn n)) (ltdb (db_of (nodes cl (nf_pnn n)) i)) (i, pers)" using Cons.prems(1) act by simp
    have "\<forall>k d. recdb k = Some d \<longrightarrow> sizeof_header \<le> length d" using Cons.prems(2) by (simp add: recdb_inv_def)
    from pull_one_good [OF assms(1) wk this, of rm] obtain r1 cl1 where p1: "pull_one_remote_database w rm (nf_pnn n) i (recdb, cl) = Some (0, r1, cl1)"
      by blast
    have fits: "db_fits Ks (nodes cl (nf_pnn n)) i" using db_works_fits [OF assms(1), of _ "(i, pers)"] wk by simp
    note I = pull_one_inv [OF p1 world_good_ok(1) [OF assms(1)] fits Cons.prems(2)]
    have "\<forall>p \<in> active ns. db_works Ks L (nodes cl1 p) (ltdb (db_of (nodes cl1 p) i)) (i, pers)" using I Cons.prems(1) act by simp
    from Cons.IH [OF this conjunct2 [OF I]] p1 False show ?thesis by simp
  qed
qed simp

lemma wipe_good:
  assumes "env_good Ks L env" "node_works Ks L t ((i, pers) # dbmap) p n"
  shows "\<exists>od n'. control_dispatch env (Wipe_database i t) n = Some (0, od, n')"
  using assms by (auto simp: ctdb_control_wipe_database_def find_ctdb_db_def node_works_def db_works_def db_ready_def env_good_def Let_def)

lemma push_record_good:
  assumes "\<forall>k r. w k r" "vnn_map ctdb \<noteq> None" "ctdb_ltdb_store_fn db" "persistent db \<or> sizeof_header < length d" "sizeof_header \<le> length d"
  shows "\<exists>db'. push_record w ctdb k d db = (True, db')"
proof -
  let ?h = "(header_of_bytes d)\<lparr>hflags := hflags (header_of_bytes d) AND NOT CTDB_REC_RO_FLAGS\<rparr>"
  from assms(2) obtain m where m: "vnn_map ctdb = Some m" by auto
  obtain ret h' db' where st: "ctdb_ltdb_store_server w ctdb db k ?h (drop sizeof_header d) = (ret, h', db')" by (metis prod_cases3)
  have "fst (store_keep (pnn ctdb) (ctdb_lmaster m k) (persistent db) ?h (drop sizeof_header d))"
    using assms(4) by (auto simp: store_keep_def)
  then obtain sched where sk: "store_keep (pnn ctdb) (ctdb_lmaster m k) (persistent db) ?h (drop sizeof_header d) = (True, sched)"
    by (metis fst_conv surj_pair)
  have "ret = 0" using store_server_result(3) [OF m st sk] assms(1) by simp
  then show ?thesis using st assms(3,5) by (simp add: push_record_def store_fn_server not_less)
qed

lemma push_all_good:
  assumes "\<forall>k r. w k r" "vnn_map ctdb \<noteq> None" "ctdb_ltdb_store_fn db"
    and "\<forall>e \<in> set es. (persistent db \<or> sizeof_header < length (snd e)) \<and> sizeof_header \<le> length (snd e)"
  shows "\<exists>db'. fold_ok (push_record w ctdb) es db = (True, db')"
  using assms(3,4)
proof (induction es arbitrary: db)
  case (Cons e es)
  have e: "persistent db \<or> sizeof_header < length (snd e)" "sizeof_header \<le> length (snd e)" using Cons.prems(2) by auto
  obtain db1 where d1: "push_record w ctdb (fst e) (snd e) db = (True, db1)"
    using push_record_good [OF assms(1,2) Cons.prems(1) e] by blast
  have "db_same db db1" by (rule push_record_result(2) [OF d1 assms(2) Cons.prems(1) e(1)])
  then have "ctdb_ltdb_store_fn db1" "persistent db1 = persistent db" using Cons.prems(1) by (auto simp: db_same_def)
  with Cons.IH [of db1] Cons.prems(2) d1 show ?case by simp
qed simp

lemma push_db_good:
  assumes "env_good Ks L env" "append_all prealloc es (pulldb_start i) = Some p" "\<forall>e \<in> set es. entry_fits e"
    and "db_ready n i pers" "freeze_mode n (db_priority n i) = CTDB_FREEZE_FROZEN"
    and "\<forall>e \<in> set es. (pers \<or> sizeof_header < length (snd e)) \<and> sizeof_header \<le> length (snd e)"
  shows "\<exists>n'. ctdb_control_push_db env (ctdb_marshall_finish (pulldata p)) n = Some (0, n')"
proof -
  let ?m = "buffer_of_bytes (ctdb_marshall_finish (pulldata p))"
  note F = for_records_buffer [OF assms(2,3) refl]
  obtain db where db: "dbs (dmn n) i = Some db" "ctdb_ltdb_store_fn db" "persistent db = pers" "vnn_map (dmn n) \<noteq> None"
    using assms(4) by (auto simp: db_ready_def)
  obtain db1 where "fold_ok (push_record (node_io env) (dmn n)) es db = (True, db1)"
    using push_all_good [of "node_io env" "dmn n" db es] assms(1,6) db by (auto simp: env_good_def)
  then have "for_records (push_record (node_io env) (dmn n)) (m_data ?m) 0 (unat (m_count ?m)) db = Some (True, db1)"
    using F(2) [of "push_record (node_io env) (dmn n)" db] by simp
  moreover have "\<not> length (ctdb_marshall_finish (pulldata p)) < sizeof_marshall_buffer"
    by (simp add: ctdb_marshall_finish_def sizeof_marshall_buffer_def)
  ultimately show ?thesis using F(1) db assms(1,5)
    by (auto simp: ctdb_control_push_db_def find_ctdb_db_def env_good_def split: prod.splits)
qed

lemma node_works_kept:
  assumes "node_works Ks L t ((i, pers) # dbmap) p n" "node_kept i n n'" "i \<notin> fst ` set dbmap"
  shows "node_works Ks L t dbmap p n'"
proof -
  have "db_works Ks L n' (ltdb (db_of n' (fst db))) db" if db: "db \<in> set dbmap" for db
  proof -
    have "fst db \<noteq> i" using db assms(3) by force
    then have "db_of n' (fst db) = db_of n (fst db)" using assms(2) by (simp add: node_kept_def db_of_def)
    moreover have "db_works Ks L n (ltdb (db_of n (fst db))) db" using assms(1) db by (simp add: node_works_def)
    ultimately show ?thesis using node_kept_ready [OF assms(2)] assms(2) by (auto simp: db_works_def node_kept_def)
  qed
  then show ?thesis using assms(1,2) by (auto simp: node_works_def node_kept_def all_frozen_def)
qed

lemma merged_from:
  assumes "recdb_inv rm (\<lambda>K. \<Union>p \<in> A. copies (ns p) i K) recdb" "recdb k = Some d"
  obtains p where "p \<in> A" "ltdb (db_of (ns p) i) k = Some d"
proof -
  have "newest rm (\<Union>p \<in> A. copies (ns p) i k) (recdb k)" using assms(1) by (simp add: recdb_inv_def)
  then show ?thesis using that by (auto simp: newest_def copies_def assms(2))
qed

lemma push_recdb_good:
  assumes "world_good Ks L w" "nodemap_ok nodemap" "records_good Ks L recdb"
    and "\<And>p. p \<in> active nodemap \<Longrightarrow> db_ready (nodes cl p) i pers \<and> freeze_mode (nodes cl p) (db_priority (nodes cl p) i) = CTDB_FREEZE_FROZEN"
  shows "\<exists>cl'. push_recdb_database w me i pers recdb nodemap cl = Some (0, cl')"
proof -
  let ?es = "entries (recdb_order w) recdb" let ?os = "outgoing pers me ?es"
  note W = world_good_ok [OF assms(1)] and AN = active_nodes [OF assms(2), of me]
  have ord: "orders Ks (recdb_order w)" using W(1) by (simp add: world_ok_def)
  have es: "\<forall>e \<in> set ?es. entry_fits e \<and> sizeof_header \<le> length (snd e)"
  proof
    fix e assume "e \<in> set ?es"
    then have "recdb (fst e) = Some (snd e)" using set_entries [OF ord, of recdb "fst e" "snd e"] assms(3) by (simp add: records_good_def)
    from records_fit [OF assms(1,3) this] show "entry_fits e \<and> sizeof_header \<le> length (snd e)" by simp
  qed
  have "\<exists>params. append_all (rec_preallocation_size w) ?os (pulldb_start i) = Some params"
    by (rule entries_fit [OF ord W(2) assms(3)]) (use assms(1) in \<open>auto simp: world_good_def\<close>)
  then obtain params where ap: "append_all (rec_preallocation_size w) ?os (pulldb_start i) = Some params" by blast
  have os: "\<forall>e \<in> set ?os. (pers \<or> sizeof_header < length (snd e)) \<and> sizeof_header \<le> length (snd e)"
    using es by (auto simp: outgoing_def length_prepared)
  have "\<exists>od n'. control_dispatch env (Push_db (ctdb_marshall_finish (pulldata params))) (nodes cl p) = Some (0, od, n')"
    if "p \<in> active nodemap" "env_good Ks L env" for p env
    using push_db_good [OF that(2) ap outgoing_fits(1) [OF es] _ _ os, of "nodes cl p"] assms(4) [OF that(1)] by auto
  then have "\<exists>s cl'. async_control w (Push_db (ctdb_marshall_finish (pulldata params))) (list_of_active_nodes me nodemap True) None None () cl = Some (0, s, cl')"
    by (intro async_control_good [OF assms(1) AN(1)]) (use AN(2) in auto)
  then show ?thesis using ap assms(1) by (auto simp: push_recdb_database_def traverse_recdb_entries entries_def world_good_def)
qed

lemma wipe_all_good:
  assumes "world_good Ks L w" "nodemap_ok nodemap" "\<forall>p \<in> active nodemap. node_works Ks L t ((i, pers) # dbmap) p (nodes cl p)"
  shows "\<exists>s cl'. async_control w (Wipe_database i t) (list_of_active_nodes me nodemap True) None None () cl = Some (0, s, cl') \<and>
    (\<forall>p \<in> active nodemap. node_kept i (nodes cl p) (nodes cl' p))"
proof -
  note W = world_good_ok [OF assms(1)] and AN = active_nodes [OF assms(2), of me]
  have "\<exists>s cl'. async_control w (Wipe_database i t) (list_of_active_nodes me nodemap True) None None () cl = Some (0, s, cl')"
    by (rule async_control_good [OF assms(1) AN(1)]) (use assms(3) AN(2) wipe_good in auto)
  then obtain s cl' where wp: "async_control w (Wipe_database i t) (list_of_active_nodes me nodemap True) None None () cl = Some (0, s, cl')"
    by blast
  have "node_kept i (nodes cl p) (nodes cl' p)" if p: "p \<in> active nodemap" for p
  proof -
    obtain e od where "control_dispatch (node_env w e p) (Wipe_database i t) (nodes cl p) = Some (0, od, nodes cl' p)"
      using recov_async_ok(1) [OF wp W(1) AN(1)] p AN(2) by blast
    then have "ctdb_control_wipe_database (wipe_ok (node_env w e p)) i t (nodes cl p) = (0, nodes cl' p)"
      by (auto split: prod.splits)
    then show ?thesis by (rule wipe_result(1))
  qed
  with wp show ?thesis by blast
qed

lemma recover_database_good:
  assumes "world_good Ks L w" "nodemap_ok nodemap" "\<not> (pers \<and> by_seqnum)" "i \<notin> fst ` set dbmap"
    and "\<forall>p \<in> active nodemap. node_works Ks L t ((i, pers) # dbmap) p (nodes cl p)"
  shows "\<exists>cl'. recover_database w by_seqnum rm me nodemap t (i, pers) cl = Some (0, None, cl') \<and>
    (\<forall>p \<in> active nodemap. node_works Ks L t dbmap p (nodes cl' p))"
proof -
  note W = world_good_ok [OF assms(1)]
  have wk: "db_works Ks L (nodes cl p) (ltdb (db_of (nodes cl p) i)) (i, pers)" if "p \<in> active nodemap" for p
    using assms(5) that by (auto simp: node_works_def)
  have fits: "\<forall>p \<in> active nodemap. db_fits Ks (nodes cl p) i" using db_works_fits [OF assms(1), of _ "(i, pers)"] wk by auto
  have empty: "recdb_inv rm (\<lambda>K. {}) Map.empty" by (simp add: recdb_inv_def newest_def)
  have "\<exists>recdb cl1. pull_from_nodes w rm nodemap i (Map.empty, cl) = Some (0, None, recdb, cl1)"
    by (rule pull_from_nodes_good [OF assms(1) _ empty]) (use wk in blast)
  then obtain recdb cl1 where pf: "pull_from_nodes w rm nodemap i (Map.empty, cl) = Some (0, None, recdb, cl1)" by blast
  from pull_from_nodes_inv [OF pf W(1) fits empty] have nc: "nodes cl1 = nodes cl"
    and RI: "recdb_inv rm (\<lambda>K. \<Union>p \<in> active nodemap. copies (nodes cl p) i K) recdb" by auto
  have rec: "k \<in> Ks \<and> sizeof_header \<le> length d \<and> sizeof_rec_data + length k + length d \<le> L" if d: "recdb k = Some d" for k d
  proof -
    obtain p where p: "p \<in> active nodemap" "ltdb (db_of (nodes cl p) i) k = Some d" by (rule merged_from [OF RI d])
    show ?thesis using wk [OF p(1)] p(2) by (auto simp: db_works_def records_good_def)
  qed
  then have good: "records_good Ks L recdb" by (auto simp: records_good_def)
  obtain s2 cl2 where wp: "async_control w (Wipe_database i t) (list_of_active_nodes me nodemap True) None None () cl1 = Some (0, s2, cl2)"
    and kept: "\<forall>p \<in> active nodemap. node_kept i (nodes cl1 p) (nodes cl2 p)"
    using wipe_all_good [OF assms(1,2), of t i pers dbmap cl1 me] assms(5) nc by auto
  have "db_ready (nodes cl2 p) i pers \<and> freeze_mode (nodes cl2 p) (db_priority (nodes cl2 p) i) = CTDB_FREEZE_FROZEN"
    if "p \<in> active nodemap" for p
    using wk [OF that] bspec [OF kept that] node_kept_ready by (auto simp: nc db_works_def node_kept_def)
  from push_recdb_good [OF assms(1,2) good this, of me] obtain cl3 where "push_recdb_database w me i pers recdb nodemap cl2 = Some (0, cl3)" by blast
  then have rd: "recover_database w by_seqnum rm me nodemap t (i, pers) cl = Some (0, None, cl3)"
    using assms(1,3) pf wp by (auto simp: recover_database_def pull_remote_database_def world_good_def)
  have us: "db_ready (nodes cl p) i pers \<and> db_fits Ks (nodes cl p) i \<and> pnn (dmn (nodes cl p)) = p" if "p \<in> active nodemap" for p
    using wk [OF that] fits assms(5) that by (auto simp: db_works_def node_works_def)
  note D = recover_database_result [OF rd assms(3) W(1) assms(2) us]
  have "node_works Ks L t dbmap p (nodes cl3 p)" if p: "p \<in> active nodemap" for p
    by (rule node_works_kept [OF _ D(1) [OF _ p] assms(4)]) (use assms(5) p in auto)
  with rd show ?thesis by blast
qed

lemma recover_databases_good:
  assumes "world_good Ks L w" "nodemap_ok nodemap" "by_seqnum \<longrightarrow> True \<notin> snd ` set dbmap" "distinct (map fst dbmap)"
    and "\<forall>p \<in> active nodemap. node_works Ks L t dbmap p (nodes cl p)"
  shows "\<exists>cl'. recover_databases w by_seqnum rm me nodemap t dbmap cl = Some (0, None, cl') \<and>
    (\<forall>p \<in> active nodemap. node_works Ks L t [] p (nodes cl' p))"
  using assms(3-5)
proof (induction dbmap arbitrary: cl)
  case (Cons db dbmap)
  obtain i pers where db: "db = (i, pers)" by (cases db)
  have "\<not> (pers \<and> by_seqnum)" "i \<notin> fst ` set dbmap" using Cons.prems(1,2) by (auto simp: db)
  from recover_database_good [OF assms(1,2) this, of t cl rm me] Cons.prems(3) obtain cl1 where
    "recover_database w by_seqnum rm me nodemap t db cl = Some (0, None, cl1)" "\<forall>p \<in> active nodemap. node_works Ks L t dbmap p (nodes cl1 p)"
    by (auto simp: db)
  with Cons.IH [of cl1] Cons.prems(1,2) show ?case by auto
qed simp

lemma setvnnmap_good: "all_frozen n \<Longrightarrow> control_dispatch env (Setvnnmap m) n = Some (0, [], n\<lparr>dmn := (dmn n)\<lparr>vnn_map := Some m\<rparr>\<rparr>)"
  by (simp add: ctdb_control_setvnnmap_def)

lemma setvnnmap_starts:
  assumes "node_starts Ks L dbmap p n"
  shows "node_starts Ks L dbmap p (n\<lparr>dmn := (dmn n)\<lparr>vnn_map := Some m\<rparr>\<rparr>)"
proof -
  have "committed (n\<lparr>dmn := (dmn n)\<lparr>vnn_map := Some m\<rparr>\<rparr>) = committed n" by (rule committed_cong) simp_all
  then show ?thesis using assms by (auto simp: node_starts_def db_works_def db_ready_def all_frozen_def)
qed

lemma recovery_transaction_good:
  assumes "world_good Ks L w" "nodemap_ok nodemap" "by_seqnum \<longrightarrow> True \<notin> snd ` set dbmap" "distinct (map fst dbmap)"
    and "\<forall>p \<in> active nodemap. node_starts Ks L dbmap p (nodes cl p)"
  shows "\<exists>cl'. recovery_transaction w by_seqnum rm me nodemap dbmap gen cl = Some (0, None, cl') \<and> (\<forall>p \<in> active nodemap. all_frozen (nodes cl' p))"
proof -
  let ?ps = "list_of_active_nodes me nodemap True"
  note W = world_good_ok [OF assms(1)] and AN = active_nodes [OF assms(2), of me]
  have good: "env_good Ks L (node_env w e p)" for e p using assms(1) by (simp add: world_good_def)
  have start: "\<exists>n'. control_dispatch env (Transaction_start gen) (nodes cl p) = Some (0, [], n') \<and> node_works Ks L gen dbmap p n'"
    if "p \<in> active nodemap" "env_good Ks L env" for p env
    using transaction_start_good [of "start_ok env" Ks L dbmap p "nodes cl p" gen] assms(5) that by (auto simp: env_good_def)
  have "\<exists>s cl1. async_control w (Transaction_start gen) ?ps None None () cl = Some (0, s, cl1)"
    by (rule async_control_good [OF assms(1) AN(1)]) (use start AN(2) in blast)
  then obtain s1 cl1 where st: "async_control w (Transaction_start gen) ?ps None None () cl = Some (0, s1, cl1)" by blast
  have "node_works Ks L gen dbmap p (nodes cl1 p)" if p: "p \<in> active nodemap" for p
  proof -
    obtain e od where "control_dispatch (node_env w e p) (Transaction_start gen) (nodes cl p) = Some (0, od, nodes cl1 p)"
      using recov_async_ok(1) [OF st W(1) AN(1)] p AN(2) by blast
    with start [OF p good [of e p]] show ?thesis by (metis option.inject prod.inject)
  qed
  then have "\<forall>p \<in> active nodemap. node_works Ks L gen dbmap p (nodes cl1 p)" by blast
  from recover_databases_good [OF assms(1-4) this, of rm me] obtain cl2 where
    rd: "recover_databases w by_seqnum rm me nodemap gen dbmap cl1 = Some (0, None, cl2)"
    and w2: "\<forall>p \<in> active nodemap. node_works Ks L gen [] p (nodes cl2 p)" by blast
  have commit: "\<exists>n'. control_dispatch env (Transaction_commit gen) (nodes cl2 p) = Some (0, [], n') \<and> all_frozen n'"
    if "p \<in> active nodemap" "env_good Ks L env" for p env
    using transaction_commit_good [of "commit_ok env" "health_ok env" Ks L gen "[]" p "nodes cl2 p"] w2 that by (auto simp: env_good_def)
  have "\<exists>s cl3. async_control w (Transaction_commit gen) ?ps None None () cl2 = Some (0, s, cl3)"
    by (rule async_control_good [OF assms(1) AN(1)]) (use commit AN(2) in blast)
  then obtain s3 cl3 where cm: "async_control w (Transaction_commit gen) ?ps None None () cl2 = Some (0, s3, cl3)" by blast
  have "all_frozen (nodes cl3 p)" if p: "p \<in> active nodemap" for p
  proof -
    obtain e od where "control_dispatch (node_env w e p) (Transaction_commit gen) (nodes cl2 p) = Some (0, od, nodes cl3 p)"
      using recov_async_ok(1) [OF cm W(1) AN(1)] p AN(2) by blast
    with commit [OF p good [of e p]] show ?thesis by (metis option.inject prod.inject)
  qed
  then show ?thesis using st rd cm by (simp add: recovery_transaction_def Let_def)
qed

lemma update_vnnmap_good:
  assumes "world_good Ks L w" "\<forall>p \<in> active nodemap. all_frozen (nodes cl p)"
  shows "\<exists>cl'. update_vnnmap_on_all_nodes w nodemap m cl = Some (0, cl')"
  using assms(2)
proof (induction nodemap arbitrary: cl)
  case (Cons n ns)
  show ?case
  proof (cases "has_flag (nf_flags n) NODE_FLAGS_INACTIVE")
    case True
    then have "active (n # ns) = active ns" by (auto simp: active_def)
    with Cons True show ?thesis by simp
  next
    case False
    then have act: "active (n # ns) = insert (nf_pnn n) (active ns)" by (auto simp: active_def)
    obtain od cl1 where sc: "sync_control w (Setvnnmap m) (nf_pnn n) cl = Some (0, od, cl1)"
      using sync_control_good [OF assms(1), of "Setvnnmap m" cl "nf_pnn n"] setvnnmap_good Cons.prems act by auto
    have "dbs_kept (nodes cl p) (nodes cl1 p)" for p by (rule vnnmap.frame_sync [OF sc]) simp
    then have "all_frozen (nodes cl p) \<longrightarrow> all_frozen (nodes cl1 p)" for p by (simp add: dbs_kept_def all_frozen_def)
    then have "\<forall>p \<in> active ns. all_frozen (nodes cl1 p)" using Cons.prems act by blast
    from Cons.IH [OF this] sc False show ?thesis by simp
  qed
qed simp

section \<open>A recovery sends no packets\<close>

text \<open>Without read-only delegations no packet is put back into the input.\<close>

definition no_delegations :: "recov_daemon \<Rightarrow> bool" where
  "no_delegations n \<longleftrightarrow>
     (\<forall>i db. dbs (dmn n) i = Some db \<longrightarrow> \<not> readonly db) \<and>
     (\<forall>i. i \<in> set (db_list n) \<or> tdb_saved n i \<noteq> None \<longrightarrow> dbs (dmn n) i \<noteq> None)"

definition queue_kept :: "recov_daemon \<Rightarrow> recov_daemon \<Rightarrow> bool" where
  "queue_kept n n' \<longleftrightarrow> (no_delegations n \<longrightarrow> no_delegations n' \<and> queued (dmn n') = queued (dmn n) \<and> db_list n' = db_list n)"

lemma queue_kept_refl [simp]: "queue_kept n n"
  by (simp add: queue_kept_def)

lemma queue_kept_trans: "queue_kept n1 n2 \<Longrightarrow> queue_kept n2 n3 \<Longrightarrow> queue_kept n1 n3"
  by (simp add: queue_kept_def)

lemma set_db_queue: "\<not> readonly db \<Longrightarrow> queue_kept n (set_db n i db)"
  by (auto simp: queue_kept_def no_delegations_def set_db_def queued_def)

lemma cancel_queue: "queue_kept n (tdb_transaction_cancel i n)"
  by (cases "tdb_saved n i")
    (auto simp: queue_kept_def no_delegations_def tdb_transaction_cancel_def set_db_def db_of_def queued_def)

lemma cancel_all_queue: "queue_kept n (cancel_all is n)"
proof (induction "is" arbitrary: n)
  case (Cons i js)
  then show ?case using queue_kept_trans [OF cancel_queue Cons.IH] by (simp add: cancel_all_def)
qed (simp add: cancel_all_def)

lemma start_queue: "i \<in> set (db_list n) \<Longrightarrow> queue_kept n (snd (tdb_transaction_start ok i n))"
  by (auto simp: tdb_transaction_start_def queue_kept_def no_delegations_def)

lemma start_transactions_queue: "set is \<subseteq> set (db_list n) \<Longrightarrow> queue_kept n (snd (start_transactions ok is n))"
proof (induction "is" arbitrary: n)
  case (Cons i js)
  define n1 where "n1 = (if freeze_transaction_started n then tdb_transaction_cancel i n else n)"
  have n1: "queue_kept n n1" "db_list n1 = db_list n" by (auto simp: n1_def cancel_queue cancel_saved)
  define n2 where "n2 = snd (tdb_transaction_start (ok i) i n1)"
  have n2: "queue_kept n1 n2" "db_list n2 = db_list n" using start_queue [of i n1 "ok i"] Cons.prems n1(2)
    by (auto simp: n2_def tdb_transaction_start_def)
  have "snd (start_transactions ok (i # js) n) \<in> {n2, snd (start_transactions ok js n2)}"
    by (auto simp: n1_def [symmetric] n2_def split: prod.splits)
  moreover have "queue_kept n2 (snd (start_transactions ok js n2))" by (rule Cons.IH) (use Cons.prems n2(2) in auto)
  moreover note queue_kept_trans [OF n1(1) n2(1)] queue_kept_trans [OF queue_kept_trans [OF n1(1) n2(1)] this]
  ultimately show ?case by auto
qed simp

lemma commit_transactions_queue: "queue_kept n (snd (commit_transactions ok health is n))"
proof (induction "is" arbitrary: n)
  case (Cons i js)
  obtain r n1 where c: "tdb_transaction_commit (ok i) i n = (r, n1)" by fastforce
  have "queue_kept n (n\<lparr>tdb_saved := (tdb_saved n)(i := None)\<rparr>)" by (simp add: queue_kept_def no_delegations_def)
  then have "queue_kept n n1" using c cancel_queue [of n i] by (auto simp: tdb_transaction_commit_def split: if_splits)
  from this queue_kept_trans [OF this Cons.IH] show ?case by (simp add: c)
qed simp

lemma flags_queue [simp]:
  "queue_kept n (n'\<lparr>freeze_transaction_started := b\<rparr>) = queue_kept n n'"
  "queue_kept n (n'\<lparr>freeze_transaction_started := b, freeze_transaction_id := t\<rparr>) = queue_kept n n'"
  by (auto simp: queue_kept_def no_delegations_def)

lemma store_readonly:
  assumes "ctdb_ltdb_store w ctdb db k h d = (ret, h', db')"
  shows "readonly db' = readonly db"
proof (cases "ctdb_ltdb_store_fn db")
  case True
  then have "\<exists>H K S R. store_record w ctdb db k H d K S R = (ret, h', db')"
    using assms by (auto simp: ctdb_ltdb_store_def ctdb_ltdb_store_server_def Let_def split: option.splits prod.splits)
  then obtain H K S R where "store_record w ctdb db k H d K S R = (ret, h', db')" by blast
  from store_record_result(2) [OF this] show ?thesis by (simp add: db_same_def)
next
  case False
  then show ?thesis using assms by (auto simp: ctdb_ltdb_store_def tdb_store_def Let_def split: if_splits)
qed

lemma push_record_readonly: "push_record w ctdb k d db = (b, db') \<Longrightarrow> readonly db' = readonly db"
  by (auto simp: push_record_def Let_def store_readonly split: if_splits prod.splits)

lemma for_records_keeps:
  assumes "for_records body bs p n s = Some (b, s')" "\<And>k d s b s'. body k d s = (b, s') \<Longrightarrow> Q s \<Longrightarrow> Q s'" "Q s"
  shows "Q s'"
  using assms(1,3)
proof (induction n arbitrary: p s)
  case (Suc n)
  from Suc.prems(1) obtain q r h key data where nx: "read_rec bs p False = Next q r h key data"
    by (auto split: loop_next.splits)
  obtain c s1 where c: "body key data s = (c, s1)" by fastforce
  have "Q s1" by (rule assms(2) [OF c Suc.prems(2)])
  then show ?case using Suc nx c by (auto split: bool.splits)
qed simp

lemma push_db_queue:
  assumes "ctdb_control_push_db env indata n = Some (ret, n')"
  shows "queue_kept n n'"
proof (cases "n' = n")
  case False
  let ?i = "m_db_id (buffer_of_bytes indata)"
  from assms False obtain db b db1 where db: "dbs (dmn n) ?i = Some db"
    and fr: "for_records (push_record (node_io env) (dmn n)) (m_data (buffer_of_bytes indata)) 0 (unat (m_count (buffer_of_bytes indata))) db = Some (b, db1)"
    and n': "n' = (if b then case forget_delegations (rot_wipe_ok env) (dmn n) db1 of (ctdb, db2) \<Rightarrow> set_db (n\<lparr>dmn := ctdb\<rparr>) ?i db2
                   else set_db n ?i db1)"
    by (auto simp: ctdb_control_push_db_def find_ctdb_db_def Let_def split: if_splits option.splits prod.splits bool.splits)
  have "readonly db1 = readonly db"
    by (rule for_records_keeps [OF fr, where Q = "\<lambda>db1. readonly db1 = readonly db"]) (auto dest: push_record_readonly)
  then have "no_delegations n \<Longrightarrow> \<not> readonly db1" using db by (auto simp: no_delegations_def)
  moreover have "\<not> readonly db1 \<Longrightarrow> n' = set_db n ?i db1" by (simp add: n' forget_delegations_def)
  ultimately show ?thesis using set_db_queue [of db1 n ?i] by (auto simp: queue_kept_def)
qed simp

lemma fetch_readonly:
  "readonly (snd (snd (snd (ctdb_ltdb_fetch w ctdb db k h)))) = readonly db"
proof -
  have "readonly (snd (snd (ctdb_ltdb_store w ctdb db k h' d))) = readonly db" for h' d
    by (cases "ctdb_ltdb_store w ctdb db k h' d") (simp add: store_readonly)
  then show ?thesis by (simp add: ctdb_ltdb_fetch_def Let_def split_beta split: option.split)
qed

lemma get_db_seqnum_daemon:
  "snd (snd (ctdb_control_get_db_seqnum w i ctdb)) =
     (case dbs ctdb i of None \<Rightarrow> ctdb
      | Some db \<Rightarrow> ctdb\<lparr>dbs := (dbs ctdb)(i \<mapsto> snd (snd (snd (ctdb_ltdb_fetch w ctdb db (CTDB_DB_SEQNUM_KEY @ [0]) zero_header))))\<rparr>)"
  by (simp add: ctdb_control_get_db_seqnum_def ctdb_get_db_seqnum_def find_ctdb_db_def Let_def split_beta split: option.split)

lemma get_db_seqnum_queue: "queue_kept n (n\<lparr>dmn := snd (snd (ctdb_control_get_db_seqnum w i (dmn n)))\<rparr>)"
proof (cases "dbs (dmn n) i")
  case None
  then show ?thesis by (simp add: get_db_seqnum_daemon)
next
  case (Some db)
  let ?db = "snd (snd (snd (ctdb_ltdb_fetch w (dmn n) db (CTDB_DB_SEQNUM_KEY @ [0]) zero_header)))"
  have "n\<lparr>dmn := snd (snd (ctdb_control_get_db_seqnum w i (dmn n)))\<rparr> = set_db n i ?db" by (simp add: get_db_seqnum_daemon Some set_db_def)
  moreover have "no_delegations n \<Longrightarrow> \<not> readonly db" using Some by (simp add: no_delegations_def)
  ultimately show ?thesis using set_db_queue [of ?db n i] fetch_readonly [of w "dmn n" db] by (simp add: queue_kept_def)
qed

interpretation queue: control_frame "\<lambda>c. True" queue_kept
proof unfold_locales
  show "queue_kept n1 n3" if "queue_kept n1 n2" "queue_kept n2 n3" for n1 n2 n3 by (rule queue_kept_trans [OF that])
  show "queue_kept n n'" if d: "control_dispatch env c n = Some (st, od, n')" for c env n st od n'
  proof (cases c)
    case (Push_db bs)
    then show ?thesis using d push_db_queue by auto
  next
    case (Wipe_database i t)
    then show ?thesis using d
      by (auto simp: ctdb_control_wipe_database_def find_ctdb_db_def Let_def queue_kept_def no_delegations_def set_db_def queued_def
        split: if_splits option.splits)
  next
    case (Transaction_start t)
    then show ?thesis using d start_transactions_queue [of "db_list n" n "start_ok env"]
      by (auto simp: ctdb_control_transaction_start_def split: prod.splits if_splits)
  next
    case Transaction_cancel
    then show ?thesis using d cancel_all_queue by (auto simp: ctdb_control_transaction_cancel_def)
  next
    case (Transaction_commit t)
    obtain r n1 where c: "commit_transactions (commit_ok env) (health_ok env) (db_list n) n = (r, n1)" by fastforce
    have "queue_kept n n1" using commit_transactions_queue [of n "commit_ok env" "health_ok env" "db_list n"] c by simp
    then show ?thesis using d c Transaction_commit queue_kept_trans [OF _ cancel_all_queue]
      by (auto simp: ctdb_control_transaction_commit_def split: if_splits)
  next
    case (Get_db_seqnum i)
    then have "n' = n\<lparr>dmn := snd (snd (ctdb_control_get_db_seqnum (node_io env) i (dmn n)))\<rparr>" using d by (simp add: split_beta)
    then show ?thesis using get_db_seqnum_queue by simp
  next
    case (Setvnnmap m)
    then show ?thesis using d by (auto simp: ctdb_control_setvnnmap_def queue_kept_def no_delegations_def queued_def split: if_splits)
  qed (use d in auto)
qed simp

lemma recovery_transaction_queue:
  assumes "recovery_transaction w by_seqnum rm me nodemap dbmap gen cl = Some (ret, c, cl')"
  shows "queue_kept (nodes cl p) (nodes cl' p)"
proof -
  let ?ps = "list_of_active_nodes me nodemap True"
  from assms obtain r1 s1 cl1 where st: "async_control w (Transaction_start gen) ?ps None None () cl = Some (r1, s1, cl1)"
    by (auto simp: recovery_transaction_def Let_def split: option.splits)
  note A = queue.frame_async [OF st TrueI, of p]
  show ?thesis
  proof (cases "r1 = 0")
    case False
    with assms st obtain r2 s2 where "async_control w Transaction_cancel ?ps None None () cl1 = Some (r2, s2, cl')"
      by (auto simp: recovery_transaction_def Let_def)
    from queue_kept_trans [OF A queue.frame_async [OF this TrueI]] show ?thesis .
  next
    case True
    with assms st obtain r2 c2 cl2 where rd: "recover_databases w by_seqnum rm me nodemap gen dbmap cl1 = Some (r2, c2, cl2)"
      by (auto simp: recovery_transaction_def Let_def split: option.splits)
    note B = queue_kept_trans [OF A queue.frame_recover_databases [OF rd TrueI TrueI TrueI TrueI]]
    from assms st True rd have "cl' = cl2 \<or> (\<exists>r3 s3. async_control w (Transaction_commit gen) ?ps None None () cl2 = Some (r3, s3, cl'))"
      by (auto simp: recovery_transaction_def Let_def split: if_splits)
    then show ?thesis
    proof
      assume "\<exists>r3 s3. async_control w (Transaction_commit gen) ?ps None None () cl2 = Some (r3, s3, cl')"
      then obtain r3 s3 where c: "async_control w (Transaction_commit gen) ?ps None None () cl2 = Some (r3, s3, cl')" by blast
      from queue_kept_trans [OF B queue.frame_async [OF c TrueI]] show ?thesis .
    qed (use B in simp)
  qed
qed

lemma do_recovery_queue:
  assumes "do_recovery_databases w by_seqnum rm me nodemap caps dbmap vnnmap gen1 gen2 cl = Some (0, culprit, cl')"
  shows "queue_kept (nodes cl p) (nodes cl' p)"
proof -
  from assms obtain od c2 cl1 cl2 where
    a: "sync_control w (Setvnnmap (vnnmap\<lparr>generation := gen1\<rparr>)) me cl = Some (0, od, cl1)"
    and b: "recovery_transaction w by_seqnum rm me nodemap dbmap gen1 cl1 = Some (0, c2, cl2)"
    and c: "update_vnnmap_on_all_nodes w nodemap (build_vnnmap caps nodemap me gen2) cl2 = Some (0, cl')"
    by (auto simp: do_recovery_databases_def split: option.splits if_splits)
  from queue_kept_trans [OF queue_kept_trans [OF queue.frame_sync [OF a TrueI] recovery_transaction_queue [OF b]]
      queue.frame_update_vnnmap [OF c TrueI]]
  show ?thesis .
qed

section \<open>Properties\<close>

lemma do_recovery_good:
  assumes "world_good Ks L w" "nodemap_ok nodemap" "by_seqnum \<longrightarrow> True \<notin> snd ` set dbmap" "distinct (map fst dbmap)"
    and "\<forall>p \<in> active nodemap. node_starts Ks L dbmap p (nodes cl p)" "me \<in> active nodemap"
  shows "\<exists>cl'. do_recovery_databases w by_seqnum rm me nodemap caps dbmap vnnmap gen1 gen2 cl = Some (0, None, cl')"
proof -
  let ?m = "vnnmap\<lparr>generation := gen1\<rparr>"
  have fr: "all_frozen (nodes cl me)" using assms(5,6) by (simp add: node_starts_def)
  obtain od cl1 where s1: "sync_control w (Setvnnmap ?m) me cl = Some (0, od, cl1)"
    using sync_control_good [OF assms(1), of "Setvnnmap ?m" cl me] setvnnmap_good [OF fr] by auto
  have "node_starts Ks L dbmap p (nodes cl1 p)" if p: "p \<in> active nodemap" for p
  proof (cases "p = me")
    case True
    obtain t where "control_dispatch (node_env w t me) (Setvnnmap ?m) (nodes cl me) = Some (0, od, nodes cl1 me)"
      using sync_control_ok(1) [OF s1] by blast
    then have "nodes cl1 me = (nodes cl me)\<lparr>dmn := (dmn (nodes cl me))\<lparr>vnn_map := Some ?m\<rparr>\<rparr>" using setvnnmap_good [OF fr] by simp
    then show ?thesis using setvnnmap_starts assms(5) p True by auto
  next
    case False
    then show ?thesis using sync_control_ok(2) [OF s1] assms(5) p by simp
  qed
  then have "\<forall>p \<in> active nodemap. node_starts Ks L dbmap p (nodes cl1 p)" by blast
  from recovery_transaction_good [OF assms(1-4) this, of rm me gen1] obtain cl2 where
    rt: "recovery_transaction w by_seqnum rm me nodemap dbmap gen1 cl1 = Some (0, None, cl2)" and "\<forall>p \<in> active nodemap. all_frozen (nodes cl2 p)"
    by blast
  with update_vnnmap_good [OF assms(1)] obtain cl3 where
    "update_vnnmap_on_all_nodes w nodemap (build_vnnmap caps nodemap me gen2) cl2 = Some (0, cl3)" by blast
  with s1 rt show ?thesis by (simp add: do_recovery_databases_def)
qed

lemma starts_ready:
  assumes "world_good Ks L w" "node_starts Ks L dbmap p n"
  shows "recov_ready Ks dbmap p n"
proof -
  have "i \<in> set (db_list n) \<and> db_ready n i pers \<and> dom (committed n i) \<subseteq> Ks \<and> (\<forall>k d. committed n i k = Some d \<longrightarrow> entry_fits (k, d))"
    if "(i, pers) \<in> set dbmap" for i pers
  proof -
    have "db_works Ks L n (committed n i) (i, pers)" using assms(2) that by (force simp: node_starts_def)
    then show ?thesis using records_fit(1) [OF assms(1), of "committed n i"] by (auto simp: db_works_def records_good_def)
  qed
  then show ?thesis using assms(2) by (auto simp: recov_ready_def node_starts_def)
qed



lemma lmaster_member: "vmap m \<noteq> [] \<Longrightarrow> ctdb_lmaster m K \<in> set (vmap m)"
  by (simp add: ctdb_lmaster_def)

text \<open>A database whose nodes all have the recovered copy has one data master, whom the location master knows.\<close>

lemma recovered_current:
  assumes "\<And>p. unat p < N \<Longrightarrow> ltdb (copy D (cl p)) K = Option.bind x (recovered False me p)"
    and "unat me < N" "unat (ctdb_lmaster m K) < N" "in_flight N K cl = {#}" "\<And>r. x = Some r \<Longrightarrow> sizeof_header \<le> length r"
  shows "current N m D K cl (case x of None \<Rightarrow> [] | Some r \<Rightarrow> drop sizeof_header r)"
proof (cases "\<exists>r. x = Some r \<and> sizeof_header < length r")
  case True
  then obtain r where r: "x = Some r" "sizeof_header < length r" by blast
  have c: "\<exists>h. ltdb (copy D (cl p)) K = Some (bytes_of_header h @ drop sizeof_header r) \<and> dmaster h = me" if "unat p < N" for p
    using assms(1) [OF that] r by (auto simp: recovered_def pushed_def prepared_def stripped_def Let_def)
  have "dm_at m D K cl p = me" "val_at D K cl p = drop sizeof_header r" if p: "unat p < N" for p
    using c [OF p] copy_stored [of "copy D (cl p)" K] by (auto simp: dm_at_def val_at_def)
  then show ?thesis using current.at_node [of me N K cl m D] assms(2-4) r(1) by auto
next
  case False
  then have "Option.bind x (recovered False me p) = None" for p by (cases x) (auto simp: recovered_def)
  then have "dm_at m D K cl p = ctdb_lmaster m K" "val_at D K cl p = []" if "unat p < N" for p
    using assms(1) [OF that] copy_missing [of "copy D (cl p)" K] by (auto simp: dm_at_def val_at_def)
  moreover have "(case x of None \<Rightarrow> [] | Some r \<Rightarrow> drop sizeof_header r) = []" using False by (auto split: option.splits)
  ultimately show ?thesis using current.at_node [of "ctdb_lmaster m K" N K cl m D] assms(3,4) by auto
qed

lemma newest_length:
  assumes "newest rm S x" "\<forall>r \<in> S. sizeof_header \<le> length r"
  shows "\<And>r. x = Some r \<Longrightarrow> sizeof_header \<le> length r"
  using assms by (auto simp: newest_def)


definition ex_header :: "u64 \<Rightarrow> u32 \<Rightarrow> ctdb_ltdb_header" where
  "ex_header r d = \<lparr>rsn = r, dmaster = d, reserved1 = 0, hflags = 0\<rparr>"

definition ex_content :: "u32 \<Rightarrow> content" where
  "ex_content p = [[9] \<mapsto> bytes_of_header (ex_header (if p = 0 then 5 else 6) p) @ [if p = 0 then 1 else 2]]"

definition ex_recov :: "u32 \<Rightarrow> recov_daemon" where
  "ex_recov p = \<lparr>dmn = (ex_daemon p)\<lparr>dbs := [7 \<mapsto> ex_call_db\<lparr>ltdb := ex_content p\<rparr>]\<rparr>, freeze_mode = (\<lambda>i. CTDB_FREEZE_FROZEN),
     freeze_handles = (\<lambda>i. Some []), freeze_transaction_started = False, freeze_transaction_id = 0,
     db_list = [7], db_priority = (\<lambda>i. 1), tdb_saved = Map.empty, control_replies = []\<rparr>"

definition ex_order :: "content \<Rightarrow> u8 list list" where
  "ex_order m = (case m [9] of None \<Rightarrow> [] | Some r \<Rightarrow> [[9]])"

definition ex_node_env :: recov_env where
  "ex_node_env = \<lparr>node_io = (\<lambda>k r. True), order = ex_order, lockall_ok = True, traverse_ok = True, rot_wipe_ok = True,
     start_ok = (\<lambda>i. True), commit_ok = (\<lambda>i. True), health_ok = (\<lambda>i. True), wipe_ok = (\<lambda>i. True), pulldb_preallocation_size = 100\<rparr>"

definition ex_world :: recov_world where
  "ex_world = \<lparr>fate_of = (\<lambda>t p. Answered), node_env = (\<lambda>t p. ex_node_env), arrival = (\<lambda>t rs. rev rs), create_ok = (\<lambda>t. True),
     recdb_io = (\<lambda>k r. True), recdb_order = ex_order, recdb_traverse_ok = (\<lambda>t. True), rec_preallocation_size = 100\<rparr>"

definition ex_nodemap :: ctdb_node_map where
  "ex_nodemap = [\<lparr>nf_pnn = 0, nf_flags = 0, nf_addr = Inet 0 1\<rparr>, \<lparr>nf_pnn = 1, nf_flags = 0, nf_addr = Inet 0 2\<rparr>]"

definition ex_cluster :: recov_cluster where
  "ex_cluster = \<lparr>nodes = ex_recov, controls_sent = 0\<rparr>"

lemma ex_orders: "orders {[9]} ex_order"
  by (auto simp: orders_def ex_order_def dom_def split: option.splits)

lemma ex_world_good: "world_good {[9]} 100 ex_world"
  by (auto simp: world_good_def world_ok_def env_good_def ex_world_def ex_node_env_def ex_orders sizeof_marshall_buffer_def)

lemma two_nodes: "unat p < 2 \<longleftrightarrow> p = 0 \<or> p = 1" for p :: u32
  by (auto simp: less_2_cases_iff word_unat_eq_iff)

lemma ex_active: "active ex_nodemap = {p. unat p < 2}" "nodemap_ok ex_nodemap"
proof -
  show "active ex_nodemap = {p. unat p < 2}" 
    unfolding active_def set_filter [symmetric] by (auto simp: ex_nodemap_def two_nodes)
  show "nodemap_ok ex_nodemap" by (simp add: nodemap_ok_def ex_nodemap_def)
qed

lemma ex_records: "records_good {[9]} 100 (ex_content p)"
  by (auto simp: records_good_def ex_content_def sizeof_header_def sizeof_rec_data_def)

lemma ex_committed: "committed (ex_recov p) 7 = ex_content p"
  by (simp add: committed_def db_of_def ex_recov_def)

lemma ex_starts: "node_starts {[9]} 100 [(7, False)] p (ex_recov p)"
  using ex_records [of p] ex_committed [of p]
  by (simp add: node_starts_def db_works_def db_ready_def all_frozen_def)
    (simp add: ex_recov_def ex_daemon_def ex_call_db_def)

lemma ex_ready: "recov_ready {[9]} [(7, False)] p (ex_recov p)"
  using ex_records [of p] records_fit(1) [OF ex_world_good ex_records, of p] ex_committed [of p]
  by (simp add: recov_ready_def db_ready_def records_good_def) (simp add: ex_recov_def ex_daemon_def ex_call_db_def)

lemma ex_recovery: "\<exists>cl'. do_recovery_databases ex_world True 0 0 ex_nodemap [2, 2] [(7, False)] ex_map 5 6 ex_cluster = Some (0, None, cl')"
  by (rule do_recovery_good [OF ex_world_good ex_active(2)]) (simp_all add: ex_starts ex_active(1) ex_cluster_def)

lemma ex_nodemap_length: "length ex_nodemap = 2"
  by (simp add: ex_nodemap_def)

lemmas ex_hyps = ex_nodemap_length ex_world_good ex_active ex_starts ex_ready ex_cluster_def world_good_ok(1) [OF ex_world_good]



lemma ex_newest: "newest 0 {r. \<exists>p. unat p < 2 \<and> ex_content p [9] = Some r} x \<Longrightarrow> x = ex_content 1 [9]"
proof -
  assume n: "newest 0 {r. \<exists>p. unat p < 2 \<and> ex_content p [9] = Some r} x"
  have "unat (1 :: u32) < 2" by simp
  then have one: "the (ex_content 1 [9]) \<in> {r. \<exists>p. unat p < 2 \<and> ex_content p [9] = Some r}"
    by (auto simp: ex_content_def intro!: exI [of _ 1])
  show ?thesis
  proof (cases x)
    case None
    then show ?thesis using n one by (auto simp: newest_def)
  next
    case (Some r)
    then obtain p :: u32 where p: "unat p < 2" "ex_content p [9] = Some r" using n by (auto simp: newest_def)
    have "rsn_of (the (ex_content 1 [9])) \<le> rsn_of r" using n one Some by (auto simp: newest_def)
    then have "p \<noteq> 0" using p(2) by (auto simp: ex_content_def ex_header_def)
    then show ?thesis using p Some by (simp add: two_nodes)
  qed
qed


section \<open>Sequence numbers of persistent databases\<close>

lemma low_byte: "u64_of_bytes ((bytes_of_u64 0)[0 := ucast s]) = s AND mask 8" for s :: u64
proof -
  have "(bytes_of_u64 0)[0 := ucast s] = [ucast s, 0, 0, 0, 0, 0, 0, 0]" by (simp add: bytes_of_u64_def bytes_of_u32_def)
  moreover have "u64_of_bytes [ucast s, 0, 0, 0, 0, 0, 0, 0] = s AND mask 8"
    by (rule bit_word_eqI) (auto simp: u64_of_bytes_def bit_and_iff bit_mask_iff bit_unsigned_iff)
  ultimately show ?thesis by simp
qed

text \<open>
  C40: the answer to a request for the sequence number of a database holds its lowest byte only, because the control
  assigns the number through a pointer to bytes.  So the recovery of persistent databases by sequence number compares
  the numbers modulo 256, and a database with the number 256 counts as one that never was written.
\<close>

theorem db_seqnum_low_byte:
  assumes "ctdb_get_db_seqnum w ctdb i = (0, Some s, ctdb')"
  shows "\<exists>od. ctdb_control_get_db_seqnum w i ctdb = (0, od, ctdb') \<and> length od = 8 \<and> u64_of_bytes od = s AND mask 8 \<and>
    pull_seqnum_cb p 0 od \<lparr>sq_failed = 0, sq_pnn = q, sq_seqnum = t\<rparr> =
      (if s AND mask 8 > t then \<lparr>sq_failed = 0, sq_pnn = p, sq_seqnum = s AND mask 8\<rparr> else \<lparr>sq_failed = 0, sq_pnn = q, sq_seqnum = t\<rparr>)"
  using assms by (simp add: ctdb_control_get_db_seqnum_def low_byte pull_seqnum_cb_def Let_def)

definition ex_seqnum :: "u64 \<Rightarrow> ctdb_daemon" where
  "ex_seqnum s = (ex_daemon 0)\<lparr>dbs := [7 \<mapsto> ex_call_db\<lparr>ltdb := [CTDB_DB_SEQNUM_KEY @ [0] \<mapsto> bytes_of_header zero_header @ bytes_of_u64 s]\<rparr>]\<rparr>"

lemma ex_seqnum_get: "\<exists>d. ctdb_get_db_seqnum (\<lambda>k r. True) (ex_seqnum s) 7 = (0, Some s, d)"
  by (simp add: ctdb_get_db_seqnum_def find_ctdb_db_def ex_seqnum_def ctdb_ltdb_fetch_def Let_def)

theorem db_seqnum_low_byte_witness:
  "\<exists>od od' d d'. ctdb_control_get_db_seqnum (\<lambda>k r. True) 7 (ex_seqnum 256) = (0, od, d) \<and> u64_of_bytes od = 0 \<and>
     ctdb_control_get_db_seqnum (\<lambda>k r. True) 7 (ex_seqnum 1) = (0, od', d') \<and> u64_of_bytes od' = 1"
proof -
  obtain d d' where "ctdb_get_db_seqnum (\<lambda>k r. True) (ex_seqnum 256) 7 = (0, Some 256, d)"
    "ctdb_get_db_seqnum (\<lambda>k r. True) (ex_seqnum 1) 7 = (0, Some 1, d')" using ex_seqnum_get by blast
  from this [THEN db_seqnum_low_byte [where p = 0 and q = 0 and t = 0]] show ?thesis by (auto simp: mask_eq_exp_minus_1)
qed

end
