(* ===== verification/Freeze_Correct.thy ===== *)
theory Freeze_Correct
  imports Recovery_Live "HOL-Library.Multiset"
begin

text \<open>
  The freeze of the databases is a state machine: requests of other nodes, answers of the child that takes the locks,
  and the transactions of a recovery come in any order.  The theory shows that the modes and the handles stay
  consistent and that no request that waits for a freeze is lost or answered twice; and it shows one sequence of steps
  that leaves a transaction of a database open.
\<close>

section \<open>Requests that wait for a freeze\<close>

definition waiters :: "recov_daemon \<Rightarrow> nat \<Rightarrow> u32 list" where
  "waiters n p = (case freeze_handles n p of None \<Rightarrow> [] | Some ws \<Rightarrow> ws)"

definition waiting :: "recov_daemon \<Rightarrow> u32 multiset" where
  "waiting n = (\<Sum>p = 1..NUM_DB_PRIORITIES. mset (waiters n p))"

text \<open>
  The mode of a priority and its handle belong together: there is a handle unless the priority is not frozen, and
  nobody waits for a freeze that is complete.
\<close>

definition freeze_ok :: "recov_daemon \<Rightarrow> bool" where
  "freeze_ok n \<longleftrightarrow>
     (\<forall>p. (freeze_handles n p = None \<longleftrightarrow> freeze_mode n p = CTDB_FREEZE_NONE) \<and>
        (freeze_mode n p = CTDB_FREEZE_FROZEN \<longrightarrow> freeze_handles n p = Some []) \<and>
        (p < 1 \<or> p > NUM_DB_PRIORITIES \<longrightarrow> freeze_handles n p = None))"

text \<open>The operations on a daemon; the list holds the requests that were told to wait for their answer.\<close>

inductive freeze_step :: "recov_daemon \<times> u32 list \<Rightarrow> recov_daemon \<times> u32 list \<Rightarrow> bool" where
  freeze: "ctdb_control_freeze lock_ok c srvid n = Some (ret, async, n') \<Longrightarrow>
    freeze_step (n, acc) (n', if async then c # acc else acc)"
| locked: "freeze_handles n p \<noteq> None \<Longrightarrow> freeze_step (n, acc) (ctdb_freeze_lock_handler p b n, acc)"
| thaw: "ctdb_control_thaw new p n = (ret, n') \<Longrightarrow> freeze_step (n, acc) (n', acc)"
| transaction_start: "ctdb_control_transaction_start ok t n = (ret, n') \<Longrightarrow> freeze_step (n, acc) (n', acc)"
| transaction_cancel: "ctdb_control_transaction_cancel n = (ret, n') \<Longrightarrow> freeze_step (n, acc) (n', acc)"
| transaction_commit: "ctdb_control_transaction_commit ok health t n = (ret, n') \<Longrightarrow> freeze_step (n, acc) (n', acc)"
| wipe: "ctdb_control_wipe_database ok i t n = (ret, n') \<Longrightarrow> freeze_step (n, acc) (n', acc)"

inductive_cases freeze_stepE: "freeze_step s s'"

definition freeze_inv :: "recov_daemon \<times> u32 list \<Rightarrow> bool" where
  "freeze_inv s \<longleftrightarrow> (case s of (n, acc) \<Rightarrow> freeze_ok n \<and> mset acc = waiting n + mset (map fst (control_replies n)))"

text \<open>What transactions leave alone.\<close>

definition freeze_same :: "recov_daemon \<Rightarrow> recov_daemon \<Rightarrow> bool" where
  "freeze_same n n' \<longleftrightarrow> freeze_mode n' = freeze_mode n \<and> freeze_handles n' = freeze_handles n \<and> control_replies n' = control_replies n"

named_theorems freeze_frame

lemma freeze_same_inv:
  assumes "freeze_same n n'" "freeze_inv (n, acc)"
  shows "freeze_inv (n', acc)"
proof -
  have e: "freeze_mode n' = freeze_mode n" "freeze_handles n' = freeze_handles n" "control_replies n' = control_replies n"
    using assms(1) by (simp_all add: freeze_same_def)
  have "freeze_ok n' = freeze_ok n" by (simp only: freeze_ok_def e)
  moreover have "waiting n' = waiting n" by (simp only: waiting_def waiters_def e)
  ultimately show ?thesis using assms(2) by (simp add: freeze_inv_def e)
qed

lemma freeze_same_refl [simp]: "freeze_same n n"
  by (simp add: freeze_same_def)

lemma freeze_same_trans: "freeze_same n1 n2 \<Longrightarrow> freeze_same n2 n3 \<Longrightarrow> freeze_same n1 n3"
  by (simp add: freeze_same_def)

lemma cancel_freeze [freeze_frame]: "freeze_same n (tdb_transaction_cancel i n)"
  by (auto simp: freeze_same_def tdb_transaction_cancel_def set_db_def split: option.splits)

lemma cancel_all_freeze [freeze_frame]: "freeze_same n (cancel_all is n)"
proof (induction "is" arbitrary: n)
  case (Cons i js)
  then show ?case using freeze_same_trans [OF cancel_freeze Cons.IH] by (simp add: cancel_all_def)
qed (simp add: cancel_all_def)

lemma flag_freeze [simp]:
  "freeze_same n (n'\<lparr>freeze_transaction_started := b\<rparr>) = freeze_same n n'"
  "freeze_same n (n'\<lparr>freeze_transaction_started := b, freeze_transaction_id := t\<rparr>) = freeze_same n n'"
  by (simp_all add: freeze_same_def)

lemma start_transactions_freeze [freeze_frame]: "freeze_same n (snd (start_transactions ok is n))"
proof (induction "is" arbitrary: n)
  case (Cons i js)
  let ?n1 = "if freeze_transaction_started n then tdb_transaction_cancel i n else n"
  have a: "freeze_same n ?n1" by (simp add: cancel_freeze)
  have b: "freeze_same ?n1 (snd (tdb_transaction_start (ok i) i ?n1))" by (simp add: tdb_transaction_start_def freeze_same_def)
  note c = freeze_same_trans [OF a b]
  show ?case using c freeze_same_trans [OF c Cons.IH] by (auto simp: Let_def split: prod.splits)
qed simp

lemma commit_transactions_freeze [freeze_frame]: "freeze_same n (snd (commit_transactions ok health is n))"
proof (induction "is" arbitrary: n)
  case (Cons i js)
  have a: "freeze_same n (snd (tdb_transaction_commit (ok i) i n))"
    using cancel_freeze [of n i] by (simp add: tdb_transaction_commit_def freeze_same_def)
  show ?case using a freeze_same_trans [OF a Cons.IH] by (auto split: prod.splits)
qed simp

lemma controls_freeze [freeze_frame]:
  "freeze_same n (snd (ctdb_control_transaction_start ok t n))"
  "freeze_same n (snd (ctdb_control_transaction_cancel n))"
  "freeze_same n (snd (ctdb_control_transaction_commit ok health t n))"
  "freeze_same n (snd (ctdb_control_wipe_database w i t n))"
proof -
  show "freeze_same n (snd (ctdb_control_transaction_start ok t n))"
    using start_transactions_freeze [of n ok "db_list n"] by (auto simp: ctdb_control_transaction_start_def split: prod.splits)
  show "freeze_same n (snd (ctdb_control_transaction_cancel n))"
    by (simp add: ctdb_control_transaction_cancel_def cancel_all_freeze)
  obtain r n1 where c: "commit_transactions ok health (db_list n) n = (r, n1)" by fastforce
  have "freeze_same n n1" using commit_transactions_freeze [of n ok health "db_list n"] c by simp
  then show "freeze_same n (snd (ctdb_control_transaction_commit ok health t n))"
    using freeze_same_trans [OF _ cancel_all_freeze] c by (simp add: ctdb_control_transaction_commit_def)
  show "freeze_same n (snd (ctdb_control_wipe_database w i t n))"
    by (auto simp: ctdb_control_wipe_database_def find_ctdb_db_def set_db_def freeze_same_def Let_def split: option.splits)
qed

text \<open>Changing the handle of one priority.\<close>

lemma freeze_okD:
  assumes "freeze_ok n"
  shows "freeze_handles n p = None \<longleftrightarrow> freeze_mode n p = CTDB_FREEZE_NONE" "freeze_mode n p = CTDB_FREEZE_FROZEN \<Longrightarrow> freeze_handles n p = Some []"
    "p < 1 \<or> p > NUM_DB_PRIORITIES \<Longrightarrow> freeze_handles n p = None"
proof -
  note a = assms [unfolded freeze_ok_def, THEN spec, of p]
  show "freeze_handles n p = None \<longleftrightarrow> freeze_mode n p = CTDB_FREEZE_NONE" by (rule conjunct1 [OF a])
  show "freeze_mode n p = CTDB_FREEZE_FROZEN \<Longrightarrow> freeze_handles n p = Some []" by (rule mp [OF conjunct1 [OF conjunct2 [OF a]]])
  show "p < 1 \<or> p > NUM_DB_PRIORITIES \<Longrightarrow> freeze_handles n p = None" by (rule mp [OF conjunct2 [OF conjunct2 [OF a]]])
qed

lemma handle_priority:
  assumes "freeze_inv (n, acc)" "freeze_handles n p \<noteq> None"
  shows "p \<in> {1..NUM_DB_PRIORITIES}"
proof (rule ccontr)
  assume "p \<notin> {1..NUM_DB_PRIORITIES}"
  then have "p < 1 \<or> p > NUM_DB_PRIORITIES" by auto
  then show False using freeze_okD(3) [of n p] assms by (simp add: freeze_inv_def)
qed

lemma waiting_upd:
  assumes "p \<in> {1..NUM_DB_PRIORITIES}" "freeze_handles n' = (freeze_handles n)(p := h)"
  shows "waiting n' + mset (waiters n p) = waiting n + mset (case h of None \<Rightarrow> [] | Some ws \<Rightarrow> ws)"
proof -
  have "waiting n = mset (waiters n p) + (\<Sum>q \<in> {1..NUM_DB_PRIORITIES} - {p}. mset (waiters n q))"
    unfolding waiting_def by (rule sum.remove) (use assms(1) in simp_all)
  moreover have "waiting n' = mset (waiters n' p) + (\<Sum>q \<in> {1..NUM_DB_PRIORITIES} - {p}. mset (waiters n' q))"
    unfolding waiting_def by (rule sum.remove) (use assms(1) in simp_all)
  moreover have "(\<Sum>q \<in> {1..NUM_DB_PRIORITIES} - {p}. mset (waiters n' q)) = (\<Sum>q \<in> {1..NUM_DB_PRIORITIES} - {p}. mset (waiters n q))"
    by (rule sum.cong) (auto simp: waiters_def assms(2))
  ultimately show ?thesis by (simp add: waiters_def assms(2))
qed

lemma destructor_freeze:
  "freeze_mode (ctdb_freeze_handle_destructor p n) = (freeze_mode n)(p := CTDB_FREEZE_NONE)"
  "freeze_handles (ctdb_freeze_handle_destructor p n) = (freeze_handles n)(p := None)"
  "control_replies (ctdb_freeze_handle_destructor p n) = control_replies n"
  using cancel_all_freeze [of n "filter (\<lambda>i. db_priority n i = p) (db_list n)"]
  by (simp_all add: ctdb_freeze_handle_destructor_def Let_def freeze_same_def)

lemma free_handle_inv: "freeze_inv (n, acc) \<Longrightarrow> freeze_inv (free_handle p n, acc)"
proof (cases "freeze_handles n p")
  case (Some ws)
  assume i: "freeze_inv (n, acc)"
  let ?n = "free_handle p n"
  have f: "freeze_handles ?n = (freeze_handles n)(p := None)" "freeze_mode ?n = (freeze_mode n)(p := CTDB_FREEZE_NONE)"
    "control_replies ?n = control_replies n @ map (\<lambda>c. (c, -1)) ws"
    by (simp_all add: free_handle_def Some destructor_freeze)
  have p: "p \<in> {1..NUM_DB_PRIORITIES}" using handle_priority [OF i, of p] Some by simp
  have "waiting ?n + mset ws = waiting n" using waiting_upd [OF p f(1)] Some by (simp add: waiters_def)
  then have "waiting n + mset (map fst (control_replies n)) = waiting ?n + mset (map fst (control_replies ?n))"
    by (simp add: f(3) comp_def union_ac)
  moreover have "freeze_ok ?n" using i by (auto simp: freeze_inv_def freeze_ok_def f)
  ultimately show ?thesis using i by (simp add: freeze_inv_def)
qed (simp add: free_handle_def)

lemma lock_handler_inv:
  assumes "freeze_inv (n, acc)" "freeze_handles n p \<noteq> None"
  shows "freeze_inv (ctdb_freeze_lock_handler p b n, acc)"
proof (cases "freeze_mode n p = CTDB_FREEZE_FROZEN \<or> \<not> b")
  case True
  then show ?thesis using free_handle_inv [OF assms(1)] by (auto simp: ctdb_freeze_lock_handler_def)
next
  case False
  obtain ws where ws: "freeze_handles n p = Some ws" using assms(2) by auto
  let ?n = "ctdb_freeze_lock_handler p b n"
  have f: "freeze_handles ?n = (freeze_handles n)(p \<mapsto> [])" "freeze_mode ?n = (freeze_mode n)(p := CTDB_FREEZE_FROZEN)"
    "control_replies ?n = control_replies n @ map (\<lambda>c. (c, 0)) ws"
    using False by (simp_all add: ctdb_freeze_lock_handler_def ws)
  have p: "p \<in> {1..NUM_DB_PRIORITIES}" by (rule handle_priority [OF assms])
  have "waiting ?n + mset ws = waiting n" using waiting_upd [OF p f(1)] ws by (simp add: waiters_def)
  then have "waiting n + mset (map fst (control_replies n)) = waiting ?n + mset (map fst (control_replies ?n))"
    by (simp add: f(3) comp_def union_ac)
  moreover have "freeze_ok ?n" using assms(1) p by (auto simp: freeze_inv_def freeze_ok_def f)
  ultimately show ?thesis using assms(1) by (simp add: freeze_inv_def)
qed

lemma start_freeze_inv:
  assumes "freeze_inv (n, acc)" "ctdb_start_freeze lock_ok p n = Some n'"
  shows "freeze_inv (n', acc) \<and> freeze_handles n' p \<noteq> None \<and> p \<in> {1..NUM_DB_PRIORITIES}"
proof -
  have p: "p \<in> {1..NUM_DB_PRIORITIES}" using assms(2) by (auto simp: ctdb_start_freeze_def split: if_splits)
  show ?thesis
  proof (cases "freeze_handles n p")
    case None
    then have "freeze_mode n p \<noteq> CTDB_FREEZE_FROZEN" using assms(1) by (auto simp: freeze_inv_def freeze_ok_def)
    with None assms(2) p have n': "n' = n\<lparr>freeze_handles := (freeze_handles n)(p \<mapsto> []), freeze_mode := (freeze_mode n)(p := CTDB_FREEZE_PENDING)\<rparr>"
      by (auto simp: ctdb_start_freeze_def split: if_splits)
    have "waiting n' = waiting n" using waiting_upd [OF p, of n' n "Some []"] None by (simp add: n' waiters_def)
    moreover have "freeze_ok n'" using assms(1) p by (auto simp: freeze_inv_def freeze_ok_def n')
    ultimately show ?thesis using assms(1) p by (simp add: freeze_inv_def n')
  next
    case (Some ws)
    then show ?thesis using assms p by (auto simp: ctdb_start_freeze_def split: if_splits)
  qed
qed

lemma control_freeze_inv:
  assumes "freeze_inv (n, acc)" "ctdb_control_freeze lock_ok c srvid n = Some (ret, async, n')"
  shows "freeze_inv (n', if async then c # acc else acc)"
proof -
  define p where "p = (let p = unat (ucast srvid :: u32) in if p = 0 then 1 else p)"
  show ?thesis
  proof (cases "p > NUM_DB_PRIORITIES \<or> freeze_mode n p = CTDB_FREEZE_FROZEN")
    case True
    then have "n' = n" "\<not> async" using assms(2) by (auto simp: ctdb_control_freeze_def Let_def p_def split: if_splits)
    then show ?thesis using assms(1) by simp
  next
    case False
    then obtain n1 where n1: "ctdb_start_freeze lock_ok p n = Some n1"
      using assms(2) by (auto simp: ctdb_control_freeze_def Let_def p_def split: if_splits option.splits)
    note S = start_freeze_inv [OF assms(1) n1]
    then obtain ws where ws: "freeze_handles n1 p = Some ws" by auto
    have n': "n' = n1\<lparr>freeze_handles := (freeze_handles n1)(p \<mapsto> c # ws)\<rparr>" "async"
      using assms(2) n1 ws False by (auto simp: ctdb_control_freeze_def Let_def p_def split: if_splits)
    have nf: "freeze_mode n1 p \<noteq> CTDB_FREEZE_FROZEN" using n1 False by (auto simp: ctdb_start_freeze_def split: if_splits)
    have "waiting n' + mset ws = waiting n1 + mset (c # ws)"
      using waiting_upd [of p n' n1 "Some (c # ws)"] S ws by (simp add: n' waiters_def)
    then have "waiting n' = add_mset c (waiting n1)" by simp
    moreover have "freeze_mode n1 p \<noteq> CTDB_FREEZE_NONE" using freeze_okD(1) [of n1 p] S ws by (simp add: freeze_inv_def)
    then have "freeze_ok n'" using S nf by (auto simp: freeze_inv_def freeze_ok_def n')
    ultimately show ?thesis using S n'(2) by (simp add: freeze_inv_def n'(1))
  qed
qed

lemma thaw_inv:
  assumes "freeze_inv (n, acc)" "ctdb_control_thaw new p n = (ret, n')"
  shows "freeze_inv (n', acc)"
proof -
  have one: "freeze_inv (thaw_priority q m, acc)" if "freeze_inv (m, acc)" for q m
  proof -
    have "freeze_same m ((if freeze_transaction_started m then cancel_all (db_list m) m else m)\<lparr>freeze_transaction_started := False\<rparr>)"
      by (simp add: cancel_all_freeze)
    from free_handle_inv [OF freeze_same_inv [OF this that]] show ?thesis by (simp add: thaw_priority_def Let_def)
  qed
  have all: "freeze_inv (fold thaw_priority ps m, acc)" if "freeze_inv (m, acc)" for ps m
    using that one by (induction ps arbitrary: m) simp_all
  have dmn: "freeze_inv (m\<lparr>dmn := d\<rparr>, acc)" if "freeze_inv (m, acc)" for m d
    by (rule freeze_same_inv [OF _ that]) (simp add: freeze_same_def)
  have "n' = n \<or> (\<exists>d. n' = (thaw_priority p n)\<lparr>dmn := d\<rparr>) \<or> (\<exists>d. n' = (fold thaw_priority [1..<NUM_DB_PRIORITIES + 1] n)\<lparr>dmn := d\<rparr>)"
    using assms(2) by (auto simp: ctdb_control_thaw_def Let_def simp del: upt_Suc split: if_splits)
  then show ?thesis
  proof (elim disjE exE)
    show "n' = n \<Longrightarrow> ?thesis" using assms(1) by simp
    show "n' = (thaw_priority p n)\<lparr>dmn := d\<rparr> \<Longrightarrow> ?thesis" for d using dmn [OF one [OF assms(1)]] by simp
    show "n' = (fold thaw_priority [1..<NUM_DB_PRIORITIES + 1] n)\<lparr>dmn := d\<rparr> \<Longrightarrow> ?thesis" for d
      using dmn [OF all [OF assms(1)]] by (simp del: upt_Suc)
  qed
qed

lemma freeze_step_inv: "freeze_step s s' \<Longrightarrow> freeze_inv s \<Longrightarrow> freeze_inv s'"
proof (induction rule: freeze_step.induct)
  case (freeze lock_ok c srvid n ret async n' acc)
  then show ?case using control_freeze_inv by blast
next
  case (locked n p acc b)
  then show ?case using lock_handler_inv by blast
next
  case (thaw new p n ret n' acc)
  then show ?case using thaw_inv by blast
next
  case (transaction_start ok t n ret n' acc)
  then show ?case using freeze_same_inv controls_freeze(1) [of n ok t] by simp
next
  case (transaction_cancel n ret n' acc)
  then show ?case using freeze_same_inv controls_freeze(2) [of n] by simp
next
  case (transaction_commit ok health t n ret n' acc)
  then show ?case using freeze_same_inv controls_freeze(3) [of n ok health t] by simp
next
  case (wipe ok i t n ret n' acc)
  then show ?case using freeze_same_inv controls_freeze(4) [of n ok i t] by simp
qed

text \<open>
  C19: the state of the freeze is well-formed after every sequence of operations of a daemon that starts with nothing
  frozen: a priority has a handle exactly if it is frozen or about to be, and a frozen one has no waiting requests.
  Each freeze request whose answer was postponed either still waits or was answered exactly once.
\<close>

theorem freeze_well_formed:
  assumes "freeze_step\<^sup>*\<^sup>* (n, []) (n', acc)" "\<forall>p. freeze_mode n p = CTDB_FREEZE_NONE \<and> freeze_handles n p = None" "control_replies n = []"
  shows "freeze_ok n' \<and> mset acc = waiting n' + mset (map fst (control_replies n'))"
proof -
  have start: "freeze_inv (n, [])" using assms(2,3) by (simp add: freeze_inv_def freeze_ok_def waiting_def waiters_def)
  have "freeze_step\<^sup>*\<^sup>* s s' \<Longrightarrow> freeze_inv s \<Longrightarrow> freeze_inv s'" for s s'
    by (induction rule: rtranclp_induct) (auto intro: freeze_step_inv)
  from this [OF assms(1) start] show ?thesis by (simp add: freeze_inv_def)
qed

text \<open>Two requests wait for the same freeze of a node; both get their answer when the child has the locks.\<close>

definition ex_thawed :: recov_daemon where
  "ex_thawed = (ex_recov 0)\<lparr>freeze_mode := (\<lambda>p. CTDB_FREEZE_NONE), freeze_handles := (\<lambda>p. None)\<rparr>"

definition ex_frozen :: recov_daemon where
  "ex_frozen = ctdb_freeze_lock_handler 1 True (snd (snd (the (ctdb_control_freeze True 6 0
     (snd (snd (the (ctdb_control_freeze True 5 1 ex_thawed))))))))"

lemma ex_frozen_steps: "freeze_step\<^sup>*\<^sup>* (ex_thawed, []) (ex_frozen, [6, 5])"
proof -
  define n1 where "n1 = ex_thawed\<lparr>freeze_handles := (\<lambda>p. None)(1 \<mapsto> [5]), freeze_mode := (\<lambda>p. CTDB_FREEZE_NONE)(1 := CTDB_FREEZE_PENDING)\<rparr>"
  define n2 where "n2 = n1\<lparr>freeze_handles := (\<lambda>p. None)(1 \<mapsto> [6, 5])\<rparr>"
  have 1: "ctdb_control_freeze True 5 1 ex_thawed = Some (0, True, n1)"
    by (simp add: ctdb_control_freeze_def ctdb_start_freeze_def NUM_DB_PRIORITIES_def ex_thawed_def n1_def Let_def)
  have 2: "ctdb_control_freeze True 6 0 n1 = Some (0, True, n2)"
    by (simp add: ctdb_control_freeze_def ctdb_start_freeze_def NUM_DB_PRIORITIES_def n1_def n2_def Let_def)
  have a: "freeze_step (ex_thawed, []) (n1, [5])" using freeze_step.freeze [OF 1, of "[]"] by simp
  have b: "freeze_step (n1, [5]) (n2, [6, 5])" using freeze_step.freeze [OF 2, of "[5]"] by simp
  have c: "freeze_step (n2, [6, 5]) (ctdb_freeze_lock_handler 1 True n2, [6, 5])"
    by (rule freeze_step.locked) (simp add: n2_def)
  have "ctdb_freeze_lock_handler 1 True n2 = ex_frozen" by (simp add: ex_frozen_def 1 2)
  with rtranclp.rtrancl_into_rtrancl [OF rtranclp.rtrancl_into_rtrancl [OF r_into_rtranclp [of freeze_step, OF a] b] c] show ?thesis by simp
qed

theorem freeze_well_formed_witness:
  "freeze_step\<^sup>*\<^sup>* (ex_thawed, []) (ex_frozen, [6, 5]) \<and> freeze_ok ex_frozen \<and>
     mset [6, 5] = waiting ex_frozen + mset (map fst (control_replies ex_frozen))"
  using ex_frozen_steps freeze_well_formed [OF ex_frozen_steps] by (simp add: ex_thawed_def ex_recov_def)

text \<open>
  A freeze whose child dies while the recovery transaction is open cancels only the transactions of the databases of
  its own priority, yet clears the flag of the whole transaction.  The transactions of the other databases stay open,
  and the next attempt to start a transaction fails on them.
\<close>

lemma cancel_all_other: "j \<notin> set is \<Longrightarrow> tdb_saved (cancel_all is n) j = tdb_saved n j"
proof (induction "is" arbitrary: n)
  case (Cons i js)
  then have "tdb_saved (tdb_transaction_cancel i n) j = tdb_saved n j"
    by (simp add: tdb_transaction_cancel_def set_db_def split: option.splits)
  then show ?case using Cons by (simp add: cancel_all_def)
qed (simp add: cancel_all_def)

lemma start_transactions_open:
  "\<lbrakk>j \<in> set is; tdb_saved n j \<noteq> None; \<not> freeze_transaction_started n\<rbrakk> \<Longrightarrow> fst (start_transactions ok is n) = -1"
  by (induction "is" arbitrary: n) (auto simp: tdb_transaction_start_def Let_def)

lemma dead_child_leaves_transaction:
  assumes "freeze_transaction_started n" "freeze_mode n p = CTDB_FREEZE_FROZEN" "freeze_handles n p = Some ws"
    and "j \<in> set (db_list n)" "tdb_saved n j \<noteq> None" "db_priority n j \<noteq> p"
    and "n' = ctdb_freeze_lock_handler p b n"
  shows "\<not> freeze_transaction_started n' \<and> tdb_saved n' j \<noteq> None" "fst (start_transactions ok (db_list n) n') = -1"
proof -
  let ?is = "filter (\<lambda>i. db_priority n i = p) (db_list n)"
  have n': "freeze_transaction_started n' = False" "tdb_saved n' = tdb_saved (cancel_all ?is n)"
    using assms by (simp_all add: ctdb_freeze_lock_handler_def free_handle_def ctdb_freeze_handle_destructor_def Let_def)
  then have open_j: "tdb_saved n' j \<noteq> None" using cancel_all_other [of j ?is n] assms(5,6) by simp
  then show "\<not> freeze_transaction_started n' \<and> tdb_saved n' j \<noteq> None" using n' by simp
  show "fst (start_transactions ok (db_list n) n') = -1"
    by (rule start_transactions_open [OF assms(4) open_j]) (simp add: n')
qed

end
