(* ===== verification/Vacuum.thy ===== *)
theory Vacuum
  imports Recovery
begin

text \<open>
  Vacuuming (\<^verbatim>\<open>server/ctdb_vacuum.c\<close> and its controls in \<^verbatim>\<open>server/ctdb_recover.c\<close>): empty records are deleted from the
  databases of all nodes.  A child process of the node that is location master and data master of a record runs it.
  It works on the file that it shares with the daemon, but has its own copy of the queue of records to delete.
\<close>

section \<open>State\<close>

text \<open>What is to be deleted, by hash, and for each node the records that it should fetch.\<close>

record vacuum_data =
  delete_list :: "u32 \<rightharpoonup> delete_record_data"
  delete_count :: u32
  delete_left :: u32
  vacuum_fetch_list :: "ctdb_marshall_buffer list"

text \<open>Locks and writes of a process: the lock of the chain of a key and the lock of the list of free blocks.\<close>

record vacuum_env =
  chain_free :: "u8 list \<Rightarrow> bool"
  freelist_free :: "u8 list \<Rightarrow> bool"
  vacuum_io :: tdb_io

definition add_record_to_delete_list :: "u8 list \<Rightarrow> ctdb_ltdb_header \<Rightarrow> vacuum_data \<Rightarrow> vacuum_data" where
  "add_record_to_delete_list key hdr vdata =
     (if delete_list vdata (ctdb_hash key) \<noteq> None then vdata
      else vdata\<lparr>delete_list := insert_delete_record_data_into_tree (delete_list vdata) hdr key,
                delete_count := delete_count vdata + 1\<rparr>)"

definition add_to_buffer :: "ctdb_rec_data \<Rightarrow> ctdb_marshall_buffer \<Rightarrow> ctdb_marshall_buffer" where
  "add_to_buffer r m = m\<lparr>m_count := m_count m + 1, m_data := m_data m @ bytes_of_rec r\<rparr>"

text \<open>\<open>None\<close> is an access outside of the array of lists.\<close>

definition add_record_to_vacuum_fetch_list :: "ctdb_daemon \<Rightarrow> u8 list \<Rightarrow> vacuum_data \<Rightarrow> vacuum_data option" where
  "add_record_to_vacuum_fetch_list ctdb key vdata =
     (let lmaster = unat (the_lmaster ctdb key);
          vfl = vacuum_fetch_list vdata
      in if lmaster < length vfl
         then Some (vdata\<lparr>vacuum_fetch_list := vfl[lmaster := add_to_buffer (ctdb_marshall_record (pnn ctdb) key None []) (vfl ! lmaster)]\<rparr>)
         else None)"

section \<open>Looking for records to delete\<close>

text \<open>The result is whether the traversal goes on.\<close>

definition vacuum_traverse :: "ctdb_daemon \<Rightarrow> u8 list \<Rightarrow> u8 list \<Rightarrow> vacuum_data \<Rightarrow> (bool \<times> vacuum_data) option" where
  "vacuum_traverse ctdb key data vdata =
     (let lmaster = the_lmaster ctdb key
      in if unat lmaster \<ge> length (node_flags ctdb) then Some (False, vdata)
         else if length data \<noteq> sizeof_header then Some (True, vdata)
         else
           let hdr = header_of_bytes data
           in if dmaster hdr \<noteq> pnn ctdb then Some (True, vdata)
              else if lmaster = pnn ctdb then Some (True, add_record_to_delete_list key hdr vdata)
              else map_option (Pair True) (add_record_to_vacuum_fetch_list ctdb key vdata))"

fun traverse_while ::
    "(u8 list \<Rightarrow> u8 list \<Rightarrow> 's \<Rightarrow> (bool \<times> 's) option) \<Rightarrow> u8 list list \<Rightarrow> content \<Rightarrow> 's \<Rightarrow> (bool \<times> 's) option" where
  "traverse_while f [] m s = Some (True, s)"
| "traverse_while f (k # ks) m s =
     (case f k (the (m k)) s of None \<Rightarrow> None | Some (False, s) \<Rightarrow> Some (False, s) | Some (True, s) \<Rightarrow> traverse_while f ks m s)"

text \<open>A traversal that a callback has stopped counts as a success.\<close>

definition ctdb_vacuum_db_full ::
    "bool \<Rightarrow> (content \<Rightarrow> u8 list list) \<Rightarrow> ctdb_daemon \<Rightarrow> call_db \<Rightarrow> bool \<Rightarrow> vacuum_data \<Rightarrow> (int \<times> vacuum_data) option" where
  "ctdb_vacuum_db_full traversed keys_of ctdb db full_vacuum_run vdata =
     (if \<not> full_vacuum_run then Some (0, vdata)
      else map_option (\<lambda>(_, vdata). (if traversed then 0 else -1, vdata))
             (traverse_while (vacuum_traverse ctdb) (keys_of (ltdb db)) (ltdb db) vdata))"

definition delete_queue_traverse ::
    "vacuum_env \<Rightarrow> ctdb_daemon \<Rightarrow> delete_record_data \<Rightarrow> call_db \<times> vacuum_data \<Rightarrow> (call_db \<times> vacuum_data) option" where
  "delete_queue_traverse env ctdb dd st =
     (case st of (db, vdata) \<Rightarrow>
        if \<not> chain_free env (dd_key dd) then Some (db, vdata)
        else
          let tdb_data = (case ltdb db (dd_key dd) of None \<Rightarrow> [] | Some r \<Rightarrow> r);
              header = header_of_bytes tdb_data
          in if length tdb_data < sizeof_header then Some (db, vdata)
             else if length tdb_data > sizeof_header then Some (db, vdata)
             else if dmaster header \<noteq> pnn ctdb then Some (db, vdata)
             else if rsn header \<noteq> rsn (dd_hdr dd) then Some (db, vdata)
             else if the_lmaster ctdb (dd_key dd) \<noteq> pnn ctdb then
               map_option (Pair db) (add_record_to_vacuum_fetch_list ctdb (dd_key dd) vdata)
             else if has_flag (hflags (dd_hdr dd)) CTDB_REC_FLAG_MIGRATED_WITH_DATA then
               Some (db, add_record_to_delete_list (dd_key dd) (dd_hdr dd) vdata)
             else Some (snd (tdb_delete (vacuum_io env) (seqnum_update db) (dd_key dd) db), vdata))"

fun traverse_queue ::
    "(delete_record_data \<Rightarrow> 's \<Rightarrow> 's option) \<Rightarrow> u32 list \<Rightarrow> (u32 \<rightharpoonup> delete_record_data) \<Rightarrow> 's \<Rightarrow> 's option" where
  "traverse_queue f [] q s = Some s"
| "traverse_queue f (h # hs) q s = (case f (the (q h)) s of None \<Rightarrow> None | Some s \<Rightarrow> traverse_queue f hs q s)"

definition ctdb_vacuum_db_fast ::
    "vacuum_env \<Rightarrow> ctdb_daemon \<Rightarrow> (u32 \<rightharpoonup> delete_record_data) \<Rightarrow> call_db \<times> vacuum_data \<Rightarrow> (call_db \<times> vacuum_data) option" where
  "ctdb_vacuum_db_fast env ctdb queue st =
     traverse_queue (delete_queue_traverse env ctdb) (sorted_list_of_set (dom queue)) queue st"

section \<open>Storing and deleting on the other nodes\<close>

definition delete_tdb_record :: "vacuum_env \<Rightarrow> ctdb_daemon \<Rightarrow> u8 list \<Rightarrow> u8 list \<Rightarrow> call_db \<Rightarrow> int \<times> call_db" where
  "delete_tdb_record env ctdb key data db =
     (if the_lmaster ctdb key = pnn ctdb then (-1, db)
      else if length data \<noteq> sizeof_header then (-1, db)
      else if \<not> chain_free env key then (-1, db)
      else
        let hdr = header_of_bytes data
        in case ltdb db key of
             None \<Rightarrow> (0, db)
           | Some data2 \<Rightarrow>
               if length data2 < sizeof_header then
                 (0, if freelist_free env key then snd (tdb_delete (vacuum_io env) (seqnum_update db) key db) else db)
               else
                 let hdr2 = header_of_bytes data2
                 in if rsn hdr2 > rsn hdr then (-1, db)
                    else if has_flag (hflags hdr) CTDB_REC_RO_FLAGS then (-1, db)
                    else if has_flag (hflags hdr2) CTDB_REC_RO_FLAGS then (-1, db)
                    else if dmaster hdr2 = pnn ctdb then (-1, db)
                    else if \<not> freelist_free env key then (-1, db)
                    else tdb_delete (vacuum_io env) (seqnum_update db) key db)"

text \<open>The result of the first store is ignored.\<close>

definition store_tdb_record :: "vacuum_env \<Rightarrow> ctdb_daemon \<Rightarrow> u8 list \<Rightarrow> u8 list \<Rightarrow> call_db \<Rightarrow> int \<times> call_db" where
  "store_tdb_record env ctdb key data db =
     (if the_lmaster ctdb key = pnn ctdb then (-1, db)
      else if length data \<noteq> sizeof_header then (-1, db)
      else if \<not> chain_free env key then (-1, db)
      else
        let hdr = header_of_bytes data;
            data2 = (case ltdb db key of None \<Rightarrow> [] | Some r \<Rightarrow> r);
            hdr2 = header_of_bytes data2
        in if length data2 < sizeof_header then (0, snd (tdb_store (vacuum_io env) (seqnum_update db) key data db))
           else if rsn hdr2 > rsn hdr then (-1, db)
           else if has_flag (hflags hdr) CTDB_REC_RO_FLAGS then (-1, db)
           else if has_flag (hflags hdr2) CTDB_REC_RO_FLAGS then (-1, db)
           else if dmaster hdr2 = pnn ctdb then (-1, db)
           else tdb_store (vacuum_io env) (seqnum_update db) key data db)"

text \<open>
  The loop of both controls over the received records.  A record on which the operation fails is copied to
  the answer, with the length it has in the buffer.
\<close>

fun answer_records ::
    "(u8 list \<Rightarrow> u8 list \<Rightarrow> call_db \<Rightarrow> int \<times> call_db) \<Rightarrow> u8 list \<Rightarrow> nat \<Rightarrow> nat \<Rightarrow> ctdb_marshall_buffer \<times> call_db \<Rightarrow>
     (int \<times> ctdb_marshall_buffer \<times> call_db) option" where
  "answer_records f bs p 0 (records, db) = Some (0, records, db)"
| "answer_records f bs p (Suc k) (records, db) =
     (case read_rec bs p False of
        Next _ _ _ key data \<Rightarrow>
          if length data < sizeof_header then Some (-1, records, db)
          else
            let len = unat (word_at bs p);
                (ret, db) = f key data db
            in if ret = 0 then answer_records f bs (p + len) k (records, db)
               else (case slice bs p len of
                       None \<Rightarrow> None
                     | Some r \<Rightarrow>
                         answer_records f bs (p + len) k (records\<lparr>m_count := m_count records + 1, m_data := m_data records @ r\<rparr>, db))
      | _ \<Rightarrow> None)"

definition control_records ::
    "(u8 list \<Rightarrow> u8 list \<Rightarrow> call_db \<Rightarrow> int \<times> call_db) \<Rightarrow> u8 list \<Rightarrow> ctdb_daemon \<Rightarrow> (int \<times> u8 list \<times> ctdb_daemon) option" where
  "control_records f indata ctdb =
     (if length indata < sizeof_marshall_buffer then Some (-1, [], ctdb)
      else
        let reply = buffer_of_bytes indata
        in case find_ctdb_db ctdb (m_db_id reply) of
             None \<Rightarrow> Some (-1, [], ctdb)
           | Some db \<Rightarrow>
               (case answer_records f (m_data reply) 0 (unat (m_count reply)) (\<lparr>m_db_id = db_id db, m_count = 0, m_data = []\<rparr>, db) of
                  None \<Rightarrow> None
                | Some (ret, records, db) \<Rightarrow>
                    Some (ret, if ret = 0 then ctdb_marshall_finish records else [],
                      ctdb\<lparr>dbs := (dbs ctdb)(m_db_id reply \<mapsto> db)\<rparr>)))"

definition ctdb_control_try_delete_records ::
    "vacuum_env \<Rightarrow> u8 list \<Rightarrow> ctdb_daemon \<Rightarrow> (int \<times> u8 list \<times> ctdb_daemon) option" where
  "ctdb_control_try_delete_records env indata ctdb = control_records (delete_tdb_record env ctdb) indata ctdb"

definition ctdb_control_receive_records ::
    "vacuum_env \<Rightarrow> u8 list \<Rightarrow> ctdb_daemon \<Rightarrow> (int \<times> u8 list \<times> ctdb_daemon) option" where
  "ctdb_control_receive_records env indata ctdb = control_records (store_tdb_record env ctdb) indata ctdb"

definition ctdb_control_schedule_for_deletion :: "u32 \<Rightarrow> ctdb_ltdb_header \<Rightarrow> u8 list \<Rightarrow> ctdb_daemon \<Rightarrow> int \<times> ctdb_daemon" where
  "ctdb_control_schedule_for_deletion i hdr key ctdb =
     (case find_ctdb_db ctdb i of
        None \<Rightarrow> (-1, ctdb)
      | Some db \<Rightarrow> (0, ctdb\<lparr>dbs := (dbs ctdb)(i \<mapsto> insert_record_into_delete_queue db hdr key)\<rparr>))"

section \<open>The child process\<close>

text \<open>
  The cluster during a run: the daemons, the number of controls sent, and the messages with records to fetch.  The
  world outside decides what becomes of each control, the locks and writes on the nodes and in the steps of the
  child, the answer to the request for the node map, and the order of traversals of the database.  The callbacks of
  the traversals of the delete list free entries of the tree that is traversed; rebalancing may then change which
  entries are visited, so this is left open: \<open>visits\<close> gives the hashes that are visited in a step.
\<close>

record vacuum_cluster =
  daemons :: "u32 \<Rightarrow> ctdb_daemon"
  sent :: nat
  fetch_messages :: "(u32 \<times> u8 list) list"

record vacuum_world =
  v_fate :: "nat \<Rightarrow> u32 \<Rightarrow> fate"
  v_env :: "nat \<Rightarrow> u32 \<Rightarrow> vacuum_env"
  fast_env :: vacuum_env
  mark_env :: vacuum_env
  delete_env :: vacuum_env
  visits :: "nat \<Rightarrow> (u32 \<rightharpoonup> delete_record_data) \<Rightarrow> u32 list"
  getvnnmap_ok :: bool
  getpnn_ok :: bool
  nodemap_reply :: "ctdb_node_map option"
  message_ok :: "u32 \<Rightarrow> bool"
  full_traverse_ok :: bool
  full_order :: "content \<Rightarrow> u8 list list"

text \<open>The daemon as the child sees it after it has switched to be a client.\<close>

definition child_ctdb :: "ctdb_daemon \<Rightarrow> ctdb_daemon" where
  "child_ctdb ctdb = ctdb\<lparr>main_daemon := False, can_send_controls := True\<rparr>"

definition the_db :: "u32 \<Rightarrow> ctdb_daemon \<Rightarrow> call_db" where
  "the_db i ctdb = the (dbs ctdb i)"

definition write_db :: "u32 \<Rightarrow> u32 \<Rightarrow> call_db \<Rightarrow> vacuum_cluster \<Rightarrow> vacuum_cluster" where
  "write_db me i db cl = cl\<lparr>daemons := (daemons cl)(me := (daemons cl me)\<lparr>dbs := (dbs (daemons cl me))(i \<mapsto> db)\<rparr>)\<rparr>"

definition delete_marshall_traverse :: "delete_record_data \<Rightarrow> ctdb_marshall_buffer \<Rightarrow> ctdb_marshall_buffer" where
  "delete_marshall_traverse dd records = add_to_buffer (ctdb_marshall_record (m_db_id records) (dd_key dd) (Some (dd_hdr dd)) []) records"

text \<open>Whether a record is still the empty one of the delete list, with the sequence number \<open>r\<close>.\<close>

definition still_empty :: "ctdb_daemon \<Rightarrow> u8 list \<Rightarrow> u64 \<Rightarrow> u8 list \<Rightarrow> bool" where
  "still_empty ctdb key r tdb_data \<longleftrightarrow>
     \<not> length tdb_data < sizeof_header \<and> \<not> length tdb_data > sizeof_header \<and>
     (let header = header_of_bytes tdb_data
      in \<not> has_flag (hflags header) CTDB_REC_RO_FLAGS \<and> dmaster header = pnn ctdb \<and> rsn header = r \<and>
         the_lmaster ctdb key = pnn ctdb)"

definition delete_marshall_traverse_first ::
    "vacuum_env \<Rightarrow> ctdb_daemon \<Rightarrow> u32 \<Rightarrow> call_db \<times> vacuum_data \<times> ctdb_marshall_buffer \<Rightarrow> call_db \<times> vacuum_data \<times> ctdb_marshall_buffer" where
  "delete_marshall_traverse_first env ctdb h st =
     (case st of (db, vdata, records) \<Rightarrow>
        case delete_list vdata h of
          None \<Rightarrow> (db, vdata, records)
        | Some dd \<Rightarrow>
            let skip = vdata\<lparr>delete_list := (delete_list vdata)(h := None)\<rparr>;
                tdb_data = (case ltdb db (dd_key dd) of None \<Rightarrow> [] | Some r \<Rightarrow> r)
            in if \<not> chain_free env (dd_key dd) then (db, skip, records)
               else if \<not> still_empty ctdb (dd_key dd) (rsn (dd_hdr dd)) tdb_data then (db, skip, records)
               else
                 (case ctdb_ltdb_store (vacuum_io env) ctdb db (dd_key dd) (header_of_bytes tdb_data) [] of
                    (res, _, db) \<Rightarrow>
                      if res \<noteq> 0 then (db, skip, records) else (db, vdata, delete_marshall_traverse dd records)))"

definition delete_record_traverse :: "vacuum_env \<Rightarrow> ctdb_daemon \<Rightarrow> u32 \<Rightarrow> call_db \<times> vacuum_data \<Rightarrow> call_db \<times> vacuum_data" where
  "delete_record_traverse env ctdb h st =
     (case st of (db, vdata) \<Rightarrow>
        case delete_list vdata h of
          None \<Rightarrow> (db, vdata)
        | Some dd \<Rightarrow>
            let tdb_data = (case ltdb db (dd_key dd) of None \<Rightarrow> [] | Some r \<Rightarrow> r)
            in if \<not> chain_free env (dd_key dd) then (db, vdata)
               else if \<not> still_empty ctdb (dd_key dd) (rsn (dd_hdr dd) + 1) tdb_data then (db, vdata)
               else
                 (case tdb_delete (vacuum_io env) (seqnum_update db) (dd_key dd) db of
                    (res, db) \<Rightarrow>
                      if res \<noteq> 0 then (db, vdata)
                      else (db, vdata\<lparr>delete_list := (delete_list vdata)(h := None), delete_left := delete_left vdata - 1\<rparr>)))"

text \<open>A control to one node; one that is lost or not answered ends with an error.\<close>

definition vacuum_control ::
    "vacuum_world \<Rightarrow> (vacuum_env \<Rightarrow> u8 list \<Rightarrow> ctdb_daemon \<Rightarrow> (int \<times> u8 list \<times> ctdb_daemon) option) \<Rightarrow> u8 list \<Rightarrow> u32 \<Rightarrow>
     vacuum_cluster \<Rightarrow> (int \<times> u8 list \<times> vacuum_cluster) option" where
  "vacuum_control w control indata p cl =
     (let t = sent cl;
          cl = cl\<lparr>sent := Suc (sent cl)\<rparr>
      in if v_fate w t p = Lost then Some (-1, [], cl)
         else
           map_option (\<lambda>(res, outdata, ctdb).
               (if v_fate w t p = Unanswered then -1 else res, outdata, cl\<lparr>daemons := (daemons cl)(p := ctdb)\<rparr>))
             (control (v_env w t p) indata (daemons cl p)))"

text \<open>
  The records that a node has sent back leave the delete list.  The loop counts down to one and so does not reach
  the last record.
\<close>

definition drop_returned :: "u8 list \<Rightarrow> u8 list \<Rightarrow> vacuum_data \<Rightarrow> bool \<times> vacuum_data" where
  "drop_returned reckey recdata vdata =
     (if length recdata < sizeof_header then (False, vdata)
      else
        (True, case delete_list vdata (ctdb_hash reckey) of
                 None \<Rightarrow> vdata
               | Some dd \<Rightarrow> vdata\<lparr>delete_list := (delete_list vdata)(ctdb_hash reckey := None), delete_left := delete_left vdata - 1\<rparr>))"

fun vacuum_nodes ::
    "vacuum_world \<Rightarrow> (vacuum_env \<Rightarrow> u8 list \<Rightarrow> ctdb_daemon \<Rightarrow> (int \<times> u8 list \<times> ctdb_daemon) option) \<Rightarrow> u8 list \<Rightarrow> u32 list \<Rightarrow>
     vacuum_data \<Rightarrow> vacuum_cluster \<Rightarrow> (int \<times> vacuum_data \<times> vacuum_cluster) option" where
  "vacuum_nodes w control indata [] vdata cl = Some (0, vdata, cl)"
| "vacuum_nodes w control indata (p # ps) vdata cl =
     (case vacuum_control w control indata p cl of
        None \<Rightarrow> None
      | Some (res, outdata, cl) \<Rightarrow>
          if res \<noteq> 0 then Some (-1, vdata, cl)
          else if length outdata < sizeof_marshall_buffer then None
          else
            let records = buffer_of_bytes outdata
            in case for_records drop_returned (m_data records) 0 (unat (m_count records) - 1) vdata of
                 None \<Rightarrow> None
               | Some (False, vdata) \<Rightarrow> Some (-1, vdata, cl)
               | Some (True, vdata) \<Rightarrow> vacuum_nodes w control indata ps vdata cl)"

text \<open>
  Deleting in three steps: the other nodes store the empty record, then they delete it, and then it is deleted
  here.  The step before raises the sequence number of the record here.
\<close>

definition no_records :: "u32 \<Rightarrow> u32 \<Rightarrow> vacuum_cluster \<Rightarrow> ctdb_marshall_buffer" where
  "no_records me i cl = \<lparr>m_db_id = db_id (the_db i (daemons cl me)), m_count = 0, m_data = []\<rparr>"

definition delete_here :: "vacuum_world \<Rightarrow> ctdb_daemon \<Rightarrow> u32 \<Rightarrow> u32 \<Rightarrow> vacuum_data \<Rightarrow> vacuum_cluster \<Rightarrow> vacuum_data \<times> vacuum_cluster" where
  "delete_here w ctdb me i vdata cl =
     (case fold (delete_record_traverse (delete_env w) ctdb) (visits w 3 (delete_list vdata)) (the_db i (daemons cl me), vdata) of
        (db, vdata) \<Rightarrow> (vdata, write_db me i db cl))"

definition delete_there ::
    "vacuum_world \<Rightarrow> ctdb_daemon \<Rightarrow> u32 \<Rightarrow> u32 \<Rightarrow> u32 list \<Rightarrow> vacuum_data \<Rightarrow> vacuum_cluster \<Rightarrow> (int \<times> vacuum_data \<times> vacuum_cluster) option" where
  "delete_there w ctdb me i active_nodes vdata cl =
     (let records = fold (\<lambda>h. delete_marshall_traverse (the (delete_list vdata h)))
            (sorted_list_of_set (dom (delete_list vdata))) (no_records me i cl)
      in case vacuum_nodes w ctdb_control_try_delete_records (ctdb_marshall_finish records) active_nodes vdata cl of
           None \<Rightarrow> None
         | Some (ret, vdata, cl) \<Rightarrow>
             if ret \<noteq> 0 then Some (-1, vdata, cl)
             else if delete_left vdata = 0 then Some (0, vdata, cl)
             else Some (0, delete_here w ctdb me i vdata cl))"

definition store_there ::
    "vacuum_world \<Rightarrow> ctdb_daemon \<Rightarrow> u32 \<Rightarrow> u32 \<Rightarrow> u32 list \<Rightarrow> vacuum_data \<Rightarrow> vacuum_cluster \<Rightarrow> (int \<times> vacuum_data \<times> vacuum_cluster) option" where
  "store_there w ctdb me i active_nodes vdata cl =
     (case fold (delete_marshall_traverse_first (mark_env w) ctdb) (visits w 1 (delete_list vdata))
             (the_db i (daemons cl me), vdata, no_records me i cl) of
        (db, vdata, records) \<Rightarrow>
          vacuum_nodes w ctdb_control_receive_records (ctdb_marshall_finish records) active_nodes vdata (write_db me i db cl))"

definition ctdb_process_delete_list ::
    "vacuum_world \<Rightarrow> ctdb_daemon \<Rightarrow> u32 \<Rightarrow> u32 \<Rightarrow> vacuum_data \<Rightarrow> vacuum_cluster \<Rightarrow> (int \<times> vacuum_data \<times> vacuum_cluster) option" where
  "ctdb_process_delete_list w ctdb me i vdata cl =
     (if delete_count vdata = 0 then Some (0, vdata, cl)
      else
        let vdata = vdata\<lparr>delete_left := delete_count vdata\<rparr>
        in case nodemap_reply w of
             None \<Rightarrow> Some (-1, vdata, cl)
           | Some nodemap \<Rightarrow>
               let active_nodes = list_of_active_nodes (pnn ctdb) nodemap False
               in case store_there w ctdb me i active_nodes vdata cl of
                    None \<Rightarrow> None
                  | Some (ret, vdata, cl) \<Rightarrow>
                      if ret \<noteq> 0 then Some (-1, vdata, cl)
                      else if delete_left vdata = 0 then Some (0, vdata, cl)
                      else delete_there w ctdb me i active_nodes vdata cl)"

text \<open>The records of which other nodes are location masters are announced to these nodes.\<close>

fun ctdb_process_vacuum_fetch_lists ::
    "vacuum_world \<Rightarrow> ctdb_daemon \<Rightarrow> nat list \<Rightarrow> vacuum_data \<Rightarrow> vacuum_cluster \<Rightarrow> int \<times> vacuum_cluster" where
  "ctdb_process_vacuum_fetch_lists w ctdb [] vdata cl = (0, cl)"
| "ctdb_process_vacuum_fetch_lists w ctdb (n # ns) vdata cl =
     (let p = of_nat n;
          vfl = vacuum_fetch_list vdata ! n
      in if p = pnn ctdb \<or> m_count vfl = 0 then ctdb_process_vacuum_fetch_lists w ctdb ns vdata cl
         else if \<not> message_ok w p then (-1, cl)
         else ctdb_process_vacuum_fetch_lists w ctdb ns vdata
                (cl\<lparr>fetch_messages := fetch_messages cl @ [(p, ctdb_marshall_finish vfl)]\<rparr>))"

definition ctdb_vacuum_init_vacuum_data :: "ctdb_daemon \<Rightarrow> u32 \<Rightarrow> vacuum_data \<Rightarrow> vacuum_data" where
  "ctdb_vacuum_init_vacuum_data ctdb i vdata =
     vdata\<lparr>delete_count := 0, delete_left := 0,
       vacuum_fetch_list := replicate (length (node_flags ctdb)) \<lparr>m_db_id = i, m_count = 0, m_data = []\<rparr>\<rparr>"

definition ctdb_vacuum_db ::
    "vacuum_world \<Rightarrow> u32 \<Rightarrow> u32 \<Rightarrow> (u32 \<rightharpoonup> delete_record_data) \<Rightarrow> bool \<Rightarrow> vacuum_data \<Rightarrow> vacuum_cluster \<Rightarrow>
     (int \<times> vacuum_data \<times> vacuum_cluster) option" where
  "ctdb_vacuum_db w me i queue full_vacuum_run vdata cl =
     (if \<not> getvnnmap_ok w \<or> \<not> getpnn_ok w then Some (-1, vdata, cl)
      else
        let ctdb = child_ctdb (daemons cl me);
            vdata = ctdb_vacuum_init_vacuum_data ctdb (db_id (the_db i ctdb)) vdata
        in case ctdb_vacuum_db_fast (fast_env w) ctdb queue (the_db i ctdb, vdata) of
             None \<Rightarrow> None
           | Some (db, vdata) \<Rightarrow>
               let cl = write_db me i db cl
               in case ctdb_vacuum_db_full (full_traverse_ok w) (full_order w) ctdb db full_vacuum_run vdata of
                    None \<Rightarrow> None
                  | Some (ret, vdata) \<Rightarrow>
                      if ret \<noteq> 0 then Some (ret, vdata, cl)
                      else
                        (case ctdb_process_vacuum_fetch_lists w ctdb [0..<length (node_flags ctdb)] vdata cl of
                           (ret, cl) \<Rightarrow>
                             if ret \<noteq> 0 then Some (ret, vdata, cl)
                             else ctdb_process_delete_list w ctdb me i vdata cl))"

section \<open>Repacking\<close>

text \<open>
  The database is copied to a temporary one, without the records that are still on the delete list and have not
  changed, and back.  The number of changes of the file is not followed here.
\<close>

record repack_env =
  repack_steps_ok :: "nat \<Rightarrow> bool"
  repack_io :: "bool \<Rightarrow> tdb_io"
  repack_order :: "content \<Rightarrow> u8 list list"

definition repack_traverse ::
    "tdb_io \<Rightarrow> ctdb_daemon \<Rightarrow> (u32 \<rightharpoonup> delete_record_data) \<Rightarrow> bool \<Rightarrow> u8 list \<Rightarrow> u8 list \<Rightarrow> content \<Rightarrow> (bool \<times> content) option" where
  "repack_traverse w_io ctdb list vacuum key data dest_db =
     (let vacuumed = (vacuum \<and>
            (case list (ctdb_hash key) of
               None \<Rightarrow> False
             | Some kd \<Rightarrow>
                 dd_key kd = key \<and> length data = sizeof_header \<and> dmaster (header_of_bytes data) = pnn ctdb \<and>
                 the_lmaster ctdb (dd_key kd) = pnn ctdb \<and> rsn (dd_hdr kd) = rsn (header_of_bytes data)))
      in if vacuumed then Some (True, dest_db)
         else if dest_db key \<noteq> None \<or> \<not> w_io key (Some data) then Some (False, dest_db)
         else Some (True, dest_db(key \<mapsto> data)))"

definition ctdb_repack_tdb :: "repack_env \<Rightarrow> ctdb_daemon \<Rightarrow> vacuum_data \<Rightarrow> content \<Rightarrow> int \<times> content" where
  "ctdb_repack_tdb env ctdb vdata tdb =
     (let ok = repack_steps_ok env;
          copy = (\<lambda>vacuum src. the (traverse_while (repack_traverse (repack_io env vacuum) ctdb (delete_list vdata) vacuum)
                    (repack_order env src) src Map.empty))
      in if \<not> ok 0 \<or> \<not> ok 1 then (-1, tdb)
         else
           (case copy True tdb of
              (copied, tmp_db) \<Rightarrow>
                if \<not> ok 2 \<or> \<not> copied \<or> \<not> ok 3 then (-1, tdb)
                else
                  (case copy False tmp_db of
                     (copied, tdb') \<Rightarrow> if \<not> ok 4 \<or> \<not> copied \<or> \<not> ok 5 then (-1, tdb) else (0, tdb'))))"

definition ctdb_vacuum_and_repack_db ::
    "vacuum_world \<Rightarrow> repack_env \<Rightarrow> nat option \<Rightarrow> nat \<Rightarrow> nat \<Rightarrow> u32 \<Rightarrow> u32 \<Rightarrow> (u32 \<rightharpoonup> delete_record_data) \<Rightarrow> bool \<Rightarrow>
     vacuum_cluster \<Rightarrow> (int \<times> vacuum_cluster) option" where
  "ctdb_vacuum_and_repack_db w env freelist_size repack_limit vacuum_limit me i queue full_vacuum_run cl =
     (case freelist_size of
        None \<Rightarrow> Some (-1, cl)
      | Some free \<Rightarrow>
          (case ctdb_vacuum_db w me i queue full_vacuum_run
                  \<lparr>delete_list = Map.empty, delete_count = 0, delete_left = 0, vacuum_fetch_list = []\<rparr> cl of
             None \<Rightarrow> None
           | Some (_, vdata, cl) \<Rightarrow>
               if free < repack_limit \<and> unat (delete_left vdata) < vacuum_limit then Some (0, cl)
               else
                 let db = the_db i (daemons cl me);
                     (ret, tdb) = ctdb_repack_tdb env (child_ctdb (daemons cl me)) vdata (ltdb db)
                 in Some (ret, write_db me i (db\<lparr>ltdb := tdb\<rparr>) cl)))"

section \<open>Starting a run\<close>

record ctdb_vacuum_handle =
  fast_path_count :: u32
  child_running :: bool

text \<open>
  The daemon forks a child, which gets the queue of records and the kind of the run, and clears its own queue.
  \<open>None\<close> in the result: no child was started.
\<close>

definition ctdb_vacuum_event ::
    "bool \<Rightarrow> bool \<Rightarrow> u32 \<Rightarrow> freeze_mode \<Rightarrow> u32 \<Rightarrow> ctdb_vacuum_handle \<Rightarrow> ctdb_daemon \<Rightarrow>
     ((u32 \<rightharpoonup> delete_record_data) \<times> bool) option \<times> ctdb_vacuum_handle \<times> ctdb_daemon" where
  "ctdb_vacuum_event pipe_ok forked vacuum_fast_path_count mode i handle ctdb =
     (if recovery_active ctdb \<or> mode \<noteq> CTDB_FREEZE_NONE then (None, handle, ctdb)
      else if \<not> pipe_ok then (None, handle, ctdb)
      else
        let handle = (if fast_path_count handle > vacuum_fast_path_count then handle\<lparr>fast_path_count := 0\<rparr> else handle)
        in if \<not> forked then (None, handle, ctdb)
           else
             (Some (delete_queue (the_db i ctdb), vacuum_fast_path_count > 0 \<and> fast_path_count handle = 0),
              handle\<lparr>child_running := True\<rparr>,
              ctdb\<lparr>dbs := (dbs ctdb)(i \<mapsto> (the_db i ctdb)\<lparr>delete_queue := Map.empty\<rparr>)\<rparr>))"

definition vacuum_child_destructor :: "bool \<Rightarrow> ctdb_vacuum_handle \<Rightarrow> ctdb_vacuum_handle" where
  "vacuum_child_destructor finished handle =
     handle\<lparr>child_running := False, fast_path_count := fast_path_count handle + (if finished then 1 else 0)\<rparr>"

end
