(* ===== verification/Vacuum_Correct.thy ===== *)
theory Vacuum_Correct
  imports Vacuum Recovery_Live
begin

text \<open>
  Vacuuming deletes only what a recovery would not bring back: whatever happens to its controls, no old copy of a
  record becomes the newest one.  This needs that the other nodes can do what they are asked for the record in
  question, because the last record that a node could not handle is taken for handled.
\<close>

section \<open>Buffers of records to delete\<close>

lemma header_bytes [simp]: "header_of_bytes (bytes_of_header h) = h"
  using header_of_bytes_of_header [of h "[]"] by simp

abbreviation dd_data :: "delete_record_data \<Rightarrow> u8 list" where
  "dd_data dd \<equiv> bytes_of_header (dd_hdr dd)"

definition dd_bytes :: "u32 \<Rightarrow> delete_record_data \<Rightarrow> u8 list" where
  "dd_bytes i dd = rec_bytes (i, None, dd_key dd, dd_data dd)"

definition dd_fits :: "delete_record_data \<Rightarrow> bool" where
  "dd_fits dd \<longleftrightarrow> sizeof_rec_data + length (dd_key dd) + sizeof_header < 2 ^ 32"

definition dd_buffer :: "u32 \<Rightarrow> delete_record_data list \<Rightarrow> ctdb_marshall_buffer" where
  "dd_buffer i dds = \<lparr>m_db_id = i, m_count = of_nat (length dds), m_data = concat (map (dd_bytes i) dds)\<rparr>"

lemma marshall_header: "ctdb_marshall_record q key (Some h) [] = ctdb_marshall_record q key None (bytes_of_header h)"
  by (simp add: ctdb_marshall_record_def Let_def sizeof_header_def)

lemma dd_buffer_Nil: "dd_buffer i [] = \<lparr>m_db_id = i, m_count = 0, m_data = []\<rparr>"
  by (simp add: dd_buffer_def)

lemma marshall_traverse: "delete_marshall_traverse dd (dd_buffer i dds) = dd_buffer i (dds @ [dd])"
  by (simp add: delete_marshall_traverse_def add_to_buffer_def dd_buffer_def marshall_header dd_bytes_def)

lemma marshall_fold: "fold (\<lambda>h. delete_marshall_traverse (g h)) hs (dd_buffer i dds) = dd_buffer i (dds @ map g hs)"
  by (induction hs arbitrary: dds) (simp_all add: marshall_traverse)

lemma answer_all:
  assumes "\<forall>dd \<in> set dds. dd_fits dd" "n \<le> length dds" "bs = pre @ concat (map (dd_bytes i) dds)"
  shows "\<exists>records'. answer_records f bs (length pre) n (records, db) =
    Some (0, records', fold (\<lambda>dd db. snd (f (dd_key dd) (dd_data dd) db)) (take n dds) db)"
  using assms
proof (induction n arbitrary: pre dds records db)
  case (Suc n)
  then obtain dd dds' where dds: "dds = dd # dds'" by (cases dds) auto
  have sz: "rec_size (i, None, dd_key dd, dd_data dd) < 2 ^ 32" using Suc.prems(1) dds by (simp add: dd_fits_def sizeof_header_def)
  have bs: "bs = pre @ rec_bytes (i, None, dd_key dd, dd_data dd) @ concat (map (dd_bytes i) dds')"
    using Suc.prems(3) dds dd_bytes_def [of i dd] by simp
  have rd: "read_rec bs (length pre) False = Next (length pre) i None (dd_key dd) (dd_data dd)"
    using read_rec_marshalled [OF sz, of pre "concat (map (dd_bytes i) dds')"] bs by simp
  have len: "unat (word_at bs (length pre)) = length (dd_bytes i dd)"
    unfolding bs word_at_length dd_bytes_def [of i dd] length_rec_bytes by (rule unat_fits [OF sz])
  have sl: "slice bs (length pre) (length (dd_bytes i dd)) = Some (dd_bytes i dd)"
    unfolding bs dd_bytes_def [of i dd] by (rule slice_append) simp_all
  have IH: "\<exists>records'. answer_records f bs (length pre + length (dd_bytes i dd)) n (r, db') =
      Some (0, records', fold (\<lambda>dd db. snd (f (dd_key dd) (dd_data dd) db)) (take n dds') db')" for r db'
    using Suc.IH [of dds' "pre @ dd_bytes i dd" r db'] Suc.prems bs dds dd_bytes_def [of i dd] by simp
  obtain ret db1 where f: "f (dd_key dd) (dd_data dd) db = (ret, db1)" by fastforce
  show ?case
    using IH [of records db1] IH [of "records\<lparr>m_count := m_count records + 1, m_data := m_data records @ dd_bytes i dd\<rparr>" db1]
    by (simp add: rd len sl f dds Let_def sizeof_header_def)
qed simp

section \<open>The controls of the other nodes\<close>

definition copy_of :: "u32 \<Rightarrow> u8 list \<Rightarrow> ctdb_daemon \<Rightarrow> u8 list option" where
  "copy_of i K ctdb = Option.bind (dbs ctdb i) (\<lambda>db. ltdb db K)"

text \<open>What is left of a database after the first \<open>n\<close> records of a buffer.\<close>

definition after_records ::
    "(u8 list \<Rightarrow> u8 list \<Rightarrow> call_db \<Rightarrow> int \<times> call_db) \<Rightarrow> delete_record_data list \<Rightarrow> call_db \<Rightarrow> call_db" where
  "after_records f dds db = fold (\<lambda>dd db. snd (f (dd_key dd) (dd_data dd) db)) dds db"

lemma control_records_result:
  assumes "\<forall>dd \<in> set dds. dd_fits dd" "control_records f (ctdb_marshall_finish (dd_buffer i dds)) ctdb = Some (ret, outdata, ctdb')"
  shows "(ret \<noteq> 0 \<and> ctdb' = ctdb) \<or>
    (\<exists>db n. dbs ctdb i = Some db \<and> n = unat (of_nat (length dds) :: u32) \<and> ctdb' = ctdb\<lparr>dbs := (dbs ctdb)(i \<mapsto> after_records f (take n dds) db)\<rparr>)"
proof (cases "dbs ctdb i")
  case None
  then show ?thesis using assms(2) by (auto simp: control_records_def Let_def find_ctdb_db_def dd_buffer_def split: if_splits)
next
  case (Some db)
  let ?n = "unat (of_nat (length dds) :: u32)"
  have n: "?n \<le> length dds" by (simp add: unat_of_nat)
  obtain records' where "answer_records f (concat (map (dd_bytes i) dds)) 0 ?n (\<lparr>m_db_id = db_id db, m_count = 0, m_data = []\<rparr>, db) =
      Some (0, records', after_records f (take ?n dds) db)"
    using answer_all [OF assms(1) n, of "concat (map (dd_bytes i) dds)" "[]" i f "\<lparr>m_db_id = db_id db, m_count = 0, m_data = []\<rparr>" db]
    by (auto simp: after_records_def)
  then show ?thesis using assms(2) Some
    by (auto simp: control_records_def Let_def find_ctdb_db_def dd_buffer_def split: if_splits)
qed

definition only_at :: "(u8 list \<Rightarrow> u8 list \<Rightarrow> call_db \<Rightarrow> int \<times> call_db) \<Rightarrow> bool" where
  "only_at f \<longleftrightarrow> (\<forall>key data db K. key \<noteq> K \<longrightarrow> ltdb (snd (f key data db)) K = ltdb db K)"

lemma tdb_write_only:
  "key \<noteq> K \<Longrightarrow> ltdb (snd (tdb_store w b key r db)) K = ltdb db K"
  "key \<noteq> K \<Longrightarrow> ltdb (snd (tdb_delete w b key db)) K = ltdb db K"
  by (simp_all add: tdb_store_def tdb_delete_def)

lemma only_at_store: "only_at (store_tdb_record env ctdb)"
  by (auto simp: only_at_def store_tdb_record_def Let_def tdb_write_only split: option.splits)

lemma only_at_delete: "only_at (delete_tdb_record env ctdb)"
  by (auto simp: only_at_def delete_tdb_record_def Let_def tdb_write_only split: option.splits)

lemma after_records_keeps:
  assumes "only_at f" "Q (ltdb db K)"
    and "\<forall>db. Q (ltdb db K) \<longrightarrow> (\<exists>dd \<in> set dds. dd_key dd = K) \<longrightarrow> Q (ltdb (snd (f K d db)) K)"
    and "\<forall>dd \<in> set dds. dd_key dd = K \<longrightarrow> dd_data dd = d"
  shows "Q (ltdb (after_records f dds db) K)"
  using assms(2-)
proof (induction dds arbitrary: db)
  case (Cons dd dds)
  have "Q (ltdb (snd (f (dd_key dd) (dd_data dd) db)) K)"
    using Cons.prems assms(1) by (cases "dd_key dd = K") (auto simp: only_at_def)
  from Cons.IH [OF this] show ?case using Cons.prems by (auto simp: after_records_def)
qed (simp add: after_records_def)

text \<open>A round of controls: what every control keeps is kept, and what it achieves is achieved on all nodes of a successful round.\<close>

definition round_control ::
    "(vacuum_env \<Rightarrow> ctdb_daemon \<Rightarrow> u8 list \<Rightarrow> u8 list \<Rightarrow> call_db \<Rightarrow> int \<times> call_db) \<Rightarrow> vacuum_env \<Rightarrow> u8 list \<Rightarrow> ctdb_daemon \<Rightarrow>
     (int \<times> u8 list \<times> ctdb_daemon) option" where
  "round_control f env indata ctdb = control_records (f env ctdb) indata ctdb"

lemma round_controls:
  "ctdb_control_receive_records = round_control store_tdb_record"
  "ctdb_control_try_delete_records = round_control delete_tdb_record"
  by (simp_all add: fun_eq_iff round_control_def ctdb_control_receive_records_def ctdb_control_try_delete_records_def)

lemma drop_returned_sub: "drop_returned k d v = (b, v') \<Longrightarrow> delete_list v' \<subseteq>\<^sub>m delete_list v"
  by (auto simp: drop_returned_def map_le_def split: if_splits option.splits)

lemma for_returned_sub:
  "for_records drop_returned bs p k v = Some (b, v') \<Longrightarrow> delete_list v' \<subseteq>\<^sub>m delete_list v"
proof (induction k arbitrary: p v)
  case (Suc k)
  then obtain x1 x2 x3 key data where r: "read_rec bs p False = Next x1 x2 x3 key data"
    by (cases "read_rec bs p False") auto
  obtain b1 v1 where d: "drop_returned key data v = (b1, v1)" by fastforce
  show ?case
  proof (cases b1)
    case True
    then have "delete_list v' \<subseteq>\<^sub>m delete_list v1" using Suc.IH [of "p + unat (word_at bs p)" v1] Suc.prems r d by simp
    then show ?thesis using drop_returned_sub [OF d] map_le_trans by blast
  next
    case False
    then show ?thesis using Suc.prems r d drop_returned_sub [OF d] by simp
  qed
qed simp

abbreviation received :: "delete_record_data list \<Rightarrow> delete_record_data list" where
  "received dds \<equiv> take (unat (of_nat (length dds) :: u32)) dds"

definition after_control ::
    "(vacuum_env \<Rightarrow> ctdb_daemon \<Rightarrow> u8 list \<Rightarrow> u8 list \<Rightarrow> call_db \<Rightarrow> int \<times> call_db) \<Rightarrow> vacuum_env \<Rightarrow> u32 \<Rightarrow> delete_record_data list \<Rightarrow>
     ctdb_daemon \<Rightarrow> ctdb_daemon" where
  "after_control f env i dds c = c\<lparr>dbs := (dbs c)(i \<mapsto> after_records (f env c) (received dds) (the_db i c))\<rparr>"

lemma vacuum_control_effect:
  assumes "vacuum_control w (round_control f) (ctdb_marshall_finish (dd_buffer i dds)) p cl = Some (ret, od, cl')" "\<forall>dd \<in> set dds. dd_fits dd"
  shows "\<forall>q. q \<noteq> p \<longrightarrow> daemons cl' q = daemons cl q"
    "(ret \<noteq> 0 \<and> daemons cl' p = daemons cl p) \<or>
      (\<exists>t. dbs (daemons cl p) i \<noteq> None \<and> daemons cl' p = after_control f (v_env w t p) i dds (daemons cl p))"
proof -
  show "\<forall>q. q \<noteq> p \<longrightarrow> daemons cl' q = daemons cl q" using assms(1) by (auto simp: vacuum_control_def Let_def split: if_splits)
  show "(ret \<noteq> 0 \<and> daemons cl' p = daemons cl p) \<or>
      (\<exists>t. dbs (daemons cl p) i \<noteq> None \<and> daemons cl' p = after_control f (v_env w t p) i dds (daemons cl p))"
  proof (cases "v_fate w (sent cl) p = Lost")
    case True
    then show ?thesis using assms(1) by (auto simp: vacuum_control_def Let_def)
  next
    case False
    then obtain res ctdb' where c: "control_records (f (v_env w (sent cl) p) (daemons cl p)) (ctdb_marshall_finish (dd_buffer i dds)) (daemons cl p) =
        Some (res, od, ctdb')" "daemons cl' p = ctdb'" "ret = (if v_fate w (sent cl) p = Unanswered then -1 else res)"
      using assms(1) by (auto simp: vacuum_control_def Let_def round_control_def)
    from control_records_result [OF assms(2) c(1)] show ?thesis
    proof (elim disjE exE conjE)
      show "res \<noteq> 0 \<Longrightarrow> ctdb' = daemons cl p \<Longrightarrow> ?thesis" using c by auto
      show "dbs (daemons cl p) i = Some db \<Longrightarrow> n = unat (of_nat (length dds) :: u32) \<Longrightarrow>
          ctdb' = (daemons cl p)\<lparr>dbs := (dbs (daemons cl p))(i \<mapsto> after_records (f (v_env w (sent cl) p) (daemons cl p)) (take n dds) db)\<rparr> \<Longrightarrow> ?thesis" for db n
        using c(2) by (intro disjI2 exI [of _ "sent cl"]) (simp add: after_control_def the_db_def)
    qed
  qed
qed

lemma vacuum_nodes_effect:
  assumes "vacuum_nodes w (round_control f) (ctdb_marshall_finish (dd_buffer i dds)) ps vd cl = Some (ret, vd', cl')"
    and "\<forall>dd \<in> set dds. dd_fits dd" "distinct ps"
    and Q: "\<forall>p \<in> set ps. \<forall>t c. Q p c \<longrightarrow> dbs c i \<noteq> None \<longrightarrow> Q p (after_control f (v_env w t p) i dds c)"
    and R: "\<forall>p \<in> set ps. \<forall>t c. Q p c \<longrightarrow> dbs c i \<noteq> None \<longrightarrow> R p (after_control f (v_env w t p) i dds c)"
    and "\<forall>p \<in> set ps. Q p (daemons cl p)"
  shows "delete_list vd' \<subseteq>\<^sub>m delete_list vd \<and> (\<forall>p \<in> set ps. Q p (daemons cl' p)) \<and> (\<forall>p. p \<notin> set ps \<longrightarrow> daemons cl' p = daemons cl p) \<and>
    (ret = 0 \<longrightarrow> (\<forall>p \<in> set ps. R p (daemons cl' p)))"
  using assms(1,3-)
proof (induction ps arbitrary: vd cl)
  case (Cons p ps)
  from Cons.prems(1) obtain res od cl1 where c: "vacuum_control w (round_control f) (ctdb_marshall_finish (dd_buffer i dds)) p cl = Some (res, od, cl1)"
    by (auto split: option.splits)
  note E = vacuum_control_effect [OF c assms(2)]
  have q1: "Q p (daemons cl1 p)" using E(2) Cons.prems(3,5) by auto
  show ?case
  proof (cases "res = 0")
    case False
    then have "vd' = vd" "cl' = cl1" "ret \<noteq> 0" using Cons.prems(1) c by auto
    then show ?thesis using E(1) q1 Cons.prems(2,5) by auto
  next
    case True
    then have r1: "R p (daemons cl1 p)" using E(2) Cons.prems(4,5) by auto
    obtain b vd1 where fr: "for_records drop_returned (m_data (buffer_of_bytes od)) 0 (unat (m_count (buffer_of_bytes od)) - 1) vd = Some (b, vd1)"
      using Cons.prems(1) c True by (auto simp: Let_def split: if_splits option.splits)
    note sub = for_returned_sub [OF fr]
    show ?thesis
    proof (cases b)
      case False
      then have "vd' = vd1" "cl' = cl1" "ret \<noteq> 0" using Cons.prems(1) c True fr by (auto simp: Let_def split: if_splits)
      then show ?thesis using E(1) q1 Cons.prems(2,5) sub by auto
    next
      case True
      then have run: "vacuum_nodes w (round_control f) (ctdb_marshall_finish (dd_buffer i dds)) ps vd1 cl1 = Some (ret, vd', cl')"
        using Cons.prems(1) c \<open>res = 0\<close> fr by (auto simp: Let_def split: if_splits)
      have "delete_list vd' \<subseteq>\<^sub>m delete_list vd1 \<and> (\<forall>p \<in> set ps. Q p (daemons cl' p)) \<and> (\<forall>p. p \<notin> set ps \<longrightarrow> daemons cl' p = daemons cl1 p) \<and>
          (ret = 0 \<longrightarrow> (\<forall>p \<in> set ps. R p (daemons cl' p)))"
      proof (rule Cons.IH [OF run])
        have "p \<notin> set ps" using Cons.prems(2) by simp
        then show "\<forall>q \<in> set ps. Q q (daemons cl1 q)" using Cons.prems(5) E(1) by (metis list.set_intros(2))
      qed (use Cons.prems(2-4) in simp_all)
      then show ?thesis using E(1) q1 r1 Cons.prems(2) map_le_trans [OF _ sub] by auto
    qed
  qed
qed simp

section \<open>One record on the other nodes\<close>

abbreviation read_only :: "ctdb_ltdb_header \<Rightarrow> bool" where
  "read_only h \<equiv> has_flag (hflags h) CTDB_REC_RO_FLAGS"

text \<open>A copy that does not win over an empty one with the header \<open>h\<close>, and one that its node would delete.\<close>

definition older :: "ctdb_ltdb_header \<Rightarrow> u8 list option \<Rightarrow> bool" where
  "older h x \<longleftrightarrow> (\<forall>r. x = Some r \<longrightarrow> sizeof_header \<le> length r \<and> rsn_of r \<le> rsn h \<and> (length r = sizeof_header \<or> rsn_of r < rsn h))"

definition deletable :: "u32 \<Rightarrow> u8 list option \<Rightarrow> bool" where
  "deletable p x \<longleftrightarrow> (\<forall>r. x = Some r \<longrightarrow> \<not> read_only (header_of_bytes r) \<and> dmaster (header_of_bytes r) \<noteq> p)"

lemma older_None [simp]: "older h None"
  by (simp add: older_def)

lemma deletable_None [simp]: "deletable p None"
  by (simp add: deletable_def)

lemma older_self [simp]: "older h (Some (bytes_of_header h))"
  by (simp add: older_def sizeof_header_def)

lemma deletable_self: "\<not> read_only h \<Longrightarrow> dmaster h \<noteq> p \<Longrightarrow> deletable p (Some (bytes_of_header h))"
  by (simp add: deletable_def)

lemma store_record_cases:
  "ltdb (snd (store_tdb_record env c K d db)) K = ltdb db K \<or> ltdb (snd (store_tdb_record env c K d db)) K = Some d"
  by (auto simp: store_tdb_record_def Let_def tdb_store_def split: option.splits)

lemma delete_record_cases:
  "ltdb (snd (delete_tdb_record env c K d db)) K = ltdb db K \<or> ltdb (snd (delete_tdb_record env c K d db)) K = None"
  by (auto simp: delete_tdb_record_def Let_def tdb_delete_def split: option.splits)

lemma delete_record_done:
  assumes "the_lmaster c K \<noteq> pnn c" "chain_free env K" "freelist_free env K" "vacuum_io env K None"
    and "older h (ltdb db K)" "deletable (pnn c) (ltdb db K)" "\<not> read_only h"
  shows "ltdb (snd (delete_tdb_record env c K (bytes_of_header h) db)) K = None"
proof (cases "ltdb db K")
  case None
  then show ?thesis using assms by (simp add: delete_tdb_record_def Let_def sizeof_header_def)
next
  case (Some r)
  then show ?thesis using assms by (auto simp: delete_tdb_record_def Let_def sizeof_header_def older_def deletable_def tdb_delete_def)
qed

lemma after_records_deletes:
  assumes "\<exists>dd \<in> set dds. dd_key dd = K" "\<forall>dd \<in> set dds. dd_key dd = K \<longrightarrow> dd_hdr dd = h"
    and "the_lmaster c K \<noteq> pnn c" "chain_free env K" "freelist_free env K" "vacuum_io env K None" "\<not> read_only h"
    and "older h (ltdb db K)" "deletable (pnn c) (ltdb db K)"
  shows "ltdb (after_records (delete_tdb_record env c) dds db) K = None"
  using assms(1,2,8,9)
proof (induction dds arbitrary: db)
  case (Cons dd dds)
  let ?db = "snd (delete_tdb_record env c (dd_key dd) (dd_data dd) db)"
  have step: "after_records (delete_tdb_record env c) (dd # dds) db = after_records (delete_tdb_record env c) dds ?db" by (simp add: after_records_def)
  show ?case
  proof (cases "dd_key dd = K")
    case True
    then have "ltdb ?db K = None" using delete_record_done [OF assms(3-6) Cons.prems(3,4) assms(7)] Cons.prems(2) by simp
    then have "ltdb (after_records (delete_tdb_record env c) dds ?db) K = None"
    proof (rule after_records_keeps [OF only_at_delete])
      show "\<forall>db. ltdb db K = None \<longrightarrow> (\<exists>dd \<in> set dds. dd_key dd = K) \<longrightarrow> ltdb (snd (delete_tdb_record env c K (bytes_of_header h) db)) K = None"
        using delete_record_cases by metis
      show "\<forall>dd \<in> set dds. dd_key dd = K \<longrightarrow> dd_data dd = bytes_of_header h" using Cons.prems(2) by simp
    qed
    then show ?thesis by (simp add: step)
  next
    case False
    then have "ltdb ?db K = ltdb db K" using only_at_delete [of env c] by (simp add: only_at_def)
    then show ?thesis using Cons.IH [of ?db] Cons.prems False by (simp add: step)
  qed
qed simp

definition waits_for :: "ctdb_ltdb_header \<Rightarrow> u32 \<Rightarrow> u8 list \<Rightarrow> u32 \<Rightarrow> ctdb_daemon \<Rightarrow> bool" where
  "waits_for h i K p c \<longleftrightarrow> pnn c = p \<and> the_lmaster c K \<noteq> p \<and> older h (copy_of i K c) \<and> deletable p (copy_of i K c)"

definition entries_of :: "u8 list \<Rightarrow> ctdb_ltdb_header \<Rightarrow> delete_record_data list \<Rightarrow> bool" where
  "entries_of K h dds \<longleftrightarrow> (\<forall>dd \<in> set dds. dd_fits dd \<and> (dd_key dd = K \<longrightarrow> dd_hdr dd = h))"

lemma after_control_sel [simp]:
  "pnn (after_control f env i dds c) = pnn c" "the_lmaster (after_control f env i dds c) K = the_lmaster c K"
  "copy_of i K (after_control f env i dds c) = ltdb (after_records (f env c) (received dds) (the_db i c)) K"
  by (simp_all add: after_control_def the_lmaster_def copy_of_def)

lemma copy_the_db: "dbs c i \<noteq> None \<Longrightarrow> copy_of i K c = ltdb (the_db i c) K"
  by (auto simp: copy_of_def the_db_def)

lemma received_sub: "set (received dds) \<subseteq> set dds"
  by (rule set_take_subset)

lemma receive_round:
  assumes "vacuum_nodes w ctdb_control_receive_records (ctdb_marshall_finish (dd_buffer i dds)) ps vd cl = Some (ret, vd', cl')"
    and E: "entries_of K h dds" and "distinct ps" "dmaster h \<notin> set ps" "K \<in> dd_key ` set dds \<longrightarrow> \<not> read_only h"
    and "\<forall>p \<in> set ps. waits_for h i K p (daemons cl p)"
  shows "delete_list vd' \<subseteq>\<^sub>m delete_list vd \<and> (\<forall>p \<in> set ps. waits_for h i K p (daemons cl' p)) \<and> (\<forall>p. p \<notin> set ps \<longrightarrow> daemons cl' p = daemons cl p)"
proof -
  have keep: "waits_for h i K p (after_control store_tdb_record env i dds c)" if "p \<in> set ps" "waits_for h i K p c" "dbs c i \<noteq> None" for p env c
  proof -
    let ?Q = "\<lambda>x. older h x \<and> deletable p x"
    have "?Q (ltdb (after_records (store_tdb_record env c) (received dds) (the_db i c)) K)"
    proof (rule after_records_keeps [OF only_at_store])
      show "?Q (ltdb (the_db i c) K)" using that copy_the_db [OF that(3), of K] by (simp add: waits_for_def)
      show "\<forall>db. ?Q (ltdb db K) \<longrightarrow> (\<exists>dd \<in> set (received dds). dd_key dd = K) \<longrightarrow>
          ?Q (ltdb (snd (store_tdb_record env c K (bytes_of_header h) db)) K)"
      proof (intro allI impI)
        fix db :: call_db
        assume q: "?Q (ltdb db K)" and "\<exists>dd \<in> set (received dds). dd_key dd = K"
        then have "\<not> read_only h" using assms(5) received_sub by (metis image_eqI subsetD)
        moreover have "dmaster h \<noteq> p" using assms(4) that(1) by blast
        ultimately show "?Q (ltdb (snd (store_tdb_record env c K (bytes_of_header h) db)) K)"
          using store_record_cases [of env c K "bytes_of_header h" db] q deletable_self [of h p] by auto
      qed
      show "\<forall>dd \<in> set (received dds). dd_key dd = K \<longrightarrow> dd_data dd = bytes_of_header h"
        using E received_sub [of dds] by (auto simp: entries_of_def)
    qed
    then show ?thesis using that(2) by (simp add: waits_for_def)
  qed
  have "\<forall>dd \<in> set dds. dd_fits dd" using E by (simp add: entries_of_def)
  from vacuum_nodes_effect [OF assms(1) [unfolded round_controls] this assms(3), of "waits_for h i K" "\<lambda>p c. True", OF _ _ assms(6)]
  show ?thesis using keep by simp
qed

lemma delete_round:
  assumes "vacuum_nodes w ctdb_control_try_delete_records (ctdb_marshall_finish (dd_buffer i dds)) ps vd cl = Some (ret, vd', cl')"
    and E: "entries_of K h dds" and "distinct ps"
    and "\<forall>p \<in> set ps. \<forall>t. chain_free (v_env w t p) K \<and> freelist_free (v_env w t p) K \<and> vacuum_io (v_env w t p) K None"
    and "\<forall>p \<in> set ps. waits_for h i K p (daemons cl p)"
  shows "delete_list vd' \<subseteq>\<^sub>m delete_list vd \<and> (\<forall>p \<in> set ps. waits_for h i K p (daemons cl' p)) \<and> (\<forall>p. p \<notin> set ps \<longrightarrow> daemons cl' p = daemons cl p) \<and>
    (ret = 0 \<longrightarrow> \<not> read_only h \<longrightarrow> K \<in> dd_key ` set (received dds) \<longrightarrow> (\<forall>p \<in> set ps. copy_of i K (daemons cl' p) = None))"
proof -
  let ?del = "\<not> read_only h \<and> K \<in> dd_key ` set (received dds)"
  have data: "\<forall>dd \<in> set (received dds). dd_key dd = K \<longrightarrow> dd_hdr dd = h"
    using E received_sub [of dds] by (auto simp: entries_of_def)
  have keep: "waits_for h i K p (after_control delete_tdb_record env i dds c)" if "waits_for h i K p c" "dbs c i \<noteq> None" for p env c
  proof -
    let ?Q = "\<lambda>x. older h x \<and> deletable p x"
    have "?Q (ltdb (after_records (delete_tdb_record env c) (received dds) (the_db i c)) K)"
    proof (rule after_records_keeps [OF only_at_delete])
      show "?Q (ltdb (the_db i c) K)" using that copy_the_db [OF that(2), of K] by (simp add: waits_for_def)
      show "\<forall>db. ?Q (ltdb db K) \<longrightarrow> (\<exists>dd \<in> set (received dds). dd_key dd = K) \<longrightarrow>
          ?Q (ltdb (snd (delete_tdb_record env c K (bytes_of_header h) db)) K)"
        using delete_record_cases older_None deletable_None by metis
      show "\<forall>dd \<in> set (received dds). dd_key dd = K \<longrightarrow> dd_data dd = bytes_of_header h" using data by simp
    qed
    then show ?thesis using that(1) by (simp add: waits_for_def)
  qed
  have gone: "?del \<longrightarrow> copy_of i K (after_control delete_tdb_record (v_env w t p) i dds c) = None"
    if "p \<in> set ps" "waits_for h i K p c" "dbs c i \<noteq> None" for p t c
  proof
    assume del: ?del
    have "ltdb (after_records (delete_tdb_record (v_env w t p) c) (received dds) (the_db i c)) K = None"
      by (rule after_records_deletes [OF _ data]) (use del that assms(4) copy_the_db [OF that(3), of K] in \<open>auto simp: waits_for_def\<close>)
    then show "copy_of i K (after_control delete_tdb_record (v_env w t p) i dds c) = None" by simp
  qed
  have "\<forall>dd \<in> set dds. dd_fits dd" using E by (simp add: entries_of_def)
  from vacuum_nodes_effect [OF assms(1) [unfolded round_controls] this assms(3), of "waits_for h i K" "\<lambda>p c. ?del \<longrightarrow> copy_of i K c = None", OF _ _ assms(5)]
  show ?thesis using keep gone by auto
qed

lemma other_round:
  assumes "vacuum_nodes w control (ctdb_marshall_finish (dd_buffer i dds)) ps vd cl = Some (ret, vd', cl')"
    and "control = ctdb_control_receive_records \<or> control = ctdb_control_try_delete_records"
    and "\<forall>dd \<in> set dds. dd_fits dd" "distinct ps" "K \<notin> dd_key ` set dds"
  shows "delete_list vd' \<subseteq>\<^sub>m delete_list vd \<and> (\<forall>p. copy_of i K (daemons cl' p) = copy_of i K (daemons cl p)) \<and>
    (\<forall>p. p \<notin> set ps \<longrightarrow> daemons cl' p = daemons cl p)"
proof -
  from assms(2) obtain f where f: "control = round_control f" "only_at (f env c)" for env c
    using round_controls only_at_store only_at_delete by metis
  let ?Q = "\<lambda>p c. copy_of i K c = copy_of i K (daemons cl p)"
  have keep: "?Q p (after_control f env i dds c)" if "?Q p c" "dbs c i \<noteq> None" for p env c
  proof -
    have "ltdb (after_records (f env c) (received dds) (the_db i c)) K = copy_of i K (daemons cl p)"
    proof (rule after_records_keeps [OF f(2)])
      show "ltdb (the_db i c) K = copy_of i K (daemons cl p)" using that copy_the_db [OF that(2), of K] by simp
    qed (use assms(5) received_sub [of dds] in auto)
    then show ?thesis by simp
  qed
  have r: "delete_list vd' \<subseteq>\<^sub>m delete_list vd \<and> (\<forall>p \<in> set ps. ?Q p (daemons cl' p)) \<and> (\<forall>p. p \<notin> set ps \<longrightarrow> daemons cl' p = daemons cl p)"
    using vacuum_nodes_effect [OF assms(1) [unfolded f(1)] assms(3,4), of ?Q "\<lambda>p c. True"] keep by simp
  then have "?Q p (daemons cl' p)" for p by (cases "p \<in> set ps") auto
  then show ?thesis using r by blast
qed

section \<open>The steps of the child\<close>

definition bump :: "ctdb_ltdb_header \<Rightarrow> ctdb_ltdb_header" where
  "bump h = h\<lparr>rsn := rsn h + 1, hflags := stored_flags (hflags h)\<rparr>"

definition child_ok :: "ctdb_daemon \<Rightarrow> call_db \<Rightarrow> bool" where
  "child_ok ctdb db \<longleftrightarrow> vnn_map ctdb \<noteq> None \<and> \<not> persistent db \<and> ctdb_ltdb_store_fn db"

lemma child_ok_same: "child_ok ctdb db \<Longrightarrow> db_same db db' \<Longrightarrow> child_ok ctdb db'"
  by (simp add: child_ok_def db_same_def)

lemma still_empty_stored:
  "still_empty ctdb K r (case x of None \<Rightarrow> [] | Some d \<Rightarrow> d) \<longleftrightarrow> (\<exists>d. x = Some d \<and> still_empty ctdb K r d)"
  by (cases x) (simp_all add: still_empty_def sizeof_header_def)

text \<open>An empty record that the node owns gets the next sequence number when it is stored again.\<close>

lemma store_bumps:
  assumes "child_ok ctdb db" "still_empty ctdb K r d" "ctdb_ltdb_store w ctdb db K (header_of_bytes d) [] = (res, hdr', db')"
  shows "db_same db db'" "res \<noteq> 0 \<Longrightarrow> ltdb db' = ltdb db"
    "res = 0 \<Longrightarrow> \<exists>x. ltdb db' = (ltdb db)(K := x) \<and>
      (\<not> has_flag (hflags (header_of_bytes d)) CTDB_REC_FLAG_VACUUM_MIGRATED \<longrightarrow> x = Some (bytes_of_header (bump (header_of_bytes d))))"
proof -
  let ?h = "header_of_bytes d"
  obtain m where m: "vnn_map ctdb = Some m" and np: "\<not> persistent db" and fn: "ctdb_ltdb_store_fn db"
    using assms(1) by (auto simp: child_ok_def)
  have own: "dmaster ?h = pnn ctdb" "\<not> read_only ?h" "ctdb_lmaster m K = pnn ctdb"
    using assms(2) m by (simp_all add: still_empty_def Let_def the_lmaster_def)
  obtain keep sched where k: "store_keep (pnn ctdb) (ctdb_lmaster m K) (persistent db) ?h [] = (keep, sched)" by fastforce
  have st: "ctdb_ltdb_store_server w ctdb db K ?h [] = (res, hdr', db')" using assms(3) fn by (simp add: ctdb_ltdb_store_def)
  note R = store_server_result [OF m st k]
  show "db_same db db'" by (fact R(2))
  show "res \<noteq> 0 \<Longrightarrow> ltdb db' = ltdb db" using R(4) by simp
  assume "res = 0"
  have keep: "\<not> has_flag (hflags ?h) CTDB_REC_FLAG_VACUUM_MIGRATED \<Longrightarrow> keep"
    using k own np by (auto simp: store_keep_def split: if_splits)
  have "owned ctdb db ?h" using own np by (simp add: owned_def)
  then have "keep \<Longrightarrow> hdr' = bump ?h" using R(1) by (simp add: bump_def)
  then show "\<exists>x. ltdb db' = (ltdb db)(K := x) \<and>
      (\<not> has_flag (hflags ?h) CTDB_REC_FLAG_VACUUM_MIGRATED \<longrightarrow> x = Some (bytes_of_header (bump ?h)))"
    using R(4) \<open>res = 0\<close> keep by (intro exI [of _ "if keep then Some (bytes_of_header hdr' @ []) else None"]) auto
qed

text \<open>A visit of the first traversal either changes no record or raises the sequence number of one and sends it.\<close>

lemma mark_step:
  assumes "delete_marshall_traverse_first env ctdb h (db, vd, dd_buffer i dds) = (db', vd', records')" "child_ok ctdb db"
  shows "delete_list vd' \<subseteq>\<^sub>m delete_list vd \<and> db_same db db' \<and>
    ((records' = dd_buffer i dds \<and> ltdb db' = ltdb db) \<or>
     (\<exists>dd d x. delete_list vd h = Some dd \<and> records' = dd_buffer i (dds @ [dd]) \<and> ltdb db (dd_key dd) = Some d \<and>
        still_empty ctdb (dd_key dd) (rsn (dd_hdr dd)) d \<and> ltdb db' = (ltdb db)(dd_key dd := x) \<and>
        (\<not> has_flag (hflags (header_of_bytes d)) CTDB_REC_FLAG_VACUUM_MIGRATED \<longrightarrow> x = Some (bytes_of_header (bump (header_of_bytes d))))))"
proof (cases "delete_list vd h")
  case None
  then show ?thesis using assms(1) by (auto simp: delete_marshall_traverse_first_def)
next
  case (Some dd)
  let ?skip = "vd\<lparr>delete_list := (delete_list vd)(h := None)\<rparr>"
  let ?d = "case ltdb db (dd_key dd) of None \<Rightarrow> [] | Some r \<Rightarrow> r"
  have skip: "delete_list ?skip \<subseteq>\<^sub>m delete_list vd" by (auto simp: map_le_def)
  show ?thesis
  proof (cases "chain_free env (dd_key dd) \<and> still_empty ctdb (dd_key dd) (rsn (dd_hdr dd)) ?d")
    case False
    then have "(db', vd', records') = (db, ?skip, dd_buffer i dds)"
      using assms(1) Some by (auto simp: delete_marshall_traverse_first_def Let_def split: if_splits)
    then show ?thesis using skip by simp
  next
    case True
    then obtain d where d: "ltdb db (dd_key dd) = Some d" "still_empty ctdb (dd_key dd) (rsn (dd_hdr dd)) d"
      using still_empty_stored [of ctdb "dd_key dd"] by blast
    obtain res hdr' db1 where st: "ctdb_ltdb_store (vacuum_io env) ctdb db (dd_key dd) (header_of_bytes d) [] = (res, hdr', db1)"
      by (cases "ctdb_ltdb_store (vacuum_io env) ctdb db (dd_key dd) (header_of_bytes d) []") auto
    note B = store_bumps [OF assms(2) d(2) st]
    have "(db', vd', records') = (if res \<noteq> 0 then (db1, ?skip, dd_buffer i dds) else (db1, vd, dd_buffer i (dds @ [dd])))"
      using assms(1) Some True d st by (auto simp: delete_marshall_traverse_first_def Let_def marshall_traverse split: if_splits)
    then show ?thesis using skip B d Some by (cases "res = 0") auto
  qed
qed

text \<open>The last traversal deletes records that were marked.\<close>

lemma delete_step:
  assumes "delete_record_traverse env ctdb h (db, vd) = (db', vd')"
  shows "delete_list vd' \<subseteq>\<^sub>m delete_list vd \<and> db_same db db' \<and>
    (ltdb db' = ltdb db \<or>
     (\<exists>dd d. delete_list vd h = Some dd \<and> ltdb db (dd_key dd) = Some d \<and> still_empty ctdb (dd_key dd) (rsn (dd_hdr dd) + 1) d \<and>
        ltdb db' = (ltdb db)(dd_key dd := None)))"
proof (cases "delete_list vd h")
  case None
  then show ?thesis using assms by (auto simp: delete_record_traverse_def)
next
  case (Some dd)
  let ?d = "case ltdb db (dd_key dd) of None \<Rightarrow> [] | Some r \<Rightarrow> r"
  show ?thesis
  proof (cases "chain_free env (dd_key dd) \<and> still_empty ctdb (dd_key dd) (rsn (dd_hdr dd) + 1) ?d")
    case False
    then show ?thesis using assms Some by (auto simp: delete_record_traverse_def Let_def split: if_splits)
  next
    case True
    then obtain d where d: "ltdb db (dd_key dd) = Some d" "still_empty ctdb (dd_key dd) (rsn (dd_hdr dd) + 1) d"
      using still_empty_stored [of ctdb "dd_key dd"] by blast
    then show ?thesis using assms Some True
      by (auto simp: delete_record_traverse_def Let_def tdb_delete_def db_same_def map_le_def split: if_splits)
  qed
qed

section \<open>The traversals of the child\<close>

definition listed :: "u8 list \<Rightarrow> ctdb_ltdb_header \<Rightarrow> (u32 \<rightharpoonup> delete_record_data) \<Rightarrow> bool" where
  "listed K h list \<longleftrightarrow>
     (\<forall>hh dd. list hh = Some dd \<longrightarrow> hh = ctdb_hash (dd_key dd) \<and> dd_fits dd \<and> (dd_key dd = K \<longrightarrow> dd_hdr dd = h))"

definition has_entry :: "u8 list \<Rightarrow> (u32 \<rightharpoonup> delete_record_data) \<Rightarrow> bool" where
  "has_entry K list \<longleftrightarrow> (\<exists>hh dd. list hh = Some dd \<and> dd_key dd = K)"

lemma map_leD: "m \<subseteq>\<^sub>m m' \<Longrightarrow> m a = Some b \<Longrightarrow> m' a = Some b"
  by (auto simp: map_le_def dom_def)

lemma listed_sub: "listed K h l' \<Longrightarrow> l \<subseteq>\<^sub>m l' \<Longrightarrow> listed K h l"
  using map_leD by (fastforce simp: listed_def)

lemma has_entry_sub: "has_entry K l \<Longrightarrow> l \<subseteq>\<^sub>m l' \<Longrightarrow> has_entry K l'"
  using map_leD by (fastforce simp: has_entry_def)

text \<open>\<open>P\<close> is a property of the record under \<open>K\<close> that marking it keeps.\<close>

lemma mark_fold:
  assumes "fold (delete_marshall_traverse_first env ctdb) hs (db, vd, dd_buffer i dds) = (db', vd', records')" "child_ok ctdb db"
    and "listed K h (delete_list vd)" "entries_of K h dds" "K \<in> dd_key ` set dds \<longrightarrow> has_entry K l0 \<and> \<not> read_only h"
    and "delete_list vd \<subseteq>\<^sub>m l0" "P (ltdb db K)"
    and P: "\<forall>d. has_entry K l0 \<longrightarrow> P (Some d) \<longrightarrow> still_empty ctdb K (rsn h) d \<longrightarrow> \<not> read_only h \<and>
      \<not> has_flag (hflags (header_of_bytes d)) CTDB_REC_FLAG_VACUUM_MIGRATED \<and> P (Some (bytes_of_header (bump (header_of_bytes d))))"
  shows "delete_list vd' \<subseteq>\<^sub>m delete_list vd \<and> db_same db db' \<and> P (ltdb db' K) \<and>
    (\<exists>dds'. records' = dd_buffer i dds' \<and> entries_of K h dds' \<and> (K \<in> dd_key ` set dds' \<longrightarrow> has_entry K l0 \<and> \<not> read_only h))"
  using assms(1-7)
proof (induction hs arbitrary: db vd dds)
  case (Cons hh hs)
  obtain db1 vd1 r1 where st: "delete_marshall_traverse_first env ctdb hh (db, vd, dd_buffer i dds) = (db1, vd1, r1)"
    by (cases "delete_marshall_traverse_first env ctdb hh (db, vd, dd_buffer i dds)") auto
  note M = mark_step [OF st Cons.prems(2)]
  have sub: "delete_list vd1 \<subseteq>\<^sub>m delete_list vd" and same: "db_same db db1" using M by auto
  obtain dds1 where r1: "r1 = dd_buffer i dds1" "entries_of K h dds1" "K \<in> dd_key ` set dds1 \<longrightarrow> has_entry K l0 \<and> \<not> read_only h" "P (ltdb db1 K)"
    using conjunct2 [OF conjunct2 [OF M]]
  proof (elim disjE exE conjE)
    assume "r1 = dd_buffer i dds" "ltdb db1 = ltdb db"
    then show thesis using that Cons.prems(4,5,7) by simp
  next
    fix dd d x
    assume a: "delete_list vd hh = Some dd" "r1 = dd_buffer i (dds @ [dd])" "ltdb db (dd_key dd) = Some d"
      "still_empty ctdb (dd_key dd) (rsn (dd_hdr dd)) d" "ltdb db1 = (ltdb db)(dd_key dd := x)"
      "\<not> has_flag (hflags (header_of_bytes d)) CTDB_REC_FLAG_VACUUM_MIGRATED \<longrightarrow> x = Some (bytes_of_header (bump (header_of_bytes d)))"
    have l: "dd_fits dd" "dd_key dd = K \<longrightarrow> dd_hdr dd = h" using Cons.prems(3) a(1) by (auto simp: listed_def)
    have e: "dd_key dd = K \<longrightarrow> has_entry K l0" using a(1) Cons.prems(6) map_leD [OF Cons.prems(6) a(1)] by (auto simp: has_entry_def)
    have k: "dd_key dd = K \<longrightarrow> \<not> read_only h \<and> P x" using a l(2) e P Cons.prems(7) by auto
    show thesis
    proof (rule that [of "dds @ [dd]"])
      show "entries_of K h (dds @ [dd])" using Cons.prems(4) l by (auto simp: entries_of_def)
      show "P (ltdb db1 K)" using k a(5) Cons.prems(7) by auto
    qed (use a(2) k e Cons.prems(5) in auto)
  qed
  have "delete_list vd' \<subseteq>\<^sub>m delete_list vd1 \<and> db_same db1 db' \<and> P (ltdb db' K) \<and>
      (\<exists>dds'. records' = dd_buffer i dds' \<and> entries_of K h dds' \<and> (K \<in> dd_key ` set dds' \<longrightarrow> has_entry K l0 \<and> \<not> read_only h))"
    by (rule Cons.IH [OF _ child_ok_same [OF Cons.prems(2) same] listed_sub [OF Cons.prems(3) sub] r1(2,3) map_le_trans [OF sub Cons.prems(6)] r1(4)])
      (use Cons.prems(1) st r1(1) in simp)
  then show ?case using map_le_trans [OF _ sub] db_same_trans [OF same] by blast
qed auto

lemma delete_fold:
  assumes "fold (delete_record_traverse env ctdb) hs (db, vd) = (db', vd')" "listed K h (delete_list vd)" "delete_list vd \<subseteq>\<^sub>m l0"
  shows "db_same db db' \<and> (ltdb db' K = ltdb db K \<or> ltdb db' K = None \<and> has_entry K l0 \<and>
    (\<exists>d. ltdb db K = Some d \<and> still_empty ctdb K (rsn h + 1) d))"
  using assms
proof (induction hs arbitrary: db vd)
  case (Cons hh hs)
  obtain db1 vd1 where st: "delete_record_traverse env ctdb hh (db, vd) = (db1, vd1)" by fastforce
  note D = delete_step [OF st]
  have sub: "delete_list vd1 \<subseteq>\<^sub>m delete_list vd" and same: "db_same db db1" using D by auto
  have IH: "db_same db1 db' \<and> (ltdb db' K = ltdb db1 K \<or> ltdb db' K = None \<and> has_entry K l0 \<and>
      (\<exists>d. ltdb db1 K = Some d \<and> still_empty ctdb K (rsn h + 1) d))"
    by (rule Cons.IH [OF _ listed_sub [OF Cons.prems(2) sub] map_le_trans [OF sub Cons.prems(3)]]) (use Cons.prems(1) st in simp)
  have "ltdb db1 K = ltdb db K \<or> ltdb db1 K = None \<and> has_entry K l0 \<and> (\<exists>d. ltdb db K = Some d \<and> still_empty ctdb K (rsn h + 1) d)"
    using conjunct2 [OF conjunct2 [OF D]]
  proof (elim disjE exE conjE)
    fix dd d
    assume a: "delete_list vd hh = Some dd" "ltdb db (dd_key dd) = Some d" "still_empty ctdb (dd_key dd) (rsn (dd_hdr dd) + 1) d"
      "ltdb db1 = (ltdb db)(dd_key dd := None)"
    have "dd_key dd = K \<longrightarrow> dd_hdr dd = h \<and> has_entry K l0"
      using Cons.prems(2) a(1) map_leD [OF Cons.prems(3) a(1)] by (auto simp: listed_def has_entry_def)
    then show ?thesis using a by auto
  qed simp
  moreover have "db_same db db'" using IH db_same_trans [OF same] by blast
  ultimately show ?case
  proof (elim disjE)
    assume "db_same db db'" and eq: "ltdb db1 K = ltdb db K"
    then show ?case using IH unfolding eq by blast
  qed (use IH in auto)
qed simp

section \<open>The three phases\<close>

lemma write_db_sel [simp]:
  "p \<noteq> me \<Longrightarrow> daemons (write_db me i db cl) p = daemons cl p"
  "copy_of i K (daemons (write_db me i db cl) me) = ltdb db K"
  "the_db i (daemons (write_db me i db cl) me) = db"
  by (simp_all add: write_db_def copy_of_def the_db_def)

lemma copy_write_other: "ltdb db K = copy_of i K (daemons cl me) \<Longrightarrow> copy_of i K (daemons (write_db me i db cl) p) = copy_of i K (daemons cl p)"
  by (cases "p = me") simp_all

definition sent_for_deletion :: "(u32 \<rightharpoonup> delete_record_data) \<Rightarrow> delete_record_data list" where
  "sent_for_deletion list = map (the \<circ> list) (sorted_list_of_set (dom list))"

lemma sent_for_deletion:
  "fold (\<lambda>h. delete_marshall_traverse (the (list h))) (sorted_list_of_set (dom list)) \<lparr>m_db_id = i, m_count = 0, m_data = []\<rparr> =
     dd_buffer i (sent_for_deletion list)"
  using marshall_fold [of "\<lambda>h. the (list h)" "sorted_list_of_set (dom list)" i "[]"] by (simp add: dd_buffer_Nil sent_for_deletion_def comp_def)

lemma set_sent: "set (sent_for_deletion list) = ran list"
  by (force simp: sent_for_deletion_def ran_def)

lemma sent_entries: "listed K h list \<Longrightarrow> entries_of K h (sent_for_deletion list)"
  by (auto simp: entries_of_def set_sent ran_def listed_def)

lemma sent_has_entry: "has_entry K list \<longleftrightarrow> K \<in> dd_key ` set (sent_for_deletion list)"
  by (auto simp: set_sent has_entry_def ran_def)

lemma received_sent: "card (dom list) < 2 ^ 32 \<Longrightarrow> received (sent_for_deletion list) = sent_for_deletion list"
  by (simp add: sent_for_deletion_def unat_fits)

definition child_at :: "ctdb_daemon \<Rightarrow> u32 \<Rightarrow> u32 \<Rightarrow> vacuum_cluster \<Rightarrow> bool" where
  "child_at ctdb me i cl \<longleftrightarrow>
     dbs (daemons cl me) i \<noteq> None \<and> child_ok ctdb (the_db i (daemons cl me)) \<and> db_id (the_db i (daemons cl me)) = i"

lemma child_at_copy: "child_at ctdb me i cl \<Longrightarrow> ltdb (the_db i (daemons cl me)) K = copy_of i K (daemons cl me)"
  by (simp add: child_at_def copy_the_db)

lemma child_at_write: "child_at ctdb me i cl \<Longrightarrow> db_same (the_db i (daemons cl me)) db \<Longrightarrow> child_at ctdb me i (write_db me i db cl)"
  using child_ok_same [of ctdb "the_db i (daemons cl me)" db] by (auto simp: child_at_def write_db_def the_db_def db_same_def)

lemma child_at_daemon: "child_at ctdb me i cl \<Longrightarrow> daemons cl' me = daemons cl me \<Longrightarrow> child_at ctdb me i cl'"
  by (simp add: child_at_def)

lemma child_no_records: "child_at ctdb me i cl \<Longrightarrow> no_records me i cl = dd_buffer i []"
  by (simp add: child_at_def no_records_def dd_buffer_Nil)

text \<open>First phase: \<open>P\<close> is a property of the record here that marking keeps.\<close>

lemma store_there_marks:
  assumes "store_there w ctdb me i ps vd cl = Some (ret, vd', cl')" "child_at ctdb me i cl" "listed K h (delete_list vd)"
    and P: "P (copy_of i K (daemons cl me))" "\<forall>d. has_entry K (delete_list vd) \<longrightarrow> P (Some d) \<longrightarrow> still_empty ctdb K (rsn h) d \<longrightarrow> \<not> read_only h \<and>
      \<not> has_flag (hflags (header_of_bytes d)) CTDB_REC_FLAG_VACUUM_MIGRATED \<and> P (Some (bytes_of_header (bump (header_of_bytes d))))"
  shows "\<exists>vd1 cl1 dds. vacuum_nodes w ctdb_control_receive_records (ctdb_marshall_finish (dd_buffer i dds)) ps vd1 cl1 = Some (ret, vd', cl') \<and>
    delete_list vd1 \<subseteq>\<^sub>m delete_list vd \<and> child_at ctdb me i cl1 \<and> (\<forall>p. p \<noteq> me \<longrightarrow> daemons cl1 p = daemons cl p) \<and>
    P (copy_of i K (daemons cl1 me)) \<and> entries_of K h dds \<and> (K \<in> dd_key ` set dds \<longrightarrow> has_entry K (delete_list vd) \<and> \<not> read_only h)"
proof -
  let ?db = "the_db i (daemons cl me)"
  obtain db1 vd1 r1 where f: "fold (delete_marshall_traverse_first (mark_env w) ctdb) (visits w 1 (delete_list vd)) (?db, vd, dd_buffer i []) = (db1, vd1, r1)"
    by (cases "fold (delete_marshall_traverse_first (mark_env w) ctdb) (visits w 1 (delete_list vd)) (?db, vd, dd_buffer i [])") auto
  have "delete_list vd1 \<subseteq>\<^sub>m delete_list vd \<and> db_same ?db db1 \<and> P (ltdb db1 K) \<and>
      (\<exists>dds'. r1 = dd_buffer i dds' \<and> entries_of K h dds' \<and> (K \<in> dd_key ` set dds' \<longrightarrow> has_entry K (delete_list vd) \<and> \<not> read_only h))"
    by (rule mark_fold [OF f _ assms(3)]) (use assms(2) P child_at_copy [OF assms(2), of K] in \<open>simp_all add: entries_of_def child_at_def\<close>)
  then obtain dds where m: "delete_list vd1 \<subseteq>\<^sub>m delete_list vd" "db_same ?db db1" "P (ltdb db1 K)" "r1 = dd_buffer i dds" "entries_of K h dds"
    "K \<in> dd_key ` set dds \<longrightarrow> has_entry K (delete_list vd) \<and> \<not> read_only h" by blast
  have "vacuum_nodes w ctdb_control_receive_records (ctdb_marshall_finish (dd_buffer i dds)) ps vd1 (write_db me i db1 cl) = Some (ret, vd', cl')"
    using assms(1) f m(4) child_no_records [OF assms(2)] by (simp add: store_there_def)
  then show ?thesis using m child_at_write [OF assms(2) m(2)]
    by (intro exI [of _ vd1] exI [of _ "write_db me i db1 cl"] exI [of _ dds]) simp
qed

lemma process_cases:
  assumes "ctdb_process_delete_list w ctdb me i vd cl = Some (ret, vd', cl')"
  obtains (nothing) "cl' = cl"
  | (stored) nodemap vd1 ret' where "nodemap_reply w = Some nodemap" "delete_list vd1 = delete_list vd"
      "store_there w ctdb me i (list_of_active_nodes (pnn ctdb) nodemap False) vd1 cl = Some (ret', vd', cl')"
  | (deleted) nodemap vd1 vd2 cl2 where "nodemap_reply w = Some nodemap" "delete_list vd1 = delete_list vd"
      "store_there w ctdb me i (list_of_active_nodes (pnn ctdb) nodemap False) vd1 cl = Some (0, vd2, cl2)"
      "delete_there w ctdb me i (list_of_active_nodes (pnn ctdb) nodemap False) vd2 cl2 = Some (ret, vd', cl')"
proof (cases "delete_count vd = 0 \<or> nodemap_reply w = None")
  case True
  then have "cl' = cl" using assms by (cases "delete_count vd = 0") (auto simp: ctdb_process_delete_list_def)
  then show ?thesis by (rule nothing)
next
  case False
  then obtain nodemap where nm: "nodemap_reply w = Some nodemap" by blast
  let ?ps = "list_of_active_nodes (pnn ctdb) nodemap False"
  obtain r vd2 cl2 where st: "store_there w ctdb me i ?ps (vd\<lparr>delete_left := delete_count vd\<rparr>) cl = Some (r, vd2, cl2)"
    using assms False nm by (auto simp: ctdb_process_delete_list_def Let_def split: option.splits)
  show ?thesis
  proof (cases "r = 0 \<and> delete_left vd2 \<noteq> 0")
    case True
    then have "delete_there w ctdb me i ?ps vd2 cl2 = Some (ret, vd', cl')"
      using assms False nm st by (simp add: ctdb_process_delete_list_def Let_def)
    then show ?thesis using deleted [OF nm, of "vd\<lparr>delete_left := delete_count vd\<rparr>" vd2 cl2] st True by simp
  next
    case nd: False
    then have "vd' = vd2" "cl' = cl2" using assms False nm st by (auto simp: ctdb_process_delete_list_def Let_def split: if_splits)
    then show ?thesis using stored [OF nm, of "vd\<lparr>delete_left := delete_count vd\<rparr>" r] st by simp
  qed
qed

lemma there_sent:
  assumes "child_at ctdb me i cl"
  shows "delete_there w ctdb me i ps vd cl =
    (case vacuum_nodes w ctdb_control_try_delete_records (ctdb_marshall_finish (dd_buffer i (sent_for_deletion (delete_list vd)))) ps vd cl of
       None \<Rightarrow> None
     | Some (ret, vdata, cl) \<Rightarrow>
         if ret \<noteq> 0 then Some (-1, vdata, cl)
         else if delete_left vdata = 0 then Some (0, vdata, cl)
         else Some (0, delete_here w ctdb me i vdata cl))"
  using sent_for_deletion [of "delete_list vd" i] child_no_records [OF assms]
  by (simp add: delete_there_def Let_def dd_buffer_Nil)

text \<open>A record that is not on the list is not touched anywhere.\<close>

lemma store_there_other:
  assumes "store_there w ctdb me i ps vd cl = Some (ret, vd', cl')" "child_at ctdb me i cl" "distinct ps" "me \<notin> set ps"
    and "listed K h (delete_list vd)" "\<not> has_entry K (delete_list vd)"
  shows "delete_list vd' \<subseteq>\<^sub>m delete_list vd \<and> child_at ctdb me i cl' \<and> (\<forall>p. copy_of i K (daemons cl' p) = copy_of i K (daemons cl p))"
proof -
  from store_there_marks [OF assms(1,2,5), of "\<lambda>x. x = copy_of i K (daemons cl me)"] assms(6) obtain vd1 cl1 dds where
    m: "vacuum_nodes w ctdb_control_receive_records (ctdb_marshall_finish (dd_buffer i dds)) ps vd1 cl1 = Some (ret, vd', cl')"
      "delete_list vd1 \<subseteq>\<^sub>m delete_list vd" "child_at ctdb me i cl1" "\<forall>p. p \<noteq> me \<longrightarrow> daemons cl1 p = daemons cl p"
      "copy_of i K (daemons cl1 me) = copy_of i K (daemons cl me)" "entries_of K h dds" "K \<notin> dd_key ` set dds" by auto
  have same: "copy_of i K (daemons cl1 p) = copy_of i K (daemons cl p)" for p using m(4,5) by (cases "p = me") auto
  have "\<forall>dd \<in> set dds. dd_fits dd" using m(6) by (simp add: entries_of_def)
  from other_round [OF m(1) _ this assms(3) m(7)] have
    r: "delete_list vd' \<subseteq>\<^sub>m delete_list vd1" "\<forall>p. copy_of i K (daemons cl' p) = copy_of i K (daemons cl1 p)" "daemons cl' me = daemons cl1 me"
    using assms(4) by auto
  show ?thesis using map_le_trans [OF r(1) m(2)] child_at_daemon [OF m(3) r(3)] r(2) same by simp
qed

lemma delete_here_copies:
  assumes "delete_here w ctdb me i vd cl = (vd', cl')" "child_at ctdb me i cl" "listed K h (delete_list vd)"
  shows "(\<forall>p. copy_of i K (daemons cl' p) = copy_of i K (daemons cl p)) \<or>
    (\<forall>p. p \<noteq> me \<longrightarrow> daemons cl' p = daemons cl p) \<and> copy_of i K (daemons cl' me) = None \<and> has_entry K (delete_list vd) \<and>
      (\<exists>d. copy_of i K (daemons cl me) = Some d \<and> still_empty ctdb K (rsn h + 1) d)"
proof -
  obtain db1 vd1 where f: "fold (delete_record_traverse (delete_env w) ctdb) (visits w 3 (delete_list vd)) (the_db i (daemons cl me), vd) = (db1, vd1)"
    by fastforce
  then have cl': "cl' = write_db me i db1 cl" using assms(1) by (simp add: delete_here_def)
  from delete_fold [OF f assms(3), of "delete_list vd"] show ?thesis
    using child_at_copy [OF assms(2), of K] copy_write_other [of db1 K i cl me] by (auto simp: cl')
qed

lemma process_other:
  assumes "ctdb_process_delete_list w ctdb me i vd cl = Some (ret, vd', cl')" "child_at ctdb me i cl"
    and ps: "\<forall>nodemap. nodemap_reply w = Some nodemap \<longrightarrow>
      distinct (list_of_active_nodes (pnn ctdb) nodemap False) \<and> me \<notin> set (list_of_active_nodes (pnn ctdb) nodemap False)"
    and l: "listed K h (delete_list vd)" "\<not> has_entry K (delete_list vd)"
  shows "copy_of i K (daemons cl' p) = copy_of i K (daemons cl p)"
  using assms(1)
proof (cases rule: process_cases)
  case (stored nodemap vd1 ret')
  show ?thesis using store_there_other [OF stored(3) assms(2)] ps stored(1,2) l by simp
next
  case (deleted nodemap vd1 vd2 cl2)
  have d: "distinct (list_of_active_nodes (pnn ctdb) nodemap False)" "me \<notin> set (list_of_active_nodes (pnn ctdb) nodemap False)"
    using ps deleted(1) by auto
  from store_there_other [OF deleted(3) assms(2) d] l deleted(2) have
    s: "delete_list vd2 \<subseteq>\<^sub>m delete_list vd" "child_at ctdb me i cl2" "\<forall>p. copy_of i K (daemons cl2 p) = copy_of i K (daemons cl p)" by auto
  note l2 = listed_sub [OF l(1) s(1)]
  have n2: "\<not> has_entry K (delete_list vd2)" using has_entry_sub s(1) l(2) by blast
  obtain r vd3 cl3 where v: "vacuum_nodes w ctdb_control_try_delete_records (ctdb_marshall_finish (dd_buffer i (sent_for_deletion (delete_list vd2))))
      (list_of_active_nodes (pnn ctdb) nodemap False) vd2 cl2 = Some (r, vd3, cl3)"
    using deleted(4) by (auto simp: there_sent [OF s(2)] split: option.splits)
  have "\<forall>dd \<in> set (sent_for_deletion (delete_list vd2)). dd_fits dd" using sent_entries [OF l2] by (simp add: entries_of_def)
  from other_round [OF v _ this d(1)] n2 d(2) have
    o: "delete_list vd3 \<subseteq>\<^sub>m delete_list vd2" "\<forall>p. copy_of i K (daemons cl3 p) = copy_of i K (daemons cl2 p)" "daemons cl3 me = daemons cl2 me"
    by (auto simp: sent_has_entry)
  have n3: "\<not> has_entry K (delete_list vd3)" using has_entry_sub o(1) n2 by blast
  show ?thesis
  proof (cases "r = 0 \<and> delete_left vd3 \<noteq> 0")
    case True
    then have "delete_here w ctdb me i vd3 cl3 = (vd', cl')" using deleted(4) v by (simp add: there_sent [OF s(2)])
    from delete_here_copies [OF this child_at_daemon [OF s(2) o(3)] listed_sub [OF l2 o(1)]] n3 show ?thesis using o(2) s(3) by auto
  next
    case False
    then have "cl' = cl3" using deleted(4) v by (auto simp: there_sent [OF s(2)] split: if_splits)
    then show ?thesis using o(2) s(3) by simp
  qed
qed simp

text \<open>A record of the list is here still empty, with the old or the next sequence number, or it is gone everywhere.\<close>

definition empty_here :: "ctdb_ltdb_header \<Rightarrow> u8 list \<Rightarrow> u8 list option \<Rightarrow> bool" where
  "empty_here h d0 x \<longleftrightarrow> x = Some d0 \<or> x = Some (bytes_of_header (bump h)) \<and> \<not> read_only h"

lemma empty_here_marks:
  assumes "header_of_bytes d0 = h" "\<not> has_flag (hflags h) CTDB_REC_FLAG_VACUUM_MIGRATED" "empty_here h d0 (Some d)" "still_empty ctdb K (rsn h) d"
  shows "\<not> read_only h \<and> \<not> has_flag (hflags (header_of_bytes d)) CTDB_REC_FLAG_VACUUM_MIGRATED \<and> empty_here h d0 (Some (bytes_of_header (bump (header_of_bytes d))))"
proof -
  have "rsn_of d = rsn h" using assms(4) by (simp add: still_empty_def Let_def)
  then have "d = d0" using assms(3) by (auto simp: empty_here_def bump_def)
  then show ?thesis using assms by (simp add: still_empty_def Let_def empty_here_def)
qed

lemma store_there_listed:
  assumes st: "store_there w ctdb me i ps vd cl = Some (ret, vd', cl')" and ca: "child_at ctdb me i cl" and "distinct ps" "me \<notin> set ps"
    and l: "listed K h (delete_list vd)"
    and d0: "copy_of i K (daemons cl me) = Some d0" "header_of_bytes d0 = h" "dmaster h = me" "\<not> has_flag (hflags h) CTDB_REC_FLAG_VACUUM_MIGRATED"
    and w: "\<forall>p \<in> set ps. waits_for h i K p (daemons cl p)"
  shows "delete_list vd' \<subseteq>\<^sub>m delete_list vd \<and> child_at ctdb me i cl' \<and> empty_here h d0 (copy_of i K (daemons cl' me)) \<and>
      (\<forall>p \<in> set ps. waits_for h i K p (daemons cl' p))"
proof -
  have mk: "\<forall>d. has_entry K (delete_list vd) \<longrightarrow> empty_here h d0 (Some d) \<longrightarrow> still_empty ctdb K (rsn h) d \<longrightarrow> \<not> read_only h \<and>
      \<not> has_flag (hflags (header_of_bytes d)) CTDB_REC_FLAG_VACUUM_MIGRATED \<and> empty_here h d0 (Some (bytes_of_header (bump (header_of_bytes d))))"
    using empty_here_marks [OF d0(2,4)] by blast
  have "empty_here h d0 (copy_of i K (daemons cl me))" by (simp add: d0(1) empty_here_def)
  from store_there_marks [OF st ca l this mk]
  obtain vd1 cl1 dds where m: "vacuum_nodes w ctdb_control_receive_records (ctdb_marshall_finish (dd_buffer i dds)) ps vd1 cl1 = Some (ret, vd', cl')"
    "delete_list vd1 \<subseteq>\<^sub>m delete_list vd" "child_at ctdb me i cl1" "\<forall>p. p \<noteq> me \<longrightarrow> daemons cl1 p = daemons cl p"
    "empty_here h d0 (copy_of i K (daemons cl1 me))" "entries_of K h dds" "K \<in> dd_key ` set dds \<longrightarrow> \<not> read_only h"
    by blast
  have w1: "\<forall>p \<in> set ps. waits_for h i K p (daemons cl1 p)" using w m(4) assms(4) by metis
  have "dmaster h \<notin> set ps" using d0(3) assms(4) by simp
  from receive_round [OF m(1,6) assms(3) this m(7) w1] have
    r: "delete_list vd' \<subseteq>\<^sub>m delete_list vd1" "\<forall>p \<in> set ps. waits_for h i K p (daemons cl' p)" "daemons cl' me = daemons cl1 me"
    using assms(4) by auto
  show ?thesis using map_le_trans [OF r(1) m(2)] child_at_daemon [OF m(3) r(3)] m(5) r(2,3) by simp
qed

lemma process_listed:
  assumes run: "ctdb_process_delete_list w ctdb me i vd cl = Some (ret, vd', cl')" and ca: "child_at ctdb me i cl"
    and nm: "nodemap_reply w \<in> {None, Some nodemap}" "ps = list_of_active_nodes (pnn ctdb) nodemap False" "distinct ps" "me \<notin> set ps"
    and l: "listed K h (delete_list vd)" "card (dom (delete_list vd)) < 2 ^ 32"
    and d0: "copy_of i K (daemons cl me) = Some d0" "header_of_bytes d0 = h" "dmaster h = me" "\<not> has_flag (hflags h) CTDB_REC_FLAG_VACUUM_MIGRATED"
    and w: "\<forall>p \<in> set ps. waits_for h i K p (daemons cl p)"
    and env: "\<forall>p \<in> set ps. \<forall>t. chain_free (v_env w t p) K \<and> freelist_free (v_env w t p) K \<and> vacuum_io (v_env w t p) K None"
  shows "empty_here h d0 (copy_of i K (daemons cl' me)) \<and> (\<forall>p \<in> set ps. older h (copy_of i K (daemons cl' p))) \<or>
    copy_of i K (daemons cl' me) = None \<and> (\<forall>p \<in> set ps. copy_of i K (daemons cl' p) = None)"
proof -
  note phase1 = store_there_listed [OF _ ca nm(3,4) _ d0 w]
  show ?thesis using run
  proof (cases rule: process_cases)
    case nothing
    then show ?thesis using d0(1) w by (auto simp: empty_here_def waits_for_def)
  next
    case (stored nodemap' vd1 ret')
    then have "store_there w ctdb me i ps vd1 cl = Some (ret', vd', cl')" using nm(1,2) by auto
    from phase1 [OF this] stored(2) l(1) show ?thesis by (auto simp: waits_for_def)
  next
    case (deleted nodemap' vd1 vd2 cl2)
    then have st: "store_there w ctdb me i ps vd1 cl = Some (0, vd2, cl2)" and dt: "delete_there w ctdb me i ps vd2 cl2 = Some (ret, vd', cl')"
      using nm(1,2) by auto
    from phase1 [OF st] deleted(2) l(1) have p1: "delete_list vd2 \<subseteq>\<^sub>m delete_list vd" "child_at ctdb me i cl2"
      "empty_here h d0 (copy_of i K (daemons cl2 me))" "\<forall>p \<in> set ps. waits_for h i K p (daemons cl2 p)" by auto
    note l2 = listed_sub [OF l(1) p1(1)]
    obtain r vd3 cl3 where v: "vacuum_nodes w ctdb_control_try_delete_records (ctdb_marshall_finish (dd_buffer i (sent_for_deletion (delete_list vd2)))) ps vd2 cl2 = Some (r, vd3, cl3)"
      using dt by (auto simp: there_sent [OF p1(2)] split: option.splits)
    have fin: "finite (dom (delete_list vd))" by (rule finite)
    have "card (dom (delete_list vd2)) < 2 ^ 32" using card_mono [OF fin, of "dom (delete_list vd2)"] map_le_implies_dom_le [OF p1(1)] l(2) by linarith
    then have all: "received (sent_for_deletion (delete_list vd2)) = sent_for_deletion (delete_list vd2)" by (rule received_sent)
    from delete_round [OF v sent_entries [OF l2] nm(3) env p1(4)] have
      r: "delete_list vd3 \<subseteq>\<^sub>m delete_list vd2" "\<forall>p \<in> set ps. waits_for h i K p (daemons cl3 p)" "daemons cl3 me = daemons cl2 me"
      "r = 0 \<longrightarrow> \<not> read_only h \<longrightarrow> has_entry K (delete_list vd2) \<longrightarrow> (\<forall>p \<in> set ps. copy_of i K (daemons cl3 p) = None)"
      using nm(4) by (auto simp only: all sent_has_entry)
    note ca3 = child_at_daemon [OF p1(2) r(3)]
    show ?thesis
    proof (cases "r = 0 \<and> delete_left vd3 \<noteq> 0")
      case True
      then have "delete_here w ctdb me i vd3 cl3 = (vd', cl')" using dt v by (simp add: there_sent [OF p1(2)])
      from delete_here_copies [OF this ca3 listed_sub [OF l2 r(1)]] show ?thesis
      proof (elim disjE conjE exE)
        assume "\<forall>p. copy_of i K (daemons cl' p) = copy_of i K (daemons cl3 p)"
        then show ?thesis using r(2,3) p1(3) by (auto simp: waits_for_def)
      next
        fix d
        assume a: "\<forall>p. p \<noteq> me \<longrightarrow> daemons cl' p = daemons cl3 p" "copy_of i K (daemons cl' me) = None" "has_entry K (delete_list vd3)"
          "copy_of i K (daemons cl3 me) = Some d" "still_empty ctdb K (rsn h + 1) d"
        have "d \<noteq> d0" using a(5) d0(2) by (auto simp: still_empty_def Let_def)
        then have "\<not> read_only h" using p1(3) a(4) r(3) by (auto simp: empty_here_def)
        moreover have "has_entry K (delete_list vd2)" using has_entry_sub [OF a(3) r(1)] .
        ultimately have "\<forall>p \<in> set ps. copy_of i K (daemons cl3 p) = None" using r(4) True by blast
        then show ?thesis using a(1,2) nm(4) by metis
      qed
    next
      case False
      then have "cl' = cl3" using dt v by (auto simp: there_sent [OF p1(2)] split: if_splits)
      then show ?thesis using r(2,3) p1(3) by (auto simp: waits_for_def)
    qed
  qed
qed

section \<open>Building the list\<close>

text \<open>A record that a run may delete: empty, and owned by its location master.\<close>

definition own_empty :: "ctdb_daemon \<Rightarrow> u8 list \<Rightarrow> u8 list option \<Rightarrow> bool" where
  "own_empty ctdb K x \<longleftrightarrow>
     (\<exists>d. x = Some d \<and> length d = sizeof_header \<and> dmaster (header_of_bytes d) = pnn ctdb \<and> the_lmaster ctdb K = pnn ctdb)"

definition list_ok :: "u8 list set \<Rightarrow> ctdb_daemon \<Rightarrow> u8 list \<Rightarrow> u8 list option \<Rightarrow> (u32 \<rightharpoonup> delete_record_data) \<Rightarrow> bool" where
  "list_ok Ks ctdb K x list \<longleftrightarrow>
     (\<forall>hh dd. list hh = Some dd \<longrightarrow> hh = ctdb_hash (dd_key dd) \<and> dd_key dd \<in> Ks \<and>
        (dd_key dd = K \<longrightarrow> own_empty ctdb K x \<and> dd_hdr dd = header_of_bytes (the x)))"

lemma list_ok_add:
  assumes "list_ok Ks ctdb K x (delete_list vd)" "key \<in> Ks" "key = K \<Longrightarrow> own_empty ctdb K x \<and> hdr = header_of_bytes (the x)"
  shows "list_ok Ks ctdb K x (delete_list (add_record_to_delete_list key hdr vd))"
  using assms by (auto simp: list_ok_def add_record_to_delete_list_def insert_delete_record_data_into_tree_def)

lemma has_entry_add: "has_entry K (delete_list (add_record_to_delete_list key hdr vd)) \<Longrightarrow> has_entry K (delete_list vd) \<or> key = K"
  by (auto simp: has_entry_def add_record_to_delete_list_def insert_delete_record_data_into_tree_def split: if_splits)

lemma fetch_list_same: "add_record_to_vacuum_fetch_list ctdb key vd = Some vd' \<Longrightarrow> delete_list vd' = delete_list vd"
  by (auto simp: add_record_to_vacuum_fetch_list_def Let_def split: if_splits)

text \<open>
  A visit of the queue.  The queue has for the record, if at all, the header with its sequence number; the fast path
  deletes the record here only if it never was migrated with data.
\<close>

definition fast_ok :: "u8 list set \<Rightarrow> ctdb_daemon \<Rightarrow> u8 list \<Rightarrow> u8 list option \<Rightarrow> call_db \<Rightarrow> call_db \<times> vacuum_data \<Rightarrow> bool" where
  "fast_ok Ks ctdb K x db0 st \<longleftrightarrow>
     (case st of (db, vd) \<Rightarrow>
        db_same db0 db \<and> dom (ltdb db) \<subseteq> Ks \<and> list_ok Ks ctdb K x (delete_list vd) \<and>
        (has_entry K (delete_list vd) \<longrightarrow> has_flag (hflags (header_of_bytes (the x))) CTDB_REC_FLAG_MIGRATED_WITH_DATA) \<and>
        (ltdb db K = x \<or>
         ltdb db K = None \<and> own_empty ctdb K x \<and> \<not> has_flag (hflags (header_of_bytes (the x))) CTDB_REC_FLAG_MIGRATED_WITH_DATA))"

lemma queue_step:
  assumes "delete_queue_traverse env ctdb dd (db, vd) = Some (db', vd')" "fast_ok Ks ctdb K x db0 (db, vd)"
    and q: "dd_key dd = K \<Longrightarrow> x \<noteq> None \<Longrightarrow> rsn (dd_hdr dd) = rsn_of (the x) \<Longrightarrow> dd_hdr dd = header_of_bytes (the x)"
  shows "fast_ok Ks ctdb K x db0 (db', vd')"
proof -
  let ?key = "dd_key dd"
  define d where "d = (case ltdb db ?key of None \<Rightarrow> [] | Some r \<Rightarrow> r)"
  note F = assms(2) [unfolded fast_ok_def, simplified]
  let ?todo = "chain_free env ?key \<and> length d = sizeof_header \<and> dmaster (header_of_bytes d) = pnn ctdb \<and> rsn_of d = rsn (dd_hdr dd)"
  show ?thesis
  proof (cases "?todo \<and> the_lmaster ctdb ?key = pnn ctdb")
    case False
    then have "db' = db \<and> delete_list vd' = delete_list vd"
      using assms(1) fetch_list_same by (auto simp: delete_queue_traverse_def Let_def d_def [symmetric] split: if_splits)
    then show ?thesis using assms(2) by (simp add: fast_ok_def)
  next
    case True
    then have dk: "ltdb db ?key = Some d" by (auto simp: d_def sizeof_header_def split: option.splits)
    then have Ks: "?key \<in> Ks" using F by auto
    have k: "own_empty ctdb K x \<and> dd_hdr dd = header_of_bytes (the x) \<and> x = Some d" if "?key = K"
    proof -
      have x: "x = Some d" using F dk that by auto
      then show ?thesis using True q [OF that] that by (auto simp: own_empty_def)
    qed
    show ?thesis
    proof (cases "has_flag (hflags (dd_hdr dd)) CTDB_REC_FLAG_MIGRATED_WITH_DATA")
      case mig: True
      then have r: "db' = db" "vd' = add_record_to_delete_list ?key (dd_hdr dd) vd"
        using assms(1) True by (auto simp: delete_queue_traverse_def Let_def d_def [symmetric])
      have "list_ok Ks ctdb K x (delete_list vd')" unfolding r(2) by (rule list_ok_add) (use F Ks k in auto)
      moreover have "has_entry K (delete_list vd') \<longrightarrow> has_flag (hflags (header_of_bytes (the x))) CTDB_REC_FLAG_MIGRATED_WITH_DATA"
        using has_entry_add [of K ?key "dd_hdr dd" vd] F k mig r(2) by auto
      ultimately show ?thesis using F by (simp add: fast_ok_def r(1))
    next
      case False
      then have r: "db' = snd (tdb_delete (vacuum_io env) (seqnum_update db) ?key db)" "vd' = vd"
        using assms(1) True by (auto simp: delete_queue_traverse_def Let_def d_def [symmetric])
      have "db_same db0 db'" using F tdb_write_same(2) db_same_trans unfolding r(1) by blast
      moreover have "dom (ltdb db') \<subseteq> Ks" using F by (auto simp: r(1) tdb_delete_def)
      moreover have "ltdb db' K = ltdb db K \<or> ?key = K \<and> ltdb db' K = None" by (auto simp: r(1) tdb_delete_def)
      ultimately show ?thesis using F k False by (auto simp: fast_ok_def r(2))
    qed
  qed
qed

lemma fast_fold:
  assumes "traverse_queue (delete_queue_traverse env ctdb) hs queue st = Some st'" "fast_ok Ks ctdb K x db0 st"
    and "\<forall>hh \<in> set hs. dd_key (the (queue hh)) = K \<longrightarrow> x \<noteq> None \<longrightarrow> rsn (dd_hdr (the (queue hh))) = rsn_of (the x) \<longrightarrow>
      dd_hdr (the (queue hh)) = header_of_bytes (the x)"
  shows "fast_ok Ks ctdb K x db0 st'"
  using assms
proof (induction hs arbitrary: st)
  case (Cons hh hs)
  then obtain st1 where 1: "delete_queue_traverse env ctdb (the (queue hh)) st = Some st1" "traverse_queue (delete_queue_traverse env ctdb) hs queue st1 = Some st'"
    by (auto split: option.splits)
  have "fast_ok Ks ctdb K x db0 st1"
    using queue_step [of env ctdb "the (queue hh)" "fst st" "snd st" "fst st1" "snd st1" Ks K x db0] 1(1) Cons.prems(2,3) by simp
  then show ?case using Cons.IH [OF 1(2)] Cons.prems(3) by simp
qed simp

lemma full_fold:
  assumes "traverse_while (vacuum_traverse ctdb) ks m vd = Some (b, vd')" "set ks \<subseteq> dom m" "dom m \<subseteq> Ks"
    and "list_ok Ks ctdb K (m K) (delete_list vd)"
  shows "list_ok Ks ctdb K (m K) (delete_list vd')"
  using assms(1,2,4)
proof (induction ks arbitrary: vd)
  case (Cons k ks)
  then obtain d where d: "m k = Some d" by auto
  obtain b1 vd1 where v: "vacuum_traverse ctdb k d vd = Some (b1, vd1)" using Cons.prems(1) d by (auto split: option.splits)
  have "list_ok Ks ctdb K (m K) (delete_list vd1)"
  proof (cases "length d = sizeof_header \<and> dmaster (header_of_bytes d) = pnn ctdb \<and> the_lmaster ctdb k = pnn ctdb \<and> unat (the_lmaster ctdb k) < length (node_flags ctdb)")
    case True
    then have "vd1 = add_record_to_delete_list k (header_of_bytes d) vd" using v by (auto simp: vacuum_traverse_def Let_def)
    moreover have "k \<in> Ks" using d assms(3) by auto
    moreover have "own_empty ctdb K (m K) \<and> header_of_bytes d = header_of_bytes (the (m K))" if "k = K"
      using True d that by (auto simp: own_empty_def)
    ultimately show ?thesis using list_ok_add [OF Cons.prems(3), of k "header_of_bytes d"] by simp
  next
    case False
    then have "delete_list vd1 = delete_list vd" using v fetch_list_same by (auto simp: vacuum_traverse_def Let_def split: if_splits)
    then show ?thesis using Cons.prems(3) by simp
  qed
  then show ?case using Cons.IH Cons.prems(1,2) d v by (cases b1) auto
qed simp

lemma fetch_lists_daemons: "ctdb_process_vacuum_fetch_lists w ctdb ns vd cl = (ret, cl') \<Longrightarrow> daemons cl' = daemons cl"
  by (induction ns arbitrary: cl) (auto simp: Let_def split: if_splits)

lemma child_ctdb_sel [simp]:
  "pnn (child_ctdb c) = pnn c" "vnn_map (child_ctdb c) = vnn_map c" "the_lmaster (child_ctdb c) K = the_lmaster c K" "the_db i (child_ctdb c) = the_db i c"
  "dbs (child_ctdb c) = dbs c"
  by (simp_all add: child_ctdb_def the_lmaster_def the_db_def)

lemma list_ok_listed:
  assumes "list_ok Ks ctdb K x list" "\<forall>k \<in> Ks. sizeof_rec_data + length k + sizeof_header < 2 ^ 32"
  shows "listed K (header_of_bytes (the x)) list"
  using assms by (auto simp: list_ok_def listed_def dd_fits_def)

lemma list_ok_card:
  assumes "list_ok Ks ctdb K x list" "finite Ks"
  shows "card (dom list) \<le> card Ks"
proof -
  have "dom list \<subseteq> ctdb_hash ` Ks" using assms(1) by (auto simp: list_ok_def)
  then show ?thesis using card_mono [of "ctdb_hash ` Ks" "dom list"] card_image_le [OF assms(2), of ctdb_hash] assms(2) by simp
qed

text \<open>
  What a run needs: a node with the database and a node map whose nodes are different; keys that fit into a buffer;
  and a queue whose entries are filed under their hash.
\<close>

definition vacuum_ready :: "vacuum_world \<Rightarrow> ctdb_node_map \<Rightarrow> u32 \<Rightarrow> u32 \<Rightarrow> vacuum_cluster \<Rightarrow> bool" where
  "vacuum_ready w nodemap me i cl \<longleftrightarrow>
     nodemap_reply w \<in> {None, Some nodemap} \<and> nodemap_ok nodemap \<and> pnn (daemons cl me) = me \<and>
     child_at (daemons cl me) me i cl \<and> (\<forall>m. set (full_order w m) \<subseteq> dom m) \<and>
     finite (dom (ltdb (the_db i (daemons cl me)))) \<and> card (dom (ltdb (the_db i (daemons cl me)))) < 2 ^ 32 \<and>
     (\<forall>k \<in> dom (ltdb (the_db i (daemons cl me))). sizeof_rec_data + length k + sizeof_header < 2 ^ 32)"

definition queue_current :: "u8 list \<Rightarrow> u8 list option \<Rightarrow> (u32 \<rightharpoonup> delete_record_data) \<Rightarrow> bool" where
  "queue_current K x queue \<longleftrightarrow>
     (\<forall>hh dd d. queue hh = Some dd \<longrightarrow> dd_key dd = K \<longrightarrow> x = Some d \<longrightarrow> rsn (dd_hdr dd) = rsn_of d \<longrightarrow> dd_hdr dd = header_of_bytes d)"

lemma others_distinct:
  assumes "nodemap_ok nodemap"
  shows "distinct (list_of_active_nodes me nodemap False)" "set (list_of_active_nodes me nodemap False) = active nodemap - {me}"
proof -
  have "distinct (map nf_pnn (filter Q nodemap))" for Q
    using assms by (simp add: nodemap_ok_def distinct_map inj_on_def)
  then show "distinct (list_of_active_nodes me nodemap False)" by (simp add: list_of_active_nodes_def list_of_nodes_def)
  show "set (list_of_active_nodes me nodemap False) = active nodemap - {me}"
    by (auto simp: list_of_active_nodes_def list_of_nodes_def active_def)
qed

lemma list_ok_no_entry: "\<not> has_entry K list \<Longrightarrow> list_ok Ks ctdb K x list = list_ok Ks ctdb K y list"
  by (auto simp: list_ok_def has_entry_def)

lemma full_lists:
  assumes "ctdb_vacuum_db_full ok order_of ctdb db full vd = Some (ret, vd')" "fast_ok Ks ctdb K x db0 (db, vd)" "\<forall>m. set (order_of m) \<subseteq> dom m"
  shows "list_ok Ks ctdb K x (delete_list vd') \<and> (has_entry K (delete_list vd') \<longrightarrow> ltdb db K = x)"
proof -
  note F = assms(2) [unfolded fast_ok_def, simplified]
  have step: "list_ok Ks ctdb K (ltdb db K) (delete_list vd')" if l: "list_ok Ks ctdb K (ltdb db K) (delete_list vd)"
  proof (cases full)
    case True
    then obtain b where "traverse_while (vacuum_traverse ctdb) (order_of (ltdb db)) (ltdb db) vd = Some (b, vd')"
      using assms(1) by (auto simp: ctdb_vacuum_db_full_def split: if_splits)
    then show ?thesis by (rule full_fold) (use l assms(3) F in auto)
  next
    case False
    then show ?thesis using assms(1) l by (simp add: ctdb_vacuum_db_full_def)
  qed
  show ?thesis
  proof (cases "ltdb db K = x")
    case True
    then show ?thesis using step F by auto
  next
    case False
    then have none: "ltdb db K = None" "\<not> has_entry K (delete_list vd)" using F by auto
    then have "list_ok Ks ctdb K None (delete_list vd')" using step list_ok_no_entry [OF none(2), of Ks ctdb x None] F by simp
    moreover from this have "\<not> has_entry K (delete_list vd')" by (auto simp: list_ok_def has_entry_def own_empty_def)
    ultimately show ?thesis using list_ok_no_entry [of K "delete_list vd'" Ks ctdb None x] by simp
  qed
qed

text \<open>The lists of a run: before the fetch messages are sent, the record is as before, or deleted by the fast path.\<close>

lemma vacuum_db_cases:
  assumes run: "ctdb_vacuum_db w me i queue full vd cl = Some (ret, vd', cl')" "delete_list vd = Map.empty"
    and ready: "vacuum_ready w nodemap me i cl" and q: "queue_current K x queue" and x: "x = copy_of i K (daemons cl me)"
  obtains (listing) db1 vd1 where "daemons cl' = daemons (write_db me i db1 cl)"
      "fast_ok (dom (ltdb (the_db i (daemons cl me)))) (child_ctdb (daemons cl me)) K x (the_db i (daemons cl me)) (db1, vd1)"
  | (aborted) "cl' = cl"
  | (processing) db1 vd1 cl2 vd2 where "daemons cl2 = daemons (write_db me i db1 cl)"
      "fast_ok (dom (ltdb (the_db i (daemons cl me)))) (child_ctdb (daemons cl me)) K x (the_db i (daemons cl me)) (db1, vd1)"
      "list_ok (dom (ltdb (the_db i (daemons cl me)))) (child_ctdb (daemons cl me)) K x (delete_list vd2)"
      "has_entry K (delete_list vd2) \<Longrightarrow> ltdb db1 K = x"
      "ctdb_process_delete_list w (child_ctdb (daemons cl me)) me i vd2 cl2 = Some (ret, vd', cl')"
proof (cases "getvnnmap_ok w \<and> getpnn_ok w")
  case False
  then show ?thesis using aborted run(1) by (auto simp: ctdb_vacuum_db_def)
next
  case True
  let ?c = "child_ctdb (daemons cl me)"
  let ?db = "the_db i (daemons cl me)"
  let ?Ks = "dom (ltdb ?db)"
  let ?vd = "ctdb_vacuum_init_vacuum_data ?c (db_id ?db) vd"
  have ca: "child_at (daemons cl me) me i cl" using ready by (simp add: vacuum_ready_def)
  have x': "ltdb ?db K = x" using child_at_copy [OF ca, of K] x by simp
  obtain db1 vd1 where fast: "ctdb_vacuum_db_fast (fast_env w) ?c queue (?db, ?vd) = Some (db1, vd1)"
    using run(1) True by (auto simp: ctdb_vacuum_db_def Let_def split: option.splits)
  have start: "fast_ok ?Ks ?c K x ?db (?db, ?vd)"
    using run(2) x' by (simp add: fast_ok_def list_ok_def has_entry_def ctdb_vacuum_init_vacuum_data_def)
  have F: "fast_ok ?Ks ?c K x ?db (db1, vd1)"
  proof (rule fast_fold [OF fast [unfolded ctdb_vacuum_db_fast_def] start], intro ballI impI)
    fix hh
    assume "hh \<in> set (sorted_list_of_set (dom queue))"
    then obtain dd where "queue hh = Some dd" by auto
    then show "dd_hdr (the (queue hh)) = header_of_bytes (the x)" if "dd_key (the (queue hh)) = K" "x \<noteq> None" "rsn (dd_hdr (the (queue hh))) = rsn_of (the x)"
      using q that by (auto simp: queue_current_def)
  qed
  let ?cl1 = "write_db me i db1 cl"
  obtain r2 vd2 where full: "ctdb_vacuum_db_full (full_traverse_ok w) (full_order w) ?c db1 full vd1 = Some (r2, vd2)"
    using run(1) True fast by (auto simp: ctdb_vacuum_db_def Let_def split: option.splits)
  show ?thesis
  proof (cases "r2 = 0")
    case False
    then have "cl' = ?cl1" using run(1) True fast full by (auto simp: ctdb_vacuum_db_def Let_def)
    then show ?thesis using listing [of db1 vd1] F by simp
  next
    case r2: True
    obtain r3 cl2 where fl: "ctdb_process_vacuum_fetch_lists w ?c [0..<length (node_flags ?c)] vd2 ?cl1 = (r3, cl2)" by fastforce
    note same = fetch_lists_daemons [OF fl]
    show ?thesis
    proof (cases "r3 = 0")
      case False
      then have "cl' = cl2" using run(1) True fast full r2 fl by (auto simp: ctdb_vacuum_db_def Let_def)
      then show ?thesis using listing [of db1 vd1] F same by simp
    next
      case r3: True
      have l2: "list_ok ?Ks ?c K x (delete_list vd2) \<and> (has_entry K (delete_list vd2) \<longrightarrow> ltdb db1 K = x)"
        using full_lists [OF full F] ready by (simp add: vacuum_ready_def)
      have "ctdb_process_delete_list w ?c me i vd2 cl2 = Some (ret, vd', cl')"
        using run(1) True fast full r2 fl r3 by (simp add: ctdb_vacuum_db_def Let_def)
      then show ?thesis using processing [of cl2 db1 vd1 vd2] F same l2 by simp
    qed
  qed
qed

section \<open>No record comes back\<close>

definition value_of :: "u8 list option \<Rightarrow> u8 list" where
  "value_of x = (case x of None \<Rightarrow> [] | Some r \<Rightarrow> drop sizeof_header r)"

definition copies_of :: "ctdb_node_map \<Rightarrow> u32 \<Rightarrow> u8 list \<Rightarrow> vacuum_cluster \<Rightarrow> u8 list set" where
  "copies_of nodemap i K cl = {r. \<exists>p \<in> active nodemap. copy_of i K (daemons cl p) = Some r}"

text \<open>
  The state of a record: if this node has an empty copy that it owns as its location master, the copies of the other
  active nodes are not newer and belong to somebody else, and there are none if the record never was migrated with
  data.  The sequence number is not the highest one, and the flag of a vacuum migration is not stored.  The other
  nodes can lock and delete the record.
\<close>

definition record_ready :: "vacuum_world \<Rightarrow> ctdb_node_map \<Rightarrow> u32 \<Rightarrow> u32 \<Rightarrow> u8 list \<Rightarrow> vacuum_cluster \<Rightarrow> bool" where
  "record_ready w nodemap me i K cl \<longleftrightarrow>
     (let x = copy_of i K (daemons cl me); h = header_of_bytes (the x)
      in own_empty (daemons cl me) K x \<longrightarrow>
         rsn h \<noteq> -1 \<and> \<not> has_flag (hflags h) CTDB_REC_FLAG_VACUUM_MIGRATED \<and>
         (\<forall>p \<in> active nodemap - {me}. waits_for h i K p (daemons cl p) \<and>
            (\<not> has_flag (hflags h) CTDB_REC_FLAG_MIGRATED_WITH_DATA \<longrightarrow> copy_of i K (daemons cl p) = None) \<and>
            (\<forall>t. chain_free (v_env w t p) K \<and> freelist_free (v_env w t p) K \<and> vacuum_io (v_env w t p) K None)))"

lemma bump_rsn:
  assumes "rsn h \<noteq> -1"
  shows "rsn h < rsn (bump h)"
proof -
  have "1 + rsn h \<noteq> 0" using assms by (metis add.commute eq_neg_iff_add_eq_0)
  from unatSuc [OF this] show ?thesis by (simp add: bump_def word_less_nat_alt add.commute)
qed

text \<open>If an empty copy is not older than the others, a recovery finds the record to be empty.\<close>

lemma newest_empty:
  assumes "newest rm S x" "e \<in> S" "length e = sizeof_header" "\<forall>r \<in> S. older (header_of_bytes e) (Some r)"
  shows "value_of x = []"
proof (cases x)
  case (Some r)
  then have "r \<in> S" "rsn_of e \<le> rsn_of r" using assms(1,2) by (auto simp: newest_def)
  then have "length r = sizeof_header" using assms(4) by (force simp: older_def)
  then show ?thesis using Some by (simp add: value_of_def)
qed (simp add: value_of_def)

lemma newest_exists:
  assumes "finite S"
  shows "\<exists>x. newest rm S x"
proof (cases "S = {}")
  case True
  then show ?thesis by (intro exI [of _ None]) (simp add: newest_def)
next
  case False
  let ?m = "Max (rsn_of ` S)"
  have "?m \<in> rsn_of ` S" using assms False by simp
  then obtain r where r: "r \<in> S" "rsn_of r = ?m" by (metis imageE)
  have max: "\<forall>r' \<in> S. rsn_of r' \<le> ?m" using assms by simp
  show ?thesis
  proof (cases "\<exists>r' \<in> S. rsn_of r' = ?m \<and> dmaster (header_of_bytes r') = rm")
    case True
    then obtain r' where "r' \<in> S" "rsn_of r' = ?m" "dmaster (header_of_bytes r') = rm" by blast
    then show ?thesis using max by (intro exI [of _ "Some r'"]) (simp add: newest_def)
  next
    case False
    then show ?thesis using max r by (intro exI [of _ "Some r"]) (auto simp: newest_def)
  qed
qed

lemma vacuum_copies:
  assumes run: "ctdb_vacuum_db w me i queue full vd cl = Some (ret, vd', cl')" "delete_list vd = Map.empty"
    and ready: "vacuum_ready w nodemap me i cl" and x: "x = copy_of i K (daemons cl me)" and q: "queue_current K x queue"
    and rec: "record_ready w nodemap me i K cl"
  shows "(\<forall>p. copy_of i K (daemons cl' p) = copy_of i K (daemons cl p)) \<or>
    own_empty (daemons cl me) K x \<and>
      (empty_here (header_of_bytes (the x)) (the x) (copy_of i K (daemons cl' me)) \<and>
         (\<forall>p \<in> active nodemap - {me}. older (header_of_bytes (the x)) (copy_of i K (daemons cl' p))) \<or>
       copy_of i K (daemons cl' me) = None \<and> (\<forall>p \<in> active nodemap - {me}. copy_of i K (daemons cl' p) = None))"
    (is "?same cl' \<or> ?done cl'")
proof -
  let ?c = "child_ctdb (daemons cl me)"
  let ?db = "the_db i (daemons cl me)"
  let ?ps = "list_of_active_nodes me nodemap False"
  have R: "pnn ?c = me" "child_at (daemons cl me) me i cl" "nodemap_ok nodemap" "nodemap_reply w \<in> {None, Some nodemap}"
    "finite (dom (ltdb ?db))" "card (dom (ltdb ?db)) < 2 ^ 32" "\<forall>k \<in> dom (ltdb ?db). sizeof_rec_data + length k + sizeof_header < 2 ^ 32"
    using ready by (simp_all add: vacuum_ready_def)
  note ps = others_distinct [OF R(3), of me]
  have empty: "own_empty ?c K x = own_empty (daemons cl me) K x" by (simp add: own_empty_def)
  have fast: "?same (write_db me i db1 cl) \<or> ?done (write_db me i db1 cl)"
    if f: "fast_ok (dom (ltdb ?db)) ?c K x ?db (db1, vd1)" for db1 vd1
  proof (cases "ltdb db1 K = x")
    case True
    then show ?thesis using copy_write_other [of db1 K i cl me] x by simp
  next
    case False
    then have f: "ltdb db1 K = None" "own_empty (daemons cl me) K x"
      "\<not> has_flag (hflags (header_of_bytes (the x))) CTDB_REC_FLAG_MIGRATED_WITH_DATA"
      using f by (auto simp: fast_ok_def empty)
    then have "\<forall>p \<in> active nodemap - {me}. copy_of i K (daemons cl p) = None"
      using rec by (simp add: record_ready_def Let_def x)
    then show ?thesis using f(1,2) by simp
  qed
  show ?thesis using run(1,2) ready q x
  proof (cases rule: vacuum_db_cases)
    case (listing db1 vd1)
    from fast [OF listing(2)] show ?thesis by (simp add: listing(1))
  next
    case (processing db1 vd1 cl2 vd2)
    have ca: "child_at ?c me i cl2"
    proof -
      have "child_at ?c me i cl" using R(2) by (simp add: child_at_def child_ok_def)
      moreover have "db_same ?db db1" using processing(2) by (simp add: fast_ok_def)
      ultimately have "child_at ?c me i (write_db me i db1 cl)" by (rule child_at_write)
      then show ?thesis by (rule child_at_daemon) (simp add: processing(1))
    qed
    note l = list_ok_listed [OF processing(3) R(7)]
    have nodes: "\<forall>nm. nodemap_reply w = Some nm \<longrightarrow>
        distinct (list_of_active_nodes (pnn ?c) nm False) \<and> me \<notin> set (list_of_active_nodes (pnn ?c) nm False)"
      using R(4) ps unfolding R(1) by fastforce
    show ?thesis
    proof (cases "has_entry K (delete_list vd2)")
      case False
      have "copy_of i K (daemons cl' p) = copy_of i K (daemons cl2 p)" for p
        by (rule process_other [OF processing(5) ca nodes l False])
      then show ?thesis using fast [OF processing(2)] by (simp add: processing(1))
    next
      case True
      then have e: "own_empty (daemons cl me) K x" using processing(3) by (auto simp: list_ok_def has_entry_def empty)
      then obtain d0 where d0: "x = Some d0" "dmaster (header_of_bytes d0) = me" using R(1) by (auto simp: own_empty_def)
      have c2: "copy_of i K (daemons cl2 me) = Some d0" using processing(4) [OF True] d0(1) by (simp add: processing(1))
      have rr: "\<not> has_flag (hflags (header_of_bytes d0)) CTDB_REC_FLAG_VACUUM_MIGRATED"
        "\<forall>p \<in> active nodemap - {me}. waits_for (header_of_bytes d0) i K p (daemons cl p)"
        "\<forall>p \<in> active nodemap - {me}. \<forall>t. chain_free (v_env w t p) K \<and> freelist_free (v_env w t p) K \<and> vacuum_io (v_env w t p) K None"
        using rec e d0(1) by (simp_all add: record_ready_def Let_def x [symmetric])
      have waits: "\<forall>p \<in> set ?ps. waits_for (header_of_bytes d0) i K p (daemons cl2 p)"
        using rr(2) ps(2) by (simp add: processing(1))
      have card: "card (dom (delete_list vd2)) < 2 ^ 32" using list_ok_card [OF processing(3) R(5)] R(6) by linarith
      have "?done cl'"
        using process_listed [OF processing(5) ca R(4) refl, unfolded R(1) ps(2), OF ps(1) _ l card] c2 d0 waits rr ps(2) e by simp
      then show ?thesis by blast
    qed
  qed simp
qed

lemma copies_finite: "finite (copies_of nodemap i K cl)"
proof -
  have "copies_of nodemap i K cl \<subseteq> (\<lambda>p. the (copy_of i K (daemons cl p))) ` active nodemap" by (force simp: copies_of_def)
  then show ?thesis by (rule finite_subset) (simp add: active_def)
qed

lemma empty_here_older:
  assumes "empty_here h d0 (Some e)" "header_of_bytes d0 = h" "rsn h \<noteq> -1" "older h x"
  shows "older (header_of_bytes e) x"
  using assms(1)
proof (unfold empty_here_def, elim disjE conjE)
  assume "Some e = Some (bytes_of_header (bump h))"
  then show ?thesis using assms(4) bump_rsn [OF assms(3)] by (force simp: older_def)
qed (use assms in simp)

lemma no_resurrection:
  assumes own: "own_empty c K (copy_of i K (daemons cl me))" "me \<in> active nodemap" and h: "h = header_of_bytes (the (copy_of i K (daemons cl me)))" "rsn h \<noteq> -1"
    and old: "\<forall>p \<in> active nodemap - {me}. older h (copy_of i K (daemons cl p))"
    and new: "empty_here h (the (copy_of i K (daemons cl me))) (copy_of i K (daemons cl' me)) \<and> (\<forall>p \<in> active nodemap - {me}. older h (copy_of i K (daemons cl' p))) \<or>
      copy_of i K (daemons cl' me) = None \<and> (\<forall>p \<in> active nodemap - {me}. copy_of i K (daemons cl' p) = None)"
  shows "newest rm (copies_of nodemap i K cl) x \<Longrightarrow> value_of x = []" "newest rm (copies_of nodemap i K cl') x \<Longrightarrow> value_of x = []"
proof -
  obtain d0 where d0: "copy_of i K (daemons cl me) = Some d0" "length d0 = sizeof_header" using own(1) by (auto simp: own_empty_def)
  then have h0: "h = header_of_bytes d0" using h(1) by simp
  have empty: "value_of x = []" if n: "newest rm (copies_of nodemap i K c) x" and e: "copy_of i K (daemons c me) = Some e" "length e = sizeof_header"
    and o: "\<forall>p \<in> active nodemap - {me}. older (header_of_bytes e) (copy_of i K (daemons c p))" for c e x
  proof (rule newest_empty [OF n])
    show "e \<in> copies_of nodemap i K c" using e(1) own(2) by (auto simp: copies_of_def)
    show "\<forall>r \<in> copies_of nodemap i K c. older (header_of_bytes e) (Some r)"
    proof
      fix r
      assume "r \<in> copies_of nodemap i K c"
      then obtain p where p: "p \<in> active nodemap" "copy_of i K (daemons c p) = Some r" by (auto simp: copies_of_def)
      then show "older (header_of_bytes e) (Some r)" using o e by (cases "p = me") (auto simp: older_def)
    qed
  qed (fact e)
  show "newest rm (copies_of nodemap i K cl) x \<Longrightarrow> value_of x = []" using empty [OF _ d0] old h0 by simp
  show "value_of x = []" if n: "newest rm (copies_of nodemap i K cl') x"
  proof (cases "copy_of i K (daemons cl' me)")
    case None
    then have "\<forall>p \<in> active nodemap - {me}. copy_of i K (daemons cl' p) = None" using new by (auto simp: empty_here_def)
    then have "copy_of i K (daemons cl' p) = None" if "p \<in> active nodemap" for p using None that by (cases "p = me") auto
    then have "copies_of nodemap i K cl' = {}" by (simp add: copies_of_def)
    then show ?thesis using n by (cases x) (auto simp: newest_def value_of_def)
  next
    case (Some e)
    then have e: "empty_here h d0 (Some e)" "\<forall>p \<in> active nodemap - {me}. older h (copy_of i K (daemons cl' p))" using new d0(1) by auto
    have "length e = sizeof_header" using e(1) d0(2) by (auto simp: empty_here_def sizeof_header_def)
    then show ?thesis using empty [OF n Some] empty_here_older [OF e(1) h0 [symmetric] h(2)] e(2) by simp
  qed
qed

text \<open>
  C7: Vacuuming brings no old data back.  Whatever controls of a run are lost or fail, and whatever happens to other
  records: if a recovery after the run finds some value for a record, it could have found this value before.  Records
  that are to be deleted are empty before and after, and they are not deleted on the location master as long as an
  active node has a copy.  The hypotheses on the record are that the copies of the other nodes are not newer than
  the empty one and that these nodes are able to delete it.
\<close>

theorem vacuum_brings_nothing_back:
  assumes "ctdb_vacuum_db w me i queue full vd cl = Some (ret, vd', cl')" "delete_list vd = Map.empty"
    and "vacuum_ready w nodemap me i cl" "me \<in> active nodemap" "queue_current K (copy_of i K (daemons cl me)) queue" "record_ready w nodemap me i K cl"
    and "newest rm (copies_of nodemap i K cl') x'"
  shows "\<exists>x. newest rm (copies_of nodemap i K cl) x \<and> value_of x = value_of x'"
  using vacuum_copies [OF assms(1-3) refl assms(5,6)]
proof (elim disjE)
  assume "\<forall>p. copy_of i K (daemons cl' p) = copy_of i K (daemons cl p)"
  then have "copies_of nodemap i K cl' = copies_of nodemap i K cl" by (simp add: copies_of_def)
  then show ?thesis using assms(7) by auto
next
  let ?x = "copy_of i K (daemons cl me)"
  let ?h = "header_of_bytes (the ?x)"
  assume a: "own_empty (daemons cl me) K ?x \<and>
      (empty_here ?h (the ?x) (copy_of i K (daemons cl' me)) \<and> (\<forall>p \<in> active nodemap - {me}. older ?h (copy_of i K (daemons cl' p))) \<or>
       copy_of i K (daemons cl' me) = None \<and> (\<forall>p \<in> active nodemap - {me}. copy_of i K (daemons cl' p) = None))"
  then have h: "rsn ?h \<noteq> -1" "\<forall>p \<in> active nodemap - {me}. older ?h (copy_of i K (daemons cl p))"
    using assms(6) by (auto simp: record_ready_def Let_def waits_for_def)
  note R = no_resurrection [OF conjunct1 [OF a] assms(4) refl h conjunct2 [OF a], of rm]
  obtain x where "newest rm (copies_of nodemap i K cl) x" using newest_exists [OF copies_finite] by blast
  then show ?thesis using R assms(7) by metis
qed

section \<open>The last record that comes back\<close>

text \<open>A round with a single record leaves the delete list as it is, whatever the node could do with the record.\<close>

lemma single_round:
  assumes "dd_fits dd" "dbs (daemons cl p) i = Some db" "v_fate w (sent cl) p = Answered"
  shows "vacuum_nodes w (round_control f) (ctdb_marshall_finish (dd_buffer i [dd])) [p] vd cl =
    Some (0, vd, cl\<lparr>sent := Suc (sent cl), daemons := (daemons cl)(p := (daemons cl p)\<lparr>dbs := (dbs (daemons cl p))
      (i \<mapsto> snd (f (v_env w (sent cl) p) (daemons cl p) (dd_key dd) (dd_data dd) db))\<rparr>)\<rparr>)"
proof -
  let ?c = "daemons cl p"
  let ?f = "f (v_env w (sent cl) p) ?c"
  let ?bs = "dd_bytes i dd"
  let ?r = "\<lparr>m_db_id = db_id db, m_count = 0, m_data = []\<rparr>"
  have sz: "rec_size (i, None, dd_key dd, dd_data dd) < 2 ^ 32" using assms(1) by (simp add: dd_fits_def sizeof_header_def)
  have rd: "read_rec ?bs 0 False = Next 0 i None (dd_key dd) (dd_data dd)"
    using read_rec_marshalled [OF sz, of "[]" "[]"] by (simp add: dd_bytes_def)
  have len: "unat (word_at ?bs 0) = length ?bs"
    using word_at_length [of "[]" "(i, None, dd_key dd, dd_data dd)" "[]"] unat_fits [OF sz] length_rec_bytes [of "(i, None, dd_key dd, dd_data dd)"]
    by (simp add: dd_bytes_def del: rec_size.simps rec_bytes.simps)
  obtain res db1 where fr: "?f (dd_key dd) (dd_data dd) db = (res, db1)" by fastforce
  define r1 where "r1 = (if res = 0 then ?r else \<lparr>m_db_id = db_id db, m_count = 1, m_data = ?bs\<rparr>)"
  have "answer_records ?f ?bs 0 1 (?r, db) = Some (0, r1, db1)"
    by (simp add: rd len fr Let_def slice_def sizeof_header_def r1_def)
  moreover have "length (ctdb_marshall_finish (dd_buffer i [dd])) \<ge> sizeof_marshall_buffer"
    by (simp add: ctdb_marshall_finish_def sizeof_marshall_buffer_def)
  ultimately have "control_records ?f (ctdb_marshall_finish (dd_buffer i [dd])) ?c =
      Some (0, ctdb_marshall_finish r1, ?c\<lparr>dbs := (dbs ?c)(i \<mapsto> db1)\<rparr>)"
    using assms(2) by (simp add: control_records_def find_ctdb_db_def Let_def dd_buffer_def)
  moreover have "length (ctdb_marshall_finish r1) \<ge> sizeof_marshall_buffer" "unat (m_count r1) - 1 = 0"
    by (simp_all add: ctdb_marshall_finish_def sizeof_marshall_buffer_def r1_def)
  ultimately show ?thesis using assms(3) fr
    by (simp add: vacuum_control_def round_control_def Let_def)
qed

text \<open>
  Two nodes: node 0 owns an empty record and is its location master, node 1 has an old copy with data.  The argument
  says whether node 1 can lock the record.
\<close>

definition ex_empty :: ctdb_ltdb_header where
  "ex_empty = \<lparr>rsn = 5, dmaster = 0, reserved1 = 0, hflags = CTDB_REC_FLAG_MIGRATED_WITH_DATA\<rparr>"

definition ex_old :: "u8 list" where
  "ex_old = bytes_of_header \<lparr>rsn = 3, dmaster = 0, reserved1 = 0, hflags = 0\<rparr> @ [1]"

definition ex_vac_node :: "u32 \<Rightarrow> ctdb_daemon" where
  "ex_vac_node p = (ex_daemon p)\<lparr>vnn_map := Some \<lparr>generation = 1, vmap = [0]\<rparr>,
     dbs := [7 \<mapsto> ex_call_db\<lparr>ltdb := [[9] \<mapsto> if p = 0 then bytes_of_header ex_empty else ex_old]\<rparr>]\<rparr>"

definition ex_vac_cluster :: vacuum_cluster where
  "ex_vac_cluster = \<lparr>daemons = ex_vac_node, sent = 0, fetch_messages = []\<rparr>"

definition ex_vac_env :: "bool \<Rightarrow> vacuum_env" where
  "ex_vac_env free = \<lparr>chain_free = (\<lambda>k. free), freelist_free = (\<lambda>k. True), vacuum_io = (\<lambda>k r. True)\<rparr>"

definition ex_vac_world :: "bool \<Rightarrow> vacuum_world" where
  "ex_vac_world free = \<lparr>v_fate = (\<lambda>t p. Answered), v_env = (\<lambda>t p. ex_vac_env free), fast_env = ex_vac_env True, mark_env = ex_vac_env True,
     delete_env = ex_vac_env True, visits = (\<lambda>n list. sorted_list_of_set (dom list)), getvnnmap_ok = True, getpnn_ok = True,
     nodemap_reply = Some ex_nodemap, message_ok = (\<lambda>p. True), full_traverse_ok = True, full_order = ex_order\<rparr>"

definition ex_vac_data :: vacuum_data where
  "ex_vac_data = \<lparr>delete_list = Map.empty, delete_count = 0, delete_left = 0, vacuum_fetch_list = []\<rparr>"

definition ex_dd :: delete_record_data where
  "ex_dd = \<lparr>dd_key = [9], dd_hdr = ex_empty\<rparr>"

definition ex_listed :: vacuum_data where
  "ex_listed = \<lparr>delete_list = [ctdb_hash [9] \<mapsto> ex_dd], delete_count = 1, delete_left = 1,
     vacuum_fetch_list = replicate 2 \<lparr>m_db_id = 7, m_count = 0, m_data = []\<rparr>\<rparr>"

abbreviation ex_child :: ctdb_daemon where
  "ex_child \<equiv> child_ctdb (ex_vac_node 0)"

lemma ex_lmaster [simp]: "the_lmaster (ex_vac_node p) K = 0"
  by (simp add: ex_vac_node_def the_lmaster_def ctdb_lmaster_def)

lemma ex_vac_sel [simp]:
  "pnn (ex_vac_node p) = p" "daemons ex_vac_cluster = ex_vac_node" "length (node_flags (ex_vac_node p)) = 2" "sent ex_vac_cluster = 0"
  "v_fate (ex_vac_world b) t p = Answered" "v_env (ex_vac_world b) t p = ex_vac_env b" "nodemap_reply (ex_vac_world b) = Some ex_nodemap"
  "chain_free (ex_vac_env b) k = b" "freelist_free (ex_vac_env b) k" "vacuum_io (ex_vac_env b) k r"
  "fast_env (ex_vac_world b) = ex_vac_env True" "mark_env (ex_vac_world b) = ex_vac_env True" "delete_env (ex_vac_world b) = ex_vac_env True"
  "visits (ex_vac_world b) n list = sorted_list_of_set (dom list)"
  by (simp_all add: ex_vac_node_def ex_daemon_def ex_vac_cluster_def ex_vac_world_def ex_vac_env_def)

lemma ex_db: "dbs (ex_vac_node p) 7 = Some (the_db 7 (ex_vac_node p))" "db_id (the_db 7 (ex_vac_node p)) = 7"
    "ltdb (the_db 7 (ex_vac_node p)) = [[9] \<mapsto> if p = 0 then bytes_of_header ex_empty else ex_old]"
    "child_at ex_child 0 7 ex_vac_cluster"
  by (simp_all add: child_at_def child_ok_def ex_vac_cluster_def) (simp_all add: ex_vac_node_def ex_call_db_def the_db_def)

lemma ex_others: "list_of_active_nodes 0 ex_nodemap False = [1]"
  by (simp add: ex_nodemap_def list_of_active_nodes_def list_of_nodes_def has_flag_def)

lemma ex_dd_fits: "dd_fits ex_dd"
  by (simp add: dd_fits_def ex_dd_def sizeof_rec_data_def sizeof_header_def)

lemma ex_flags:
  "\<not> has_flag (hflags ex_empty) CTDB_REC_RO_FLAGS" "\<not> has_flag (hflags (bump ex_empty)) CTDB_REC_RO_FLAGS"
  "\<not> has_flag (hflags ex_empty) CTDB_REC_FLAG_VACUUM_MIGRATED" "has_flag (hflags ex_empty) CTDB_REC_FLAG_MIGRATED_WITH_DATA"
  by (simp_all add: has_flag_def ex_empty_def bump_def stored_flags_def CTDB_REC_RO_FLAGS_def CTDB_REC_RO_HAVE_DELEGATIONS_def CTDB_REC_RO_HAVE_READONLY_def
    CTDB_REC_RO_REVOKING_READONLY_def CTDB_REC_RO_REVOKE_COMPLETE_def CTDB_REC_FLAG_MIGRATED_WITH_DATA_def CTDB_REC_FLAG_VACUUM_MIGRATED_def
    CTDB_REC_FLAG_AUTOMATIC_def)

lemma ex_empty_still: "still_empty ex_child [9] 5 (bytes_of_header ex_empty)" "still_empty ex_child [9] 6 (bytes_of_header (bump ex_empty))"
  using ex_flags by (simp_all add: still_empty_def Let_def sizeof_header_def) (simp_all add: ex_empty_def bump_def)

lemma ex_marked: "\<exists>db1. delete_marshall_traverse_first (ex_vac_env True) ex_child (ctdb_hash [9]) (the_db 7 (ex_vac_node 0), ex_listed, dd_buffer 7 []) =
    (db1, ex_listed, dd_buffer 7 [ex_dd]) \<and> db_same (the_db 7 (ex_vac_node 0)) db1 \<and> ltdb db1 = [[9] \<mapsto> bytes_of_header (bump ex_empty)]"
proof -
  let ?db = "the_db 7 (ex_vac_node 0)"
  obtain res hdr db1 where st: "ctdb_ltdb_store (vacuum_io (ex_vac_env True)) ex_child ?db [9] ex_empty [] = (res, hdr, db1)"
    by (cases "ctdb_ltdb_store (vacuum_io (ex_vac_env True)) ex_child ?db [9] ex_empty []") auto
  have ok: "child_ok ex_child ?db" using ex_db(4) by (simp add: child_at_def)
  note B = store_bumps [OF ok ex_empty_still(1), of "vacuum_io (ex_vac_env True)" res hdr db1]
  obtain m where m: "vnn_map ex_child = Some m" using ok by (auto simp: child_ok_def)
  obtain keep sched where k: "store_keep (pnn ex_child) (ctdb_lmaster m [9]) (persistent ?db) ex_empty [] = (keep, sched)" by fastforce
  have keep using k ex_flags by (auto simp: store_keep_def split: if_splits)
  then have res: "res = 0" using store_server_result(3) [OF m _ k, of "vacuum_io (ex_vac_env True)" res hdr db1] st ok
    by (simp add: ctdb_ltdb_store_def child_ok_def)
  have "ltdb db1 = [[9] \<mapsto> bytes_of_header (bump ex_empty)]" "db_same ?db db1"
    using B st res ex_flags(3) ex_db(3) by auto
  moreover have "delete_marshall_traverse_first (ex_vac_env True) ex_child (ctdb_hash [9]) (?db, ex_listed, dd_buffer 7 []) =
      (db1, ex_listed, dd_buffer 7 [ex_dd])"
    using st res ex_empty_still(1) marshall_traverse [of ex_dd 7 "[]"] ex_db(3)
    by (simp add: delete_marshall_traverse_first_def ex_listed_def ex_dd_def Let_def) (simp add: ex_empty_def)
  ultimately show ?thesis by blast
qed

lemma ex_vac_lists:
  "ctdb_vacuum_db ((ex_vac_world b)\<lparr>nodemap_reply := nm\<rparr>) 0 7 Map.empty True ex_vac_data ex_vac_cluster =
     ctdb_process_delete_list ((ex_vac_world b)\<lparr>nodemap_reply := nm\<rparr>) ex_child 0 7 (ex_listed\<lparr>delete_left := 0\<rparr>) ex_vac_cluster"
proof -
  let ?db = "the_db 7 (ex_vac_node 0)"
  let ?vd = "ctdb_vacuum_init_vacuum_data ex_child 7 ex_vac_data"
  have n: "length (node_flags ex_child) = 2" by (simp add: child_ctdb_def)
  have "vacuum_traverse ex_child [9] (bytes_of_header ex_empty) ?vd = Some (True, ex_listed\<lparr>delete_left := 0\<rparr>)"
    using n by (simp add: vacuum_traverse_def Let_def sizeof_header_def ex_vac_data_def ctdb_vacuum_init_vacuum_data_def add_record_to_delete_list_def
      insert_delete_record_data_into_tree_def ex_listed_def ex_dd_def) (simp add: ex_empty_def)
  then have full: "ctdb_vacuum_db_full True ex_order ex_child ?db True ?vd = Some (0, ex_listed\<lparr>delete_left := 0\<rparr>)"
    by (simp add: ctdb_vacuum_db_full_def ex_order_def ex_db(3))
  have fetch: "ctdb_process_vacuum_fetch_lists ((ex_vac_world b)\<lparr>nodemap_reply := nm\<rparr>) ex_child [0..<2] (ex_listed\<lparr>delete_left := 0\<rparr>) cl = (0, cl)" for cl
    by (simp add: numeral_2_eq_2 upt_rec ex_listed_def Let_def)
  have "write_db 0 7 ?db ex_vac_cluster = ex_vac_cluster"
    using ex_db(1) [of 0] by (simp add: write_db_def fun_upd_idem)
  then show ?thesis using full fetch n ex_db(2) by (simp add: ctdb_vacuum_db_def ctdb_vacuum_db_fast_def Let_def ex_vac_world_def)
qed

lemma ex_old_header: "header_of_bytes ex_old = \<lparr>rsn = 3, dmaster = 0, reserved1 = 0, hflags = 0\<rparr>" "length ex_old = sizeof_header + 1"
  by (simp_all add: ex_old_def sizeof_header_def)

lemma ex_node1:
  fixes b :: bool and c :: "u32 \<rightharpoonup> call_db"
  defines "db \<equiv> snd (store_tdb_record (ex_vac_env b) (ex_vac_node 1) [9] (bytes_of_header ex_empty) (the_db 7 (ex_vac_node 1)))"
  shows "ltdb (snd (delete_tdb_record (ex_vac_env b) ((ex_vac_node 1)\<lparr>dbs := c\<rparr>) [9] (bytes_of_header ex_empty) db)) [9] = (if b then None else Some ex_old)"
proof (cases b)
  case True
  have sel: "pnn ((ex_vac_node 1)\<lparr>dbs := c\<rparr>) = 1" "the_lmaster ((ex_vac_node 1)\<lparr>dbs := c\<rparr>) [9] = 0"
    using ex_lmaster [of 1 "[9]"] by (simp_all add: the_lmaster_def)
  have "ltdb db [9] = Some (bytes_of_header ex_empty)"
    using ex_flags(1) ex_old_header True by (simp add: db_def store_tdb_record_def Let_def tdb_store_def sizeof_header_def ex_db(3)) (simp add: ex_empty_def has_flag_def)
  then have "ltdb (snd (delete_tdb_record (ex_vac_env b) ((ex_vac_node 1)\<lparr>dbs := c\<rparr>) [9] (bytes_of_header ex_empty) db)) [9] = None"
    using delete_record_done [of "(ex_vac_node 1)\<lparr>dbs := c\<rparr>" "[9]" "ex_vac_env b" ex_empty db] sel True ex_flags(1)
      deletable_self [OF ex_flags(1), of 1] by (simp add: ex_empty_def)
  then show ?thesis using True by simp
next
  case False
  then show ?thesis by (simp add: db_def store_tdb_record_def delete_tdb_record_def sizeof_header_def ex_db(3))
qed

text \<open>The whole run on this cluster: node 1 ends with what its operations make of its copy, and node 0 deletes the record.\<close>

lemma ex_vac_run:
  "\<exists>vd' cl'. ctdb_vacuum_db (ex_vac_world b) 0 7 Map.empty True ex_vac_data ex_vac_cluster = Some (0, vd', cl') \<and>
     copy_of 7 [9] (daemons cl' 0) = None \<and> copy_of 7 [9] (daemons cl' 1) = (if b then None else Some ex_old)"
proof -
  obtain db1 where m: "delete_marshall_traverse_first (ex_vac_env True) ex_child (ctdb_hash [9]) (the_db 7 (ex_vac_node 0), ex_listed, dd_buffer 7 []) =
    (db1, ex_listed, dd_buffer 7 [ex_dd])" "db_same (the_db 7 (ex_vac_node 0)) db1" "ltdb db1 = [[9] \<mapsto> bytes_of_header (bump ex_empty)]"
    using ex_marked by blast
  have dom: "dom (delete_list ex_listed) = {ctdb_hash [9]}" by (simp add: ex_listed_def)
  let ?cl1 = "write_db 0 7 db1 ex_vac_cluster"
  let ?E = "ex_vac_env b"
  let ?n1 = "ex_vac_node 1"
  let ?db2 = "snd (store_tdb_record ?E ?n1 [9] (bytes_of_header ex_empty) (the_db 7 ?n1))"
  let ?n2 = "?n1\<lparr>dbs := (dbs ?n1)(7 \<mapsto> ?db2)\<rparr>"
  let ?db3 = "snd (delete_tdb_record ?E ?n2 [9] (bytes_of_header ex_empty) ?db2)"
  have cl1: "daemons ?cl1 1 = ?n1" "sent ?cl1 = 0" by (simp_all add: write_db_def)
  define cl2 where "cl2 = ?cl1\<lparr>sent := 1, daemons := (daemons ?cl1)(1 := ?n2)\<rparr>"
  have st: "store_there (ex_vac_world b) ex_child 0 7 [1] ex_listed ex_vac_cluster = Some (0, ex_listed, cl2)"
    using single_round [OF ex_dd_fits, of ?cl1 1 7 "the_db 7 ?n1" "ex_vac_world b" store_tdb_record ex_listed] cl1 ex_db(1) [of 1] m(1)
      child_no_records [OF ex_db(4)] dom by (simp add: store_there_def round_controls cl2_def ex_dd_def)
  have ca2: "child_at ex_child 0 7 cl2"
    by (rule child_at_daemon [OF child_at_write [OF ex_db(4) [simplified], of db1]]) (use m(2) in \<open>simp_all add: cl2_def\<close>)
  define cl3 where "cl3 = cl2\<lparr>sent := 2, daemons := (daemons cl2)(1 := ?n2\<lparr>dbs := (dbs ?n2)(7 \<mapsto> ?db3)\<rparr>)\<rparr>"
  have sent: "sent_for_deletion (delete_list ex_listed) = [ex_dd]" using dom by (simp add: sent_for_deletion_def ex_listed_def)
  have dt: "vacuum_nodes (ex_vac_world b) ctdb_control_try_delete_records (ctdb_marshall_finish (dd_buffer 7 [ex_dd])) [1] ex_listed cl2 = Some (0, ex_listed, cl3)"
    using single_round [OF ex_dd_fits, of cl2 1 7 ?db2 "ex_vac_world b" delete_tdb_record ex_listed]
    by (simp add: round_controls cl2_def cl3_def ex_dd_def numeral_2_eq_2)
  have here: "ltdb (the_db 7 (daemons cl3 0)) = [[9] \<mapsto> bytes_of_header (bump ex_empty)]"
    using m(3) by (simp add: cl3_def cl2_def)
  obtain db4 vd' where tr: "delete_record_traverse (ex_vac_env True) ex_child (ctdb_hash [9]) (the_db 7 (daemons cl3 0), ex_listed) = (db4, vd')"
    by fastforce
  have "still_empty ex_child [9] (rsn (dd_hdr ex_dd) + 1) (bytes_of_header (bump ex_empty))" using ex_empty_still(2) by (simp add: ex_dd_def) (simp add: ex_empty_def)
  moreover have "delete_list ex_listed (ctdb_hash [9]) = Some ex_dd" "dd_key ex_dd = [9]" by (simp_all add: ex_listed_def ex_dd_def)
  ultimately have "ltdb db4 [9] = None" using tr here by (auto simp: delete_record_traverse_def Let_def tdb_delete_def)
  note d = tr this
  have "delete_here (ex_vac_world b) ex_child 0 7 ex_listed cl3 = (vd', write_db 0 7 db4 cl3)"
    using d dom by (simp add: delete_here_def)
  then have dth: "delete_there (ex_vac_world b) ex_child 0 7 [1] ex_listed cl2 = Some (0, vd', write_db 0 7 db4 cl3)"
    using dt sent by (simp add: there_sent [OF ca2]) (simp add: ex_listed_def)
  have "ctdb_process_delete_list (ex_vac_world b) ex_child 0 7 (ex_listed\<lparr>delete_left := 0\<rparr>) ex_vac_cluster = Some (0, vd', write_db 0 7 db4 cl3)"
    using st dth ex_others by (simp add: ctdb_process_delete_list_def Let_def) (simp add: ex_listed_def)
  moreover have "copy_of 7 [9] (daemons (write_db 0 7 db4 cl3) 1) = (if b then None else Some ex_old)"
    using ex_node1 [of b "(dbs ?n1)(7 \<mapsto> ?db2)"] by (simp add: cl3_def copy_of_def split del: if_split)
  moreover have "(ex_vac_world b)\<lparr>nodemap_reply := Some ex_nodemap\<rparr> = ex_vac_world b" by (simp add: ex_vac_world_def)
  note ex_vac_lists [where b = b and nm = "Some ex_nodemap", unfolded this]
  ultimately show ?thesis using d(2) by simp
qed

lemma ex_copies: "copies_of ex_nodemap 7 [9] cl = {r. copy_of 7 [9] (daemons cl 0) = Some r \<or> copy_of 7 [9] (daemons cl 1) = Some r}"
  by (auto simp: copies_of_def ex_active two_nodes)

lemma ex_start_copies: "copy_of 7 [9] (ex_vac_node 0) = Some (bytes_of_header ex_empty)" "copy_of 7 [9] (ex_vac_node 1) = Some ex_old"
  using ex_db(1,3) by (simp_all add: copy_of_def)

lemma ex_vac_ready: "vacuum_ready (ex_vac_world True) ex_nodemap 0 7 ex_vac_cluster"
proof -
  have "set (ex_order m) \<subseteq> dom m" for m by (cases "m [9]") (auto simp: ex_order_def)
  then show ?thesis using ex_active(2) ex_db
    by (auto simp: vacuum_ready_def child_at_def child_ok_def sizeof_rec_data_def sizeof_header_def) (auto simp: ex_vac_world_def)
qed

lemma ex_record_ready: "record_ready (ex_vac_world True) ex_nodemap 0 7 [9] ex_vac_cluster"
proof -
  have "waits_for ex_empty 7 [9] 1 (ex_vac_node 1)"
    using ex_old_header by (simp add: waits_for_def ex_start_copies older_def deletable_def) (simp add: ex_empty_def has_flag_def)
  moreover have "rsn ex_empty \<noteq> -1" by (simp add: ex_empty_def)
  moreover have "p = 1" if "p \<in> active ex_nodemap - {0}" for p using that by (auto simp: ex_active two_nodes)
  ultimately show ?thesis using ex_flags(3,4) by (auto simp: record_ready_def Let_def ex_start_copies)
qed

theorem vacuum_brings_nothing_back_witness:
  "\<exists>vd' cl'. ctdb_vacuum_db (ex_vac_world True) 0 7 Map.empty True ex_vac_data ex_vac_cluster = Some (0, vd', cl') \<and>
     copies_of ex_nodemap 7 [9] cl' = {} \<and> (\<exists>x. newest 0 (copies_of ex_nodemap 7 [9] ex_vac_cluster) x \<and> value_of x = [])"
proof -
  obtain vd' cl' where r: "ctdb_vacuum_db (ex_vac_world True) 0 7 Map.empty True ex_vac_data ex_vac_cluster = Some (0, vd', cl')"
    "copy_of 7 [9] (daemons cl' 0) = None" "copy_of 7 [9] (daemons cl' 1) = None" using ex_vac_run [of True] by auto
  have c: "copies_of ex_nodemap 7 [9] cl' = {}" using r(2,3) by (simp add: ex_copies)
  then have "newest 0 (copies_of ex_nodemap 7 [9] cl') None" by (simp add: newest_def)
  from vacuum_brings_nothing_back [OF r(1) _ ex_vac_ready _ _ ex_record_ready this] have
    "\<exists>x. newest 0 (copies_of ex_nodemap 7 [9] ex_vac_cluster) x \<and> value_of x = value_of None"
    by (auto simp: ex_vac_data_def queue_current_def ex_active)
  then show ?thesis using r(1) c by (auto simp: value_of_def)
qed

lemma ex_vac_newest:
  "newest 0 (copies_of ex_nodemap 7 [9] ex_vac_cluster) (Some (bytes_of_header ex_empty))"
  "copy_of 7 [9] (daemons cl 0) = None \<Longrightarrow> copy_of 7 [9] (daemons cl 1) = Some ex_old \<Longrightarrow> newest 0 (copies_of ex_nodemap 7 [9] cl) (Some ex_old)"
  "value_of (Some (bytes_of_header ex_empty)) = []" "value_of (Some ex_old) = [1]"
proof -
  show "newest 0 (copies_of ex_nodemap 7 [9] ex_vac_cluster) (Some (bytes_of_header ex_empty))"
    using ex_old_header by (auto simp: newest_def ex_copies ex_start_copies) (simp_all add: ex_empty_def)
qed (auto simp: newest_def ex_copies value_of_def sizeof_header_def ex_old_def)

text \<open>
  C8: A run takes the last record that a node could not handle for handled.  Node 1 has an old copy of an empty
  record and cannot lock it; it reports the record as failed, but the loop over the failed records stops before the
  last one.  The run succeeds, the location master deletes the record, and the old data of node 1 becomes the newest.
\<close>

theorem vacuum_last_failure_resurrects:
  "\<exists>vd' cl'. ctdb_vacuum_db (ex_vac_world False) 0 7 Map.empty True ex_vac_data ex_vac_cluster = Some (0, vd', cl') \<and>
     newest 0 (copies_of ex_nodemap 7 [9] ex_vac_cluster) (Some (bytes_of_header ex_empty)) \<and> value_of (Some (bytes_of_header ex_empty)) = [] \<and>
     newest 0 (copies_of ex_nodemap 7 [9] cl') (Some ex_old) \<and> value_of (Some ex_old) = [1]"
proof -
  obtain vd' cl' where r: "ctdb_vacuum_db (ex_vac_world False) 0 7 Map.empty True ex_vac_data ex_vac_cluster = Some (0, vd', cl')"
    "copy_of 7 [9] (daemons cl' 0) = None" "copy_of 7 [9] (daemons cl' 1) = Some ex_old" using ex_vac_run [of False] by auto
  then show ?thesis using ex_vac_newest by blast
qed

section \<open>Repacking\<close>

text \<open>Repacking drops a record of the delete list that has not changed, whether the other nodes have deleted it or not.\<close>

lemma repack_skips:
  assumes "traverse_while (repack_traverse w ctdb list True) ks src dest = Some (b, dest')" "dest K = None" "src K = Some d"
    and "list (ctdb_hash K) = Some kd" "dd_key kd = K" "length d = sizeof_header" "dmaster (header_of_bytes d) = pnn ctdb"
    and "the_lmaster ctdb K = pnn ctdb" "rsn (dd_hdr kd) = rsn_of d"
  shows "dest' K = None"
  using assms(1,2)
proof (induction ks arbitrary: dest)
  case (Cons k ks)
  obtain b1 dest1 where r: "repack_traverse w ctdb list True k (the (src k)) dest = Some (b1, dest1)"
    using Cons.prems(1) by (auto split: option.splits)
  have "dest1 K = None"
    using r Cons.prems(2) assms(3-) by (cases "k = K") (auto simp: repack_traverse_def Let_def split: if_splits)
  then show ?case using Cons r by (cases b1) auto
qed simp

lemma repack_copies_only:
  "traverse_while (repack_traverse w ctdb list v) ks src dest = Some (b, dest') \<Longrightarrow> K \<notin> set ks \<Longrightarrow> dest' K = dest K"
proof (induction ks arbitrary: dest)
  case (Cons k ks)
  obtain b1 dest1 where r: "repack_traverse w ctdb list v k (the (src k)) dest = Some (b1, dest1)"
    using Cons.prems(1) by (auto split: option.splits)
  then have "dest1 K = dest K" using Cons.prems(2) by (auto simp: repack_traverse_def Let_def split: if_splits)
  then show ?case using Cons r by (cases b1) auto
qed simp

lemma repack_drops_listed:
  assumes "ctdb_repack_tdb env ctdb vd tdb = (0, tdb')" "\<forall>m. set (repack_order env m) \<subseteq> dom m" "tdb K = Some d"
    and "delete_list vd (ctdb_hash K) = Some kd" "dd_key kd = K" "length d = sizeof_header" "dmaster (header_of_bytes d) = pnn ctdb"
    and "the_lmaster ctdb K = pnn ctdb" "rsn (dd_hdr kd) = rsn_of d"
  shows "tdb' K = None"
proof -
  have some: "traverse_while (repack_traverse w ctdb list v) ks src dest \<noteq> None" for w list v ks src dest
    by (induction ks arbitrary: dest) (auto simp: repack_traverse_def Let_def split: bool.splits)
  let ?copy = "\<lambda>v src. traverse_while (repack_traverse (repack_io env v) ctdb (delete_list vd) v) (repack_order env src) src Map.empty"
  obtain b1 tmp where c1: "?copy True tdb = Some (b1, tmp)" using some by fastforce
  obtain b2 res where c2: "?copy False tmp = Some (b2, res)" using some by fastforce
  have "tdb' = res" using assms(1) c1 c2 by (auto simp: ctdb_repack_tdb_def Let_def split: if_splits)
  have "tmp K = None" by (rule repack_skips [OF c1 _ assms(3-)]) simp
  then have "K \<notin> set (repack_order env tmp)" using assms(2) by blast
  from repack_copies_only [OF c2 this] show ?thesis using \<open>tdb' = res\<close> by simp
qed

text \<open>A run in the example cluster in which the node map cannot be read, and which repacks because the freelist is long.\<close>

definition ex_repack :: repack_env where
  "ex_repack = \<lparr>repack_steps_ok = (\<lambda>_. True), repack_io = (\<lambda>_ _ _. True), repack_order = ex_order\<rparr>"

text \<open>
  C9: Repacking can bring a deleted record back. When the node map cannot be read, the vacuuming run fails before any other node
  was asked to delete the record; the failure is ignored, and the repacking that follows still takes every record of the delete
  list for a deleted one. The run ends well, the empty record is gone from its master, and the only copy left in the cluster is
  the outdated one of another node.
\<close>

theorem repack_resurrects:
  "\<exists>cl'. ctdb_vacuum_and_repack_db ((ex_vac_world True)\<lparr>nodemap_reply := None\<rparr>) ex_repack (Some 10) 5 5000 0 7 Map.empty True ex_vac_cluster =
            Some (0, cl') \<and>
     newest 0 (copies_of ex_nodemap 7 [9] ex_vac_cluster) (Some (bytes_of_header ex_empty)) \<and> value_of (Some (bytes_of_header ex_empty)) = [] \<and>
     newest 0 (copies_of ex_nodemap 7 [9] cl') (Some ex_old) \<and> value_of (Some ex_old) = [1]"
proof -
  let ?db = "the_db 7 (ex_vac_node 0)"
  let ?vd = "ex_listed\<lparr>delete_left := 0\<rparr>"
  have run: "ctdb_vacuum_db ((ex_vac_world True)\<lparr>nodemap_reply := None\<rparr>) 0 7 Map.empty True ex_vac_data ex_vac_cluster = Some (-1, ex_listed, ex_vac_cluster)"
    unfolding ex_vac_lists by (simp add: ctdb_process_delete_list_def Let_def) (simp add: ex_listed_def)
  obtain ret tdb where rp: "ctdb_repack_tdb ex_repack ex_child ex_listed (ltdb ?db) = (ret, tdb)" by fastforce
  have skip: "repack_traverse w ex_child (delete_list ex_listed) True [9] (bytes_of_header ex_empty) d = Some (True, d)" for w d
    by (simp add: repack_traverse_def Let_def ex_listed_def ex_dd_def sizeof_header_def) (simp add: ex_empty_def)
  have 1: "(ret, tdb) = (0, Map.empty)" unfolding rp [symmetric] ctdb_repack_tdb_def Let_def
    by (simp add: ex_repack_def ex_order_def ex_db(3) skip)
  let ?cl = "write_db 0 7 (?db\<lparr>ltdb := Map.empty\<rparr>) ex_vac_cluster"
  have "ctdb_vacuum_and_repack_db ((ex_vac_world True)\<lparr>nodemap_reply := None\<rparr>) ex_repack (Some 10) 5 5000 0 7 Map.empty True ex_vac_cluster = Some (0, ?cl)"
    using run rp 1 by (simp add: ctdb_vacuum_and_repack_db_def ex_vac_data_def ex_db(2))
  moreover have "copy_of 7 [9] (daemons ?cl 0) = None" "copy_of 7 [9] (daemons ?cl 1) = Some ex_old"
    using ex_start_copies(2) by (simp_all add: write_db_def copy_of_def)
  ultimately show ?thesis using ex_vac_newest by blast
qed

end
