(* ===== verification/Transport.thy ===== *)
theory Transport
  imports Marshall
begin

text \<open>
  Packets between nodes: packet queues on sockets (\<^verbatim>\<open>common/ctdb_io.c\<close>) and the connections of the TCP transport
  (\<^verbatim>\<open>tcp/tcp_connect.c\<close>, \<^verbatim>\<open>tcp/tcp_io.c\<close>, \<^verbatim>\<open>tcp/tcp_init.c\<close>).  What the system calls return is an argument.  A queue calls back
  as its last action, so its operations give the queue and the call that follows.
\<close>

section \<open>Packet queues\<close>

definition QUEUE_BUFFER_SIZE :: u32 where
  "QUEUE_BUFFER_SIZE = 16 * 1024"

text \<open>The input buffer has \<open>b_size\<close> bytes of memory, or none yet; \<open>b_data\<close> are the bytes of it that are in use.\<close>

record ctdb_buffer =
  b_data :: "u8 list option"
  b_size :: u32
  b_extend :: u32

definition b_bytes :: "ctdb_buffer \<Rightarrow> u8 list" where
  "b_bytes b = (case b_data b of None \<Rightarrow> [] | Some bs \<Rightarrow> bs)"

definition b_length :: "ctdb_buffer \<Rightarrow> u32" where
  "b_length b = of_nat (length (b_bytes b))"

text \<open>A packet to send: the bytes that are left, and the length of the whole packet.\<close>

record ctdb_queue_pkt =
  pkt_data :: "u8 list"
  full_length :: u32

definition pkt_length :: "ctdb_queue_pkt \<Rightarrow> u32" where
  "pkt_length p = of_nat (length (pkt_data p))"

datatype im_event = Queue_process_event | Queue_dead

text \<open>
  An immediate event is scheduled at most once for a queue, and scheduling it again replaces the event.  The
  descriptor is \<open>None\<close> for the value -1.
\<close>

record ctdb_queue =
  buffer :: ctdb_buffer
  out_queue :: "ctdb_queue_pkt list"
  out_queue_length :: u32
  queue_fd :: "nat option"
  fde_writeable :: bool
  alignment :: u64
  im :: "im_event option"

datatype queue_call = No_call | Dead_call | Packet_call "u8 list"

definition queue_process :: "ctdb_queue \<Rightarrow> ctdb_queue \<times> queue_call" where
  "queue_process queue =
     (let buf = buffer queue;
          pkt_size = word_at (b_bytes buf) 0
      in if b_length buf < 4 then (queue, No_call)
         else if pkt_size = 0 then (queue, Dead_call)
         else if b_length buf < pkt_size then
           (if pkt_size > QUEUE_BUFFER_SIZE then queue\<lparr>buffer := buf\<lparr>b_extend := pkt_size\<rparr>\<rparr> else queue, No_call)
         else
           let data = take (unat pkt_size) (b_bytes buf);
               buf = buf\<lparr>b_data := Some (drop (unat pkt_size) (b_bytes buf))\<rparr>
           in (if b_length buf > 0 then queue\<lparr>buffer := buf, im := Some Queue_process_event\<rparr>
               else if b_size buf > QUEUE_BUFFER_SIZE then queue\<lparr>buffer := buf\<lparr>b_data := None, b_size := 0\<rparr>\<rparr>
               else queue\<lparr>buffer := buf\<rparr>, Packet_call data))"

text \<open>
  Reading: \<open>num_ready\<close> is the answer of the system how many bytes can be read, \<open>None\<close> if it gives none, and \<open>rd\<close> what a read of
  that size (\<open>read_size\<close>) returns.
\<close>

definition buffer_prepare :: "ctdb_buffer \<Rightarrow> ctdb_buffer" where
  "buffer_prepare buf =
     (if b_data buf = None then buf\<lparr>b_data := Some [], b_size := QUEUE_BUFFER_SIZE\<rparr>
      else if b_extend buf > 0 then buf\<lparr>b_size := b_extend buf, b_extend := 0\<rparr>
      else buf)"

definition read_size :: "int \<Rightarrow> ctdb_buffer \<Rightarrow> int" where
  "read_size num_ready buf =
     (let navail = sint (b_size buf - b_length buf)
      in if num_ready > navail then navail else num_ready)"

definition queue_io_read :: "int option \<Rightarrow> u8 list option \<Rightarrow> ctdb_queue \<Rightarrow> ctdb_queue \<times> queue_call" where
  "queue_io_read num_ready rd queue =
     (case num_ready of
        None \<Rightarrow> (queue, No_call)
      | Some num_ready \<Rightarrow>
          if num_ready = 0 then (queue, Dead_call)
          else
            let buf = buffer_prepare (buffer queue)
            in if read_size num_ready buf > 0 then
                 (case rd of
                    None \<Rightarrow> (queue\<lparr>buffer := buf\<rparr>, Dead_call)
                  | Some bs \<Rightarrow>
                      if bs = [] then (queue\<lparr>buffer := buf\<rparr>, Dead_call)
                      else queue_process (queue\<lparr>buffer := buf\<lparr>b_data := Some (b_bytes buf @ bs)\<rparr>\<rparr>))
               else queue_process (queue\<lparr>buffer := buf\<rparr>))"

text \<open>The result of a write: some bytes, none because the socket would block, or another error.\<close>

datatype write_result = Wrote nat | Would_block | Write_error

datatype write_end = All_written | Stopped | Failed

fun queue_write ::
    "bool \<Rightarrow> (nat \<Rightarrow> u8 list \<Rightarrow> write_result) \<Rightarrow> nat \<Rightarrow> ctdb_queue_pkt list \<Rightarrow> u8 list \<times> ctdb_queue_pkt list \<times> write_end" where
  "queue_write torture wr k [] = ([], [], All_written)"
| "queue_write torture wr k (pkt # pkts) =
     (case wr k (if torture then take 1 (pkt_data pkt) else pkt_data pkt) of
        Write_error \<Rightarrow> ([], if pkt_length pkt \<noteq> full_length pkt then pkts else pkt # pkts, Failed)
      | Would_block \<Rightarrow> ([], pkt # pkts, Stopped)
      | Wrote n \<Rightarrow>
          if n = 0 then ([], pkt # pkts, Stopped)
          else if n \<noteq> length (pkt_data pkt) then (take n (pkt_data pkt), pkt\<lparr>pkt_data := drop n (pkt_data pkt)\<rparr> # pkts, Stopped)
          else (case queue_write torture wr (Suc k) pkts of (bs, rest, e) \<Rightarrow> (pkt_data pkt @ bs, rest, e)))"

text \<open>A queue that cannot write any more gives up its descriptor and will report this.\<close>

definition queue_broken :: "ctdb_queue \<Rightarrow> ctdb_queue" where
  "queue_broken queue = queue\<lparr>queue_fd := None, fde_writeable := False, im := Some Queue_dead\<rparr>"

text \<open>The result has the bytes that were written to the descriptor.\<close>

definition queue_io_write :: "bool \<Rightarrow> (nat \<Rightarrow> u8 list \<Rightarrow> write_result) \<Rightarrow> ctdb_queue \<Rightarrow> u8 list \<times> ctdb_queue" where
  "queue_io_write torture wr queue =
     (case queue_write torture wr 0 (out_queue queue) of
        (bs, rest, e) \<Rightarrow>
          let queue = queue\<lparr>out_queue := rest, out_queue_length := out_queue_length queue - of_nat (length (out_queue queue) - length rest)\<rparr>
          in (bs, case e of
                    All_written \<Rightarrow> queue\<lparr>fde_writeable := False\<rparr>
                  | Stopped \<Rightarrow> queue
                  | Failed \<Rightarrow> queue_broken queue))"

text \<open>The packet as it is sent: rounded up to the alignment, with its new length in the header.\<close>

definition round_up :: "u64 \<Rightarrow> u32 \<Rightarrow> u32" where
  "round_up a len = ucast ((ucast len + (a - 1)) AND NOT (a - 1))"

definition framed_packet :: "u64 \<Rightarrow> u8 list \<Rightarrow> u8 list" where
  "framed_packet a data =
     (let len = of_nat (length data);
          length2 = (if a \<noteq> 0 then round_up a len else len);
          data = (if a \<noteq> 0 then bytes_of_u32 length2 @ drop 4 data else data)
      in data @ replicate (unat (length2 - len)) 0)"

definition queue_add :: "u8 list \<Rightarrow> u32 \<Rightarrow> ctdb_queue \<Rightarrow> ctdb_queue" where
  "queue_add data full queue =
     queue\<lparr>fde_writeable := fde_writeable queue \<or> (out_queue queue = [] \<and> queue_fd queue \<noteq> None),
       out_queue := out_queue queue @ [\<lparr>pkt_data = data, full_length = full\<rparr>],
       out_queue_length := out_queue_length queue + 1\<rparr>"

definition ctdb_queue_send ::
    "bool \<Rightarrow> (nat \<Rightarrow> u8 list \<Rightarrow> write_result) \<Rightarrow> u8 list \<Rightarrow> ctdb_queue \<Rightarrow> u8 list \<times> ctdb_queue" where
  "ctdb_queue_send torture wr data queue =
     (let data = framed_packet (alignment queue) data;
          full = of_nat (length data)
      in if out_queue queue = [] \<and> queue_fd queue \<noteq> None \<and> \<not> torture then
           (case wr 0 data of
              Write_error \<Rightarrow> ([], queue_broken queue)
            | Would_block \<Rightarrow> ([], queue_add data full queue)
            | Wrote n \<Rightarrow>
                if n = length data then (data, queue)
                else (take n data, queue_add (drop n data) full queue))
         else ([], queue_add data full queue))"

definition ctdb_queue_set_fd :: "nat option \<Rightarrow> ctdb_queue \<Rightarrow> ctdb_queue" where
  "ctdb_queue_set_fd fd queue = queue\<lparr>queue_fd := fd, fde_writeable := fd \<noteq> None \<and> out_queue queue \<noteq> []\<rparr>"

definition ctdb_queue_setup :: "nat option \<Rightarrow> u64 \<Rightarrow> ctdb_queue" where
  "ctdb_queue_setup fd a =
     ctdb_queue_set_fd fd
       \<lparr>buffer = \<lparr>b_data = None, b_size = 0, b_extend = 0\<rparr>, out_queue = [], out_queue_length = 0, queue_fd = fd, fde_writeable = False,
        alignment = a, im = None\<rparr>"

section \<open>Connections of the TCP transport\<close>

definition CTDB_TCP_ALIGNMENT :: u64 where
  "CTDB_TCP_ALIGNMENT = 8"

text \<open>
  The state of the outgoing connection to a node.  \<open>tnode_fd\<close> is a socket that is being connected; it moves to the queue when
  the connection is established.
\<close>

record ctdb_tcp_node =
  tnode_fd :: "nat option"
  tnode_queue :: ctdb_queue
  connect_fde :: bool
  connect_te :: bool
  disconnected :: bool

definition ctdb_tcp_add_node :: ctdb_tcp_node where
  "ctdb_tcp_add_node =
     \<lparr>tnode_fd = None, tnode_queue = ctdb_queue_setup None CTDB_TCP_ALIGNMENT, connect_fde = False, connect_te = False, disconnected = True\<rparr>"

definition ctdb_tcp_connect_node :: "ctdb_tcp_node \<Rightarrow> ctdb_tcp_node" where
  "ctdb_tcp_connect_node tnode = tnode\<lparr>connect_te := True\<rparr>"

definition ctdb_tcp_stop_connection :: "ctdb_tcp_node \<Rightarrow> ctdb_tcp_node" where
  "ctdb_tcp_stop_connection tnode =
     tnode\<lparr>tnode_queue := ctdb_queue_set_fd None (tnode_queue tnode), connect_te := False, connect_fde := False, tnode_fd := None\<rparr>"

definition ctdb_tcp_restart :: "ctdb_tcp_node \<Rightarrow> ctdb_tcp_node" where
  "ctdb_tcp_restart tnode = (ctdb_tcp_stop_connection tnode)\<lparr>connect_te := True\<rparr>"

definition ctdb_node_dead :: "ctdb_tcp_node \<Rightarrow> ctdb_tcp_node" where
  "ctdb_node_dead tnode = (if disconnected tnode then tnode else ctdb_tcp_restart (tnode\<lparr>disconnected := True\<rparr>))"

definition ctdb_tcp_tnode_cb :: "u8 list option \<Rightarrow> ctdb_tcp_node \<Rightarrow> ctdb_tcp_node" where
  "ctdb_tcp_tnode_cb data tnode =
     (let tnode = (if data = None then ctdb_node_dead tnode else tnode)
      in (ctdb_tcp_stop_connection tnode)\<lparr>connect_te := True\<rparr>)"

text \<open>How far an attempt to connect comes.\<close>

datatype connect_result = Bad_address | No_socket | Bind_failed nat | Connect_failed nat | Connecting nat

definition ctdb_tcp_node_connect :: "connect_result \<Rightarrow> ctdb_tcp_node \<Rightarrow> ctdb_tcp_node" where
  "ctdb_tcp_node_connect res tnode =
     (let tnode = ctdb_tcp_stop_connection tnode
      in case res of
           Bad_address \<Rightarrow> tnode
         | No_socket \<Rightarrow> tnode
         | Bind_failed fd \<Rightarrow> tnode\<lparr>tnode_fd := Some fd\<rparr>
         | Connect_failed fd \<Rightarrow> (ctdb_tcp_stop_connection (tnode\<lparr>tnode_fd := Some fd\<rparr>))\<lparr>connect_te := True\<rparr>
         | Connecting fd \<Rightarrow> tnode\<lparr>tnode_fd := Some fd, connect_fde := True, connect_te := True\<rparr>)"

definition ctdb_node_connect_write :: "bool \<Rightarrow> ctdb_tcp_node \<Rightarrow> ctdb_tcp_node" where
  "ctdb_node_connect_write connected tnode =
     (let tnode = tnode\<lparr>connect_te := False\<rparr>
      in if \<not> connected then (ctdb_tcp_stop_connection tnode)\<lparr>connect_te := True\<rparr>
         else tnode\<lparr>connect_fde := False, tnode_queue := ctdb_queue_set_fd (tnode_fd tnode) (tnode_queue tnode), tnode_fd := None\<rparr>)"

definition CTDB_MAGIC :: u32 where "CTDB_MAGIC = 0x43544442"
definition CTDB_VERSION :: u32 where "CTDB_VERSION = 1"
definition sizeof_req_header :: nat where "sizeof_req_header = 32"

text \<open>Whether a packet that came in is passed on; otherwise the incoming connection is freed.\<close>

definition ctdb_tcp_read_cb :: "u8 list option \<Rightarrow> bool" where
  "ctdb_tcp_read_cb data =
     (case data of
        None \<Rightarrow> False
      | Some data \<Rightarrow>
          \<not> length data < sizeof_req_header \<and>
          (of_nat (length data) :: u64) AND (CTDB_TCP_ALIGNMENT - 1) = 0 \<and>
          length data = unat (word_at data 0) \<and>
          word_at data 4 = CTDB_MAGIC \<and>
          word_at data 8 = CTDB_VERSION)"

text \<open>A new incoming connection; one from an unknown address is refused.\<close>

definition ctdb_listen_event :: "nat \<Rightarrow> bool \<Rightarrow> ctdb_queue option" where
  "ctdb_listen_event fd known = (if known then Some (ctdb_queue_setup (Some fd) CTDB_TCP_ALIGNMENT) else None)"

section \<open>A link from one node to another\<close>

text \<open>
  The sockets of a link: the bytes on the way, the queue of the receiver until it is freed, and the packets
  passed on by the receiver.  \<open>starts_whole\<close> records whether the sender started with a whole packet.
\<close>

record tcp_conn =
  wire :: "u8 list"
  incoming :: "ctdb_queue option"
  received :: "u8 list list"
  starts_whole :: bool

record tcp_link =
  tnode :: ctdb_tcp_node
  conns :: "tcp_conn list"
  submitted :: "u8 list list"

definition tcp_link_init :: tcp_link where
  "tcp_link_init = \<lparr>tnode = ctdb_tcp_connect_node ctdb_tcp_add_node, conns = [], submitted = []\<rparr>"

definition put_on_wire :: "nat option \<Rightarrow> u8 list \<Rightarrow> tcp_conn list \<Rightarrow> tcp_conn list" where
  "put_on_wire fd bs cs = (case fd of None \<Rightarrow> cs | Some c \<Rightarrow> cs[c := (cs ! c)\<lparr>wire := wire (cs ! c) @ bs\<rparr>])"

text \<open>The callback of the receiver.\<close>

definition incoming_call :: "ctdb_queue \<times> queue_call \<Rightarrow> tcp_conn \<Rightarrow> tcp_conn" where
  "incoming_call r conn =
     (case r of (queue, call) \<Rightarrow>
        case call of
          No_call \<Rightarrow> conn\<lparr>incoming := Some queue\<rparr>
        | Dead_call \<Rightarrow> conn\<lparr>incoming := None\<rparr>
        | Packet_call data \<Rightarrow>
            if ctdb_tcp_read_cb (Some data) then conn\<lparr>incoming := Some queue, received := received conn @ [data]\<rparr>
            else conn\<lparr>incoming := None\<rparr>)"

definition head_whole :: "ctdb_queue \<Rightarrow> bool" where
  "head_whole queue = (case out_queue queue of [] \<Rightarrow> True | p # _ \<Rightarrow> pkt_length p = full_length p)"

abbreviation outgoing :: "tcp_link \<Rightarrow> ctdb_queue" where
  "outgoing l \<equiv> tnode_queue (tnode l)"

definition writes_ok :: "(nat \<Rightarrow> u8 list \<Rightarrow> write_result) \<Rightarrow> bool" where
  "writes_ok wr \<longleftrightarrow> (\<forall>k bs n. wr k bs = Wrote n \<longrightarrow> n \<le> length bs)"

text \<open>A read gives at least one byte and at most as many as asked for, if it is called at all.\<close>

definition read_some :: "int \<Rightarrow> ctdb_queue \<Rightarrow> nat \<Rightarrow> bool" where
  "read_some num_ready queue n \<longleftrightarrow>
     (let k = read_size num_ready (buffer_prepare (buffer queue))
      in if k > 0 then 0 < n \<and> int n \<le> k else n = 0)"

text \<open>
  The events of a link: the daemon submits a packet, the socket of the sender is writeable or closed, timers and
  immediate events run, the node is found dead (\<open>link_restart\<close>), the receiver can read or finds the socket closed.
\<close>

inductive link_step :: "tcp_link \<Rightarrow> tcp_link \<Rightarrow> bool" where
  link_submit:
    "sizeof_req_header \<le> length data \<Longrightarrow> length data < 2 ^ 31 \<Longrightarrow> writes_ok wr \<Longrightarrow>
     ctdb_queue_send torture wr data (outgoing l) = (bs, queue) \<Longrightarrow>
     link_step l (l\<lparr>tnode := (tnode l)\<lparr>tnode_queue := queue\<rparr>, conns := put_on_wire (queue_fd (outgoing l)) bs (conns l),
       submitted := submitted l @ [framed_packet (alignment (outgoing l)) data]\<rparr>)"
| link_write:
    "fde_writeable (outgoing l) \<Longrightarrow> writes_ok wr \<Longrightarrow> queue_io_write torture wr (outgoing l) = (bs, queue) \<Longrightarrow>
     link_step l (l\<lparr>tnode := (tnode l)\<lparr>tnode_queue := queue\<rparr>, conns := put_on_wire (queue_fd (outgoing l)) bs (conns l)\<rparr>)"
| link_closed:
    "queue_fd (outgoing l) = Some c \<Longrightarrow> queue_io_read (Some 0) rd (outgoing l) = (queue, Dead_call) \<Longrightarrow>
     link_step l (l\<lparr>tnode := ctdb_tcp_tnode_cb None ((tnode l)\<lparr>tnode_queue := queue\<rparr>)\<rparr>)"
| link_dead:
    "im (outgoing l) = Some Queue_dead \<Longrightarrow>
     link_step l (l\<lparr>tnode := ctdb_tcp_tnode_cb None ((tnode l)\<lparr>tnode_queue := (outgoing l)\<lparr>im := None\<rparr>\<rparr>)\<rparr>)"
| link_restart:
    "link_step l (l\<lparr>tnode := ctdb_node_dead (tnode l)\<rparr>)"
| link_alive:
    "link_step l (l\<lparr>tnode := (tnode l)\<lparr>disconnected := False\<rparr>\<rparr>)"
| link_no_connect:
    "connect_te (tnode l) \<Longrightarrow> res \<in> {Bad_address, No_socket, Bind_failed fd, Connect_failed fd} \<Longrightarrow>
     link_step l (l\<lparr>tnode := ctdb_tcp_node_connect res (tnode l)\<rparr>)"
| link_connect:
    "connect_te (tnode l) \<Longrightarrow>
     link_step l (l\<lparr>tnode := ctdb_tcp_node_connect (Connecting (length (conns l))) (tnode l),
       conns := conns l @ [\<lparr>wire = [], incoming = ctdb_listen_event fd known, received = [], starts_whole = True\<rparr>]\<rparr>)"
| link_connected:
    "connect_fde (tnode l) \<Longrightarrow> tnode_fd (tnode l) = Some c \<Longrightarrow>
     link_step l (l\<lparr>tnode := ctdb_node_connect_write True (tnode l),
       conns := (conns l)[c := (conns l ! c)\<lparr>starts_whole := starts_whole (conns l ! c) \<and> head_whole (outgoing l)\<rparr>]\<rparr>)"
| link_not_connected:
    "connect_fde (tnode l) \<Longrightarrow> link_step l (l\<lparr>tnode := ctdb_node_connect_write False (tnode l)\<rparr>)"
| link_read:
    "c < length (conns l) \<Longrightarrow> incoming (conns l ! c) = Some queue \<Longrightarrow>
     0 < num_ready \<Longrightarrow> num_ready \<le> length (wire (conns l ! c)) \<Longrightarrow> read_some (int num_ready) queue n \<Longrightarrow>
     link_step l (l\<lparr>conns := (conns l)[c :=
       incoming_call (queue_io_read (Some (int num_ready)) (Some (take n (wire (conns l ! c)))) queue)
         ((conns l ! c)\<lparr>wire := drop n (wire (conns l ! c))\<rparr>)]\<rparr>)"
| link_read_failed:
    "c < length (conns l) \<Longrightarrow> incoming (conns l ! c) = Some queue \<Longrightarrow> queue_io_read (Some num_ready) None queue = (queue', Dead_call) \<Longrightarrow>
     link_step l (l\<lparr>conns := (conns l)[c := incoming_call (queue', Dead_call) (conns l ! c)]\<rparr>)"
| link_process:
    "c < length (conns l) \<Longrightarrow> incoming (conns l ! c) = Some queue \<Longrightarrow> im queue = Some Queue_process_event \<Longrightarrow>
     link_step l (l\<lparr>conns := (conns l)[c := incoming_call (queue_process (queue\<lparr>im := None\<rparr>)) (conns l ! c)]\<rparr>)"

abbreviation link_reachable :: "tcp_link \<Rightarrow> bool" where
  "link_reachable \<equiv> link_step\<^sup>*\<^sup>* tcp_link_init"

end
