(* ===== verification/Transport_Correct.thy ===== *)
theory Transport_Correct
  imports Transport
begin

text \<open>
  The transport keeps packets apart: a queue gets the packets out of any stream of bytes, and the packets that a node
  receives over its connections with another one are, in order, packets that were submitted there.  The exception
  are connections that end after a part of a packet was sent without an error in a write: the rest of the packet opens
  the next connection.
\<close>

section \<open>Framing\<close>

text \<open>A packet starts with its own length.  What is truncated never looks like a whole packet.\<close>

definition framed :: "u8 list \<Rightarrow> bool" where
  "framed w \<longleftrightarrow> 4 \<le> length w \<and> unat (word_at w 0) = length w"

definition truncated :: "u8 list \<Rightarrow> bool" where
  "truncated p \<longleftrightarrow> (\<exists>w. framed w \<and> strict_prefix p w)"

lemma and_not_mask: "x AND NOT (mask n) = push_bit n (drop_bit n x)" for x :: "'a::len word"
  by (rule bit_word_eqI) (auto simp: bit_and_iff bit_not_iff bit_mask_iff bit_push_bit_iff bit_drop_bit_eq)

lemma round_up_8:
  assumes "unat len < 2 ^ 31"
  shows "unat (round_up CTDB_TCP_ALIGNMENT len) = (unat len + 7) div 8 * 8"
proof -
  define x :: u64 where "x = ucast len + 7"
  have "unat (ucast len :: u64) = unat len" by (simp add: unsigned_ucast_eq take_bit_nat_eq_self_iff order_less_trans [OF assms])
  then have x: "unat x = unat len + 7" using assms by (simp add: x_def unat_word_ariths)
  have "(8 :: u64) - 1 = mask 3" "(7 :: u64) = 8 - 1" by (simp_all add: mask_eq_exp_minus_1)
  then have "round_up CTDB_TCP_ALIGNMENT len = ucast (push_bit 3 (drop_bit 3 x))"
    by (simp only: round_up_def CTDB_TCP_ALIGNMENT_def x_def and_not_mask [symmetric])
  moreover have "unat (push_bit 3 (drop_bit 3 x)) = (unat len + 7) div 8 * 8"
  proof -
    have t: "take_bit 64 (unat x) = unat x" using assms by (simp add: x take_bit_nat_eq_self_iff)
    have "unat (push_bit 3 (drop_bit 3 x)) = take_bit 64 (push_bit 3 (drop_bit 3 (unat x)))"
      by (simp only: unsigned_push_bit_eq unsigned_drop_bit_eq) (simp add: t)
    also have "\<dots> = (unat len + 7) div 8 * 8"
      using assms by (simp add: x push_bit_eq_mult drop_bit_eq_div take_bit_nat_eq_self_iff)
    finally show ?thesis .
  qed
  ultimately show ?thesis using assms by (simp add: unsigned_ucast_eq take_bit_nat_eq_self_iff)
qed

lemma framed_packet_framed:
  assumes "sizeof_req_header \<le> length data" "length data < 2 ^ 31"
  shows "framed (framed_packet CTDB_TCP_ALIGNMENT data)" "length (framed_packet CTDB_TCP_ALIGNMENT data) < 2 ^ 32"
proof -
  let ?len = "of_nat (length data) :: u32"
  let ?l2 = "round_up CTDB_TCP_ALIGNMENT ?len"
  have len: "unat ?len = length data" using assms(2) by (simp add: unat_of_nat_small)
  then have l2: "unat ?l2 = (length data + 7) div 8 * 8" using round_up_8 [of ?len] assms(2) by simp
  then have ge: "length data \<le> unat ?l2" by simp
  then have "unat (?l2 - ?len) = unat ?l2 - length data" using len by (simp add: unat_sub word_le_nat_alt)
  then have "length (framed_packet CTDB_TCP_ALIGNMENT data) = unat ?l2"
    using assms(1) ge by (simp add: framed_packet_def Let_def CTDB_TCP_ALIGNMENT_def sizeof_req_header_def)
  moreover have "unat ?l2 < 2 ^ 32" using unsigned_less [of ?l2] by simp
  ultimately show "framed (framed_packet CTDB_TCP_ALIGNMENT data)" "length (framed_packet CTDB_TCP_ALIGNMENT data) < 2 ^ 32"
    using assms(1) by (simp_all add: framed_def framed_packet_def Let_def CTDB_TCP_ALIGNMENT_def sizeof_req_header_def)
qed

lemma word_at_0_append: "4 \<le> length a \<Longrightarrow> word_at (a @ b) 0 = word_at a 0"
  by (simp add: word_at_def)

lemma framed_ne: "framed w \<Longrightarrow> w \<noteq> []"
  by (auto simp: framed_def)

lemma truncated_Nil [simp]: "truncated []"
proof -
  have "framed (bytes_of_u32 4)" using word_at_here [of 4 "[]"] by (simp add: framed_def)
  moreover from this have "strict_prefix [] (bytes_of_u32 4)" using framed_ne [of "bytes_of_u32 4"] by (auto simp: strict_prefix_def)
  ultimately show ?thesis unfolding truncated_def by blast
qed

section \<open>The receiver\<close>

definition buffer_ok :: "ctdb_buffer \<Rightarrow> bool" where
  "buffer_ok b \<longleftrightarrow> length (b_bytes b) \<le> unat (b_size b) \<and> (b_data b \<noteq> None \<longrightarrow> QUEUE_BUFFER_SIZE \<le> b_size b) \<and>
     (b_extend b \<noteq> 0 \<longrightarrow> b_data b \<noteq> None \<and> 4 \<le> length (b_bytes b) \<and> b_extend b = word_at (b_bytes b) 0 \<and>
        length (b_bytes b) < unat (b_extend b) \<and> QUEUE_BUFFER_SIZE \<le> b_extend b)"

lemma b_length_unat: "buffer_ok b \<Longrightarrow> unat (b_length b) = length (b_bytes b)"
proof -
  assume "buffer_ok b"
  moreover have "unat (b_size b) < 2 ^ 32" using unsigned_less [of "b_size b"] by simp
  ultimately have "length (b_bytes b) < 2 ^ 32" by (simp add: buffer_ok_def)
  then show ?thesis by (simp add: b_length_def unat_of_nat_small)
qed

lemma buffer_prepare_ok:
  assumes "buffer_ok b"
  shows "buffer_ok (buffer_prepare b)" "b_bytes (buffer_prepare b) = b_bytes b" "b_data (buffer_prepare b) \<noteq> None"
    "b_extend (buffer_prepare b) = 0"
proof -
  show "b_bytes (buffer_prepare b) = b_bytes b" "b_data (buffer_prepare b) \<noteq> None"
    by (auto simp: buffer_prepare_def b_bytes_def split: option.splits)
  show "b_extend (buffer_prepare b) = 0" using assms by (auto simp: buffer_prepare_def buffer_ok_def word_gt_0)
  show "buffer_ok (buffer_prepare b)"
    using assms by (auto simp: buffer_prepare_def buffer_ok_def b_bytes_def QUEUE_BUFFER_SIZE_def split: option.splits)
qed

lemma read_size_fits:
  assumes "buffer_ok b" "int n \<le> read_size r b" "0 < n"
  shows "length (b_bytes b) + n \<le> unat (b_size b)" "int n \<le> r"
proof -
  have "int n \<le> sint (b_size b - b_length b)" "int n \<le> r" using assms(2) by (auto simp: read_size_def Let_def split: if_splits)
  moreover have "sint (b_size b - b_length b) \<le> uint (b_size b - b_length b)"
    using order_trans [OF _ uint_ge_0 [of "b_size b - b_length b"], of "- 2147483648"] by (simp add: sint_uint signed_take_bit_int_less_eq_self_iff)
  moreover have "unat (b_size b - b_length b) = unat (b_size b) - length (b_bytes b)"
    using b_length_unat [OF assms(1)] assms(1) by (simp add: unat_sub word_le_nat_alt buffer_ok_def)
  moreover have "uint (b_size b - b_length b) = int (unat (b_size b - b_length b))" by simp
  moreover have "length (b_bytes b) \<le> unat (b_size b)" using assms(1) by (simp add: buffer_ok_def)
  ultimately show "length (b_bytes b) + n \<le> unat (b_size b)" "int n \<le> r" by linarith+
qed

lemma buffer_append_ok:
  assumes "buffer_ok b" "b_extend b = 0" "b_data b \<noteq> None" "length (b_bytes b) + length bs \<le> unat (b_size b)"
  shows "buffer_ok (b\<lparr>b_data := Some (b_bytes b @ bs)\<rparr>)"
  using assms by (auto simp: buffer_ok_def b_bytes_def)

lemma process_buffer:
  assumes "buffer_ok (buffer q)" "queue_process q = (q', call)"
  shows "buffer_ok (buffer q')" "out_queue q' = out_queue q" "queue_fd q' = queue_fd q"
    "case call of Packet_call d \<Rightarrow> b_bytes (buffer q) = d @ b_bytes (buffer q') \<and> 4 \<le> length (b_bytes (buffer q)) \<and> length d = unat (word_at (b_bytes (buffer q)) 0) \<and>
         im q' = (if b_bytes (buffer q') = [] then im q else Some Queue_process_event)
       | Dead_call \<Rightarrow> 4 \<le> length (b_bytes (buffer q)) \<and> word_at (b_bytes (buffer q)) 0 = 0
       | No_call \<Rightarrow> b_bytes (buffer q') = b_bytes (buffer q) \<and> im q' = im q \<and>
         (length (b_bytes (buffer q)) < 4 \<or>
          length (b_bytes (buffer q)) < unat (word_at (b_bytes (buffer q)) 0) \<and>
          (unat QUEUE_BUFFER_SIZE < unat (word_at (b_bytes (buffer q)) 0) \<longrightarrow> b_extend (buffer q') = word_at (b_bytes (buffer q)) 0))" (is ?r)
proof -
  let ?b = "buffer q" and ?bs = "b_bytes (buffer q)" and ?p = "word_at (b_bytes (buffer q)) 0"
  note L = b_length_unat [OF assms(1)]
  have lt: "b_length ?b < w \<longleftrightarrow> length ?bs < unat w" for w by (simp add: word_less_nat_alt L)
  consider "length ?bs < 4" | "4 \<le> length ?bs" "?p = 0" | "4 \<le> length ?bs" "?p \<noteq> 0" "length ?bs < unat ?p"
    | "4 \<le> length ?bs" "?p \<noteq> 0" "unat ?p \<le> length ?bs" by linarith
  then have "buffer_ok (buffer q') \<and> out_queue q' = out_queue q \<and> queue_fd q' = queue_fd q \<and> ?r"
  proof cases
    case 1
    then have "q' = q" "call = No_call" using assms(2) lt [of 4] by (auto simp: queue_process_def Let_def)
    then show ?thesis using assms(1) 1 by simp
  next
    case 2
    then have "q' = q" "call = Dead_call" using assms(2) lt [of 4] by (auto simp: queue_process_def Let_def)
    then show ?thesis using assms(1) 2 by simp
  next
    case 3
    then have q: "q' = (if ?p > QUEUE_BUFFER_SIZE then q\<lparr>buffer := ?b\<lparr>b_extend := ?p\<rparr>\<rparr> else q)" "call = No_call"
      using assms(2) lt [of 4] lt [of ?p] by (auto simp: queue_process_def Let_def)
    have "b_data ?b \<noteq> None" using 3 by (cases "b_data ?b") (auto simp: b_bytes_def)
    then have "buffer_ok (?b\<lparr>b_extend := ?p\<rparr>)" if "?p > QUEUE_BUFFER_SIZE" using that assms(1) 3 by (auto simp: buffer_ok_def b_bytes_def)
    moreover have "b_bytes (?b\<lparr>b_extend := ?p\<rparr>) = ?bs" by (simp add: b_bytes_def)
    ultimately show ?thesis using q 3 assms(1) by (auto simp: word_less_nat_alt)
  next
    case 4
    define rest where "rest = drop (unat ?p) ?bs"
    let ?b' = "?b\<lparr>b_data := Some rest\<rparr>"
    have ext: "b_extend ?b = 0" using assms(1) 4 by (auto simp: buffer_ok_def)
    have dt: "b_data ?b \<noteq> None" using 4 by (cases "b_data ?b") (auto simp: b_bytes_def)
    have ok: "buffer_ok ?b'" "b_bytes ?b' = rest" using assms(1) ext dt by (auto simp: buffer_ok_def b_bytes_def rest_def)
    have "0 < b_length ?b' \<longleftrightarrow> rest \<noteq> []" using b_length_unat [OF ok(1)] ok(2) by (simp add: word_less_nat_alt not_le)
    then have q: "q' = (if rest \<noteq> [] then q\<lparr>buffer := ?b', im := Some Queue_process_event\<rparr>
        else if b_size ?b > QUEUE_BUFFER_SIZE then q\<lparr>buffer := ?b'\<lparr>b_data := None, b_size := 0\<rparr>\<rparr> else q\<lparr>buffer := ?b'\<rparr>)"
      "call = Packet_call (take (unat ?p) ?bs)"
      using assms(2) 4 lt [of 4] lt [of ?p] by (auto simp: queue_process_def Let_def not_less rest_def)
    have "buffer_ok (?b'\<lparr>b_data := None, b_size := 0\<rparr>)" "b_bytes (?b'\<lparr>b_data := None, b_size := 0\<rparr>) = []"
      using ext by (simp_all add: buffer_ok_def b_bytes_def)
    moreover have "?bs = take (unat ?p) ?bs @ rest" "length (take (unat ?p) ?bs) = unat ?p" using 4 by (simp_all add: rest_def)
    ultimately show ?thesis using q ok 4(1) by (cases "rest = []"; cases "b_size ?b > QUEUE_BUFFER_SIZE") auto
  qed
  then show "buffer_ok (buffer q')" "out_queue q' = out_queue q" "queue_fd q' = queue_fd q" ?r by blast+
qed

lemma stream_first:
  assumes "4 \<le> length bs" "bs @ w = x @ y" "framed x"
  shows "unat (word_at bs 0) = length x"
proof -
  have "4 \<le> length x" using assms(3) by (simp add: framed_def)
  then have "word_at bs 0 = word_at x 0" using assms(1,2) by (metis word_at_0_append)
  then show ?thesis using assms(3) by (simp add: framed_def)
qed

text \<open>On a stream of packets with a truncated one at the end, the callback gets the first packet or nothing.\<close>

lemma process_stream:
  assumes "buffer_ok (buffer q)" "queue_process q = (q', call)" "b_bytes (buffer q) @ w = concat hs @ part" "\<forall>x \<in> set hs. framed x"
    "truncated part"
  shows "call = No_call \<and> b_bytes (buffer q') @ w = concat hs @ part \<or>
    (\<exists>d hs'. call = Packet_call d \<and> hs = d # hs' \<and> b_bytes (buffer q') @ w = concat hs' @ part)"
proof -
  let ?bs = "b_bytes (buffer q)"
  let ?p = "unat (word_at ?bs 0)"
  have first: "?p = length x" if "4 \<le> length ?bs" "hs = x # xs" for x xs
    using stream_first [OF that(1), of w x "concat xs @ part"] assms(3,4) that(2) by simp
  have last: "length ?bs < ?p" if "4 \<le> length ?bs" "hs = []"
  proof -
    obtain p z where p: "framed p" "p = part @ z" "z \<noteq> []" using assms(5) by (auto simp: truncated_def strict_prefix_def prefix_def)
    have "part = ?bs @ w" using assms(3) that by simp
    then have "p = ?bs @ (w @ z)" "length ?bs < length p" using p by auto
    then have "word_at ?bs 0 = word_at p 0" using that(1) by (simp add: word_at_0_append)
    then show ?thesis using p(1) \<open>length ?bs < length p\<close> by (simp add: framed_def)
  qed
  note P = process_buffer [OF assms(1,2)]
  show ?thesis
  proof (cases call)
    case No_call
    then show ?thesis using P(4) assms(3) by simp
  next
    case Dead_call
    then have "4 \<le> length ?bs" "?p = 0" using P(4) by auto
    then show ?thesis using first last framed_ne assms(4) by (cases hs) auto
  next
    case (Packet_call d)
    have d: "?bs = d @ b_bytes (buffer q')" "4 \<le> length ?bs" "length d = ?p" using P(4) unfolding Packet_call queue_call.case by blast+
    have "length d \<le> length ?bs" using arg_cong [OF d(1), of length] by simp
    then have "hs \<noteq> []" using last [OF d(2)] d(3) by linarith
    then obtain x xs where x: "hs = x # xs" by (cases hs) auto
    have "d @ b_bytes (buffer q') @ w = x @ concat xs @ part" using assms(3) d(1) x by (metis append.assoc concat.simps(2))
    moreover have "length d = length x" using first [OF d(2) x] d(3) by simp
    ultimately show ?thesis using Packet_call x by simp
  qed
qed

lemma read_stream:
  assumes "buffer_ok (buffer q)" "queue_io_read (Some (int r)) (Some (take n w)) q = (q', call)" "read_some (int r) q n" "0 < r" "r \<le> length w"
    and "b_bytes (buffer q) @ w = concat hs @ part" "\<forall>x \<in> set hs. framed x" "truncated part"
  shows "buffer_ok (buffer q')"
    "call = No_call \<and> b_bytes (buffer q') @ drop n w = concat hs @ part \<or>
     (\<exists>d hs'. call = Packet_call d \<and> hs = d # hs' \<and> b_bytes (buffer q') @ drop n w = concat hs' @ part)"
proof -
  let ?b = "buffer_prepare (buffer q)"
  note B = buffer_prepare_ok [OF assms(1)]
  define q1 where "q1 = (if read_size (int r) ?b > 0 then q\<lparr>buffer := ?b\<lparr>b_data := Some (b_bytes ?b @ take n w)\<rparr>\<rparr> else q\<lparr>buffer := ?b\<rparr>)"
  have n: "n \<le> length w" "read_size (int r) ?b > 0 \<Longrightarrow> 0 < n \<and> length (b_bytes ?b) + n \<le> unat (b_size ?b)" "\<not> read_size (int r) ?b > 0 \<Longrightarrow> n = 0"
    using assms(3,5) read_size_fits [OF B(1), of n "int r"] by (auto simp: read_some_def Let_def split: if_splits)
  have "take n w \<noteq> []" if "read_size (int r) ?b > 0" using n(2) [OF that] n(1) by auto
  then have q: "queue_process q1 = (q', call)"
    using assms(2,4) by (auto simp: queue_io_read_def Let_def q1_def split: if_splits)
  have ok: "buffer_ok (buffer q1)" using n buffer_append_ok [OF B(1,4,3), of "take n w"] B(1) by (auto simp: q1_def)
  have "b_bytes (buffer q1) = b_bytes (buffer q) @ take n w" using B(2) n(3) by (simp add: q1_def b_bytes_def)
  then have s: "b_bytes (buffer q1) @ drop n w = concat hs @ part" using assms(6) by simp
  show "buffer_ok (buffer q')" using process_buffer(1) [OF ok q] .
  show "call = No_call \<and> b_bytes (buffer q') @ drop n w = concat hs @ part \<or>
     (\<exists>d hs'. call = Packet_call d \<and> hs = d # hs' \<and> b_bytes (buffer q') @ drop n w = concat hs' @ part)"
    using process_stream [OF ok q s assms(7,8)] .
qed

text \<open>
  Receiving alone: events of the receiver on a stream of bytes.  The state is the queue, the bytes that are still to be
  read, and the packets given to the callback.
\<close>

fun called :: "queue_call \<Rightarrow> u8 list list" where
  "called (Packet_call d) = [d]"
| "called _ = []"

inductive recv_step :: "ctdb_queue \<times> u8 list \<times> u8 list list \<Rightarrow> ctdb_queue \<times> u8 list \<times> u8 list list \<Rightarrow> bool" where
  recv_read:
    "0 < r \<Longrightarrow> r \<le> length w \<Longrightarrow> read_some (int r) q n \<Longrightarrow> queue_io_read (Some (int r)) (Some (take n w)) q = (q', call) \<Longrightarrow>
     recv_step (q, w, got) (q', drop n w, got @ called call)"
| recv_im:
    "im q = Some Queue_process_event \<Longrightarrow> queue_process (q\<lparr>im := None\<rparr>) = (q', call) \<Longrightarrow>
     recv_step (q, w, got) (q', w, got @ called call)"

text \<open>The buffer does not have a whole packet, and will be extended if the packet does not fit.\<close>

definition waiting :: "ctdb_buffer \<Rightarrow> bool" where
  "waiting b \<longleftrightarrow> length (b_bytes b) < 4 \<or>
     length (b_bytes b) < unat (word_at (b_bytes b) 0) \<and> (QUEUE_BUFFER_SIZE < word_at (b_bytes b) 0 \<longrightarrow> b_extend b = word_at (b_bytes b) 0)"

definition recv_ok :: "u8 list list \<Rightarrow> ctdb_queue \<Rightarrow> u8 list \<Rightarrow> u8 list list \<Rightarrow> bool" where
  "recv_ok pkts q w got \<longleftrightarrow> buffer_ok (buffer q) \<and> (\<exists>hs. pkts = got @ hs \<and> b_bytes (buffer q) @ w = concat hs) \<and>
     unat (b_size (buffer q)) < 2 ^ 31 \<and> unat (b_extend (buffer q)) < 2 ^ 31 \<and>
     (waiting (buffer q) \<or> length (b_bytes (buffer q)) < unat (b_size (buffer q)) \<and> im q = Some Queue_process_event)"

fun recv_left :: "ctdb_queue \<times> u8 list \<times> u8 list list \<Rightarrow> nat" where
  "recv_left (q, w, got) = 3 * length w + 2 * length (b_bytes (buffer q)) + (if im q = Some Queue_process_event then 1 else 0)"

lemma process_sizes:
  assumes "queue_process q = (q', call)"
  shows "b_size (buffer q') = b_size (buffer q) \<or> b_size (buffer q') = 0 \<and> b_bytes (buffer q') = []"
    "b_extend (buffer q') = b_extend (buffer q) \<or> b_extend (buffer q') = word_at (b_bytes (buffer q)) 0 \<and> call = No_call \<and> 4 \<le> b_length (buffer q)"
    "call = No_call \<Longrightarrow> b_extend (buffer q') \<noteq> b_extend (buffer q) \<Longrightarrow> b_extend (buffer q') = word_at (b_bytes (buffer q)) 0"
  using assms by (auto simp: queue_process_def Let_def b_bytes_def split: if_splits)

lemma recv_process:
  assumes "buffer_ok (buffer q)" "queue_process q = (q', call)" "pkts = got @ hs" "b_bytes (buffer q) @ w = concat hs"
    and "\<forall>p \<in> set pkts. framed p \<and> length p < 2 ^ 31" "unat (b_size (buffer q)) < 2 ^ 31" "unat (b_extend (buffer q)) < 2 ^ 31"
  shows "recv_ok pkts q' w (got @ called call)"
    "2 * length (b_bytes (buffer q')) + (if im q' = Some Queue_process_event then 1 else 0) \<le>
     2 * length (b_bytes (buffer q)) + (if im q = Some Queue_process_event then 1 else 0)"
    "call \<noteq> No_call \<Longrightarrow> 2 * length (b_bytes (buffer q')) + 1 < 2 * length (b_bytes (buffer q))"
proof -
  have fr: "\<forall>x \<in> set hs. framed x" and st: "b_bytes (buffer q) @ w = concat hs @ []" using assms(3-5) by auto
  note P = process_buffer [OF assms(1,2)] and S = process_stream [OF assms(1,2) st fr truncated_Nil] and Z = process_sizes [OF assms(2)]
  have L: "length (b_bytes (buffer q)) \<le> unat (b_size (buffer q))" using assms(1) by (simp add: buffer_ok_def)
  have all: "recv_ok pkts q' w (got @ called call) \<and>
    (if call = No_call then b_bytes (buffer q') = b_bytes (buffer q) \<and> im q' = im q
     else 2 * length (b_bytes (buffer q')) + 1 < 2 * length (b_bytes (buffer q)))"
    using S
  proof (elim disjE exE conjE)
    assume n: "call = No_call" "b_bytes (buffer q') @ w = concat hs @ []"
    then have N: "b_bytes (buffer q') = b_bytes (buffer q)" "im q' = im q" "waiting (buffer q')"
      using P(4) by (auto simp: waiting_def word_less_nat_alt)
    have "unat (b_extend (buffer q')) < 2 ^ 31"
      using Z(2)
    proof (elim disjE conjE)
      assume e: "b_extend (buffer q') = word_at (b_bytes (buffer q)) 0" "4 \<le> b_length (buffer q)"
      then have "4 \<le> length (b_bytes (buffer q))" using b_length_unat [OF assms(1)] by (simp add: word_le_nat_alt)
      moreover from this obtain x xs where "hs = x # xs" using assms(4) by (cases hs) auto
      ultimately show ?thesis using stream_first [of "b_bytes (buffer q)" w x "concat xs"] assms(3-5) e(1) by simp
    qed (use assms(7) in simp)
    then show ?thesis using n N P(1) Z(1) assms(3,6) by (auto simp: recv_ok_def)
  next
    fix d hs'
    assume d: "call = Packet_call d" "hs = d # hs'" "b_bytes (buffer q') @ w = concat hs' @ []"
    then have D: "b_bytes (buffer q) = d @ b_bytes (buffer q')" "b_bytes (buffer q') \<noteq> [] \<Longrightarrow> im q' = Some Queue_process_event" using P(4) by auto
    have "4 \<le> length d" using fr d(2) by (simp add: framed_def)
    moreover have "length (b_bytes (buffer q)) = length d + length (b_bytes (buffer q'))" using D(1) by (metis length_append)
    moreover have "waiting (buffer q')" if "b_bytes (buffer q') = []" using that by (simp add: waiting_def)
    ultimately show ?thesis using d D(2) P(1) Z(1,2) L assms(3,6,7) by (cases "b_bytes (buffer q') = []") (auto simp: recv_ok_def)
  qed
  then show "recv_ok pkts q' w (got @ called call)" by blast
  show "call \<noteq> No_call \<Longrightarrow> 2 * length (b_bytes (buffer q')) + 1 < 2 * length (b_bytes (buffer q))" using all by simp
  show "2 * length (b_bytes (buffer q')) + (if im q' = Some Queue_process_event then 1 else 0) \<le>
     2 * length (b_bytes (buffer q)) + (if im q = Some Queue_process_event then 1 else 0)" using all by (auto split: if_splits)
qed

text \<open>There is always room in the buffer for another byte.\<close>

lemma read_progress:
  assumes "recv_ok pkts q w got" "0 < r"
  shows "read_size (int r) (buffer_prepare (buffer q)) > 0" "unat (b_size (buffer_prepare (buffer q))) < 2 ^ 31"
proof -
  let ?b = "buffer q" and ?b' = "buffer_prepare (buffer q)"
  have ok: "buffer_ok ?b" using assms(1) by (simp add: recv_ok_def)
  note B = buffer_prepare_ok [OF ok]
  show sz: "unat (b_size ?b') < 2 ^ 31" using assms(1) by (simp add: recv_ok_def buffer_prepare_def QUEUE_BUFFER_SIZE_def)
  have q: "16384 \<le> unat (b_size ?b')" using B(1,3) by (simp add: buffer_ok_def QUEUE_BUFFER_SIZE_def word_le_nat_alt)
  have room: "length (b_bytes ?b) < unat (b_size ?b')"
  proof (cases "waiting ?b")
    case True
    then consider "length (b_bytes ?b) < 4" | "4 \<le> length (b_bytes ?b)" "length (b_bytes ?b) < unat (word_at (b_bytes ?b) 0)"
      "QUEUE_BUFFER_SIZE < word_at (b_bytes ?b) 0 \<longrightarrow> b_extend ?b = word_at (b_bytes ?b) 0" by (fastforce simp: waiting_def)
    then show ?thesis
    proof cases
      case 2
      then have "b_data ?b \<noteq> None" by (cases "b_data ?b") (auto simp: b_bytes_def)
      then show ?thesis using 2 q by (cases "QUEUE_BUFFER_SIZE < word_at (b_bytes ?b) 0")
        (auto simp: buffer_prepare_def word_less_nat_alt QUEUE_BUFFER_SIZE_def)
    qed (use q in simp)
  next
    case False
    then have l: "length (b_bytes ?b) < unat (b_size ?b)" using assms(1) by (simp add: recv_ok_def)
    have "b_extend ?b = 0" using False ok by (auto simp: waiting_def buffer_ok_def)
    then have "?b' = ?b \<or> b_data ?b = None" by (simp add: buffer_prepare_def)
    then show ?thesis using l q by (auto simp: b_bytes_def)
  qed
  then have "unat (b_size ?b' - b_length ?b') = unat (b_size ?b') - length (b_bytes ?b)"
    using b_length_unat [OF B(1)] B(2) by (simp add: unat_sub word_le_nat_alt)
  then have u: "0 < unat (b_size ?b' - b_length ?b')" "unat (b_size ?b' - b_length ?b') < 2 ^ 31" using room sz by simp_all
  have "sint (b_size ?b' - b_length ?b') > 0" unfolding sint_small [OF u(2)] using u(1) by (simp only: of_nat_0_less_iff)
  then show "read_size (int r) ?b' > 0" using assms(2) by (simp add: read_size_def Let_def)
qed

lemma recv_step_ok:
  assumes "recv_step s s'" "s = (q, w, got)" "s' = (q', w', got')" "recv_ok pkts q w got" "\<forall>p \<in> set pkts. framed p \<and> length p < 2 ^ 31"
  shows "recv_ok pkts q' w' got' \<and> recv_left s' < recv_left s"
proof -
  obtain hs where R: "buffer_ok (buffer q)" "pkts = got @ hs" "b_bytes (buffer q) @ w = concat hs" "unat (b_size (buffer q)) < 2 ^ 31"
    "unat (b_extend (buffer q)) < 2 ^ 31" using assms(4) by (auto simp: recv_ok_def)
  from assms(1) show ?thesis
  proof cases
    case (recv_read r w0 q0 n q0' call got0)
    let ?b = "buffer_prepare (buffer q)"
    have e: "w0 = w" "q0 = q" "q0' = q'" "got0 = got" "w' = drop n w" "got' = got @ called call" using recv_read(1,2) assms(2,3) by auto
    note B = buffer_prepare_ok [OF R(1)] and Z = read_progress [OF assms(4) recv_read(3)]
    have n: "0 < n" "int n \<le> read_size (int r) ?b" using recv_read(5) Z(1) e by (auto simp: read_some_def Let_def)
    note F = read_size_fits [OF B(1) n(2,1)]
    have nw: "n \<le> length w" using F(2) recv_read(4) e by simp
    define q1 where "q1 = q\<lparr>buffer := ?b\<lparr>b_data := Some (b_bytes ?b @ take n w)\<rparr>\<rparr>"
    have "take n w \<noteq> []" using n(1) nw by auto
    then have p: "queue_process q1 = (q', call)" using recv_read(3,6) Z(1) e by (simp add: queue_io_read_def Let_def q1_def)
    have b: "b_bytes (buffer q1) = b_bytes (buffer q) @ take n w" using B(2) by (simp add: q1_def b_bytes_def)
    have "buffer_ok (buffer q1)" using buffer_append_ok [OF B(1,4,3), of "take n w"] F(1) nw by (simp add: q1_def)
    note P = recv_process [OF this p R(2), of "drop n w"]
    show ?thesis using P assms(3,5) R(3) b Z(2) B(4) e nw n(1) assms(2) by (auto simp: q1_def)
  next
    case (recv_im q0 q0' call w0 got0)
    have e: "w0 = w" "q0 = q" "q0' = q'" "got0 = got" "w' = w" "got' = got @ called call" using recv_im(1,2) assms(2,3) by auto
    note P = recv_process [of "q\<lparr>im := None\<rparr>" q' call pkts got hs w]
    show ?thesis using P R assms(2,3,5) recv_im e by auto
  qed
qed

lemma recv_run:
  assumes "(recv_step ^^ n) s (q, w, got)" "s = (q0, w0, [])" "recv_ok pkts q0 w0 []" "\<forall>p \<in> set pkts. framed p \<and> length p < 2 ^ 31"
  shows "recv_ok pkts q w got \<and> n + recv_left (q, w, got) \<le> recv_left s"
  using assms(1)
proof (induction n arbitrary: q w got)
  case 0
  then show ?case using assms(2,3) by simp
next
  case (Suc n)
  then obtain q1 w1 got1 where s: "(recv_step ^^ n) s (q1, w1, got1)" "recv_step (q1, w1, got1) (q, w, got)" by auto
  then show ?case using Suc.IH [OF s(1)] recv_step_ok [OF s(2) refl refl _ assms(4)] by fastforce
qed

lemma recv_stuck:
  assumes "recv_ok pkts q w got" "\<forall>p \<in> set pkts. framed p \<and> length p < 2 ^ 31" "\<nexists>s. recv_step (q, w, got) s"
  shows "got = pkts"
proof -
  have "w = []"
  proof (rule ccontr)
    assume "w \<noteq> []"
    then have "read_size (int (length w)) (buffer_prepare (buffer q)) > 0" using read_progress(1) [OF assms(1)] by blast
    then have "read_some (int (length w)) q 1" by (simp add: read_some_def)
    then show False using recv_read [of "length w" w q 1] \<open>w \<noteq> []\<close> assms(3) by (metis length_greater_0_conv order_refl surj_pair)
  qed
  have "im q \<noteq> Some Queue_process_event" using recv_im [of q] assms(3) by (metis surj_pair)
  then have wt: "waiting (buffer q)" using assms(1) by (simp add: recv_ok_def)
  obtain hs where hs: "pkts = got @ hs" "b_bytes (buffer q) = concat hs" using assms(1) \<open>w = []\<close> by (auto simp: recv_ok_def)
  show ?thesis
  proof (cases hs)
    case (Cons x xs)
    have x: "framed x" using assms(2) hs(1) Cons by simp
    then have l: "4 \<le> length (b_bytes (buffer q))" "length x \<le> length (b_bytes (buffer q))" using hs(2) Cons by (auto simp: framed_def)
    have "unat (word_at (b_bytes (buffer q)) 0) = length x" using stream_first [OF l(1), of "[]" x "concat xs"] hs(2) Cons x by simp
    then show ?thesis using wt l by (simp add: waiting_def)
  qed (use hs in simp)
qed

text \<open>
  C13: A queue receives every packet.  From the bytes of some packets, in whatever pieces they are read and whenever the
  immediate events run, the callback gets these packets in this order; reading ends after at most three events per
  byte, and when nothing is left to do all packets were passed on.
\<close>

theorem queue_receives_all:
  assumes "\<forall>p \<in> set pkts. framed p \<and> length p < 2 ^ 31" "(recv_step ^^ n) (ctdb_queue_setup (Some fd) a, concat pkts, []) (q, w, got)"
  shows "prefix got pkts \<and> n \<le> 3 * length (concat pkts) \<and> ((\<nexists>s. recv_step (q, w, got) s) \<longrightarrow> got = pkts)"
proof -
  let ?q = "ctdb_queue_setup (Some fd) a"
  have i: "b_bytes (buffer ?q) = []" "im ?q = None" by (simp_all add: ctdb_queue_setup_def ctdb_queue_set_fd_def b_bytes_def)
  have "recv_ok pkts ?q (concat pkts) []"
    by (auto simp: recv_ok_def ctdb_queue_setup_def ctdb_queue_set_fd_def buffer_ok_def b_bytes_def waiting_def)
  note R = recv_run [OF assms(2) refl this assms(1)]
  moreover have "prefix got pkts" using R by (auto simp: recv_ok_def)
  ultimately show ?thesis using recv_stuck [OF conjunct1 [OF R] assms(1)] i by auto
qed

section \<open>The sender\<close>

text \<open>The packets of an output queue belong to whole packets, of the first of which a part has been sent.\<close>

definition whole_pkt :: "ctdb_queue_pkt \<Rightarrow> u8 list \<Rightarrow> bool" where
  "whole_pkt p w \<longleftrightarrow> pkt_data p = w \<and> full_length p = of_nat (length w) \<and> framed w"

fun sending :: "ctdb_queue_pkt list \<Rightarrow> u8 list list \<Rightarrow> u8 list \<Rightarrow> bool" where
  "sending [] W part \<longleftrightarrow> W = [] \<and> part = []"
| "sending (p # ps) W part \<longleftrightarrow>
     (\<exists>w ws. W = w # ws \<and> w = part @ pkt_data p \<and> pkt_data p \<noteq> [] \<and> full_length p = of_nat (length w) \<and> framed w \<and> list_all2 whole_pkt ps ws)"

lemma truncated_part: "framed (p @ d) \<Longrightarrow> d \<noteq> [] \<Longrightarrow> truncated p"
  by (auto simp: truncated_def strict_prefix_def)

lemma whole_sending: "list_all2 whole_pkt ps ws \<Longrightarrow> sending ps ws []"
  by (cases ps; cases ws) (auto simp: whole_pkt_def framed_ne)

lemma sending_framed: "sending ps W part \<Longrightarrow> w \<in> set W \<Longrightarrow> framed w"
proof (cases ps)
  case (Cons p ps')
  have "framed v" if "list_all2 whole_pkt xs vs" "v \<in> set vs" for xs vs v
    using that by (induction rule: list_all2_induct) (auto simp: whole_pkt_def)
  moreover assume "sending ps W part" "w \<in> set W"
  ultimately show ?thesis using Cons by auto
qed simp

lemma sending_add:
  assumes "sending ps W part" "framed d"
  shows "sending (ps @ [\<lparr>pkt_data = d, full_length = of_nat (length d)\<rparr>]) (W @ [d]) part"
  using assms by (cases ps) (auto simp: framed_ne whole_pkt_def intro!: list_all2_appendI)

lemma framed_length: "framed w \<Longrightarrow> length w < 2 ^ 32"
proof -
  assume "framed w"
  moreover have "unat (word_at w 0) < 2 ^ 32" using unsigned_less [of "word_at w 0"] by simp
  ultimately show ?thesis by (simp add: framed_def)
qed

lemma head_whole_part:
  assumes "sending (out_queue q) W part" "head_whole q"
  shows "part = []"
proof (cases "out_queue q")
  case (Cons p ps)
  then obtain w where w: "w = part @ pkt_data p" "full_length p = of_nat (length w)" "framed w" using assms(1) by auto
  have "length w < 2 ^ 32" using framed_length [OF w(3)] .
  moreover have "of_nat (length (pkt_data p)) = (of_nat (length w) :: u32)" using assms(2) w(2) Cons by (simp add: head_whole_def pkt_length_def)
  then have "unat (of_nat (length (pkt_data p)) :: u32) = unat (of_nat (length w) :: u32)" by simp
  moreover have "length (pkt_data p) \<le> length w" using w(1) by simp
  ultimately have "length (pkt_data p) = length w" by (simp add: unat_of_nat_small)
  then show ?thesis using w(1) by simp
qed (use assms in auto)

definition sends :: "u8 list \<Rightarrow> u8 list \<Rightarrow> u8 list list \<Rightarrow> u8 list list \<Rightarrow> ctdb_queue_pkt list \<Rightarrow> bool \<Rightarrow> bool" where
  "sends part bs W W0 rest lost \<longleftrightarrow>
     (\<exists>H part'. part @ bs = concat H @ part' \<and> truncated part' \<and> subseq (H @ W) W0 \<and> (\<forall>w \<in> set H. framed w) \<and>
        sending rest W (if lost then [] else part'))"

lemma sendsI:
  "part @ bs = concat H @ part' \<Longrightarrow> truncated part' \<Longrightarrow> subseq (H @ W) W0 \<Longrightarrow> \<forall>w \<in> set H. framed w \<Longrightarrow>
   sending rest W (if lost then [] else part') \<Longrightarrow> sends part bs W W0 rest lost"
  unfolding sends_def by blast

lemma queue_write_sends:
  assumes "writes_ok wr" "sending pkts W part" "queue_write t wr k pkts = (bs, rest, e)"
  shows "\<exists>W'. sends part bs W' W rest (e = Failed)"
  using assms(2,3)
proof (induction pkts arbitrary: W part k bs rest e)
  case Nil
  then have "sends part bs [] W rest (e = Failed)" by (intro sendsI [of _ _ "[]" "[]"]) auto
  then show ?case by blast
next
  case (Cons p ps)
  obtain w ws where w: "W = w # ws" "w = part @ pkt_data p" "pkt_data p \<noteq> []" "full_length p = of_nat (length w)" "framed w" "list_all2 whole_pkt ps ws"
    using Cons.prems(1) by auto
  have tr: "truncated part" using w(2,3,5) truncated_part by simp
  have keep: "sends part [] W W (p # ps) False" by (rule sendsI [of _ _ "[]" part]) (use tr Cons.prems(1) in auto)
  obtain offered where o: "offered = (if t then take 1 (pkt_data p) else pkt_data p)" by simp
  show ?case
  proof (cases "wr k offered")
    case Write_error
    show ?thesis
    proof (cases "pkt_length p = full_length p")
      case True
      then have "head_whole (q\<lparr>out_queue := p # ps\<rparr>)" for q by (simp add: head_whole_def)
      then have "part = []" using head_whole_part [of "q\<lparr>out_queue := p # ps\<rparr>" for q] Cons.prems(1) by simp
      then have "sends part [] W W (p # ps) True" by (intro sendsI [of _ _ "[]" "[]"]) (use Cons.prems(1) in auto)
      then show ?thesis using Cons.prems(2) True Write_error o by auto
    next
      case False
      have "sends part [] ws W ps True" by (rule sendsI [of _ _ "[]" part]) (use tr w whole_sending in auto)
      then show ?thesis using Cons.prems(2) False Write_error o by auto
    qed
  next
    case Would_block
    then show ?thesis using Cons.prems(2) keep o by auto
  next
    case (Wrote n)
    have "n \<le> length offered" using assms(1) Wrote unfolding writes_ok_def by blast
    also have "\<dots> \<le> length (pkt_data p)" by (simp add: o)
    finally have n: "n \<le> length (pkt_data p)" .
    show ?thesis
    proof (cases "n = 0 \<or> n = length (pkt_data p)")
      case False
      then have r: "bs = take n (pkt_data p)" "rest = p\<lparr>pkt_data := drop n (pkt_data p)\<rparr> # ps" "e = Stopped" using Cons.prems(2) Wrote o by auto
      have "framed ((part @ take n (pkt_data p)) @ drop n (pkt_data p))" "drop n (pkt_data p) \<noteq> []" using w n False by auto
      note truncated_part [OF this]
      then have "sends part bs W W rest False" using r(1)
        by (intro sendsI [of _ _ "[]" "part @ bs"]) (use r w n False in auto)
      then show ?thesis using r by auto
    next
      case True
      show ?thesis
      proof (cases "n = 0")
        case True
        then show ?thesis using Cons.prems(2) keep Wrote o by auto
      next
        case False
        obtain bs' where r: "queue_write t wr (Suc k) ps = (bs', rest, e)" "bs = pkt_data p @ bs'"
          using Cons.prems(2) Wrote o True False by (auto split: prod.splits)
        obtain W' H part' where h: "bs' = concat H @ part'" "truncated part'" "subseq (H @ W') ws" "\<forall>w \<in> set H. framed w"
          "sending rest W' (if e = Failed then [] else part')"
          using Cons.IH [OF whole_sending [OF w(6)] r(1)] by (auto simp: sends_def)
        have "sends part bs W' W rest (e = Failed)"
          by (rule sendsI [of _ _ "w # H" part']) (use h r(2) w in auto)
        then show ?thesis by blast
      qed
    qed
  qed
qed

lemma queue_send_sends:
  assumes "writes_ok wr" "sending (out_queue q) W part" "ctdb_queue_send t wr data q = (bs, q')" "framed (framed_packet (alignment q) data)"
  shows "\<exists>W'. sends part bs W' (W @ [framed_packet (alignment q) data]) (out_queue q') False"
    "queue_fd q' = queue_fd q \<or> queue_fd q' = None" "queue_fd q = None \<Longrightarrow> bs = []" "alignment q' = alignment q"
    "(fde_writeable q \<longrightarrow> queue_fd q \<noteq> None) \<longrightarrow> fde_writeable q' \<longrightarrow> queue_fd q' \<noteq> None"
proof -
  let ?d = "framed_packet (alignment q) data"
  note defs = ctdb_queue_send_def queue_broken_def queue_add_def Let_def
  show "queue_fd q' = queue_fd q \<or> queue_fd q' = None" "queue_fd q = None \<Longrightarrow> bs = []" "alignment q' = alignment q"
    "(fde_writeable q \<longrightarrow> queue_fd q \<noteq> None) \<longrightarrow> fde_writeable q' \<longrightarrow> queue_fd q' \<noteq> None"
    using assms(3) by (auto simp: defs split: if_splits write_result.splits)
  have tr: "truncated part" using assms(2) truncated_part by (cases "out_queue q") auto
  have "sends part [] (W @ [?d]) (W @ [?d]) (out_queue (queue_add ?d (of_nat (length ?d)) q)) False"
    by (rule sendsI [of _ _ "[]" part]) (use tr sending_add [OF assms(2,4)] in \<open>auto simp: queue_add_def\<close>)
  note add = exI [of "\<lambda>W'. sends part [] W' (W @ [?d]) (out_queue (queue_add ?d (of_nat (length ?d)) q)) False", OF this]
  show "\<exists>W'. sends part bs W' (W @ [?d]) (out_queue q') False"
  proof (cases "out_queue q = [] \<and> queue_fd q \<noteq> None \<and> \<not> t")
    case False
    then show ?thesis using assms(3) add by (auto simp: ctdb_queue_send_def Let_def)
  next
    case True
    then have W: "W = []" "part = []" using assms(2) by auto
    show ?thesis
    proof (cases "wr 0 ?d")
      case Write_error
      have "sends part [] [] [?d] [] False" by (rule sendsI [of _ _ "[]" "[]"]) (use W in auto)
      then show ?thesis using assms(3) True Write_error W by (auto simp: defs)
    next
      case Would_block
      then show ?thesis using assms(3) True add by (auto simp: ctdb_queue_send_def Let_def)
    next
      case (Wrote n)
      then have n: "n \<le> length ?d" using assms(1) by (auto simp: writes_ok_def)
      show ?thesis
      proof (cases "n = length ?d")
        case n: True
        have "sends part ?d [] [?d] [] False" by (rule sendsI [of _ _ "[?d]" "[]"]) (use W assms(4) in auto)
        then show ?thesis using assms(3) True Wrote n W by (auto simp: ctdb_queue_send_def Let_def)
      next
        case False
        then have "truncated (take n ?d)" using truncated_part [of "take n ?d" "drop n ?d"] assms(4) n by auto
        then have "sends part (take n ?d) [?d] [?d] (out_queue (queue_add (drop n ?d) (of_nat (length ?d)) q)) False"
          by (intro sendsI [of _ _ "[]" "take n ?d"]) (use W True False n assms(4) in \<open>auto simp: queue_add_def\<close>)
        then show ?thesis using assms(3) True False Wrote W by (auto simp: ctdb_queue_send_def Let_def)
      qed
    qed
  qed
qed

lemma queue_io_write_sends:
  assumes "writes_ok wr" "sending (out_queue q) W part" "queue_io_write t wr q = (bs, q')"
  shows "\<exists>W'. sends part bs W' W (out_queue q') (queue_fd q' = None \<and> queue_fd q \<noteq> None) \<or> queue_fd q = None"
    "queue_fd q' = queue_fd q \<or> queue_fd q' = None" "alignment q' = alignment q"
    "(fde_writeable q \<longrightarrow> queue_fd q \<noteq> None) \<longrightarrow> fde_writeable q' \<longrightarrow> queue_fd q' \<noteq> None"
proof -
  obtain rest e where w: "queue_write t wr 0 (out_queue q) = (bs, rest, e)" using assms(3) by (auto simp: queue_io_write_def Let_def split: prod.splits)
  have q': "out_queue q' = rest" "queue_fd q' = (if e = Failed then None else queue_fd q)" "alignment q' = alignment q"
    "fde_writeable q' = (fde_writeable q \<and> e = Stopped)"
    using assms(3) w by (cases e; auto simp: queue_io_write_def queue_broken_def Let_def)+
  obtain W' where s: "sends part bs W' W rest (e = Failed)" using queue_write_sends [OF assms(1,2) w] by blast
  then show "\<exists>W'. sends part bs W' W (out_queue q') (queue_fd q' = None \<and> queue_fd q \<noteq> None) \<or> queue_fd q = None"
    using q'(1,2) by (cases "queue_fd q"; cases "e = Failed") auto
  show "queue_fd q' = queue_fd q \<or> queue_fd q' = None" "alignment q' = alignment q"
    "(fde_writeable q \<longrightarrow> queue_fd q \<noteq> None) \<longrightarrow> fde_writeable q' \<longrightarrow> queue_fd q' \<noteq> None" using q' by auto
qed

section \<open>The link\<close>

text \<open>A connection on which the packets \<open>h\<close> and the beginning \<open>p\<close> of another one were written.\<close>

definition conn_ok :: "u8 list list \<Rightarrow> u8 list \<Rightarrow> tcp_conn \<Rightarrow> bool" where
  "conn_ok h p conn \<longleftrightarrow> truncated p \<and> (\<forall>w \<in> set h. framed w) \<and>
     (case incoming conn of
        None \<Rightarrow> prefix (received conn) h
      | Some q \<Rightarrow> buffer_ok (buffer q) \<and> (\<exists>h2. h = received conn @ h2 \<and> b_bytes (buffer q) @ wire conn = concat h2 @ p))"

definition link_rel :: "tcp_link \<Rightarrow> u8 list list list \<Rightarrow> u8 list list \<Rightarrow> u8 list list \<Rightarrow> u8 list \<Rightarrow> bool" where
  "link_rel l hs ps W part \<longleftrightarrow>
     length hs = length (conns l) \<and> length ps = length (conns l) \<and> (\<forall>c < length (conns l). conn_ok (hs ! c) (ps ! c) (conns l ! c)) \<and>
     sending (out_queue (outgoing l)) W part \<and> subseq (concat hs @ W) (submitted l) \<and>
     (queue_fd (outgoing l) \<noteq> None \<longrightarrow> conns l \<noteq> [] \<and> queue_fd (outgoing l) = Some (length (conns l) - 1) \<and> part = last ps) \<and>
     (connect_fde (tnode l) \<longrightarrow> conns l \<noteq> [] \<and> tnode_fd (tnode l) = Some (length (conns l) - 1) \<and> last hs = [] \<and> last ps = [] \<and>
        queue_fd (outgoing l) = None) \<and>
     alignment (outgoing l) = CTDB_TCP_ALIGNMENT \<and> (fde_writeable (outgoing l) \<longrightarrow> queue_fd (outgoing l) \<noteq> None)"

definition link_ok :: "tcp_link \<Rightarrow> bool" where
  "link_ok l \<longleftrightarrow> (\<exists>hs ps W part. link_rel l hs ps W part)"

lemma truncated_no_packet: "truncated (x @ y) \<Longrightarrow> \<not> framed x"
proof
  assume "truncated (x @ y)" and f: "framed x"
  then obtain w z where w: "framed w" "w = x @ (y @ z)" "z \<noteq> []" by (auto simp: truncated_def strict_prefix_def prefix_def)
  then have "word_at w 0 = word_at x 0" using f by (simp add: framed_def word_at_0_append)
  then show False using f w by (auto simp: framed_def)
qed

lemma conn_write:
  assumes "conn_ok h p conn" "p @ bs = concat H @ p'" "truncated p'" "\<forall>w \<in> set H. framed w"
  shows "conn_ok (h @ H) p' (conn\<lparr>wire := wire conn @ bs\<rparr>)"
proof (cases "incoming conn")
  case None
  then show ?thesis using assms by (auto simp: conn_ok_def)
next
  case (Some q)
  then obtain h2 where h2: "h = received conn @ h2" "b_bytes (buffer q) @ wire conn = concat h2 @ p" "buffer_ok (buffer q)"
    using assms(1) by (auto simp: conn_ok_def)
  have "b_bytes (buffer q) @ wire conn @ bs = concat (h2 @ H) @ p'" using h2(2) assms(2) by (metis append.assoc concat_append)
  then show ?thesis using assms Some h2 by (auto simp: conn_ok_def)
qed

lemma conn_incoming:
  assumes "conn_ok h p conn" "incoming conn = Some q" "buffer_ok (buffer q')" "h = received conn @ h2"
    and "call = No_call \<and> b_bytes (buffer q') @ w = concat h2 @ p \<or>
      (\<exists>d h3. call = Packet_call d \<and> h2 = d # h3 \<and> b_bytes (buffer q') @ w = concat h3 @ p)"
  shows "conn_ok h p (incoming_call (q', call) (conn\<lparr>wire := w\<rparr>))"
  using assms(5)
proof (elim disjE exE conjE)
  assume "call = No_call" "b_bytes (buffer q') @ w = concat h2 @ p"
  then show ?thesis using assms(1-4) by (auto simp: conn_ok_def incoming_call_def)
next
  fix d h3
  assume "call = Packet_call d" "h2 = d # h3" "b_bytes (buffer q') @ w = concat h3 @ p"
  then show ?thesis using assms(1-4) by (auto simp: conn_ok_def incoming_call_def)
qed

lemma conn_ok_starts [simp]: "conn_ok h p (conn\<lparr>starts_whole := x\<rparr>) = conn_ok h p conn"
  by (simp add: conn_ok_def split: option.splits)

lemma conn_dead: "conn_ok h p conn \<Longrightarrow> conn_ok h p (conn\<lparr>incoming := None\<rparr>)"
  by (auto simp: conn_ok_def split: option.splits)

lemma conn_ok_received: "conn_ok h p conn \<Longrightarrow> subseq (received conn) h"
  by (auto simp: conn_ok_def split: option.splits intro: prefix_imp_subseq)

lemma subseq_append_mono: "subseq a b \<Longrightarrow> subseq c d \<Longrightarrow> subseq (a @ c) (b @ d)"
  by (rule list_emb_append_mono)

lemma link_rel_write:
  assumes "link_rel l hs ps W part" "sends part bs W' (W @ new) (out_queue q') lost" "queue_fd q' = queue_fd (outgoing l) \<or> queue_fd q' = None"
    and "queue_fd (outgoing l) = None \<Longrightarrow> bs = [] \<and> \<not> lost" "lost \<Longrightarrow> queue_fd q' = None" "alignment q' = alignment (outgoing l)"
    and "fde_writeable q' \<longrightarrow> queue_fd q' \<noteq> None"
  shows "link_ok (l\<lparr>tnode := (tnode l)\<lparr>tnode_queue := q'\<rparr>, conns := put_on_wire (queue_fd (outgoing l)) bs (conns l),
     submitted := submitted l @ new\<rparr>)"
proof -
  obtain H part' where h: "part @ bs = concat H @ part'" "truncated part'" "subseq (H @ W') (W @ new)" "\<forall>w \<in> set H. framed w"
    "sending (out_queue q') W' (if lost then [] else part')" using assms(2) by (auto simp: sends_def)
  have sub: "subseq (concat hs @ H @ W') (submitted l @ new)"
  proof (rule subseq_order.trans)
    show "subseq (concat hs @ H @ W') (concat hs @ W @ new)" by (rule subseq_append_mono [OF subseq_order.refl h(3)])
    have "subseq (concat hs @ W) (submitted l)" using assms(1) by (simp add: link_rel_def)
    then show "subseq (concat hs @ W @ new) (submitted l @ new)" using subseq_append_mono [of "concat hs @ W" "submitted l" new new] by simp
  qed
  show ?thesis
  proof (cases "queue_fd (outgoing l)")
    case None
    then have b: "bs = []" "\<not> lost" using assms(4) by auto
    have "truncated part" using assms(1) truncated_part by (cases "out_queue (outgoing l)") (auto simp: link_rel_def)
    then have "H = []" using h(1,4) b truncated_no_packet [of "hd H" "concat (tl H) @ part'"] by (cases H) auto
    then have "link_rel (l\<lparr>tnode := (tnode l)\<lparr>tnode_queue := q'\<rparr>, conns := conns l, submitted := submitted l @ new\<rparr>) hs ps W' part'"
      using assms(1,3,6,7) None h(5) b sub by (auto simp: link_rel_def)
    then show ?thesis using None by (auto simp: put_on_wire_def link_ok_def)
  next
    case (Some c)
    then have c: "c = length (conns l) - 1" "conns l \<noteq> []" "part = last ps" "\<not> connect_fde (tnode l)" "length hs = length (conns l)" "length ps = length (conns l)"
      using assms(1) by (auto simp: link_rel_def)
    let ?hs = "hs[c := hs ! c @ H]" and ?ps = "ps[c := part']"
    have last: "hs = butlast hs @ [hs ! c]" "ps ! c = part" using c by (metis append_butlast_last_id last_conv_nth length_0_conv)+
    have lc: "length (butlast hs) = c" using c by simp
    have "concat ?hs = concat hs @ H"
    proof -
      have "?hs = butlast hs @ [hs ! c @ H]" using last(1) lc by (metis list_update_length)
      then have "concat ?hs = concat (butlast hs @ [hs ! c]) @ H" by simp
      then show ?thesis using last(1) by simp
    qed
    moreover have "\<forall>c' < length (conns l). conn_ok (?hs ! c') (?ps ! c') (put_on_wire (Some c) bs (conns l) ! c')"
      using assms(1) conn_write [of "hs ! c" "ps ! c" "conns l ! c", OF _ h(1) [folded last(2)] h(2,4)] c
      by (auto simp: link_rel_def put_on_wire_def nth_list_update)
    moreover have "ps \<noteq> []" using c by auto
    then have "last ?ps = part'" using c by (simp add: last_conv_nth)
    ultimately have "link_rel (l\<lparr>tnode := (tnode l)\<lparr>tnode_queue := q'\<rparr>, conns := put_on_wire (Some c) bs (conns l), submitted := submitted l @ new\<rparr>)
        ?hs ?ps W' (if lost then [] else part')"
      using assms(1,3,5,6,7) Some h(5) c sub by (auto simp: link_rel_def put_on_wire_def)
    then show ?thesis using Some by (auto simp: link_ok_def)
  qed
qed

lemma link_rel_conn:
  assumes "link_rel l hs ps W part" "c < length (conns l)" "conn_ok (hs ! c) (ps ! c) conn"
  shows "link_ok (l\<lparr>conns := (conns l)[c := conn]\<rparr>)"
proof -
  have "link_rel (l\<lparr>conns := (conns l)[c := conn]\<rparr>) hs ps W part" using assms by (auto simp: link_rel_def nth_list_update)
  then show ?thesis unfolding link_ok_def by blast
qed

text \<open>Changes of the sender that end its connection keep the queue.\<close>

lemma link_ok_stop:
  assumes "link_ok l" "out_queue (tnode_queue t) = out_queue (outgoing l)" "queue_fd (tnode_queue t) = None" "\<not> connect_fde t"
    and "alignment (tnode_queue t) = alignment (outgoing l)" "\<not> fde_writeable (tnode_queue t)"
  shows "link_ok (l\<lparr>tnode := t\<rparr>)"
proof -
  obtain hs ps W part where "link_rel l hs ps W part" using assms(1) by (auto simp: link_ok_def)
  then have "link_rel (l\<lparr>tnode := t\<rparr>) hs ps W part" using assms(2-) by (auto simp: link_rel_def)
  then show ?thesis unfolding link_ok_def by blast
qed

lemmas stop_defs = ctdb_tcp_stop_connection_def ctdb_queue_set_fd_def ctdb_tcp_restart_def ctdb_node_dead_def ctdb_tcp_tnode_cb_def
  ctdb_tcp_node_connect_def ctdb_node_connect_write_def Let_def

lemma link_ok_submit:
  assumes "link_rel l hs ps W part" "sizeof_req_header \<le> length data" "length data < 2 ^ 31" "writes_ok wr"
    and "ctdb_queue_send torture wr data (outgoing l) = (bs, q)"
  shows "link_ok (l\<lparr>tnode := (tnode l)\<lparr>tnode_queue := q\<rparr>, conns := put_on_wire (queue_fd (outgoing l)) bs (conns l),
    submitted := submitted l @ [framed_packet (alignment (outgoing l)) data]\<rparr>)"
proof -
  have S: "sending (out_queue (outgoing l)) W part" "alignment (outgoing l) = CTDB_TCP_ALIGNMENT"
    "fde_writeable (outgoing l) \<longrightarrow> queue_fd (outgoing l) \<noteq> None" using assms(1) by (auto simp: link_rel_def)
  have f: "framed (framed_packet (alignment (outgoing l)) data)" using framed_packet_framed(1) [OF assms(2,3)] S(2) by simp
  note Q = queue_send_sends [OF assms(4) S(1) assms(5) f]
  obtain W' where "sends part bs W' (W @ [framed_packet (alignment (outgoing l)) data]) (out_queue q) False" using Q(1) by blast
  from link_rel_write [OF assms(1) this Q(2) _ _ Q(4)] show ?thesis using Q(3,5) S(3) by auto
qed

lemma link_ok_write:
  assumes "link_rel l hs ps W part" "fde_writeable (outgoing l)" "writes_ok wr" "queue_io_write torture wr (outgoing l) = (bs, q)"
  shows "link_ok (l\<lparr>tnode := (tnode l)\<lparr>tnode_queue := q\<rparr>, conns := put_on_wire (queue_fd (outgoing l)) bs (conns l)\<rparr>)"
proof -
  have S: "sending (out_queue (outgoing l)) W part" "queue_fd (outgoing l) \<noteq> None" using assms(1,2) by (auto simp: link_rel_def)
  note Q = queue_io_write_sends [OF assms(3) S(1) assms(4)]
  obtain W' where "sends part bs W' (W @ []) (out_queue q) (queue_fd q = None \<and> queue_fd (outgoing l) \<noteq> None)" using Q(1) S(2) by auto
  from link_rel_write [OF assms(1) this Q(2) _ _ Q(3)] show ?thesis using Q(4) S(2) by simp
qed

lemma link_ok_connect:
  assumes "link_rel l hs ps W part"
  shows "link_ok (l\<lparr>tnode := ctdb_tcp_node_connect (Connecting (length (conns l))) (tnode l),
    conns := conns l @ [\<lparr>wire = [], incoming = ctdb_listen_event fd known, received = [], starts_whole = True\<rparr>]\<rparr>)"
proof -
  let ?conn = "\<lparr>wire = [], incoming = ctdb_listen_event fd known, received = [], starts_whole = True\<rparr>"
  let ?l = "l\<lparr>tnode := ctdb_tcp_node_connect (Connecting (length (conns l))) (tnode l), conns := conns l @ [?conn]\<rparr>"
  have "conn_ok [] [] ?conn"
    by (auto simp: conn_ok_def ctdb_listen_event_def ctdb_queue_setup_def ctdb_queue_set_fd_def buffer_ok_def b_bytes_def)
  then have "link_rel ?l (hs @ [[]]) (ps @ [[]]) W part"
    using assms by (auto simp: link_rel_def nth_append less_Suc_eq stop_defs)
  then show ?thesis unfolding link_ok_def by blast
qed

lemma link_ok_connected:
  assumes "link_rel l hs ps W part" "connect_fde (tnode l)" "tnode_fd (tnode l) = Some c" "head_whole (outgoing l)"
  shows "link_ok (l\<lparr>tnode := ctdb_node_connect_write True (tnode l), conns := (conns l)[c := (conns l ! c)\<lparr>starts_whole := x\<rparr>]\<rparr>)"
proof -
  have L: "c = length (conns l) - 1" "conns l \<noteq> []" "last ps = []" "length ps = length (conns l)" "sending (out_queue (outgoing l)) W part"
    "length hs = length (conns l)" "alignment (outgoing l) = CTDB_TCP_ALIGNMENT" "subseq (concat hs @ W) (submitted l)"
    "\<forall>c < length (conns l). conn_ok (hs ! c) (ps ! c) (conns l ! c)"
    using assms(1-3) by (auto simp: link_rel_def)
  have "part = []" using head_whole_part L(5) assms(4) by blast
  then have "link_rel (l\<lparr>tnode := ctdb_node_connect_write True (tnode l), conns := (conns l)[c := (conns l ! c)\<lparr>starts_whole := x\<rparr>]\<rparr>) hs ps W part"
    using L assms(2,3) by (auto simp: link_rel_def stop_defs nth_list_update)
  then show ?thesis unfolding link_ok_def by blast
qed

lemma link_ok_read:
  assumes "link_rel l hs ps W part" "c < length (conns l)" "incoming (conns l ! c) = Some q" "0 < num_ready"
    and "num_ready \<le> length (wire (conns l ! c))" "read_some (int num_ready) q n"
  shows "link_ok (l\<lparr>conns := (conns l)[c := incoming_call (queue_io_read (Some (int num_ready)) (Some (take n (wire (conns l ! c)))) q)
    ((conns l ! c)\<lparr>wire := drop n (wire (conns l ! c))\<rparr>)]\<rparr>)"
proof -
  let ?conn = "conns l ! c"
  have ok: "conn_ok (hs ! c) (ps ! c) ?conn" using assms(1,2) by (auto simp: link_rel_def)
  then obtain h2 where h2: "buffer_ok (buffer q)" "hs ! c = received ?conn @ h2" "b_bytes (buffer q) @ wire ?conn = concat h2 @ ps ! c"
    "\<forall>w \<in> set h2. framed w" "truncated (ps ! c)" using assms(3) by (auto simp: conn_ok_def)
  obtain q' call where r: "queue_io_read (Some (int num_ready)) (Some (take n (wire ?conn))) q = (q', call)" by fastforce
  note R = read_stream [OF h2(1) r assms(6,4,5) h2(3-5)]
  from link_rel_conn [OF assms(1,2) conn_incoming [OF ok assms(3) R(1) h2(2) R(2)]] show ?thesis using r by simp
qed

lemma link_ok_process:
  assumes "link_rel l hs ps W part" "c < length (conns l)" "incoming (conns l ! c) = Some q"
  shows "link_ok (l\<lparr>conns := (conns l)[c := incoming_call (queue_process (q\<lparr>im := None\<rparr>)) (conns l ! c)]\<rparr>)"
proof -
  let ?conn = "conns l ! c" and ?q = "q\<lparr>im := None\<rparr>"
  have ok: "conn_ok (hs ! c) (ps ! c) ?conn" using assms(1,2) by (auto simp: link_rel_def)
  then obtain h2 where h2: "buffer_ok (buffer ?q)" "hs ! c = received ?conn @ h2" "b_bytes (buffer ?q) @ wire ?conn = concat h2 @ ps ! c"
    "\<forall>w \<in> set h2. framed w" "truncated (ps ! c)" using assms(3) by (auto simp: conn_ok_def)
  obtain q' call where r: "queue_process ?q = (q', call)" by fastforce
  note P = process_stream [OF h2(1) r h2(3-5)]
  from link_rel_conn [OF assms(1,2) conn_incoming [OF ok assms(3) process_buffer(1) [OF h2(1) r] h2(2) P]] show ?thesis using r by simp
qed

lemma link_ok_step:
  assumes "link_step l l'" "link_ok l" "\<forall>c \<in> set (conns l'). starts_whole c"
  shows "link_ok l'"
proof -
  obtain hs ps W part where R: "link_rel l hs ps W part" using assms(2) by (auto simp: link_ok_def)
  note stop = link_ok_stop [OF assms(2)]
  from assms(1) show ?thesis
  proof cases
    case link_restart
    then show ?thesis using assms(2) stop [of "ctdb_node_dead (tnode l)"] by (cases "disconnected (tnode l)") (auto simp: stop_defs)
  next
    case link_alive
    then have "link_rel l' hs ps W part" using R by (auto simp: link_rel_def)
    then show ?thesis unfolding link_ok_def by blast
  next
    case (link_connected c)
    then have "c < length (conns l)" using R by (auto simp: link_rel_def)
    then have "head_whole (outgoing l)" using assms(3) link_connected(1) by (auto dest!: bspec intro: set_update_memI)
    then show ?thesis unfolding link_connected(1) by (rule link_ok_connected [OF R link_connected(2,3)])
  next
    case (link_read_failed c q num_ready q')
    then have "conn_ok (hs ! c) (ps ! c) (conns l ! c)" using R by (auto simp: link_rel_def)
    from link_rel_conn [OF R link_read_failed(2) conn_dead [OF this]] show ?thesis using link_read_failed(1) by (simp add: incoming_call_def)
  next
    case (link_submit data wr torture bs q)
    then show ?thesis using link_ok_submit [OF R link_submit(2-5)] by simp
  next
    case (link_write wr torture bs q)
    then show ?thesis using link_ok_write [OF R link_write(2-4)] by simp
  next
    case (link_connect fd known)
    then show ?thesis using link_ok_connect [OF R] by simp
  next
    case (link_read c q num_ready n)
    then show ?thesis using link_ok_read [OF R link_read(2-6)] by simp
  next
    case (link_process c q)
    then show ?thesis using link_ok_process [OF R link_process(2,3)] by simp
  qed (auto simp: stop_defs queue_io_read_def intro!: stop)
qed

lemma starts_whole_call [simp]: "starts_whole (incoming_call r conn) = starts_whole conn"
  by (auto simp: incoming_call_def split: prod.splits queue_call.splits)

lemma starts_whole_mono:
  assumes "link_step l l'" "\<forall>c \<in> set (conns l'). starts_whole c"
  shows "\<forall>c \<in> set (conns l). starts_whole c"
proof -
  have "length (conns l) \<le> length (conns l') \<and> (\<forall>c < length (conns l). starts_whole (conns l' ! c) \<longrightarrow> starts_whole (conns l ! c))"
    using assms(1) by cases (auto simp: put_on_wire_def nth_update_if nth_append split: option.splits if_splits)
  then show ?thesis using assms(2) by (metis in_set_conv_nth order_less_le_trans)
qed

lemma link_reachable_ok: "link_reachable l \<Longrightarrow> \<forall>c \<in> set (conns l). starts_whole c \<Longrightarrow> link_ok l"
proof (induction rule: rtranclp_induct)
  case base
  have "link_rel tcp_link_init [] [] [] []"
    by (simp add: link_rel_def tcp_link_init_def ctdb_tcp_connect_node_def ctdb_tcp_add_node_def ctdb_queue_setup_def ctdb_queue_set_fd_def)
  then show ?case unfolding link_ok_def by blast
next
  case (step l l')
  then show ?case using link_ok_step starts_whole_mono by blast
qed

lemma subseq_concat: "list_all2 subseq xs ys \<Longrightarrow> subseq (concat xs) (concat ys)"
  by (induction rule: list_all2_induct) (auto intro: subseq_append_mono)

text \<open>
  C12: Packets arrive at most once, in order and unchanged.  Packets may be lost when a connection fails, but
  what the receiver passes on, over all connections that a node has made, is a subsequence of the packets that were
  submitted, in whatever pieces they are written and read.  This holds as long as no connection was started with the
  rest of a packet that was sent in part over an earlier one.
\<close>

theorem tcp_packets_in_order:
  assumes "link_reachable l" "\<forall>c \<in> set (conns l). starts_whole c"
  shows "subseq (concat (map received (conns l))) (submitted l)"
proof -
  obtain hs ps W part where R: "link_rel l hs ps W part" using link_reachable_ok [OF assms] by (auto simp: link_ok_def)
  have "subseq (received (conns l ! c)) (hs ! c)" if "c < length (conns l)" for c
    using R that conn_ok_received [of "hs ! c" "ps ! c" "conns l ! c"] by (simp add: link_rel_def)
  then have "subseq (concat (map received (conns l))) (concat hs)"
    using R by (intro subseq_concat) (auto simp: link_rel_def list_all2_conv_all_nth)
  moreover have "subseq (concat hs) (concat hs @ W)" by (simp add: prefix_imp_subseq)
  moreover have "subseq (concat hs @ W) (submitted l)" using R by (simp add: link_rel_def)
  ultimately show ?thesis by (blast intro: subseq_order.trans)
qed

section \<open>An example\<close>

text \<open>A packet of 64 bytes, the second half of which has the form of a packet.\<close>

definition ex_inner :: "u8 list" where
  "ex_inner = bytes_of_u32 32 @ bytes_of_u32 CTDB_MAGIC @ bytes_of_u32 CTDB_VERSION @ replicate 20 0"

definition ex_outer :: "u8 list" where
  "ex_outer = bytes_of_u32 64 @ bytes_of_u32 CTDB_MAGIC @ bytes_of_u32 CTDB_VERSION @ replicate 20 0 @ ex_inner"

definition ex_queue :: "nat option \<Rightarrow> ctdb_queue_pkt list \<Rightarrow> ctdb_queue" where
  "ex_queue fd pkts = \<lparr>buffer = \<lparr>b_data = None, b_size = 0, b_extend = 0\<rparr>, out_queue = pkts, out_queue_length = of_nat (length pkts),
     queue_fd = fd, fde_writeable = fd \<noteq> None \<and> pkts \<noteq> [], alignment = CTDB_TCP_ALIGNMENT, im = None\<rparr>"

definition ex_tnode :: "nat option \<Rightarrow> ctdb_queue \<Rightarrow> bool \<Rightarrow> bool \<Rightarrow> ctdb_tcp_node" where
  "ex_tnode fd q fde te = \<lparr>tnode_fd = fd, tnode_queue = q, connect_fde = fde, connect_te = te, disconnected = True\<rparr>"

definition ex_conn :: "u8 list \<Rightarrow> bool \<Rightarrow> tcp_conn" where
  "ex_conn w whole = \<lparr>wire = w, incoming = Some (ex_queue (Some 0) []), received = [], starts_whole = whole\<rparr>"

lemmas ex_defs = ex_queue_def ex_tnode_def ex_conn_def

lemma ex_lengths [simp]: "length ex_inner = 32" "length ex_outer = 64" "drop 32 ex_outer = ex_inner"
  by (simp_all add: ex_inner_def ex_outer_def)

lemma ex_framed [simp]: "framed_packet CTDB_TCP_ALIGNMENT ex_outer = ex_outer"
proof -
  have "unat (round_up CTDB_TCP_ALIGNMENT 64) = 64" using round_up_8 [of 64] by simp
  then have "round_up CTDB_TCP_ALIGNMENT 64 = 64" by (simp add: word_unat_eq_iff)
  then show ?thesis by (simp add: framed_packet_def Let_def CTDB_TCP_ALIGNMENT_def) (simp add: ex_outer_def)
qed

lemma ex_words [simp]:
  "word_at ex_inner 0 = 32" "word_at ex_inner 4 = CTDB_MAGIC" "word_at ex_inner 8 = CTDB_VERSION"
  "word_at ex_outer 0 = 64" "word_at ex_outer 4 = CTDB_MAGIC" "word_at ex_outer 8 = CTDB_VERSION"
  by (simp_all add: ex_inner_def ex_outer_def word_at_skip)

lemma ex_accepted: "ctdb_tcp_read_cb (Some ex_inner)" "ctdb_tcp_read_cb (Some ex_outer)"
  by (simp_all add: ctdb_tcp_read_cb_def sizeof_req_header_def CTDB_TCP_ALIGNMENT_def)

lemma reach_step: "link_reachable l \<Longrightarrow> link_step l l' \<Longrightarrow> link_reachable l'"
  by (rule rtranclp.rtrancl_into_rtrancl)

text \<open>The receiver reads a whole packet.\<close>

lemma ex_read_packet:
  assumes "word_at d 0 = of_nat (length d)" "4 \<le> length d" "length d < 16384"
  shows "\<exists>q. queue_io_read (Some (int (length d))) (Some d) (ex_queue (Some 0) []) = (q, Packet_call d)"
    "read_some (int (length d)) (ex_queue (Some 0) []) (length d)"
proof -
  let ?q = "ex_queue (Some 0) []"
  have u: "unat (of_nat (length d) :: u32) = length d" using assms(3) by (simp add: unat_of_nat_small)
  have sz: "read_size (int (length d)) (buffer_prepare (buffer ?q)) = int (length d)"
    using assms(3) by (simp add: read_size_def buffer_prepare_def b_length_def b_bytes_def QUEUE_BUFFER_SIZE_def ex_queue_def)
  define q1 where "q1 = ?q\<lparr>buffer := \<lparr>b_data = Some d, b_size = QUEUE_BUFFER_SIZE, b_extend = 0\<rparr>\<rparr>"
  have d: "d \<noteq> []" "(of_nat (length d) :: u32) \<noteq> 0" "\<not> (of_nat (length d) :: u32) < 4" using assms(2) u by (auto simp: word_less_nat_alt)
  have "queue_io_read (Some (int (length d))) (Some d) ?q = queue_process q1"
    using sz d(1) by (simp add: queue_io_read_def Let_def) (simp add: q1_def ex_queue_def buffer_prepare_def b_bytes_def)
  moreover have "b_length (buffer q1) = of_nat (length d)" "b_bytes (buffer q1) = d" by (simp_all add: q1_def b_length_def b_bytes_def)
  ultimately show "\<exists>q. queue_io_read (Some (int (length d))) (Some d) ?q = (q, Packet_call d)"
    using assms(1) u d by (simp add: queue_process_def Let_def)
  show "read_some (int (length d)) ?q (length d)" using sz assms(2) by (auto simp: read_some_def)
qed

lemma ex_read:
  assumes "link_reachable \<lparr>tnode = t, conns = cs @ [ex_conn d whole], submitted = sub\<rparr>"
    and "word_at d 0 = of_nat (length d)" "4 \<le> length d" "length d < 16384" "ctdb_tcp_read_cb (Some d)"
  shows "\<exists>q. link_reachable \<lparr>tnode = t, conns = cs @ [\<lparr>wire = [], incoming = Some q, received = [d], starts_whole = whole\<rparr>], submitted = sub\<rparr>"
proof -
  let ?l = "\<lparr>tnode = t, conns = cs @ [ex_conn d whole], submitted = sub\<rparr>"
  have d: "d \<noteq> []" using assms(3) by auto
  obtain q where r: "queue_io_read (Some (int (length d))) (Some d) (ex_queue (Some 0) []) = (q, Packet_call d)"
    using ex_read_packet(1) [OF assms(2-4)] by blast
  with link_read [of "length cs" ?l "ex_queue (Some 0) []" "length d" "length d"] assms(3,5) d ex_read_packet(2) [OF assms(2-4)]
  have "link_step ?l \<lparr>tnode = t, conns = cs @ [\<lparr>wire = [], incoming = Some q, received = [d], starts_whole = whole\<rparr>], submitted = sub\<rparr>"
    by (auto simp: ex_conn_def incoming_call_def)
  then show ?thesis using reach_step [OF assms(1)] by blast
qed

theorem queue_receives_all_witness:
  "\<exists>q. (recv_step ^^ 1) (ctdb_queue_setup (Some 0) CTDB_TCP_ALIGNMENT, concat [ex_outer], []) (q, [], [ex_outer]) \<and>
     prefix [ex_outer] [ex_outer] \<and> 1 \<le> 3 * length (concat [ex_outer])"
proof -
  have e: "ex_queue (Some 0) [] = ctdb_queue_setup (Some 0) CTDB_TCP_ALIGNMENT" by (simp add: ex_queue_def ctdb_queue_setup_def ctdb_queue_set_fd_def)
  have f: "\<forall>p \<in> set [ex_outer]. framed p \<and> length p < 2 ^ 31" by (simp add: framed_def)
  obtain q where "queue_io_read (Some (int 64)) (Some (take 64 ex_outer)) (ex_queue (Some 0) []) = (q, Packet_call ex_outer)"
    using ex_read_packet(1) [of ex_outer] by auto
  with recv_read [of 64 ex_outer "ex_queue (Some 0) []" 64 q "Packet_call ex_outer" "[]"] ex_read_packet(2) [of ex_outer]
  have r: "(recv_step ^^ 1) (ctdb_queue_setup (Some 0) CTDB_TCP_ALIGNMENT, concat [ex_outer], []) (q, [], [ex_outer])" by (simp add: e eq_OO)
  from queue_receives_all [OF f r] show ?thesis using r by blast
qed

text \<open>A new connection, on which some bytes of the packet are sent.\<close>

lemma ex_reconnect:
  assumes "link_reachable \<lparr>tnode = ex_tnode None (ex_queue None pkts) False True, conns = cs, submitted = sub\<rparr>"
  shows "link_reachable \<lparr>tnode = ex_tnode None (ex_queue (Some (length cs)) pkts) False False,
    conns = cs @ [ex_conn [] (head_whole (ex_queue None pkts))], submitted = sub\<rparr>"
proof -
  let ?l = "\<lparr>tnode = ex_tnode None (ex_queue None pkts) False True, conns = cs, submitted = sub\<rparr>"
  let ?m = "\<lparr>tnode = ex_tnode (Some (length cs)) (ex_queue None pkts) True True, conns = cs @ [ex_conn [] True], submitted = sub\<rparr>"
  have "link_step ?l ?m"
    using link_connect [of ?l 0 True] by (simp add: ex_defs stop_defs ctdb_listen_event_def ctdb_queue_setup_def)
  note m = reach_step [OF assms this]
  have "link_step ?m \<lparr>tnode = ex_tnode None (ex_queue (Some (length cs)) pkts) False False,
    conns = cs @ [ex_conn [] (head_whole (ex_queue None pkts))], submitted = sub\<rparr>"
    using link_connected [of ?m "length cs"] by (simp add: ex_defs stop_defs)
  then show ?thesis by (rule reach_step [OF m])
qed

lemma ex_submit:
  assumes "0 < n" "n \<le> 64"
  shows "link_reachable \<lparr>tnode = ex_tnode None (ex_queue (Some 0) (if n = 64 then [] else [\<lparr>pkt_data = drop n ex_outer, full_length = 64\<rparr>])) False False,
    conns = [ex_conn (take n ex_outer) True], submitted = [ex_outer]\<rparr>"
proof -
  have "tcp_link_init = \<lparr>tnode = ex_tnode None (ex_queue None []) False True, conns = [], submitted = []\<rparr>"
    by (simp add: tcp_link_init_def ctdb_tcp_connect_node_def ctdb_tcp_add_node_def ctdb_queue_setup_def ctdb_queue_set_fd_def ex_defs)
  then have i: "link_reachable \<lparr>tnode = ex_tnode None (ex_queue None []) False True, conns = [], submitted = []\<rparr>" by simp
  let ?l = "\<lparr>tnode = ex_tnode None (ex_queue (Some 0) []) False False, conns = [ex_conn [] True], submitted = []\<rparr>"
  have l: "link_reachable ?l" using ex_reconnect [OF i] by (simp add: head_whole_def ex_queue_def)
  let ?q = "ex_queue (Some 0) (if n = 64 then [] else [\<lparr>pkt_data = drop n ex_outer, full_length = 64\<rparr>])"
  have "ctdb_queue_send False (\<lambda>k bs. Wrote (min n (length bs))) ex_outer (ex_queue (Some 0) []) = (take n ex_outer, ?q)"
    using assms by (auto simp: ctdb_queue_send_def queue_add_def ex_queue_def Let_def)
  with link_submit [of ex_outer "\<lambda>k bs. Wrote (min n (length bs))" False ?l "take n ex_outer" ?q]
  have "link_step ?l \<lparr>tnode = ex_tnode None ?q False False, conns = [ex_conn (take n ex_outer) True], submitted = [ex_outer]\<rparr>"
    by (auto simp: sizeof_req_header_def writes_ok_def put_on_wire_def ex_tnode_def ex_conn_def) (simp_all add: ex_queue_def)
  then show ?thesis by (rule reach_step [OF l])
qed

theorem tcp_packets_in_order_witness:
  "\<exists>l. link_reachable l \<and> map received (conns l) = [[ex_outer]] \<and> subseq [ex_outer] (submitted l)"
proof -
  obtain l where l: "link_reachable l" "map received (conns l) = [[ex_outer]]" "\<forall>c \<in> set (conns l). starts_whole c"
    using ex_submit [of 64] ex_read [of "ex_tnode None (ex_queue (Some 0) []) False False" "[]" ex_outer True "[ex_outer]"] ex_accepted(2) by auto
  with tcp_packets_in_order [OF l(1,3)] show ?thesis by auto
qed

text \<open>
  C14: After a reconnect, the rest of a packet that was sent in part is sent as if it were packets.  A connection that
  fails in a write loses such a packet, but one that ends in another way, because the other side has closed it or because
  the node is found dead, keeps it in the queue.  The receiver takes the rest for what it looks like: here it passes
  on a packet that was never submitted, but is the content of one.
\<close>

theorem tcp_reconnect_splits_packet:
  "\<exists>l. link_reachable l \<and> submitted l = [ex_outer] \<and> map received (conns l) = [[], [ex_inner]] \<and> ex_inner \<noteq> ex_outer"
proof -
  let ?p = "[\<lparr>pkt_data = ex_inner, full_length = 64\<rparr>]"
  let ?l = "\<lparr>tnode = ex_tnode None (ex_queue (Some 0) ?p) False False, conns = [ex_conn (take 32 ex_outer) True], submitted = [ex_outer]\<rparr>"
  have 1: "link_reachable ?l" using ex_submit [of 32] by simp
  have "link_step ?l \<lparr>tnode = ex_tnode None (ex_queue None ?p) False True, conns = [ex_conn (take 32 ex_outer) True], submitted = [ex_outer]\<rparr>"
    using link_closed [of ?l 0 None "ex_queue (Some 0) ?p"] by (auto simp: queue_io_read_def ex_tnode_def stop_defs) (simp_all add: ex_queue_def)
  from ex_reconnect [OF reach_step [OF 1 this]]
  have 2: "link_reachable \<lparr>tnode = ex_tnode None (ex_queue (Some 1) ?p) False False, conns = [ex_conn (take 32 ex_outer) True, ex_conn [] False], submitted = [ex_outer]\<rparr>"
    (is "link_reachable ?m") by (simp add: head_whole_def ex_queue_def pkt_length_def)
  have "queue_io_write False (\<lambda>k bs. Wrote (length bs)) (ex_queue (Some 1) ?p) = (ex_inner, ex_queue (Some 1) [])"
    by (simp add: queue_io_write_def ex_queue_def Let_def)
  with link_write [of ?m "\<lambda>k bs. Wrote (length bs)" False ex_inner "ex_queue (Some 1) []"]
  have "link_step ?m \<lparr>tnode = ex_tnode None (ex_queue (Some 1) []) False False, conns = [ex_conn (take 32 ex_outer) True] @ [ex_conn ex_inner False], submitted = [ex_outer]\<rparr>"
    by (auto simp: writes_ok_def put_on_wire_def ex_tnode_def ex_conn_def) (simp_all add: ex_queue_def)
  from ex_read [OF reach_step [OF 2 this]] ex_accepted(1) obtain q where
    "link_reachable \<lparr>tnode = ex_tnode None (ex_queue (Some 1) []) False False, conns = [ex_conn (take 32 ex_outer) True] @
       [\<lparr>wire = [], incoming = Some q, received = [ex_inner], starts_whole = False\<rparr>], submitted = [ex_outer]\<rparr>" by auto
  moreover have "length ex_inner \<noteq> length ex_outer" by simp
  then have "ex_inner \<noteq> ex_outer" by metis
  ultimately show ?thesis by (force simp: ex_conn_def)
qed

end
