(* ===== verification/Election.thy ===== *)
theory Election
  imports Client_Async "HOL-Library.Product_Lexorder"
begin

text \<open>
  Elections of the recovery master (\<^verbatim>\<open>server/ctdb_recoverd.c\<close>): a recovery daemon broadcasts its data, and every daemon
  that would rather be elected itself answers, after a short time, with a broadcast of its own data.
\<close>

section \<open>Messages and comparison\<close>

type_synonym timeval = "int \<times> int"

definition timeval_compare :: "timeval \<Rightarrow> timeval \<Rightarrow> int" where
  "timeval_compare tv1 tv2 =
     (if fst tv1 > fst tv2 then 1
      else if fst tv1 < fst tv2 then -1
      else if snd tv1 > snd tv2 then 1
      else if snd tv1 < snd tv2 then -1
      else 0)"

definition CTDB_CAP_RECMASTER :: u32 where
  "CTDB_CAP_RECMASTER = 0x00000001"

record election_message =
  em_num_connected :: u32
  em_priority_time :: timeval
  em_pnn :: u32
  em_node_flags :: u32

text \<open>
  The state of a recovery daemon, with the fields of its own daemon that elections use: who is recovery master for
  this node and whether the node has the recovery lock.
\<close>

record ctdb_recoverd =
  rd_pnn :: u32
  rd_capabilities :: u32
  priority_time :: timeval
  rd_node_flags :: u32
  send_election_te :: bool
  election_timeout :: bool
  recovery_master :: u32
  recovery_lock :: bool
  verify_recovery_lock :: bool

text \<open>The node map is \<open>None\<close> if it cannot be read; \<open>now\<close> is the current time.\<close>

definition ctdb_election_data :: "ctdb_node_map option \<Rightarrow> timeval \<Rightarrow> ctdb_recoverd \<Rightarrow> election_message \<times> ctdb_recoverd" where
  "ctdb_election_data reply now rec =
     (let em = \<lparr>em_num_connected = 0, em_priority_time = priority_time rec, em_pnn = rd_pnn rec, em_node_flags = 0\<rparr>
      in case reply of
           None \<Rightarrow> (em, rec)
         | Some nodemap \<Rightarrow>
             let rec = rec\<lparr>rd_node_flags := nf_flags (nodemap ! unat (rd_pnn rec))\<rparr>;
                 em = em\<lparr>em_node_flags := rd_node_flags rec,
                   em_num_connected := of_nat (length (filter (\<lambda>n. \<not> has_flag (nf_flags n) NODE_FLAGS_DISCONNECTED) nodemap))\<rparr>
             in (if rd_capabilities rec AND CTDB_CAP_RECMASTER = 0 then em\<lparr>em_num_connected := 0, em_priority_time := now\<rparr> else em, rec))"

definition ctdb_election_win :: "ctdb_node_map option \<Rightarrow> timeval \<Rightarrow> election_message \<Rightarrow> ctdb_recoverd \<Rightarrow> bool \<times> ctdb_recoverd" where
  "ctdb_election_win reply now em rec =
     (case ctdb_election_data reply now rec of
        (myem, rec) \<Rightarrow>
          if rd_capabilities rec AND CTDB_CAP_RECMASTER = 0 then (False, rec)
          else if has_flag (rd_node_flags rec) NODE_FLAGS_BANNED then (False, rec)
          else if has_flag (rd_node_flags rec) NODE_FLAGS_STOPPED then (False, rec)
          else if has_flag (em_node_flags em) NODE_FLAGS_BANNED then (True, rec)
          else if has_flag (em_node_flags em) NODE_FLAGS_STOPPED then (True, rec)
          else
            let cmp = sint (em_num_connected myem) - sint (em_num_connected em);
                cmp = (if cmp = 0 then timeval_compare (em_priority_time em) (em_priority_time myem) else cmp);
                cmp = (if cmp = 0 then sint (em_pnn myem) - sint (em_pnn em) else cmp)
            in (cmp > 0, rec))"

section \<open>The handlers\<close>

text \<open>
  \<open>set_ok\<close> is whether the control succeeds by which a recovery daemon sets the recovery master of its node.  The result
  has the message to broadcast, if any.
\<close>

definition send_election_request ::
    "bool \<Rightarrow> ctdb_node_map option \<Rightarrow> timeval \<Rightarrow> ctdb_recoverd \<Rightarrow> int \<times> election_message option \<times> ctdb_recoverd" where
  "send_election_request set_ok reply now rec =
     (case ctdb_election_data reply now rec of
        (emsg, rec) \<Rightarrow> if \<not> set_ok then (-1, None, rec) else (0, Some emsg, rec\<lparr>recovery_master := rd_pnn rec\<rparr>))"

definition election_send_request ::
    "bool \<Rightarrow> ctdb_node_map option \<Rightarrow> timeval \<Rightarrow> ctdb_recoverd \<Rightarrow> election_message option \<times> ctdb_recoverd" where
  "election_send_request set_ok reply now rec =
     (case send_election_request set_ok reply now rec of (_, msg, rec) \<Rightarrow> (msg, rec\<lparr>send_election_te := False\<rparr>))"

text \<open>The nodes that are asked to take back a ban.\<close>

definition unban_all_nodes :: "ctdb_node_map option \<Rightarrow> u32 list" where
  "unban_all_nodes reply =
     (case reply of
        None \<Rightarrow> []
      | Some nodemap \<Rightarrow>
          map nf_pnn (filter (\<lambda>n. \<not> has_flag (nf_flags n) NODE_FLAGS_DISCONNECTED \<and> has_flag (nf_flags n) NODE_FLAGS_BANNED) nodemap))"

definition election_handler ::
    "bool \<Rightarrow> ctdb_node_map option \<Rightarrow> timeval \<Rightarrow> election_message \<Rightarrow> ctdb_recoverd \<Rightarrow> u32 list \<times> ctdb_recoverd" where
  "election_handler set_ok reply now em rec =
     (let rec = rec\<lparr>election_timeout := True\<rparr>
      in case ctdb_election_win reply now em rec of
           (True, rec) \<Rightarrow> ([], rec\<lparr>send_election_te := True\<rparr>)
         | (False, rec) \<Rightarrow>
             let rec = rec\<lparr>send_election_te := False\<rparr>;
                 release = (verify_recovery_lock rec \<and> em_pnn em \<noteq> rd_pnn rec \<and> recovery_lock rec);
                 unbanned = (if release then unban_all_nodes reply else []);
                 rec = (if release then rec\<lparr>recovery_lock := False\<rparr> else rec)
             in (unbanned, if set_ok then rec\<lparr>recovery_master := em_pnn em\<rparr> else rec))"

text \<open>\<open>mode_ok\<close> is whether all nodes could be set to recovery mode.\<close>

definition force_election ::
    "bool \<Rightarrow> bool \<Rightarrow> ctdb_node_map option \<Rightarrow> timeval \<Rightarrow> ctdb_recoverd \<Rightarrow> election_message option \<times> ctdb_recoverd" where
  "force_election mode_ok set_ok reply now rec =
     (if \<not> mode_ok then (None, rec)
      else (case send_election_request set_ok reply now (rec\<lparr>election_timeout := True\<rparr>) of (_, msg, rec) \<Rightarrow> (msg, rec)))"

definition ctdb_election_timeout :: "ctdb_recoverd \<Rightarrow> ctdb_recoverd" where
  "ctdb_election_timeout rec = rec\<lparr>election_timeout := False\<rparr>"

section \<open>A cluster that elects\<close>

text \<open>
  The recovery daemons of a cluster and the messages that each of them has not handled yet.  \<open>members\<close> are the nodes that
  get a broadcast and \<open>view\<close> the node map that each of them has; with \<open>in_order\<close>, messages are handled in the order in which
  they were broadcast.
\<close>

record election_env =
  members :: "u32 set"
  view :: "u32 \<Rightarrow> ctdb_node_map option"
  in_order :: bool

record election_state =
  recs :: "u32 \<Rightarrow> ctdb_recoverd"
  inbox :: "u32 \<Rightarrow> election_message list"

definition set_rec :: "u32 \<Rightarrow> ctdb_recoverd \<Rightarrow> election_state \<Rightarrow> election_state" where
  "set_rec p rec s = s\<lparr>recs := (recs s)(p := rec)\<rparr>"

definition broadcast :: "u32 set \<Rightarrow> election_message option \<Rightarrow> election_state \<Rightarrow> election_state" where
  "broadcast P msg s =
     (case msg of None \<Rightarrow> s | Some em \<Rightarrow> s\<lparr>inbox := (\<lambda>p. if p \<in> P then inbox s p @ [em] else inbox s p)\<rparr>)"

inductive election_step :: "election_env \<Rightarrow> election_state \<Rightarrow> election_state \<Rightarrow> bool" for env where
  el_force:
    "p \<in> members env \<Longrightarrow> force_election mode_ok True (view env p) now (recs s p) = (msg, rec) \<Longrightarrow>
     election_step env s (broadcast (members env) msg (set_rec p rec s))"
| el_send:
    "p \<in> members env \<Longrightarrow> send_election_te (recs s p) \<Longrightarrow> election_send_request True (view env p) now (recs s p) = (msg, rec) \<Longrightarrow>
     election_step env s (broadcast (members env) msg (set_rec p rec s))"
| el_handle:
    "p \<in> members env \<Longrightarrow> inbox s p = xs @ em # ys \<Longrightarrow> in_order env \<longrightarrow> xs = [] \<Longrightarrow>
     election_handler True (view env p) now em (recs s p) = (unbanned, rec) \<Longrightarrow>
     election_step env s ((set_rec p rec s)\<lparr>inbox := (inbox s)(p := xs @ ys)\<rparr>)"
| el_timeout:
    "p \<in> members env \<Longrightarrow> election_step env s (set_rec p (ctdb_election_timeout (recs s p)) s)"

text \<open>An election is over when all messages were handled and no daemon is about to send one.\<close>

definition election_over :: "election_env \<Rightarrow> election_state \<Rightarrow> bool" where
  "election_over env s \<longleftrightarrow> (\<forall>p \<in> members env. inbox s p = [] \<and> \<not> send_election_te (recs s p))"

end
