(* ===== verification/Election_Correct.thy ===== *)
theory Election_Correct
  imports Election
begin

text \<open>
  An election ends with the same recovery master on all nodes, namely the best of the nodes that can be, if the daemons
  handle the messages in the order in which they were sent, and it can always end.  Messages of different nodes may
  overtake each other, however, and then an election can end in disagreement.
\<close>

section \<open>Who wins\<close>

definition connected_nodes :: "ctdb_node_map \<Rightarrow> nat" where
  "connected_nodes nodemap = length (filter (\<lambda>n. \<not> has_flag (nf_flags n) NODE_FLAGS_DISCONNECTED) nodemap)"

text \<open>Nodes that can become recovery master, and the order among them: connected nodes, time, node number.\<close>

definition eligible :: "election_env \<Rightarrow> (u32 \<Rightarrow> ctdb_recoverd) \<Rightarrow> u32 \<Rightarrow> bool" where
  "eligible env R p \<longleftrightarrow> rd_capabilities (R p) AND CTDB_CAP_RECMASTER \<noteq> 0 \<and>
     \<not> has_flag (nf_flags (the (view env p) ! unat p)) NODE_FLAGS_BANNED \<and> \<not> has_flag (nf_flags (the (view env p) ! unat p)) NODE_FLAGS_STOPPED"

definition rank :: "election_env \<Rightarrow> (u32 \<Rightarrow> ctdb_recoverd) \<Rightarrow> u32 \<Rightarrow> int \<times> int \<times> int \<times> int" where
  "rank env R p = (int (connected_nodes (the (view env p))), - fst (priority_time (R p)), - snd (priority_time (R p)), sint p)"

text \<open>Every node knows itself, and nothing that the comparison uses is out of range.\<close>

definition election_ready :: "election_env \<Rightarrow> (u32 \<Rightarrow> ctdb_recoverd) \<Rightarrow> bool" where
  "election_ready env R \<longleftrightarrow> (\<forall>p \<in> members env. rd_pnn (R p) = p \<and>
     (\<exists>nm. view env p = Some nm \<and> unat p < length nm \<and> length nm < 2 ^ 31 \<and> \<not> has_flag (nf_flags (nm ! unat p)) NODE_FLAGS_DISCONNECTED))"

definition same_node :: "ctdb_recoverd \<Rightarrow> ctdb_recoverd \<Rightarrow> bool" where
  "same_node r r' \<longleftrightarrow> rd_pnn r = rd_pnn r' \<and> rd_capabilities r = rd_capabilities r' \<and> priority_time r = priority_time r'"

definition beats :: "election_env \<Rightarrow> (u32 \<Rightarrow> ctdb_recoverd) \<Rightarrow> u32 \<Rightarrow> election_message \<Rightarrow> bool" where
  "beats env R p em = fst (ctdb_election_win (view env p) (0, 0) em (R p))"

definition data_of :: "election_env \<Rightarrow> (u32 \<Rightarrow> ctdb_recoverd) \<Rightarrow> u32 \<Rightarrow> election_message \<Rightarrow> bool" where
  "data_of env R p em \<longleftrightarrow> (\<exists>now. em = fst (ctdb_election_data (view env p) now (R p)))"

lemma connected_small:
  assumes "length nm < 2 ^ 31"
  shows "sint (of_nat (connected_nodes nm) :: u32) = int (connected_nodes nm)"
proof -
  have "connected_nodes nm \<le> length nm" by (simp add: connected_nodes_def)
  then have "connected_nodes nm < 2 ^ 31" using assms by linarith
  then show ?thesis using sint_small [of "of_nat (connected_nodes nm)"] by (simp add: unat_of_nat_small)
qed

lemma connected_self: "unat p < length nm \<Longrightarrow> \<not> has_flag (nf_flags (nm ! unat p)) NODE_FLAGS_DISCONNECTED \<Longrightarrow> 0 < connected_nodes nm"
  unfolding connected_nodes_def using nth_mem by (auto simp: filter_empty_conv)

lemma election_data_same:
  assumes "same_node r r'"
  shows "fst (ctdb_election_data (Some nm) now r) = fst (ctdb_election_data (Some nm) now r')"
    "same_node (snd (ctdb_election_data (Some nm) now r)) r'"
  using assms by (simp_all add: ctdb_election_data_def same_node_def Let_def)

lemma election_win_same:
  assumes "same_node r r'"
  shows "fst (ctdb_election_win (Some nm) now em r) = fst (ctdb_election_win (Some nm) now' em r')"
    "same_node (snd (ctdb_election_win (Some nm) now em r)) r'"
  using assms by (auto simp: ctdb_election_win_def ctdb_election_data_def same_node_def Let_def)

lemma timeval_compare_less: "timeval_compare a b > 0 \<longleftrightarrow> b < a" "timeval_compare a b = 0 \<longleftrightarrow> a = b"
  by (cases a; cases b; auto simp: timeval_compare_def less_prod_def)+

definition message_rank :: "election_message \<Rightarrow> int \<times> int \<times> int \<times> int" where
  "message_rank em = (sint (em_num_connected em), - fst (em_priority_time em), - snd (em_priority_time em), sint (em_pnn em))"

lemma beats_iff:
  assumes "election_ready env R" "p \<in> members env"
  shows "beats env R p em \<longleftrightarrow> eligible env R p \<and>
    (has_flag (em_node_flags em) NODE_FLAGS_BANNED \<or> has_flag (em_node_flags em) NODE_FLAGS_STOPPED \<or> message_rank em < rank env R p)"
proof -
  obtain nm where nm: "view env p = Some nm" "rd_pnn (R p) = p" "length nm < 2 ^ 31" using assms by (auto simp: election_ready_def)
  note sm = connected_small [OF nm(3), unfolded connected_nodes_def]
  have cmp: "(let cmp = (a::int) - b; cmp = (if cmp = 0 then timeval_compare s t else cmp); cmp = (if cmp = 0 then c - d else cmp) in cmp > 0) \<longleftrightarrow>
      (b, - fst s, - snd s, d) < (a, - fst t, - snd t, c)" for a b c d :: int and s t
    by (cases s; cases t) (auto simp: Let_def timeval_compare_def less_prod_def)
  show ?thesis
    using nm(1,2) cmp [unfolded Let_def]
    by (simp add: beats_def ctdb_election_win_def ctdb_election_data_def eligible_def message_rank_def rank_def connected_nodes_def sm Let_def)
qed

lemma data_rank:
  assumes "election_ready env R" "q \<in> members env" "data_of env R q em"
  shows "em_pnn em = q" "em_node_flags em = nf_flags (the (view env q) ! unat q)"
    "if rd_capabilities (R q) AND CTDB_CAP_RECMASTER = 0 then em_num_connected em = 0 else message_rank em = rank env R q"
proof -
  obtain nm now where nm: "view env q = Some nm" "rd_pnn (R q) = q" "length nm < 2 ^ 31" "em = fst (ctdb_election_data (Some nm) now (R q))"
    using assms by (auto simp: election_ready_def data_of_def)
  note sm = connected_small [OF nm(3), unfolded connected_nodes_def]
  show "em_pnn em = q" "em_node_flags em = nf_flags (the (view env q) ! unat q)"
    "if rd_capabilities (R q) AND CTDB_CAP_RECMASTER = 0 then em_num_connected em = 0 else message_rank em = rank env R q"
    using nm by (auto simp: ctdb_election_data_def Let_def message_rank_def rank_def connected_nodes_def sm)
qed

text \<open>The winner of an election: no other node that can be elected is better.\<close>

lemma unbeaten:
  assumes "election_ready env R" "q \<in> members env" "data_of env R q em" "p \<in> members env" "eligible env R p" "\<not> beats env R p em"
  shows "eligible env R q \<and> rank env R p \<le> rank env R q"
proof -
  note D = data_rank [OF assms(1-3)] and B = beats_iff [OF assms(1,4), of em]
  have fl: "\<not> has_flag (em_node_flags em) NODE_FLAGS_BANNED" "\<not> has_flag (em_node_flags em) NODE_FLAGS_STOPPED" "\<not> message_rank em < rank env R p"
    using B assms(5,6) by auto
  obtain nm where "view env p = Some nm" "0 < connected_nodes nm" using connected_self [of p] assms(1,4) by (auto simp: election_ready_def)
  then have "0 < fst (rank env R p)" by (simp add: rank_def)
  then have "em_num_connected em \<noteq> 0" using fl(3) by (auto simp: message_rank_def rank_def less_prod_def)
  then have "message_rank em = rank env R q" "rd_capabilities (R q) AND CTDB_CAP_RECMASTER \<noteq> 0"
    using D(3) by (auto split: if_splits)
  then show ?thesis using fl D(2) by (auto simp: eligible_def)
qed

section \<open>The end of an election\<close>

text \<open>
  When a daemon has handled all messages, it waits to send its own, or it has accepted the sender of the last one.
  \<open>log\<close> has all messages that were broadcast.
\<close>

definition follows :: "election_env \<Rightarrow> (u32 \<Rightarrow> ctdb_recoverd) \<Rightarrow> election_message list \<Rightarrow> u32 \<Rightarrow> ctdb_recoverd \<Rightarrow> election_message list \<Rightarrow> bool" where
  "follows env R log p rec msgs \<longleftrightarrow> same_node rec (R p) \<and> suffix msgs log \<and>
     (msgs = [] \<longrightarrow> log \<noteq> [] \<longrightarrow> (if beats env R p (last log) then send_election_te rec else \<not> send_election_te rec \<and> recovery_master rec = em_pnn (last log)))"

definition election_inv :: "election_env \<Rightarrow> (u32 \<Rightarrow> ctdb_recoverd) \<Rightarrow> election_message list \<Rightarrow> election_state \<Rightarrow> bool" where
  "election_inv env R log s \<longleftrightarrow> (\<forall>p \<in> members env. follows env R log p (recs s p) (inbox s p)) \<and>
     (\<forall>em \<in> set log. \<exists>q \<in> members env. data_of env R q em)"

lemma election_inv_broadcast:
  assumes "election_inv env R log s" "p \<in> members env" "same_node rec (R p)" "data_of env R p em"
  shows "election_inv env R (log @ [em]) (broadcast (members env) (Some em) (set_rec p rec s))"
  using assms by (auto simp: election_inv_def follows_def broadcast_def set_rec_def suffix_def)

lemma data_ofI: "view env p = Some nm \<Longrightarrow> data_of env R p (fst (ctdb_election_data (Some nm) now (R p)))"
  unfolding data_of_def by metis

lemma send_request_same:
  assumes "send_election_request True (Some nm) now r = (ret, msg, rec)" "same_node r r'"
  shows "\<exists>em. msg = Some em \<and> em = fst (ctdb_election_data (Some nm) now r') \<and> same_node rec r'"
proof -
  obtain em r1 where d: "ctdb_election_data (Some nm) now r = (em, r1)" by fastforce
  then have "msg = Some em" "rec = r1\<lparr>recovery_master := rd_pnn r1\<rparr>" using assms(1) by (auto simp: send_election_request_def)
  then show ?thesis using election_data_same [OF assms(2), of nm now] d by (simp add: same_node_def)
qed

lemma handler_result:
  assumes "election_handler True (Some nm) now em r = (unbanned, rec)" "same_node r r'"
  shows "same_node rec r'"
    "if fst (ctdb_election_win (Some nm) (0, 0) em r') then send_election_te rec \<and> recovery_master rec = recovery_master r
     else \<not> send_election_te rec \<and> recovery_master rec = em_pnn em"
proof -
  let ?r = "r\<lparr>election_timeout := True\<rparr>"
  have s: "same_node ?r r'" using assms(2) by (simp add: same_node_def)
  obtain w r1 where w: "ctdb_election_win (Some nm) now em ?r = (w, r1)" by fastforce
  have r1: "w = fst (ctdb_election_win (Some nm) (0, 0) em r')" "same_node r1 r'" using election_win_same(1) [OF s, of nm now em "(0, 0)"] election_win_same(2) [OF s, of nm now em] w by auto
  have "recovery_master r1 = recovery_master r"
    using w by (auto simp: ctdb_election_win_def ctdb_election_data_def Let_def split: if_splits)
  then show "same_node rec r'"
    "if fst (ctdb_election_win (Some nm) (0, 0) em r') then send_election_te rec \<and> recovery_master rec = recovery_master r
     else \<not> send_election_te rec \<and> recovery_master rec = em_pnn em"
    using assms(1) w r1 by (auto simp: election_handler_def same_node_def Let_def split: if_splits bool.splits)
qed

lemma election_inv_step:
  assumes "election_step env s s'" "election_inv env R log s" "in_order env" "election_ready env R"
  shows "\<exists>log'. election_inv env R (log @ log') s'"
  using assms(1)
proof cases
  case (el_force p mode_ok now msg rec)
  then obtain nm where nm: "view env p = Some nm" using assms(4) by (auto simp: election_ready_def)
  have same: "same_node (recs s p) (R p)" using assms(2) el_force(2) by (auto simp: election_inv_def follows_def)
  show ?thesis
  proof (cases mode_ok)
    case False
    then have "s' = s" using el_force by (auto simp: force_election_def broadcast_def set_rec_def)
    then show ?thesis using assms(2) by (metis append_Nil2)
  next
    case True
    have same1: "same_node ((recs s p)\<lparr>election_timeout := True\<rparr>) (R p)" using same by (simp add: same_node_def)
    obtain ret where r: "send_election_request True (Some nm) now ((recs s p)\<lparr>election_timeout := True\<rparr>) = (ret, msg, rec)"
      using el_force(3) True nm by (auto simp: force_election_def split: prod.splits)
    obtain em where em: "msg = Some em" "data_of env R p em" "same_node rec (R p)" using send_request_same [OF r same1] data_ofI [OF nm] by auto
    then show ?thesis using election_inv_broadcast [OF assms(2) el_force(2) em(3,2)] el_force(1) by auto
  qed
next
  case (el_send p now msg rec)
  then obtain nm where nm: "view env p = Some nm" using assms(4) by (auto simp: election_ready_def)
  have same: "same_node (recs s p) (R p)" using assms(2) el_send(2) by (auto simp: election_inv_def follows_def)
  obtain ret rec1 where r: "send_election_request True (Some nm) now (recs s p) = (ret, msg, rec1)" "rec = rec1\<lparr>send_election_te := False\<rparr>"
    using el_send(4) nm by (auto simp: election_send_request_def split: prod.splits)
  obtain em where em: "msg = Some em" "data_of env R p em" "same_node rec (R p)"
    using send_request_same [OF r(1) same] data_ofI [OF nm] r(2) by (auto simp: same_node_def)
  then show ?thesis using election_inv_broadcast [OF assms(2) el_send(2) em(3,2)] el_send(1) by auto
next
  case (el_handle p xs em ys now unbanned rec)
  then obtain nm where nm: "view env p = Some nm" using assms(4) by (auto simp: election_ready_def)
  have f: "same_node (recs s p) (R p)" "suffix (em # ys) log" using assms(2,3) el_handle(2-4) by (auto simp: election_inv_def follows_def)
  note H = handler_result [OF el_handle(5) [unfolded nm] f(1)]
  have "last log = em" if "ys = []" using f(2) that by (auto simp: suffix_def)
  then have "follows env R log p rec ys" using H f(2) nm by (auto simp: follows_def beats_def suffix_def split: if_splits)
  then have "election_inv env R log s'" using assms(2,3) el_handle(1,4) by (auto simp: election_inv_def set_rec_def)
  then show ?thesis by (metis append_Nil2)
next
  case (el_timeout p)
  then have "election_inv env R log s'" using assms(2) by (auto simp: election_inv_def follows_def set_rec_def ctdb_election_timeout_def same_node_def)
  then show ?thesis by (metis append_Nil2)
qed

text \<open>An election starts when a daemon calls for it while nobody has messages to handle.\<close>

definition election_starts :: "election_env \<Rightarrow> election_state \<Rightarrow> election_state \<Rightarrow> bool" where
  "election_starts env s0 s \<longleftrightarrow> (\<forall>q \<in> members env. inbox s0 q = []) \<and>
     (\<exists>p \<in> members env. \<exists>now msg rec. force_election True True (view env p) now (recs s0 p) = (msg, rec) \<and>
        s = broadcast (members env) msg (set_rec p rec s0))"

lemma election_reach:
  assumes "(election_step env)\<^sup>*\<^sup>* s1 s" "election_starts env s0 s1" "in_order env" "election_ready env (recs s0)"
  shows "\<exists>log. log \<noteq> [] \<and> election_inv env (recs s0) log s"
  using assms(1)
proof (induction rule: rtranclp_induct)
  case base
  obtain p now msg rec where p: "p \<in> members env" "force_election True True (view env p) now (recs s0 p) = (msg, rec)"
    "s1 = broadcast (members env) msg (set_rec p rec s0)" "\<forall>q \<in> members env. inbox s0 q = []" using assms(2) by (auto simp: election_starts_def)
  obtain nm where nm: "view env p = Some nm" using assms(4) p(1) by (auto simp: election_ready_def)
  obtain ret where r: "send_election_request True (Some nm) now ((recs s0 p)\<lparr>election_timeout := True\<rparr>) = (ret, msg, rec)"
    using p(2) nm by (auto simp: force_election_def split: prod.splits)
  have "same_node ((recs s0 p)\<lparr>election_timeout := True\<rparr>) (recs s0 p)" by (simp add: same_node_def)
  from send_request_same [OF r this] data_ofI [OF nm] obtain em where em: "msg = Some em" "data_of env (recs s0) p em" "same_node rec (recs s0 p)" by auto
  have "election_inv env (recs s0) [] s0" using p(4) by (simp add: election_inv_def follows_def same_node_def)
  from election_inv_broadcast [OF this p(1) em(3,2)] show ?case using p(3) em(1) by auto
next
  case (step s s')
  then show ?case using election_inv_step [OF step(2) _ assms(3,4)] by (metis append_is_Nil_conv)
qed

lemma last_data: "election_inv env R log s \<Longrightarrow> log \<noteq> [] \<Longrightarrow> \<exists>q \<in> members env. data_of env R q (last log)"
  by (auto simp: election_inv_def)

text \<open>
  C10: Elections end in agreement.  If messages are handled in the order in which they were broadcast, then at the end of an
  election all nodes have the same recovery master.  It can be recovery master, if any node can, and no
  other node that can be has more connected nodes, or as many and a longer running time, or else a higher number.
\<close>

theorem election_agreement:
  assumes "in_order env" "election_ready env (recs s0)" "election_starts env s0 s1" "(election_step env)\<^sup>*\<^sup>* s1 s" "election_over env s"
  shows "\<exists>W \<in> members env. (\<forall>p \<in> members env. recovery_master (recs s p) = W) \<and>
    (\<forall>p \<in> members env. eligible env (recs s0) p \<longrightarrow> eligible env (recs s0) W \<and> rank env (recs s0) p \<le> rank env (recs s0) W)"
proof -
  obtain log where log: "log \<noteq> []" "election_inv env (recs s0) log s" using election_reach [OF assms(4,3,1,2)] by blast
  then obtain W where W: "W \<in> members env" "data_of env (recs s0) W (last log)" using last_data by blast
  have "\<not> beats env (recs s0) p (last log) \<and> recovery_master (recs s p) = W" if "p \<in> members env" for p
    using log assms(5) that data_rank(1) [OF assms(2) W] by (auto simp: election_inv_def follows_def election_over_def split: if_splits)
  then show ?thesis using W(1) unbeaten [OF assms(2) W] by blast
qed

section \<open>Elections can end\<close>

text \<open>All messages can be handled, and this adds none.\<close>

lemma election_drain:
  assumes "finite (members env)" "election_inv env R log s" "election_ready env R" "in_order env"
  shows "\<exists>s'. (election_step env)\<^sup>*\<^sup>* s s' \<and> election_inv env R log s' \<and> (\<forall>p \<in> members env. inbox s' p = [])"
  using assms(2)
proof (induction "\<Sum>p \<in> members env. length (inbox s p)" arbitrary: s rule: less_induct)
  case less
  show ?case
  proof (cases "\<forall>p \<in> members env. inbox s p = []")
    case True
    then show ?thesis using less.prems by blast
  next
    case False
    then obtain p em ys where p: "p \<in> members env" "inbox s p = em # ys" by (meson list.exhaust)
    obtain nm where nm: "view env p = Some nm" using assms(3) p(1) by (auto simp: election_ready_def)
    obtain unbanned rec where h: "election_handler True (view env p) (0, 0) em (recs s p) = (unbanned, rec)" by fastforce
    let ?s = "(set_rec p rec s)\<lparr>inbox := (inbox s)(p := ys)\<rparr>"
    have st: "election_step env s ?s" using el_handle [of p env s "[]" em ys, OF p(1) _ _ h] p(2) by simp
    have f: "same_node (recs s p) (R p)" "suffix (em # ys) log" using less.prems p by (auto simp: election_inv_def follows_def)
    note H = handler_result [OF h [unfolded nm] f(1)]
    have "last log = em" if "ys = []" using f(2) that by (auto simp: suffix_def)
    then have "follows env R log p rec ys" using H f(2) nm by (auto simp: follows_def beats_def suffix_def split: if_splits)
    then have inv: "election_inv env R log ?s" using less.prems by (auto simp: election_inv_def set_rec_def)
    have "(\<Sum>q \<in> members env. length (inbox ?s q)) < (\<Sum>q \<in> members env. length (inbox s q))"
      by (rule sum_strict_mono_ex1 [OF assms(1)]) (use p in auto)
    from less.hyps [OF this inv] show ?thesis using st by (meson converse_rtranclp_into_rtranclp)
  qed
qed

lemma election_last_round:
  assumes "finite (members env)" "election_inv env R log s" "log \<noteq> []" "election_ready env R" "in_order env" "\<forall>p \<in> members env. inbox s p = []"
    and "{p \<in> members env. beats env R p (last log)} \<noteq> {}"
  shows "\<exists>s'. (election_step env)\<^sup>*\<^sup>* s s' \<and> election_over env s'"
proof -
  let ?B = "{p \<in> members env. beats env R p (last log)}"
  have fin: "finite (rank env R ` ?B)" using assms(1) by simp
  then have "Max (rank env R ` ?B) \<in> rank env R ` ?B" using assms(7) by (intro Max_in) auto
  then obtain p where pB: "p \<in> ?B" and "rank env R p = Max (rank env R ` ?B)" by auto
  then have max: "\<And>q. q \<in> ?B \<Longrightarrow> rank env R q \<le> rank env R p" using Max_ge [OF fin] by simp
  obtain nm where nm: "view env p = Some nm" using assms(4) pB by (auto simp: election_ready_def)
  have f: "same_node (recs s p) (R p)" "send_election_te (recs s p)" using assms(2,3,6) pB by (auto simp: election_inv_def follows_def)
  obtain msg rec where r: "election_send_request True (view env p) (0, 0) (recs s p) = (msg, rec)" by fastforce
  obtain ret rec1 where r1: "send_election_request True (Some nm) (0, 0) (recs s p) = (ret, msg, rec1)" "rec = rec1\<lparr>send_election_te := False\<rparr>"
    using r nm by (auto simp: election_send_request_def split: prod.splits)
  obtain em where em: "msg = Some em" "data_of env R p em" "same_node rec (R p)"
    using send_request_same [OF r1(1) f(1)] data_ofI [OF nm] r1(2) by (auto simp: same_node_def)
  let ?s = "broadcast (members env) msg (set_rec p rec s)"
  have st: "election_step env s ?s" using el_send [OF _ f(2) r] pB by simp
  have "election_inv env R (log @ [em]) ?s" using election_inv_broadcast [OF assms(2) _ em(3,2)] em(1) pB by simp
  from election_drain [OF assms(1) this assms(4,5)] obtain s' where s': "(election_step env)\<^sup>*\<^sup>* ?s s'" "election_inv env R (log @ [em]) s'"
    "\<forall>p \<in> members env. inbox s' p = []" by blast
  have "\<not> beats env R q em" if q: "q \<in> members env" for q
  proof
    assume b: "beats env R q em"
    have pm: "p \<in> members env" "beats env R p (last log)" using pB by auto
    have el: "eligible env R p" using beats_iff [OF assms(4) pm(1)] pm(2) by blast
    note D = data_rank [OF assms(4) pm(1) em(2)]
    have "message_rank em < rank env R q" using beats_iff [OF assms(4) q, of em] b D(2) el by (auto simp: eligible_def)
    then have lt: "rank env R p < rank env R q" using D(3) el by (auto simp: eligible_def split: if_splits)
    then have "beats env R q (last log)"
      using beats_iff [OF assms(4) q] beats_iff [OF assms(4) pm(1)] b pm(2) by (auto intro: less_trans)
    then show False using max q lt by fastforce
  qed
  then have "election_over env s'" using s'(2,3) by (auto simp: election_inv_def follows_def election_over_def)
  then show ?thesis using st s'(1) by (meson converse_rtranclp_into_rtranclp)
qed


section \<open>Three nodes\<close>

definition ex_view :: ctdb_node_map where
  "ex_view = map (\<lambda>p. \<lparr>nf_pnn = p, nf_flags = 0, nf_addr = undefined\<rparr>) [0, 1, 2]"

definition ex_election :: "bool \<Rightarrow> election_env" where
  "ex_election ordered = \<lparr>members = {0, 1, 2}, view = (\<lambda>p. Some ex_view), in_order = ordered\<rparr>"

definition ex_rec :: "u32 \<Rightarrow> bool \<Rightarrow> bool \<Rightarrow> u32 \<Rightarrow> ctdb_recoverd" where
  "ex_rec p te timeout m = \<lparr>rd_pnn = p, rd_capabilities = CTDB_CAP_RECMASTER, priority_time = (0, 0), rd_node_flags = 0, send_election_te = te,
     election_timeout = timeout, recovery_master = m, recovery_lock = False, verify_recovery_lock = False\<rparr>"

definition ex_em :: "u32 \<Rightarrow> election_message" where
  "ex_em p = \<lparr>em_num_connected = 3, em_priority_time = (0, 0), em_pnn = p, em_node_flags = 0\<rparr>"

definition ex_nodes :: "ctdb_recoverd \<times> ctdb_recoverd \<times> ctdb_recoverd \<Rightarrow> election_message list \<times> election_message list \<times> election_message list \<Rightarrow> election_state" where
  "ex_nodes r i = (case r of (r0, r1, r2) \<Rightarrow> case i of (i0, i1, i2) \<Rightarrow>
     \<lparr>recs = (\<lambda>p. if p = 0 then r0 else if p = 1 then r1 else if p = 2 then r2 else ex_rec p False False 9), inbox = (\<lambda>p. if p = 0 then i0 else if p = 1 then i1 else if p = 2 then i2 else [])\<rparr>)"

lemma ex_no_flag [simp]: "\<not> has_flag 0 f"
  by (simp add: has_flag_def)

lemma ex_data: "p \<in> {0, 1, 2} \<Longrightarrow> ctdb_election_data (Some ex_view) now (ex_rec p te t m) = (ex_em p, ex_rec p te t m)"
  by (auto simp: ctdb_election_data_def ex_view_def ex_rec_def ex_em_def CTDB_CAP_RECMASTER_def Let_def)

lemma ex_send: "p \<in> {0, 1, 2} \<Longrightarrow> election_send_request True (Some ex_view) now (ex_rec p te t m) = (Some (ex_em p), ex_rec p False t p)"
  by (simp add: election_send_request_def send_election_request_def ex_data) (simp add: ex_rec_def)

lemma ex_force: "p \<in> {0, 1, 2} \<Longrightarrow> force_election True True (Some ex_view) now (ex_rec p te t m) = (Some (ex_em p), ex_rec p te True p)"
proof -
  have "(ex_rec p te t m)\<lparr>election_timeout := True\<rparr> = ex_rec p te True m" by (simp add: ex_rec_def)
  moreover assume "p \<in> {0, 1, 2}"
  ultimately show ?thesis by (simp add: force_election_def send_election_request_def ex_data) (simp add: ex_rec_def)
qed

lemma ex_handle:
  assumes "p \<in> {0, 1, 2}" "q \<in> {0, 1, 2}"
  shows "election_handler True (Some ex_view) now (ex_em q) (ex_rec p te t m) = ([], if q < p then ex_rec p True True m else ex_rec p False True q)"
proof -
  have "(ex_rec p te t m)\<lparr>election_timeout := True\<rparr> = ex_rec p te True m" by (simp add: ex_rec_def)
  moreover have "ctdb_election_win (Some ex_view) now (ex_em q) (ex_rec p te True m) = (0 < sint p - sint q, ex_rec p te True m)"
    using assms(1) by (simp add: ctdb_election_win_def ex_data) (simp add: ex_rec_def ex_em_def CTDB_CAP_RECMASTER_def timeval_compare_def Let_def)
  moreover have "(0 < sint p - sint q) = (q < p)" using assms by auto
  ultimately show ?thesis by (simp add: election_handler_def Let_def) (simp add: ex_rec_def ex_em_def)
qed

definition ex_before :: election_state where
  "ex_before = ex_nodes (ex_rec 0 False False 9, ex_rec 1 False False 9, ex_rec 2 False False 9) ([], [], [])"

text \<open>Node 0 calls for an election.\<close>

definition ex_called :: election_state where
  "ex_called = ex_nodes (ex_rec 0 False True 0, ex_rec 1 False False 9, ex_rec 2 False False 9) ([ex_em 0], [ex_em 0], [ex_em 0])"

lemma ex_elect_starts: "election_starts (ex_election b) ex_before ex_called"
proof -
  have "ex_called = broadcast {0, 1, 2} (Some (ex_em 0)) (set_rec 0 (ex_rec 0 False True 0) ex_before)"
    by (auto simp: ex_called_def ex_before_def ex_nodes_def broadcast_def set_rec_def fun_eq_iff)
  moreover have "force_election True True (view (ex_election b) 0) (0, 0) (recs ex_before 0) = (Some (ex_em 0), ex_rec 0 False True 0)"
    using ex_force [of 0 "(0, 0)" False False 9] by (simp add: ex_election_def ex_before_def ex_nodes_def)
  ultimately show ?thesis unfolding election_starts_def
    by (auto simp: ex_before_def ex_nodes_def ex_election_def split: if_splits)
qed

lemma ex_step_handle:
  assumes "p \<in> {0, 1, 2}" "q \<in> {0, 1, 2}" "b \<longrightarrow> xs = []" "r p = ex_rec p te t m" "i p = xs @ ex_em q # ys"
  shows "election_step (ex_election b) \<lparr>recs = r, inbox = i\<rparr>
    \<lparr>recs = r(p := if q < p then ex_rec p True True m else ex_rec p False True q), inbox = i(p := xs @ ys)\<rparr>"
  using el_handle [of p "ex_election b" "\<lparr>recs = r, inbox = i\<rparr>" xs "ex_em q" ys "(0, 0)"] assms ex_handle [OF assms(1,2), of "(0, 0)" te t m]
  by (simp add: ex_election_def set_rec_def split del: if_split)

lemma ex_step_send:
  assumes "p \<in> {0, 1, 2}" "r p = ex_rec p True t m"
  shows "election_step (ex_election b) \<lparr>recs = r, inbox = i\<rparr>
    \<lparr>recs = r(p := ex_rec p False t p), inbox = (\<lambda>q. if q \<in> {0, 1, 2} then i q @ [ex_em p] else i q)\<rparr>"
proof -
  have "send_election_te (ex_rec p True t m)" by (simp add: ex_rec_def)
  then show ?thesis
    using el_send [of p "ex_election b" "\<lparr>recs = r, inbox = i\<rparr>" "(0, 0)"] assms ex_send [OF assms(1), of "(0, 0)" True t m]
    by (simp add: ex_election_def set_rec_def broadcast_def cong: if_cong)
qed

lemma ex_handle0:
  "q \<in> {0, 1, 2} \<Longrightarrow> b \<longrightarrow> xs = [] \<Longrightarrow> election_step (ex_election b) (ex_nodes (ex_rec 0 te t m, r1, r2) (xs @ ex_em q # ys, i1, i2))
     (ex_nodes (ex_rec 0 False True q, r1, r2) (xs @ ys, i1, i2))"
  unfolding ex_nodes_def prod.case
  by (rule back_subst [of "election_step _ _", OF ex_step_handle [of 0 q b xs _ te t m _ ys]]) (auto simp: fun_eq_iff)

lemma ex_handle1:
  "q \<in> {0, 1, 2} \<Longrightarrow> b \<longrightarrow> xs = [] \<Longrightarrow> election_step (ex_election b) (ex_nodes (r0, ex_rec 1 te t m, r2) (i0, xs @ ex_em q # ys, i2))
     (ex_nodes (r0, if q < 1 then ex_rec 1 True True m else ex_rec 1 False True q, r2) (i0, xs @ ys, i2))"
  unfolding ex_nodes_def prod.case
  by (rule back_subst [of "election_step _ _", OF ex_step_handle [of 1 q b xs _ te t m _ ys]]) (auto simp: fun_eq_iff)

lemma ex_handle2:
  "q \<in> {0, 1, 2} \<Longrightarrow> b \<longrightarrow> xs = [] \<Longrightarrow> election_step (ex_election b) (ex_nodes (r0, r1, ex_rec 2 te t m) (i0, i1, xs @ ex_em q # ys))
     (ex_nodes (r0, r1, if q < 2 then ex_rec 2 True True m else ex_rec 2 False True q) (i0, i1, xs @ ys))"
  unfolding ex_nodes_def prod.case
  by (rule back_subst [of "election_step _ _", OF ex_step_handle [of 2 q b xs _ te t m _ ys]]) (auto simp: fun_eq_iff)

lemma ex_send1:
  "election_step (ex_election b) (ex_nodes (r0, ex_rec 1 True t m, r2) (i0, i1, i2))
     (ex_nodes (r0, ex_rec 1 False t 1, r2) (i0 @ [ex_em 1], i1 @ [ex_em 1], i2 @ [ex_em 1]))"
  unfolding ex_nodes_def prod.case
  by (rule back_subst [of "election_step _ _", OF ex_step_send [of 1 _ t m]]) (auto simp: fun_eq_iff)

lemma ex_send2:
  "election_step (ex_election b) (ex_nodes (r0, r1, ex_rec 2 True t m) (i0, i1, i2))
     (ex_nodes (r0, r1, ex_rec 2 False t 2) (i0 @ [ex_em 2], i1 @ [ex_em 2], i2 @ [ex_em 2]))"
  unfolding ex_nodes_def prod.case
  by (rule back_subst [of "election_step _ _", OF ex_step_send [of 2 _ t m]]) (auto simp: fun_eq_iff)

text \<open>All nodes handle the call; the nodes 1 and 2 will answer.\<close>

lemma ex_answers:
  "(election_step (ex_election b))\<^sup>*\<^sup>* ex_called (ex_nodes (ex_rec 0 False True 0, ex_rec 1 True True 9, ex_rec 2 True True 9) ([], [], []))"
proof -
  have "election_step (ex_election b) ex_called (ex_nodes (ex_rec 0 False True 0, ex_rec 1 False False 9, ex_rec 2 False False 9) ([], [ex_em 0], [ex_em 0]))"
    unfolding ex_called_def using ex_handle0 [of 0 b "[]"] by simp
  moreover have "election_step (ex_election b) (ex_nodes (ex_rec 0 False True 0, ex_rec 1 False False 9, ex_rec 2 False False 9) ([], [ex_em 0], [ex_em 0]))
      (ex_nodes (ex_rec 0 False True 0, ex_rec 1 True True 9, ex_rec 2 False False 9) ([], [], [ex_em 0]))" using ex_handle1 [of 0 b "[]"] by simp
  moreover have "election_step (ex_election b) (ex_nodes (ex_rec 0 False True 0, ex_rec 1 True True 9, ex_rec 2 False False 9) ([], [], [ex_em 0]))
      (ex_nodes (ex_rec 0 False True 0, ex_rec 1 True True 9, ex_rec 2 True True 9) ([], [], []))" using ex_handle2 [of 0 b "[]"] by simp
  ultimately show ?thesis by (meson converse_rtranclp_into_rtranclp rtranclp.rtrancl_refl)
qed

lemma ex_ended:
  "(election_step (ex_election b))\<^sup>*\<^sup>* ex_called (ex_nodes (ex_rec 0 False True 2, ex_rec 1 False True 2, ex_rec 2 False True 2) ([], [], []))"
proof -
  let ?m = "[ex_em 2]"
  have "election_step (ex_election b) (ex_nodes (ex_rec 0 False True 0, ex_rec 1 True True 9, ex_rec 2 True True 9) ([], [], []))
      (ex_nodes (ex_rec 0 False True 0, ex_rec 1 True True 9, ex_rec 2 False True 2) (?m, ?m, ?m))" using ex_send2 [of b "ex_rec 0 False True 0" "ex_rec 1 True True 9" True 9 "[]" "[]" "[]"] by simp
  moreover have "election_step (ex_election b) (ex_nodes (ex_rec 0 False True 0, ex_rec 1 True True 9, ex_rec 2 False True 2) (?m, ?m, ?m))
      (ex_nodes (ex_rec 0 False True 2, ex_rec 1 True True 9, ex_rec 2 False True 2) ([], ?m, ?m))" using ex_handle0 [of 2 b "[]"] by simp
  moreover have "election_step (ex_election b) (ex_nodes (ex_rec 0 False True 2, ex_rec 1 True True 9, ex_rec 2 False True 2) ([], ?m, ?m))
      (ex_nodes (ex_rec 0 False True 2, ex_rec 1 False True 2, ex_rec 2 False True 2) ([], [], ?m))" using ex_handle1 [of 2 b "[]"] by simp
  moreover have "election_step (ex_election b) (ex_nodes (ex_rec 0 False True 2, ex_rec 1 False True 2, ex_rec 2 False True 2) ([], [], ?m))
      (ex_nodes (ex_rec 0 False True 2, ex_rec 1 False True 2, ex_rec 2 False True 2) ([], [], []))" using ex_handle2 [of 2 b "[]"] by simp
  ultimately show ?thesis using ex_answers [of b] by (meson rtranclp.rtrancl_into_rtrancl)
qed

lemma ex_before_ready: "election_ready (ex_election b) (recs ex_before)"
  by (simp add: election_ready_def ex_election_def ex_before_def ex_nodes_def) (simp add: ex_rec_def ex_view_def)

theorem election_agreement_witness:
  "\<exists>s. (election_step (ex_election True))\<^sup>*\<^sup>* ex_called s \<and> election_over (ex_election True) s \<and>
     (\<exists>W \<in> {0, 1, 2}. \<forall>p \<in> {0, 1, 2}. recovery_master (recs s p) = W)"
proof -
  let ?s = "ex_nodes (ex_rec 0 False True 2, ex_rec 1 False True 2, ex_rec 2 False True 2) ([], [], [])"
  have o: "election_over (ex_election True) ?s" by (simp add: election_over_def ex_election_def ex_nodes_def) (simp add: ex_rec_def)
  have m: "members (ex_election True) = {0, 1, 2}" "in_order (ex_election True)" by (simp_all add: ex_election_def)
  from election_agreement [OF m(2) ex_before_ready ex_elect_starts ex_ended o] show ?thesis using o ex_ended unfolding m(1) by blast
qed


text \<open>
  Without the order, an election can end in disagreement: both nodes answer, and node 0 handles the better answer first.
  Node 2 waits to repeat its message after it has got that of node 1, but its own message stops this.
\<close>

lemma election_can_disagree:
  "\<exists>s. (election_step (ex_election False))\<^sup>*\<^sup>* ex_called s \<and> election_over (ex_election False) s \<and>
     recovery_master (recs s 0) = 1 \<and> recovery_master (recs s 1) = 2 \<and> recovery_master (recs s 2) = 2"
proof -
  let ?E = "ex_election False" and ?m = "[ex_em 1]" and ?mm = "[ex_em 1, ex_em 2]"
  have 1: "election_step ?E (ex_nodes (ex_rec 0 False True 0, ex_rec 1 True True 9, ex_rec 2 True True 9) ([], [], []))
      (ex_nodes (ex_rec 0 False True 0, ex_rec 1 False True 1, ex_rec 2 True True 9) (?m, ?m, ?m))" using ex_send1 [of False "ex_rec 0 False True 0" True 9 "ex_rec 2 True True 9" "[]" "[]" "[]"] by simp
  have 2: "election_step ?E (ex_nodes (ex_rec 0 False True 0, ex_rec 1 False True 1, ex_rec 2 True True 9) (?m, ?m, ?m))
      (ex_nodes (ex_rec 0 False True 0, ex_rec 1 False True 1, ex_rec 2 False True 2) (?mm, ?mm, ?mm))" using ex_send2 [of False "ex_rec 0 False True 0" "ex_rec 1 False True 1" True 9 ?m ?m ?m] by simp
  have 3: "election_step ?E (ex_nodes (ex_rec 0 False True 0, ex_rec 1 False True 1, ex_rec 2 False True 2) (?mm, ?mm, ?mm))
      (ex_nodes (ex_rec 0 False True 2, ex_rec 1 False True 1, ex_rec 2 False True 2) (?m, ?mm, ?mm))" using ex_handle0 [of 2 False ?m] by simp
  have 4: "election_step ?E (ex_nodes (ex_rec 0 False True 2, ex_rec 1 False True 1, ex_rec 2 False True 2) (?m, ?mm, ?mm))
      (ex_nodes (ex_rec 0 False True 1, ex_rec 1 False True 1, ex_rec 2 False True 2) ([], ?mm, ?mm))" using ex_handle0 [of 1 False "[]"] by simp
  have 5: "election_step ?E (ex_nodes (ex_rec 0 False True 1, ex_rec 1 False True 1, ex_rec 2 False True 2) ([], ?mm, ?mm))
      (ex_nodes (ex_rec 0 False True 1, ex_rec 1 False True 1, ex_rec 2 False True 2) ([], [ex_em 2], ?mm))" using ex_handle1 [of 1 False "[]"] by simp
  have 6: "election_step ?E (ex_nodes (ex_rec 0 False True 1, ex_rec 1 False True 1, ex_rec 2 False True 2) ([], [ex_em 2], ?mm))
      (ex_nodes (ex_rec 0 False True 1, ex_rec 1 False True 2, ex_rec 2 False True 2) ([], [], ?mm))" using ex_handle1 [of 2 False "[]"] by simp
  have 7: "election_step ?E (ex_nodes (ex_rec 0 False True 1, ex_rec 1 False True 2, ex_rec 2 False True 2) ([], [], ?mm))
      (ex_nodes (ex_rec 0 False True 1, ex_rec 1 False True 2, ex_rec 2 True True 2) ([], [], [ex_em 2]))" using ex_handle2 [of 1 False "[]"] by simp
  have 8: "election_step ?E (ex_nodes (ex_rec 0 False True 1, ex_rec 1 False True 2, ex_rec 2 True True 2) ([], [], [ex_em 2]))
      (ex_nodes (ex_rec 0 False True 1, ex_rec 1 False True 2, ex_rec 2 False True 2) ([], [], []))" using ex_handle2 [of 2 False "[]"] by simp
  let ?s = "ex_nodes (ex_rec 0 False True 1, ex_rec 1 False True 2, ex_rec 2 False True 2) ([], [], [])"
  have "(election_step ?E)\<^sup>*\<^sup>* ex_called ?s" by (rule rtranclp_trans [OF ex_answers]) (use 1 2 3 4 5 6 7 8 in \<open>meson converse_rtranclp_into_rtranclp rtranclp.rtrancl_refl\<close>)
  moreover have "election_over ?E ?s" by (simp add: election_over_def ex_election_def ex_nodes_def) (simp add: ex_rec_def)
  moreover have "recovery_master (recs ?s 0) = 1 \<and> recovery_master (recs ?s 1) = 2 \<and> recovery_master (recs ?s 2) = 2"
    by (simp add: ex_nodes_def) (simp add: ex_rec_def)
  ultimately show ?thesis by blast
qed

end
