(* ===== verification/Spec2Isabelle.thy ===== *)
theory Spec2Isabelle
  imports Takeover_Correct Tdb_Hash Rb_Delete Migration_Correct Freeze_Correct Vacuum_Correct
    Transport_Correct Election_Correct
begin

text \<open>
  \<^bold>\<open>A verification development of ctdb\<close>, the cluster implementation of the TDB database that Samba uses.

  \<^bold>\<open>The program.\<close>  One daemon (\<^verbatim>\<open>ctdbd\<close>) runs on each node of a cluster.  Every node keeps a local copy of
  each database; for a volatile database the current value of a record is at the node that is its
  data master, the location master of a key, found by hashing, knows the data master, and records
  move between nodes with calls (\<^verbatim>\<open>server/ctdb_call.c\<close>).  One elected node runs the recovery daemon,
  which among other things distributes the public IP addresses over the nodes in takeover runs
  (\<^verbatim>\<open>server/ctdb_takeover.c\<close>) with asynchronous controls to all nodes (\<^verbatim>\<open>client/ctdb_client.c\<close>).  Trees of
  word arrays (\<^verbatim>\<open>common/rb_tree.c\<close>) hold addresses, queues of records to delete, and sticky records.

  \<^bold>\<open>Conventions.\<close>  Machine integers are words of their width, so that arithmetic wraps as in C.  Structures are records
  with the fields the modelled code uses, in the order of the code; enumerations and unions are
  datatypes.  A loop is a fold or a recursive function; a function that may dereference NULL or calls
  \<^verbatim>\<open>ctdb_fatal\<close> gives an option, and \<open>None\<close> stands for the crash or the abort.  Memory allocation does not
  fail, and log messages and statistics counters are left out.  What other processes, the network and
  the files do is an argument: the answers of controls (\<open>Client_Async\<close>), the success of writes to a
  database file (\<open>tdb_io\<close> in \<open>Ltdb\<close>), the state of locks and of \<^verbatim>\<open>fork\<close> (\<open>call_env\<close> in \<open>Call\<close>), and \<^verbatim>\<open>qsort\<close> of the C
  library (the locale \<open>lcp2_environment\<close> of \<open>Ip_Alloc_Lcp2\<close>, interpreted with a sort).

  \<^bold>\<open>The theories.\<close>
  \<^item> \<open>Ctdb_Prelude\<close>: names of the machine types, flag tests, folds that keep the best candidate, list updates.
  \<^item> \<open>Sock_Addr\<close>, \<open>Public_Ips\<close>: socket addresses and their comparison (\<^verbatim>\<open>common/ctdb_util.c\<close>), the merged address list,
    which node can host an address, and the distances and imbalances of LCP2.  The distance of IPv4
    addresses is the length of their common prefix; for IPv6 it is not, and the key of an address
    does not agree with the equality of addresses.
  \<^item> \<open>Ip_Alloc_Basic\<close>, \<open>Ip_Alloc_Lcp2\<close>: the three allocation algorithms.  The contract of an allocation (locale
    \<open>ip_allocator\<close>: addresses only on nodes that can host them, none unassigned that a node may take) holds
    for each; further lemmas are about balance, stability, termination of the failback loops and the
    accuracy of the stored imbalances.  The LCP2 failback loop is a partial function; it is shown to
    return because the total imbalance decreases.  The retry bound of the basic failback is that of the code.
  \<^item> \<open>Rb_Heap\<close>, \<open>Rb_Rep\<close>, \<open>Rb_Insert\<close>, \<open>Rb_Array\<close>, \<open>Rb_Delete\<close>: the red-black tree on an explicit heap of nodes with parent
    pointers.  \<open>Rb_Rep\<close> relates the heap to functional trees; insertion, lookup, traversal, array keys
    (locale \<open>keyed_store\<close>) and deletion from the destructor of the data are correct, and \<^verbatim>\<open>trbt_delete32\<close> is not.
    Recursive pointer functions take the number of nodes as fuel; on well-formed trees it is enough.
  \<^item> \<open>Client_Async\<close>, \<open>Takeover_Run\<close>, \<open>Takeover_Correct\<close>: node lists, batches of asynchronous controls, and the whole
    takeover run.  No address is served by two nodes, only suitable nodes take addresses, and a run
    without failures sends everything; wrong-sized answers are silently ignored.
  \<^item> \<open>Tdb_Hash\<close>: the hash functions of \<^verbatim>\<open>lib/tdb/common/hash.c\<close>.  The three reading strategies of the Jenkins hash agree.
  \<^item> \<open>Marshall\<close>: records and marshalling buffers in bytes (\<^verbatim>\<open>common/ctdb_util.c\<close>), little endian, with a round trip.
  \<^item> \<open>Ltdb\<close>: fetching and storing records in a local database, the delete queue and tracking records
    (\<^verbatim>\<open>common/ctdb_ltdb.c\<close>, \<^verbatim>\<open>server/ctdb_ltdb_server.c\<close>, parts of \<^verbatim>\<open>server/ctdb_vacuum.c\<close>).
  \<^item> \<open>Call\<close>: the packets of calls and migrations and their handlers (\<^verbatim>\<open>server/ctdb_call.c\<close>), packet input and
    queueing (\<^verbatim>\<open>server/ctdb_server.c\<close>), with read-only copies, sticky records and hot keys.  A daemon is a
    state; the packets it has sent or deferred and those that wait for a lock are fields of it.
  \<^item> \<open>Migration\<close>, \<open>Migration_Handlers\<close>, \<open>Migration_Correct\<close>: a cluster of daemons as a step relation that delivers packets in any
    order.  It implements a single copy of every record, no daemon aborts, and requests can be
    completed.  This is shown for a volatile database without read-only copies and sticky records and
    while the membership does not change.
  \<^item> \<open>Freeze\<close>, \<open>Freeze_Correct\<close>: freezing the databases of a node by priority, and the transactions that a recovery
    runs on all of them (\<^verbatim>\<open>server/ctdb_freeze.c\<close>).  As a state machine it keeps modes and handles consistent
    and answers every waiting request once; a freeze child that dies leaves transactions open.
  \<^item> \<open>Recovery\<close>, \<open>Recovery_Correct\<close>, \<open>Recovery_Live\<close>: the recovery of the databases: the controls of the nodes
    (\<^verbatim>\<open>server/ctdb_recover.c\<close>, \<^verbatim>\<open>server/ctdb_persistent.c\<close>) and the recovery master that pulls, merges and pushes every
    database and makes the new vnn map (\<^verbatim>\<open>server/ctdb_recoverd.c\<close>).  Any control may be lost or fail (\<open>recov_world\<close>); still
    every node has the old or the recovered content of a database, and a successful recovery puts the
    cluster into the state from which \<open>Migration\<close> starts.  Locale \<open>control_frame\<close> lifts what one control keeps to a
    whole recovery.  Recovery of persistent databases by sequence number is modelled but excluded from
    these theorems: the sequence number is truncated to a byte.
  \<^item> \<open>Vacuum\<close>, \<open>Vacuum_Correct\<close>: deleting empty records on all nodes (\<^verbatim>\<open>server/ctdb_vacuum.c\<close> and its controls in
    \<^verbatim>\<open>server/ctdb_recover.c\<close>): the fast run over the delete queue, the full run over the database, the three steps that
    store the empty record on the other nodes, delete it there and then here, and repacking.  Callbacks of
    traversals free entries of the tree that is traversed, so the entries visited are an argument
    (\<open>visits\<close>).  A run brings no old data back at the next recovery, provided the other nodes can do what they are
    asked for that record; the proviso is needed since the last record a node reports as failed is
    ignored, and a run that has failed early is followed by a repacking that drops the records.
  \<^item> \<open>Transport\<close>, \<open>Transport_Correct\<close>: packet queues on sockets (\<^verbatim>\<open>common/ctdb_io.c\<close>) and the TCP connections between nodes (\<^verbatim>\<open>tcp\<close>).
    A queue gets every packet out of a stream of bytes, and over all connections packets arrive at most
    once, in order and unchanged.  A connection that ends otherwise than by a failed write, after a part of a packet was
    sent, is the exception.
  \<^item> \<open>Election\<close>, \<open>Election_Correct\<close>: elections of the recovery master (\<^verbatim>\<open>server/ctdb_recoverd.c\<close>).  They end in agreement on the
    best node if messages are handled in the order in which they were sent, and they can always end.

  \<^bold>\<open>Not modelled.\<close>  The InfiniBand transport (\<^verbatim>\<open>ib\<close>), sockets and system calls (\<^verbatim>\<open>common/system_*.c\<close>), event scripts, logging and
    the monitoring of nodes, since their effects are outside of the program; the command line tools (\<^verbatim>\<open>tools\<close>, \<^verbatim>\<open>utils\<close>)
    and tests, which only call the parts above; and the bundled libraries talloc, tevent, popt,
    replace, socket_wrapper and tdb (but for its hash functions), of which the model uses the documented
    behaviour: memory is freed with its parent, destructors run, a tdb file is a map from keys to values with
    transactions.
\<close>

end
